(* ===== verification/DB_Prelude.thy ===== *)
theory DB_Prelude
  imports Main "HOL-Library.Word"
begin

text \<open>
  Shared ground of the development: the machine integer types of the C++ code, the result
  type of operations that can hit a failing \<open>assert\<close>, a null or out-of-range access or a
  wait that does not return, bytes and \<open>memcpy\<close>, the little-endian layout of
  \<open>uint64_t\<close>, decimal printing (\<open>std::to_string\<close> and stream output), and the generic
  lemmas on lists, options and maps used by more than one component.
\<close>

section \<open>Machine integers and bytes\<close>

type_synonym u8 = "8 word"
type_synonym u32 = "32 word"
type_synonym u64 = "64 word"
type_synonym bytes = "8 word list"

text \<open>\<open>UINT64_MAX\<close>, the code's marker for "no page" and "no timestamp".\<close>

abbreviation UINT64_MAX :: u64 where
  "UINT64_MAX \<equiv> - 1"

named_theorems res_simps \<open>evaluation and inversion of the result monad\<close>
named_theorems mem_simps \<open>copies and reads on byte buffers\<close>

section \<open>Results: what a C++ operation can end in\<close>

text \<open>
  \<open>Assert_Fail\<close>: an \<open>assert\<close> of the source is false (the build keeps asserts: no
  \<open>NDEBUG\<close> in CMakeLists.txt). \<open>Bad_Deref\<close>: a null or freed pointer is
  dereferenced. \<open>Div_By_Zero\<close>: an integer division by zero.
  \<open>Exception\<close>: an exception no caller catches.
  \<open>Out_Of_Bounds\<close>: a \<open>memcpy\<close> or array access leaves its object. \<open>Blocked\<close>: the
  caller waits (a condition variable or a spin loop) and has not changed anything yet.
\<close>

datatype fail = Assert_Fail | Bad_Deref | Out_Of_Bounds | Div_By_Zero | Exception | Blocked

type_synonym 'a res = "fail + 'a"

definition rbind :: "'a res \<Rightarrow> ('a \<Rightarrow> 'b res) \<Rightarrow> 'b res" where
  "rbind m f = (case m of Inl e \<Rightarrow> Inl e | Inr x \<Rightarrow> f x)"

text \<open>\<open>assert(b);\<close> followed by the rest of the block.\<close>

definition asserting :: "bool \<Rightarrow> 'a res \<Rightarrow> 'a res" where
  "asserting b r = (if b then r else Inl Assert_Fail)"

lemma rbind_simps [simp, res_simps]:
  "rbind (Inl e) f = Inl e" "rbind (Inr x) f = f x"
  by (simp_all add: rbind_def)

lemma rbind_Inr_iff [res_simps]: "rbind m f = Inr y \<longleftrightarrow> (\<exists>x. m = Inr x \<and> f x = Inr y)"
  by (cases m) auto

lemma rbind_assoc: "rbind (rbind m f) g = rbind m (\<lambda>x. rbind (f x) g)"
  by (cases m) auto

lemma rbind_cong [fundef_cong]:
  "m = m' \<Longrightarrow> (\<And>x. m' = Inr x \<Longrightarrow> f x = f' x) \<Longrightarrow> rbind m f = rbind m' f'"
  by (cases m') auto

lemma asserting_simps [simp, res_simps]:
  "asserting True r = r" "asserting False r = Inl Assert_Fail"
  by (simp_all add: asserting_def)

lemma asserting_Inr_iff [res_simps]: "asserting b r = Inr x \<longleftrightarrow> b \<and> r = Inr x"
  by (simp add: asserting_def)

lemma unat_of_nat_u64: "n < 2 ^ 64 \<Longrightarrow> unat (of_nat n :: u64) = n"
  by (simp add: unat_of_nat)

section \<open>Byte buffers\<close>

text \<open>
  \<open>memcpy(&dst[off], src, n)\<close> with \<open>n = length src\<close>, and \<open>memcpy(dst, &src[off], n)\<close>
  as a read. Both leave the object (undefined behaviour in C++) unless the range fits.
\<close>

definition memcpy_at :: "bytes \<Rightarrow> nat \<Rightarrow> bytes \<Rightarrow> bytes res" where
  "memcpy_at dst off src =
     (if off + length src \<le> length dst
      then Inr (take off dst @ src @ drop (off + length src) dst)
      else Inl Out_Of_Bounds)"

definition read_at :: "bytes \<Rightarrow> nat \<Rightarrow> nat \<Rightarrow> bytes res" where
  "read_at src off n =
     (if off + n \<le> length src then Inr (take n (drop off src)) else Inl Out_Of_Bounds)"

lemma memcpy_at_Inr_iff [mem_simps]:
  "memcpy_at dst off src = Inr d \<longleftrightarrow>
     off + length src \<le> length dst \<and> d = take off dst @ src @ drop (off + length src) dst"
  by (auto simp: memcpy_at_def)

lemma memcpy_at_length:
  "memcpy_at dst off src = Inr d \<Longrightarrow> length d = length dst"
  by (auto simp: mem_simps)

lemma memcpy_at_ok:
  "off + length src \<le> length dst \<Longrightarrow> \<exists>d. memcpy_at dst off src = Inr d \<and> length d = length dst"
  by (auto simp: mem_simps)

lemma memcpy_at_full: "length src = length dst \<Longrightarrow> memcpy_at dst 0 src = Inr src"
  by (simp add: mem_simps)

lemma read_at_Inr_iff [mem_simps]:
  "read_at src off n = Inr r \<longleftrightarrow> off + n \<le> length src \<and> r = take n (drop off src)"
  by (auto simp: read_at_def)

text \<open>Reading back what was copied, and reading a range the copy does not touch.\<close>

lemma read_memcpy_same:
  "memcpy_at dst off src = Inr d \<Longrightarrow> read_at d off (length src) = Inr src"
  by (auto simp: mem_simps)

lemma read_memcpy_before:
  assumes "memcpy_at dst off src = Inr d" and "o' + n \<le> off"
  shows "read_at d o' n = read_at dst o' n"
  using assms by (auto simp: memcpy_at_Inr_iff read_at_def drop_take)

lemma read_memcpy_after:
  assumes "memcpy_at dst off src = Inr d" and "off + length src \<le> o'"
  shows "read_at d o' n = read_at dst o' n"
  using assms by (auto simp: memcpy_at_Inr_iff read_at_def)

section \<open>Little-endian words\<close>

text \<open>The object representation of unsigned integers on the x86-64 target of the code.\<close>

fun nat_le :: "nat \<Rightarrow> nat \<Rightarrow> bytes" where
  "nat_le 0 n = []"
| "nat_le (Suc k) n = word_of_nat n # nat_le k (n div 256)"

fun le_nat :: "bytes \<Rightarrow> nat" where
  "le_nat [] = 0"
| "le_nat (b # bs) = unat b + 256 * le_nat bs"

lemma length_nat_le [simp]: "length (nat_le k n) = k"
  by (induction k arbitrary: n) auto

lemma unat_byte_of_nat: "unat (word_of_nat n :: u8) = n mod 256"
  by (simp add: unat_of_nat)

lemma le_nat_nat_le: "le_nat (nat_le k n) = n mod 256 ^ k"
proof (induction k arbitrary: n)
  case 0
  then show ?case by simp
next
  case (Suc k)
  have "n mod (256 * 256 ^ k) = n mod 256 + 256 * (n div 256 mod 256 ^ k)"
    by (rule trans [OF mod_mult2_eq]) (simp add: add.commute)
  then show ?case by (simp add: Suc unat_byte_of_nat)
qed

definition enc64 :: "u64 \<Rightarrow> bytes" where
  "enc64 w = nat_le 8 (unat w)"

definition dec64 :: "bytes \<Rightarrow> u64" where
  "dec64 bs = word_of_nat (le_nat bs)"

lemma length_enc64 [simp]: "length (enc64 w) = 8"
  by (simp add: enc64_def)

lemma dec64_enc64 [simp]: "dec64 (enc64 w) = w"
proof -
  have "unat w < 2 ^ 64"
    using unsigned_less [where w = w] by simp
  then have "unat w mod 256 ^ 8 = unat w"
    by simp
  then show ?thesis by (simp add: enc64_def dec64_def le_nat_nat_le)
qed

lemma enc64_inject [simp]: "enc64 v = enc64 w \<longleftrightarrow> v = w"
  using dec64_enc64 by metis

section \<open>Decimal printing\<close>

text \<open>\<open>std::to_string\<close> and \<open>operator<<\<close> on unsigned integers: no sign, no leading zero.\<close>

definition digit_char :: "nat \<Rightarrow> char" where
  "digit_char d = char_of (48 + d)"

fun dec_string :: "nat \<Rightarrow> string" where
  "dec_string n = (if n < 10 then [digit_char n] else dec_string (n div 10) @ [digit_char (n mod 10)])"

declare dec_string.simps [simp del]

definition endl :: string where
  "endl = [CHR 0x0A]"

definition char_digit :: "char \<Rightarrow> nat" where
  "char_digit c = of_char c - 48"

definition is_digit :: "char \<Rightarrow> bool" where
  "is_digit c \<longleftrightarrow> 48 \<le> (of_char c :: nat) \<and> (of_char c :: nat) \<le> 57"

definition dec_value :: "string \<Rightarrow> nat" where
  "dec_value s = foldl (\<lambda>a c. 10 * a + char_digit c) 0 s"

lemma of_char_digit_char: "d < 10 \<Longrightarrow> (of_char (digit_char d) :: nat) = 48 + d"
  by (simp add: digit_char_def)

lemma char_digit_digit_char [simp]: "d < 10 \<Longrightarrow> char_digit (digit_char d) = d"
  by (simp add: char_digit_def of_char_digit_char)

lemma is_digit_digit_char [simp]: "d < 10 \<Longrightarrow> is_digit (digit_char d)"
  by (simp add: is_digit_def of_char_digit_char)

lemma dec_value_dec_string [simp]: "dec_value (dec_string n) = n"
proof (induction n rule: dec_string.induct)
  case (1 n)
  show ?case
  proof (cases "n < 10")
    case True
    then show ?thesis by (simp add: dec_string.simps [of n] dec_value_def)
  next
    case False
    then have "dec_value (dec_string n) = 10 * dec_value (dec_string (n div 10)) + n mod 10"
      by (simp add: dec_string.simps [of n] dec_value_def)
    with 1 False show ?thesis by simp
  qed
qed

lemma dec_string_inject [simp]: "dec_string m = dec_string n \<longleftrightarrow> m = n"
  using dec_value_dec_string by metis

lemma dec_string_digits: "c \<in> set (dec_string n) \<Longrightarrow> is_digit c"
proof (induction n rule: dec_string.induct)
  case (1 n)
  show ?case
  proof (cases "n < 10")
    case True
    with 1 show ?thesis by (simp add: dec_string.simps [of n])
  next
    case False
    with 1 show ?thesis by (auto simp: dec_string.simps [of n])
  qed
qed

lemma dec_string_nonempty [simp]: "dec_string n \<noteq> []"
  by (subst dec_string.simps) simp

section \<open>Maps and lists\<close>

lemma map_le_updI: "m \<subseteq>\<^sub>m m' \<Longrightarrow> m' k = Some v \<Longrightarrow> m(k \<mapsto> v) \<subseteq>\<^sub>m m'"
  by (auto simp: map_le_def dom_def)

lemma map_leD: "m \<subseteq>\<^sub>m m' \<Longrightarrow> m k = Some v \<Longrightarrow> m' k = Some v"
  by (auto simp: map_le_def dom_def)

lemma map_leI: "(\<And>k v. m k = Some v \<Longrightarrow> m' k = Some v) \<Longrightarrow> m \<subseteq>\<^sub>m m'"
  by (auto simp: map_le_def dom_def)

end
