(* ===== verification/Globals.thy ===== *)
theory Globals
  imports DB_Prelude
begin

text \<open>
  The enumerations of \<open>common/global.h\<close>, the constants of \<open>config.h\<close> the modelled code
  depends on, and the integer conversions of \<open>common/myhelper.cpp\<close>. The build modelled is the
  one \<open>config.h\<close> selects: \<open>CC_ALG == MVCC\<close>, \<open>WORKLOAD == YCSB\<close>, \<open>DEBUG_CC == false\<close>,
  neither \<open>SHARED_DISK\<close> nor \<open>DB2_WITH_NO_CONFLICT\<close> defined.
\<close>

section \<open>Enumerations\<close>

datatype RC = RCOK | Commit | Abort | WAIT | ERROR | FINISH | TIME_OUT

datatype access_t = RD | WR | XP | SCAN

datatype TsType = R_REQ | W_REQ | P_REQ | XP_REQ

section \<open>Configuration\<close>

definition MY_PAGE_SIZE :: nat where
  "MY_PAGE_SIZE = 16384"

definition ITEM_NUM_PER_FILE :: nat where
  "ITEM_NUM_PER_FILE = 102400"

definition DB_PREFIX :: string where
  "DB_PREFIX = ''../db/''"

definition DB_SUFIX :: string where
  "DB_SUFIX = ''.table''"

text \<open>Arithmetic on the page size uses these facts, never the unfolded lists.\<close>

lemma MY_PAGE_SIZE_pos [simp]: "0 < MY_PAGE_SIZE"
  by (simp add: MY_PAGE_SIZE_def)

lemma ITEM_NUM_PER_FILE_pos [simp]: "0 < ITEM_NUM_PER_FILE"
  by (simp add: ITEM_NUM_PER_FILE_def)

section \<open>Conversions between enumerations and integers (myhelper.cpp)\<close>

text \<open>
  Each conversion is a chain of \<open>if\<close>s. Where no branch matches, control flows off the end of a
  non-void function (undefined behaviour), which is the value \<open>None\<close> here.
\<close>

fun RCToInt :: "RC \<Rightarrow> int option" where
  "RCToInt RCOK = Some 0"
| "RCToInt Commit = Some 1"
| "RCToInt Abort = Some 2"
| "RCToInt WAIT = Some 3"
| "RCToInt ERROR = Some 4"
| "RCToInt FINISH = Some 5"
| "RCToInt TIME_OUT = None"

definition IntToRC :: "int \<Rightarrow> RC option" where
  "IntToRC i =
     (if 0 = i then Some RCOK else if 1 = i then Some Commit else if 2 = i then Some Abort
      else if 3 = i then Some WAIT else if 4 = i then Some ERROR
      else if 5 = i then Some FINISH else None)"

fun AccessToInt :: "access_t \<Rightarrow> int" where
  "AccessToInt RD = 0"
| "AccessToInt WR = 1"
| "AccessToInt XP = 2"
| "AccessToInt SCAN = 3"

definition IntToAccess :: "int \<Rightarrow> access_t option" where
  "IntToAccess i =
     (if 0 = i then Some RD else if 1 = i then Some WR else if 2 = i then Some XP
      else if 3 = i then Some SCAN else None)"

fun TsTypeToInt :: "TsType \<Rightarrow> int" where
  "TsTypeToInt R_REQ = 0"
| "TsTypeToInt W_REQ = 1"
| "TsTypeToInt P_REQ = 2"
| "TsTypeToInt XP_REQ = 3"

definition IntToTsType :: "int \<Rightarrow> TsType option" where
  "IntToTsType i =
     (if 0 = i then Some R_REQ else if 1 = i then Some W_REQ else if 2 = i then Some P_REQ
      else if 3 = i then Some XP_REQ else None)"

lemma IntToAccess_AccessToInt: "IntToAccess (AccessToInt a) = Some a"
  by (cases a) (simp_all add: IntToAccess_def)

lemma IntToTsType_TsTypeToInt: "IntToTsType (TsTypeToInt t) = Some t"
  by (cases t) (simp_all add: IntToTsType_def)

lemma IntToRC_RCToInt: "RCToInt rc = Some i \<Longrightarrow> IntToRC i = Some rc"
  by (cases rc) (auto simp: IntToRC_def)

lemma RCToInt_None_iff: "RCToInt rc = None \<longleftrightarrow> rc = TIME_OUT"
  by (cases rc) simp_all

end
