(* ===== verification/Page_Model.thy ===== *)
theory Page_Model
  imports Globals
begin

text \<open>
  \<open>common/storage/tablespace/page.cpp\<close>: a page is a buffer of \<open>MY_PAGE_SIZE\<close> bytes whose first
  64 bytes hold the page's own fields. \<open>Serialize\<close> writes the fields into the buffer,
  \<open>Deserialize\<close> reads them back, \<open>PagePut\<close> appends a row behind the used part.
\<close>

section \<open>State\<close>

record page =
  page_id :: u64
  page_buf :: bytes
  page_size :: u64
  used_size :: u64
  version :: u64

text \<open>
  The constructor does not initialise \<open>version\<close>; the indeterminate value is the parameter
  \<open>v\<close>.
\<close>

definition Page_new :: "u64 \<Rightarrow> bytes \<Rightarrow> page" where
  "Page_new v buf =
     \<lparr>page_id = UINT64_MAX, page_buf = buf, page_size = of_nat MY_PAGE_SIZE, used_size = 64,
      version = v\<rparr>"

section \<open>Operations\<close>

definition set_page_id :: "u64 \<Rightarrow> page \<Rightarrow> page" where
  "set_page_id i p = p\<lparr>page_id := i\<rparr>"

definition set_page_size :: "u64 \<Rightarrow> page \<Rightarrow> page" where
  "set_page_size n p = p\<lparr>page_size := n\<rparr>"

definition set_version :: "u64 \<Rightarrow> page \<Rightarrow> page" where
  "set_version v p = p\<lparr>version := v\<rparr>"

definition set_used_size :: "u64 \<Rightarrow> page \<Rightarrow> page" where
  "set_used_size n p = p\<lparr>used_size := n\<rparr>"

definition set_page_buf :: "bytes \<Rightarrow> nat \<Rightarrow> page \<Rightarrow> page res" where
  "set_page_buf buf count p =
     rbind (read_at buf 0 count) (\<lambda>src.
     rbind (memcpy_at (page_buf p) 0 src) (\<lambda>b. Inr (p\<lparr>page_buf := b\<rparr>)))"

definition PagePut :: "page \<Rightarrow> u64 \<Rightarrow> bytes \<Rightarrow> u64 \<Rightarrow> page res" where
  "PagePut p pid row_buf count =
     asserting (page_id p = pid)
      (asserting (used_size p + count \<le> page_size p)
        (rbind (read_at row_buf 0 (unat count)) (\<lambda>src.
         rbind (memcpy_at (page_buf p) (unat (used_size p)) src) (\<lambda>b.
         Inr (p\<lparr>page_buf := b, used_size := used_size p + count\<rparr>)))))"

definition Serialize :: "page \<Rightarrow> page res" where
  "Serialize p =
     rbind (memcpy_at (page_buf p) (0 * 8) (enc64 (page_id p))) (\<lambda>b0.
     rbind (memcpy_at b0 (1 * 8) (enc64 (page_size p))) (\<lambda>b1.
     rbind (memcpy_at b1 (2 * 8) (enc64 (used_size p))) (\<lambda>b2.
     rbind (memcpy_at b2 (3 * 8) (enc64 (version p))) (\<lambda>b3.
     Inr (p\<lparr>page_buf := b3\<rparr>)))))"

definition Deserialize :: "page \<Rightarrow> page res" where
  "Deserialize p =
     rbind (read_at (page_buf p) (0 * 8) 8) (\<lambda>i.
     rbind (read_at (page_buf p) (1 * 8) 8) (\<lambda>s.
     rbind (read_at (page_buf p) (2 * 8) 8) (\<lambda>u.
     rbind (read_at (page_buf p) (3 * 8) 8) (\<lambda>v.
     Inr (p\<lparr>page_id := dec64 i, page_size := dec64 s, used_size := dec64 u, version := dec64 v\<rparr>)))))"

section \<open>Well-formed pages\<close>

definition page_wf :: "page \<Rightarrow> bool" where
  "page_wf p \<longleftrightarrow> length (page_buf p) = MY_PAGE_SIZE \<and> page_size p = of_nat MY_PAGE_SIZE \<and>
     64 \<le> unat (used_size p) \<and> unat (used_size p) \<le> MY_PAGE_SIZE"

lemma unat_page_size: "unat (of_nat MY_PAGE_SIZE :: u64) = MY_PAGE_SIZE"
  by (simp add: unat_of_nat MY_PAGE_SIZE_def)

lemma page_wf_new: "length buf = MY_PAGE_SIZE \<Longrightarrow> page_wf (Page_new v buf)"
  by (simp add: page_wf_def Page_new_def MY_PAGE_SIZE_def)

section \<open>Serialisation\<close>

lemma Serialize_eq:
  assumes "32 \<le> length (page_buf p)"
  shows "Serialize p = Inr (p\<lparr>page_buf :=
    enc64 (page_id p) @ enc64 (page_size p) @ enc64 (used_size p) @ enc64 (version p) @
    drop 32 (page_buf p)\<rparr>)"
  using assms by (simp add: Serialize_def memcpy_at_def)

lemma Serialize_short:
  "length (page_buf p) < 32 \<Longrightarrow> Serialize p = Inl Out_Of_Bounds"
  by (auto simp: Serialize_def memcpy_at_def rbind_def split: sum.splits)

lemma Deserialize_eq:
  assumes "page_buf p = enc64 i @ enc64 s @ enc64 u @ enc64 v @ rest"
  shows "Deserialize p = Inr (p\<lparr>page_id := i, page_size := s, used_size := u, version := v\<rparr>)"
  using assms by (simp add: Deserialize_def read_at_def)

text \<open>
  A serialised page, read through any page object that has its bytes, gives back all fields, and
  the payload behind the 32 header bytes is untouched.
\<close>

lemma Deserialize_Serialize:
  assumes "Serialize p = Inr q" and "page_buf r = page_buf q"
  shows "Deserialize r = Inr q" and "drop 32 (page_buf q) = drop 32 (page_buf p)"
    and "length (page_buf q) = length (page_buf p)"
proof -
  have len: "32 \<le> length (page_buf p)"
    using assms(1) Serialize_short [of p] by fastforce
  note q = Serialize_eq [OF len]
  then have q: "q = p\<lparr>page_buf :=
    enc64 (page_id p) @ enc64 (page_size p) @ enc64 (used_size p) @ enc64 (version p) @
    drop 32 (page_buf p)\<rparr>" using assms(1) by simp
  show "Deserialize r = Inr q"
    using Deserialize_eq [of r "page_id p" "page_size p" "used_size p" "version p"
      "drop 32 (page_buf p)"] assms(2) q by (cases r) simp
  show "drop 32 (page_buf q) = drop 32 (page_buf p)" by (simp add: q)
  show "length (page_buf q) = length (page_buf p)" using len by (simp add: q)
qed

section \<open>Appending a row\<close>

lemma unat_add_no_wrap:
  "unat (a :: u64) + unat b < 2 ^ 64 \<Longrightarrow> unat (a + b) = unat a + unat b"
  by (simp add: unat_word_ariths)

text \<open>
  What \<open>PagePut\<close> does on a well-formed page when the addition in its guard does not wrap: it
  appends exactly when the row fits, and its assertion stops it otherwise.
\<close>

lemma PagePut_fits:
  assumes wf: "page_wf p" and id: "page_id p = i" and len: "unat count \<le> length row"
    and fits: "unat (used_size p) + unat count \<le> MY_PAGE_SIZE"
  obtains q where "PagePut p i row count = Inr q" and "page_wf q" and "page_id q = i"
    and "unat (used_size q) = unat (used_size p) + unat count"
    and "memcpy_at (page_buf p) (unat (used_size p)) (take (unat count) row) = Inr (page_buf q)"
proof -
  have sum: "unat (used_size p + count) = unat (used_size p) + unat count"
    using fits by (intro unat_add_no_wrap) (simp add: MY_PAGE_SIZE_def)
  then have guard: "used_size p + count \<le> page_size p"
    using wf fits by (simp add: word_le_nat_alt page_wf_def unat_page_size)
  obtain b where b: "memcpy_at (page_buf p) (unat (used_size p)) (take (unat count) row) = Inr b"
    and blen: "length b = length (page_buf p)"
    using memcpy_at_ok [of "unat (used_size p)" "take (unat count) row" "page_buf p"] wf fits len
    by (auto simp: page_wf_def)
  let ?q = "p\<lparr>page_buf := b, used_size := used_size p + count\<rparr>"
  have "PagePut p i row count = Inr ?q"
    using id guard len b by (simp add: PagePut_def read_at_def)
  moreover have "page_wf ?q"
    using wf fits by (simp add: page_wf_def sum blen)
  ultimately show ?thesis
    using that [of ?q] id sum b by simp
qed

lemma PagePut_full:
  assumes "page_wf p" and "unat (used_size p) + unat count < 2 ^ 64"
    and "MY_PAGE_SIZE < unat (used_size p) + unat count"
  shows "PagePut p i row count = Inl Assert_Fail"
proof -
  have "\<not> used_size p + count \<le> page_size p"
    using assms unat_add_no_wrap [OF assms(2)]
    by (simp add: word_le_nat_alt page_wf_def unat_page_size)
  then show ?thesis by (simp add: PagePut_def asserting_def)
qed

lemma set_page_buf_full:
  "length buf = length (page_buf p) \<Longrightarrow> count = length buf \<Longrightarrow>
   set_page_buf buf count p = Inr (p\<lparr>page_buf := buf\<rparr>)"
  by (simp add: set_page_buf_def read_at_def memcpy_at_full)

section \<open>Properties\<close>

text \<open>
  C18: \<open>Page::Serialize\<close> followed by \<open>Page::Deserialize\<close> is a round trip. Whatever page object
  holds the serialised bytes, \<open>Deserialize\<close> sets all its fields to those of the serialised page,
  and serialisation leaves the bytes behind the 32 header bytes alone.
\<close>

theorem page_serialize_roundtrip:
  assumes "32 \<le> length (page_buf p)"
  shows "\<exists>q. Serialize p = Inr q \<and> drop 32 (page_buf q) = drop 32 (page_buf p) \<and>
    page_id q = page_id p \<and> page_size q = page_size p \<and> used_size q = used_size p \<and>
    version q = version p \<and> (\<forall>r. page_buf r = page_buf q \<longrightarrow> Deserialize r = Inr q)"
proof -
  obtain q where q: "Serialize p = Inr q" "page_id q = page_id p" "page_size q = page_size p"
    "used_size q = used_size p" "version q = version p" using Serialize_eq [OF assms] by simp
  then show ?thesis using Deserialize_Serialize [OF q(1)] by blast
qed

theorem page_serialize_roundtrip_witness:
  "\<exists>q. Serialize (Page_new 3 (replicate 64 7)) = Inr q \<and> version q = 3 \<and>
     (\<forall>r. page_buf r = page_buf q \<longrightarrow> Deserialize r = Inr q)"
  using page_serialize_roundtrip [of "Page_new 3 (replicate 64 7)"] by (auto simp: Page_new_def)

text \<open>
  \<open>Page::PagePut\<close> on a well-formed page. A row that fits is appended behind the used part: the
  page stays well-formed, the row reads back at the old \<open>used_size_\<close>, and every range before it is
  unchanged. A row that does not fit stops the program at the second assertion.
\<close>

lemma PagePut_appends:
  assumes "page_wf p" and "page_id p = i" and "unat count = length row"
    and "unat (used_size p) + length row < 2 ^ 64"
  shows "if unat (used_size p) + length row \<le> MY_PAGE_SIZE
    then \<exists>q. PagePut p i row count = Inr q \<and> page_wf q \<and> page_id q = i \<and>
      unat (used_size q) = unat (used_size p) + length row \<and>
      read_at (page_buf q) (unat (used_size p)) (length row) = Inr row \<and>
      take (unat (used_size p)) (page_buf q) = take (unat (used_size p)) (page_buf p)
    else PagePut p i row count = Inl Assert_Fail"
proof (cases "unat (used_size p) + length row \<le> MY_PAGE_SIZE")
  case True
  obtain q where q: "PagePut p i row count = Inr q" "page_wf q" "page_id q = i"
    "unat (used_size q) = unat (used_size p) + unat count"
    "memcpy_at (page_buf p) (unat (used_size p)) (take (unat count) row) = Inr (page_buf q)"
    by (rule PagePut_fits [OF assms(1,2), of count row]) (use assms True in auto)
  from q(5) have m: "memcpy_at (page_buf p) (unat (used_size p)) row = Inr (page_buf q)"
    using assms(3) by simp
  then have "take (unat (used_size p)) (page_buf q) = take (unat (used_size p)) (page_buf p)"
    by (auto simp: mem_simps)
  then show ?thesis using True q m read_memcpy_same [OF m] assms(3) by auto
next
  case False
  then show ?thesis using PagePut_full [of p count i row] assms by auto
qed

end
