(* ===== verification/LRU_List.thy ===== *)
theory LRU_List
  imports Page_Model
begin

text \<open>
  \<open>common/buffer/lru.cpp\<close>: the doubly linked list of page nodes, on an explicit heap of nodes,
  since \<open>Prepend\<close> and \<open>Popback\<close> rewrite the links of nodes that other structures point to. The
  build uses the variant without \<open>USE_MUTEX\<close> and \<open>USE_CAS\<close>. A list object implements the
  sequence of nodes reached from its head; \<open>Check\<close>, the code's own consistency check, accepts
  exactly the lists that implement one.
\<close>

section \<open>Nodes, heap and list objects\<close>

type_synonym node_ptr = "nat option"

record page_node =
  node_page :: page
  node_prev :: node_ptr
  node_next :: node_ptr

type_synonym node_heap = "nat \<Rightarrow> page_node option"

record lru =
  lru_head :: node_ptr
  lru_tail :: node_ptr
  lru_size :: int

definition PageNode_new :: "u64 \<Rightarrow> bytes \<Rightarrow> page_node" where
  "PageNode_new v buf = \<lparr>node_page = Page_new v buf, node_prev = None, node_next = None\<rparr>"

definition LRU_new :: lru where
  "LRU_new = \<lparr>lru_head = None, lru_tail = None, lru_size = 0\<rparr>"

text \<open>Access through a pointer: a null or freed node is not there.\<close>

definition load :: "node_heap \<Rightarrow> node_ptr \<Rightarrow> page_node res" where
  "load h p = (case p of None \<Rightarrow> Inl Bad_Deref
               | Some a \<Rightarrow> (case h a of None \<Rightarrow> Inl Bad_Deref | Some nd \<Rightarrow> Inr nd))"

definition update_node :: "(page_node \<Rightarrow> page_node) \<Rightarrow> node_ptr \<Rightarrow> node_heap \<Rightarrow> node_heap res" where
  "update_node f p h = (case p of None \<Rightarrow> Inl Bad_Deref
               | Some a \<Rightarrow> (case h a of None \<Rightarrow> Inl Bad_Deref | Some nd \<Rightarrow> Inr (h(a \<mapsto> f nd))))"

section \<open>Operations\<close>

definition Prepend :: "node_ptr \<Rightarrow> node_heap \<Rightarrow> lru \<Rightarrow> (node_heap \<times> lru) res" where
  "Prepend n h l =
     rbind (update_node (node_next_update (\<lambda>_. lru_head l)) n h) (\<lambda>h1.
       if lru_head l = None
       then Inr (h1, l\<lparr>lru_tail := n, lru_head := n, lru_size := lru_size l + 1\<rparr>)
       else rbind (update_node (node_prev_update (\<lambda>_. n)) (lru_head l) h1) (\<lambda>h2.
            Inr (h2, l\<lparr>lru_head := n, lru_size := lru_size l + 1\<rparr>)))"

definition Popback :: "node_heap \<Rightarrow> lru \<Rightarrow> (node_ptr \<times> node_heap \<times> lru) res" where
  "Popback h l =
     (if lru_tail l = None then Inr (None, h, l)
      else rbind (load h (lru_tail l)) (\<lambda>nd.
        if node_prev nd \<noteq> None
        then rbind (update_node (node_next_update (\<lambda>_. None)) (node_prev nd) h) (\<lambda>h1.
             rbind (update_node (node_prev_update (\<lambda>_. None)) (lru_tail l) h1) (\<lambda>h2.
             Inr (lru_tail l, h2, l\<lparr>lru_tail := node_prev nd, lru_size := lru_size l - 1\<rparr>)))
        else asserting (lru_head l = lru_tail l)
             (Inr (lru_tail l, h, l\<lparr>lru_head := None, lru_tail := None, lru_size := lru_size l - 1\<rparr>))))"

text \<open>The body of \<open>LRU::Get\<close> is commented out in every build variant: a hit moves nothing.\<close>

definition LRU_Get :: "node_ptr \<Rightarrow> node_heap \<Rightarrow> lru \<Rightarrow> node_heap \<times> lru" where
  "LRU_Get n h l = (h, l)"

text \<open>
  The destructor's loop: it deletes the node and then reads the node's \<open>next_\<close>. \<open>None\<close> would
  be a loop that does not end.
\<close>

partial_function (option) LRU_delete_loop :: "node_ptr \<Rightarrow> node_heap \<Rightarrow> node_heap res option" where
  "LRU_delete_loop p h =
     (case p of
        None \<Rightarrow> Some (Inr h)
      | Some a \<Rightarrow> (case load (h(a := None)) p of
                    Inl e \<Rightarrow> Some (Inl e)
                  | Inr nd \<Rightarrow> LRU_delete_loop (node_next nd) (h(a := None))))"

definition LRU_delete :: "lru \<Rightarrow> node_heap \<Rightarrow> node_heap res option" where
  "LRU_delete l h = LRU_delete_loop (lru_head l) h"

text \<open>
  \<open>Check\<close>: the two \<open>while\<close> loops are one loop, run over \<open>next_\<close> from the head and over \<open>prev_\<close>
  from the tail (\<open>fwd\<close> the link followed, \<open>bwd\<close> the opposite one, \<open>final\<close> the other end).
\<close>

partial_function (option) Check_loop ::
  "(page_node \<Rightarrow> node_ptr) \<Rightarrow> (page_node \<Rightarrow> node_ptr) \<Rightarrow> node_ptr \<Rightarrow> int \<Rightarrow> node_heap \<Rightarrow> node_ptr \<Rightarrow> int
   \<Rightarrow> int res option" where
  "Check_loop fwd bwd final sz h p count =
     (case p of
        None \<Rightarrow> Some (Inr count)
      | Some a \<Rightarrow>
        (case rbind (load h p) (\<lambda>nd.
                if fwd nd \<noteq> None
                then rbind (load h (fwd nd)) (\<lambda>nx. asserting (bwd nx = p) (Inr (fwd nd)))
                else asserting (p = final \<and> count + 1 = sz) (Inr (fwd nd))) of
           Inl e \<Rightarrow> Some (Inl e)
         | Inr q \<Rightarrow> Check_loop fwd bwd final sz h q (count + 1)))"

definition Check_ends :: "node_heap \<Rightarrow> lru \<Rightarrow> unit res" where
  "Check_ends h l =
     (if lru_size l > 0
      then rbind (load h (lru_head l)) (\<lambda>hd_node.
           asserting (node_prev hd_node = None)
             (rbind (load h (lru_tail l)) (\<lambda>tl_node. asserting (node_next tl_node = None) (Inr ()))))
      else asserting (lru_head l = None \<and> lru_tail l = None) (Inr ()))"

definition LRU_Check :: "node_heap \<Rightarrow> lru \<Rightarrow> unit res option" where
  "LRU_Check h l =
     (case Check_ends h l of
        Inl e \<Rightarrow> Some (Inl e)
      | Inr _ \<Rightarrow>
        (case Check_loop node_next node_prev (lru_tail l) (lru_size l) h (lru_head l) 0 of
           None \<Rightarrow> None
         | Some (Inl e) \<Rightarrow> Some (Inl e)
         | Some (Inr count) \<Rightarrow>
           if count \<noteq> lru_size l then Some (Inl Assert_Fail)
           else
             (case Check_loop node_prev node_next (lru_head l) (lru_size l) h (lru_tail l) 0 of
                None \<Rightarrow> None
              | Some (Inl e) \<Rightarrow> Some (Inl e)
              | Some (Inr count') \<Rightarrow> Some (asserting (count' = lru_size l) (Inr ())))))"

section \<open>The sequence a list object implements\<close>

fun path :: "(page_node \<Rightarrow> node_ptr) \<Rightarrow> node_heap \<Rightarrow> node_ptr \<Rightarrow> nat list \<Rightarrow> node_ptr \<Rightarrow> bool" where
  "path f h p [] q \<longleftrightarrow> p = q"
| "path f h p (a # as) q \<longleftrightarrow> p = Some a \<and> (case h a of None \<Rightarrow> False | Some nd \<Rightarrow> path f h (f nd) as q)"

definition dll :: "node_heap \<Rightarrow> lru \<Rightarrow> nat list \<Rightarrow> bool" where
  "dll h l xs \<longleftrightarrow> path node_next h (lru_head l) xs None \<and> path node_prev h (lru_tail l) (rev xs) None \<and>
     lru_size l = int (length xs)"

text \<open>What an operation leaves alone: the pages of all nodes, and every node outside a set.\<close>

definition same_pages :: "node_heap \<Rightarrow> node_heap \<Rightarrow> bool" where
  "same_pages h h' \<longleftrightarrow> (\<forall>a. map_option node_page (h' a) = map_option node_page (h a))"

definition same_off :: "nat set \<Rightarrow> node_heap \<Rightarrow> node_heap \<Rightarrow> bool" where
  "same_off S h h' \<longleftrightarrow> (\<forall>a. a \<notin> S \<longrightarrow> h' a = h a)"

lemma load_Some [simp]: "load h (Some a) = (case h a of None \<Rightarrow> Inl Bad_Deref | Some nd \<Rightarrow> Inr nd)"
  and load_None [simp]: "load h None = Inl Bad_Deref"
  by (simp_all add: load_def)

lemma load_Inr_iff: "load h p = Inr nd \<longleftrightarrow> (\<exists>a. p = Some a \<and> h a = Some nd)"
  by (auto simp: load_def split: option.splits)

lemma update_node_Some [simp]: "h a = Some nd \<Longrightarrow> update_node f (Some a) h = Inr (h(a \<mapsto> f nd))"
  by (simp add: update_node_def)

lemma path_append [simp]: "path f h p (xs @ ys) q \<longleftrightarrow> (\<exists>r. path f h p xs r \<and> path f h r ys q)"
  by (induction xs arbitrary: p) (auto split: option.splits)

lemma path_frame: "(\<And>a. a \<in> set xs \<Longrightarrow> h' a = h a) \<Longrightarrow> path f h' p xs q = path f h p xs q"
  by (induction xs arbitrary: p) (auto split: option.splits)

lemma path_upd_off [simp]: "a \<notin> set xs \<Longrightarrow> path f (h(a := v)) p xs q = path f h p xs q"
  by (rule path_frame) auto

text \<open>An update that does not touch the followed link keeps the path.\<close>

lemma path_upd_other:
  "h a = Some nd \<Longrightarrow> f nd' = f nd \<Longrightarrow> path f (h(a \<mapsto> nd')) p xs q = path f h p xs q"
  by (induction xs arbitrary: p) (auto split: option.splits)

lemma path_None_iff: "path f h None xs None \<longleftrightarrow> xs = []"
  by (cases xs) auto

lemma path_unique: "path f h p xs None \<Longrightarrow> path f h p ys None \<Longrightarrow> xs = ys"
proof (induction xs arbitrary: p ys)
  case Nil
  then show ?case by (cases ys) auto
next
  case (Cons a xs)
  then show ?case by (cases ys) (auto split: option.splits)
qed

lemma path_suffix_unique:
  assumes "path f h p (a # xs) None" and "a \<in> set xs"
  shows False
proof -
  obtain ys zs where xs: "xs = ys @ a # zs" using split_list [OF assms(2)] by blast
  have "path f h (Some a) (a # zs) None" and "path f h (Some a) (a # xs) None"
    using assms(1) xs by (auto split: option.splits)
  then have "a # zs = a # xs" by (rule path_unique)
  then show False using xs by simp
qed

lemma path_distinct: "path f h p xs None \<Longrightarrow> distinct xs"
proof (induction xs arbitrary: p)
  case (Cons a xs)
  then show ?case using path_suffix_unique [of f h p a xs] by (auto split: option.splits)
qed simp

lemma path_dom: "path f h p xs q \<Longrightarrow> set xs \<subseteq> dom h"
  by (induction xs arbitrary: p) (auto split: option.splits)

lemma path_length_le:
  assumes "finite (dom h)" and "path f h p xs None"
  shows "length xs \<le> card (dom h)"
  using card_mono [OF assms(1) path_dom [OF assms(2)]] distinct_card [OF path_distinct [OF assms(2)]]
  by simp

lemma dll_distinct: "dll h l xs \<Longrightarrow> distinct xs"
  by (auto simp: dll_def dest: path_distinct)

lemma dll_dom: "dll h l xs \<Longrightarrow> set xs \<subseteq> dom h"
  by (auto simp: dll_def dest: path_dom)

lemma dll_unique: "dll h l xs \<Longrightarrow> dll h l ys \<Longrightarrow> xs = ys"
  unfolding dll_def using path_unique by blast

lemma dll_frame: "dll h l xs \<Longrightarrow> (\<And>a. a \<in> set xs \<Longrightarrow> h' a = h a) \<Longrightarrow> dll h' l xs"
  using path_frame [of xs h' h] path_frame [of "rev xs" h' h] by (simp add: dll_def)

lemma dll_new: "dll h LRU_new []"
  by (simp add: dll_def LRU_new_def)

lemma dll_Nil_iff: "dll h l xs \<Longrightarrow> xs = [] \<longleftrightarrow> lru_size l \<le> 0"
  by (auto simp: dll_def)

lemma same_pages_refl [simp]: "same_pages h h"
  by (simp add: same_pages_def)

lemma same_pages_trans: "same_pages h h' \<Longrightarrow> same_pages h' h'' \<Longrightarrow> same_pages h h''"
  by (simp add: same_pages_def)

lemma same_pagesD: "same_pages h h' \<Longrightarrow> h a = Some nd \<Longrightarrow> \<exists>nd'. h' a = Some nd' \<and> node_page nd' = node_page nd"
  unfolding same_pages_def by (drule spec [of _ a]) auto

section \<open>Prepend and Popback refine cons and removal at the end\<close>

lemma Prepend_dll:
  assumes l: "dll h l xs" and n: "h n = Some nd" "node_prev nd = None" "n \<notin> set xs"
  shows "\<exists>h' l'. Prepend (Some n) h l = Inr (h', l') \<and> dll h' l' (n # xs) \<and> same_pages h h' \<and>
    same_off (insert n (set xs)) h h'"
proof (cases xs)
  case Nil
  then show ?thesis
    using l n by (auto simp: Prepend_def dll_def same_pages_def same_off_def)
next
  case (Cons x ys)
  obtain nx where x: "h x = Some nx" "lru_head l = Some x" using l Cons by (auto simp: dll_def split: option.splits)
  have xn: "x \<noteq> n" "x \<notin> set ys" using n(3) Cons dll_distinct [OF l] by auto
  let ?h1 = "h(n \<mapsto> nd\<lparr>node_next := Some x\<rparr>)"
  let ?h2 = "?h1(x \<mapsto> nx\<lparr>node_prev := Some n\<rparr>)"
  have P: "Prepend (Some n) h l = Inr (?h2, l\<lparr>lru_head := Some n, lru_size := lru_size l + 1\<rparr>)"
    using n x xn by (simp add: Prepend_def)
  have nxt: "path node_next ?h2 (Some x) xs None = path node_next h (Some x) xs None"
    using n x xn by (simp add: path_upd_other)
  have prv: "path node_prev ?h2 (lru_tail l) (rev ys) (Some x) = path node_prev h (lru_tail l) (rev ys) (Some x)"
    using n(3) xn Cons by simp
  have "dll ?h2 (l\<lparr>lru_head := Some n, lru_size := lru_size l + 1\<rparr>) (n # xs)"
    using l x xn n nxt prv Cons by (auto simp: dll_def)
  then show ?thesis
    using P n x xn Cons by (auto simp: same_pages_def same_off_def)
qed

lemma Popback_empty: "dll h l [] \<Longrightarrow> Popback h l = Inr (None, h, l)"
  by (auto simp: dll_def Popback_def)

lemma Popback_dll:
  assumes l: "dll h l (xs @ [n])"
  shows "\<exists>h' l' nd. Popback h l = Inr (Some n, h', l') \<and> dll h' l' xs \<and> same_pages h h' \<and>
    same_off (insert n (set xs)) h h' \<and> h' n = Some nd \<and> node_prev nd = None"
proof (cases xs rule: rev_cases)
  case Nil
  then show ?thesis
    using l by (auto simp: Popback_def dll_def same_off_def split: option.splits)
next
  case (snoc ys x)
  obtain nd where n: "h n = Some nd" "lru_tail l = Some n" "node_prev nd = Some x"
    using l snoc by (auto simp: dll_def split: option.splits)
  obtain nx where x: "h x = Some nx" using l snoc by (auto simp: dll_def split: option.splits)
  have d: "x \<noteq> n" "n \<notin> set xs" "x \<notin> set ys" using dll_distinct [OF l] snoc by auto
  let ?h1 = "h(x \<mapsto> nx\<lparr>node_next := None\<rparr>)"
  let ?h2 = "?h1(n \<mapsto> nd\<lparr>node_prev := None\<rparr>)"
  let ?l = "l\<lparr>lru_tail := Some x, lru_size := lru_size l - 1\<rparr>"
  have P: "Popback h l = Inr (Some n, ?h2, ?l)"
    using n x d by (simp add: Popback_def)
  have prv: "path node_prev ?h2 (Some x) (rev xs) None = path node_prev h (Some x) (rev xs) None"
    using d x by (simp add: path_upd_other)
  have nxt: "path node_next ?h2 (lru_head l) ys (Some x) = path node_next h (lru_head l) ys (Some x)"
    using d snoc by simp
  have "dll ?h2 ?l xs"
    using l n x d prv nxt snoc by (auto simp: dll_def split: option.splits)
  then show ?thesis
    using P n x d snoc by (auto simp: same_pages_def same_off_def)
qed

section \<open>Check accepts exactly the well-linked lists\<close>

text \<open>
  One loop of \<open>Check\<close>, started behind a stretch \<open>vs\<close> of nodes already visited. It ends on every
  finite heap, cyclic links included, since each step extends the opposite chain, which cannot
  repeat a node.
\<close>

lemma Check_loop_step:
  assumes "h a = Some nd"
  shows "fwd nd = None \<Longrightarrow> Check_loop fwd bwd final sz h (Some a) count =
      (if Some a = final \<and> count + 1 = sz then Some (Inr (count + 1)) else Some (Inl Assert_Fail))"
    and "fwd nd = Some b \<Longrightarrow> h b = None \<Longrightarrow>
      Check_loop fwd bwd final sz h (Some a) count = Some (Inl Bad_Deref)"
    and "fwd nd = Some b \<Longrightarrow> h b = Some nx \<Longrightarrow>
      Check_loop fwd bwd final sz h (Some a) count =
        (if bwd nx = Some a then Check_loop fwd bwd final sz h (Some b) (count + 1)
         else Some (Inl Assert_Fail))"
  using assms by (simp_all add: Check_loop.simps [of fwd bwd final sz h] asserting_def)

lemma Check_loop_None [simp]: "Check_loop fwd bwd final sz h None count = Some (Inr count)"
  by (simp add: Check_loop.simps)

lemma Check_loop_sound:
  assumes fin: "finite (dom h)" and chain: "path bwd h (Some a) (a # vs) None"
  shows "\<exists>r. Check_loop fwd bwd final sz h (Some a) (int (length vs)) = Some r \<and>
    (\<forall>c. r = Inr c \<longrightarrow> (\<exists>xs. path fwd h (Some a) xs None \<and> path bwd h final (rev xs @ vs) None \<and>
       c = int (length vs + length xs)))"
  using chain
proof (induction "card (dom h) - length vs" arbitrary: a vs rule: less_induct)
  case less
  obtain nd where nd: "h a = Some nd" using less.prems by (auto split: option.splits)
  have le: "length (a # vs) \<le> card (dom h)" by (rule path_length_le [OF fin less.prems])
  show ?case
  proof (cases "fwd nd")
    case None
    then show ?thesis
      using nd less.prems by (auto simp: Check_loop_step(1) [where h = h and fwd = fwd, OF nd None] intro!: exI [of _ "[a]"])
  next
    case (Some b)
    show ?thesis
    proof (cases "h b")
      case None
      then show ?thesis by (simp add: Check_loop_step(2) [where h = h and fwd = fwd, OF nd Some])
    next
      case nx: (Some nx)
      show ?thesis
      proof (cases "bwd nx = Some a")
        case True
        then have "path bwd h (Some b) (b # a # vs) None" using nx less.prems by simp
        moreover have "card (dom h) - length (a # vs) < card (dom h) - length vs" using le by simp
        ultimately obtain r where
          r: "Check_loop fwd bwd final sz h (Some b) (int (length (a # vs))) = Some r"
          "\<forall>c. r = Inr c \<longrightarrow> (\<exists>xs. path fwd h (Some b) xs None \<and>
             path bwd h final (rev xs @ a # vs) None \<and> c = int (length (a # vs) + length xs))"
          using less.hyps [of "a # vs" b] by blast
        have "\<exists>xs. path fwd h (Some a) xs None \<and> path bwd h final (rev xs @ vs) None \<and>
            c = int (length vs + length xs)" if rc: "r = Inr c" for c
        proof -
          obtain xs where "path fwd h (Some b) xs None" "path bwd h final (rev xs @ a # vs) None"
            "c = int (length (a # vs) + length xs)" using r(2) rc by blast
          then show ?thesis using nd Some by (intro exI [of _ "a # xs"]) simp
        qed
        then show ?thesis
          using r(1) True by (simp add: Check_loop_step(3) [where h = h and fwd = fwd, OF nd Some nx] add.commute)
      next
        case False
        then show ?thesis by (simp add: Check_loop_step(3) [where h = h and fwd = fwd, OF nd Some nx])
      qed
    qed
  qed
qed

lemma Check_loop_complete:
  assumes "path fwd h p xs None" and "path bwd h final (rev xs @ vs) None"
    and "sz = int (length vs + length xs)"
  shows "Check_loop fwd bwd final sz h p (int (length vs)) = Some (Inr (int (length vs + length xs)))"
  using assms
proof (induction xs arbitrary: p vs)
  case (Cons a as)
  obtain nd where nd: "p = Some a" "h a = Some nd" using Cons.prems(1) by (auto split: option.splits)
  show ?case
  proof (cases as)
    case Nil
    then have "fwd nd = None" using Cons.prems(1) nd by simp
    then show ?thesis
      using Cons.prems nd Nil by (auto simp: Check_loop_step(1))
  next
    case (Cons b bs)
    then have b: "fwd nd = Some b" using Cons.prems(1) nd by (auto split: option.splits)
    obtain nx where nx: "h b = Some nx" "bwd nx = Some a"
      using Cons.prems(2) Cons by (auto split: option.splits)
    have "Check_loop fwd bwd final sz h (Some b) (int (length (a # vs))) =
        Some (Inr (int (length (a # vs) + length as)))"
      using Cons.prems nd b by (intro Cons.IH) auto
    then show ?thesis
      using nd b nx by (simp add: Check_loop_step(3) add.commute)
  qed
qed simp

lemma Check_ends_dll: "dll h l xs \<Longrightarrow> Check_ends h l = Inr ()"
proof (cases xs rule: rev_cases)
  case (snoc ys y)
  assume d: "dll h l xs"
  have "xs \<noteq> []" using snoc by simp
  then obtain z zs where z: "xs = z # zs" by (cases xs) simp_all
  have "\<exists>nz. h z = Some nz \<and> node_prev nz = None \<and> lru_head l = Some z"
    using d z by (auto simp: dll_def split: option.splits)
  moreover have "\<exists>ny. h y = Some ny \<and> node_next ny = None \<and> lru_tail l = Some y"
    using d snoc by (auto simp: dll_def split: option.splits)
  ultimately show ?thesis using d snoc by (auto simp: Check_ends_def dll_def)
qed (auto simp: Check_ends_def dll_def)

lemma Check_dll: "dll h l xs \<Longrightarrow> LRU_Check h l = Some (Inr ())"
  using Check_ends_dll [of h l xs]
    Check_loop_complete [of node_next h "lru_head l" xs node_prev "lru_tail l" "[]" "lru_size l"]
    Check_loop_complete [of node_prev h "lru_tail l" "rev xs" node_next "lru_head l" "[]" "lru_size l"]
  by (simp add: LRU_Check_def dll_def)

lemma Check_ends_Inr:
  assumes "Check_ends h l = Inr ()" and "lru_head l = Some a"
  shows "path node_prev h (Some a) [a] None"
  using assms by (auto simp: Check_ends_def asserting_Inr_iff rbind_Inr_iff split: if_splits option.splits)

lemma Check_total:
  assumes fin: "finite (dom h)"
  shows "\<exists>r. LRU_Check h l = Some r \<and> (r = Inr () \<longleftrightarrow> (\<exists>xs. dll h l xs))"
proof (cases "Check_ends h l")
  case (Inl e)
  then show ?thesis using Check_ends_dll by (fastforce simp: LRU_Check_def)
next
  case ends: (Inr u)
  show ?thesis
  proof (cases "lru_head l")
    case None
    then have "lru_tail l = None"
      using ends by (auto simp: Check_ends_def asserting_def split: if_splits)
    then show ?thesis
      using None ends by (auto simp: LRU_Check_def dll_def asserting_def path_None_iff dest: sym)
  next
    case (Some a)
    have "path node_prev h (Some a) [a] None"
      using ends Some by (intro Check_ends_Inr) simp_all
    from Check_loop_sound [OF fin this, of node_next "lru_tail l" "lru_size l"] obtain r where
      r: "Check_loop node_next node_prev (lru_tail l) (lru_size l) h (Some a) 0 = Some r"
      "\<And>c. r = Inr c \<Longrightarrow> \<exists>xs. path node_next h (Some a) xs None \<and>
        path node_prev h (lru_tail l) (rev xs) None \<and> c = int (length xs)"
      by auto
    show ?thesis
    proof (cases "r = Inr (lru_size l)")
      case True
      then obtain xs where "dll h l xs" using r(2) Some by (auto simp: dll_def)
      then show ?thesis using Check_dll by blast
    next
      case False
      then have "\<exists>e. LRU_Check h l = Some (Inl e)"
        using ends Some r(1) by (cases r) (auto simp: LRU_Check_def)
      then show ?thesis using Check_dll by fastforce
    qed
  qed
qed

section \<open>The destructor\<close>

lemma LRU_delete_nonempty: "dll h l xs \<Longrightarrow> xs \<noteq> [] \<Longrightarrow> LRU_delete l h = Some (Inl Bad_Deref)"
  by (cases xs) (auto simp: LRU_delete_def dll_def LRU_delete_loop.simps)

lemma LRU_delete_empty: "dll h l [] \<Longrightarrow> LRU_delete l h = Some (Inr h)"
  by (auto simp: LRU_delete_def dll_def LRU_delete_loop.simps)

section \<open>Properties\<close>

text \<open>
  C12: \<open>LRU::Check\<close> always ends on a finite heap, whatever the links are (cycles included), and it
  passes all its assertions exactly when the list object implements some sequence of nodes: the
  \<open>next_\<close> links from \<open>head_\<close> give it, the \<open>prev_\<close> links from \<open>tail_\<close> give its reverse, and
  \<open>size_\<close> is its length.
\<close>

theorem LRU_Check_decides:
  assumes "finite (dom h)"
  shows "\<exists>r. LRU_Check h l = Some r \<and> (r = Inr () \<longleftrightarrow> (\<exists>xs. dll h l xs))"
  using assms by (rule Check_total)

theorem LRU_Check_decides_witness:
  "\<exists>r. LRU_Check [0 \<mapsto> (PageNode_new 0 [])\<lparr>node_next := Some 0\<rparr>]
          \<lparr>lru_head = Some 0, lru_tail = Some 0, lru_size = 1\<rparr> = Some r"
  using LRU_Check_decides [of "[0 \<mapsto> (PageNode_new 0 [])\<lparr>node_next := Some 0\<rparr>]"
    "\<lparr>lru_head = Some 0, lru_tail = Some 0, lru_size = 1\<rparr>"] by auto

text \<open>
  C16: \<open>LRU::Prepend\<close> and \<open>LRU::Popback\<close> implement a double-ended sequence. On a list that
  implements \<open>xs\<close>, prepending a node outside it whose \<open>prev_\<close> is null succeeds and gives
  \<open>n # xs\<close>; \<open>Popback\<close> returns null on the empty list and else detaches the last node. Both
  leave every page and every node outside the list and the moved node unchanged.
\<close>

theorem LRU_refines_sequence:
  assumes "dll h l xs"
  shows "(\<forall>n nd. h n = Some nd \<and> node_prev nd = None \<and> n \<notin> set xs \<longrightarrow>
      (\<exists>h' l'. Prepend (Some n) h l = Inr (h', l') \<and> dll h' l' (n # xs) \<and> same_pages h h' \<and>
        same_off (insert n (set xs)) h h')) \<and>
    (xs = [] \<longrightarrow> Popback h l = Inr (None, h, l)) \<and>
    (\<forall>ys n. xs = ys @ [n] \<longrightarrow>
      (\<exists>h' l' nd. Popback h l = Inr (Some n, h', l') \<and> dll h' l' ys \<and> same_pages h h' \<and>
        same_off (set xs) h h' \<and> h' n = Some nd \<and> node_prev nd = None))"
proof (intro conjI allI impI)
  show "\<exists>h' l'. Prepend (Some n) h l = Inr (h', l') \<and> dll h' l' (n # xs) \<and> same_pages h h' \<and>
        same_off (insert n (set xs)) h h'" if "h n = Some nd \<and> node_prev nd = None \<and> n \<notin> set xs" for n nd
    using that by (intro Prepend_dll [OF assms, of n nd]) simp_all
  show "Popback h l = Inr (None, h, l)" if "xs = []" using Popback_empty assms that by blast
  show "\<exists>h' l' nd. Popback h l = Inr (Some n, h', l') \<and> dll h' l' ys \<and> same_pages h h' \<and>
        same_off (set xs) h h' \<and> h' n = Some nd \<and> node_prev nd = None" if "xs = ys @ [n]" for ys n
    using Popback_dll [of h l ys n] assms that by simp
qed

theorem LRU_refines_sequence_witness:
  "\<exists>h' l'. Prepend (Some 4) [4 \<mapsto> PageNode_new 0 []] LRU_new = Inr (h', l') \<and> dll h' l' [4]"
proof -
  let ?nd = "PageNode_new 0 []"
  have "[4 \<mapsto> ?nd] 4 = Some ?nd \<and> node_prev ?nd = None \<and> 4 \<notin> set []" by (simp add: PageNode_new_def)
  with LRU_refines_sequence [OF dll_new [of "[4 \<mapsto> ?nd]"]] show ?thesis by blast
qed

text \<open>
  The destructor \<open>LRU::~LRU\<close> reads \<open>next_\<close> of the node it has just deleted: on every
  non-empty list it accesses freed memory; only the empty list is destroyed without one.
\<close>

lemma LRU_destructor_use_after_free:
  assumes "dll h l xs"
  shows "LRU_delete l h = Some (if xs = [] then Inr h else Inl Bad_Deref)"
  using assms LRU_delete_nonempty [of h l xs] LRU_delete_empty [of h l] by (cases xs) auto

lemma LRU_destructor_use_after_free_witness:
  "LRU_delete \<lparr>lru_head = Some 0, lru_tail = Some 0, lru_size = 1\<rparr> [0 \<mapsto> PageNode_new 0 []]
     = Some (Inl Bad_Deref)"
  using LRU_destructor_use_after_free [of "[0 \<mapsto> PageNode_new 0 []]"
    "\<lparr>lru_head = Some 0, lru_tail = Some 0, lru_size = 1\<rparr>" "[0]"]
  by (simp add: dll_def PageNode_new_def)

end
