(* ===== verification/Disk.thy ===== *)
theory Disk
  imports Globals "HOL-Library.Char_ord" "HOL-Library.List_Lexorder"
begin

text \<open>
  The page stores under the buffer: \<open>MemoryIO\<close> (\<open>common/storage/disk/memory_io.cpp\<close>) and
  \<open>FileIO\<close> (\<open>common/storage/disk/file_io.cpp\<close>). The POSIX calls \<open>open\<close>, \<open>pwrite\<close>,
  \<open>pread\<close> and \<open>close\<close> are a parameter of \<open>FileIO\<close>; \<open>posix_laws\<close> names the documented
  behaviour the code relies on. Both stores meet the contract \<open>page_disk\<close> the buffer uses.
\<close>

section \<open>The operations the buffer calls\<close>

text \<open>
  \<open>ReadPage(page_id, buf)\<close> overwrites (part of) the caller's buffer, \<open>WritePage\<close> stores the
  bytes of the buffer. The buffer ignores the returned counts, so the interface drops them.
\<close>

record 'd disk_ops =
  ReadPage :: "u64 \<Rightarrow> bytes \<Rightarrow> 'd \<Rightarrow> (bytes \<times> 'd) res"
  WritePage :: "u64 \<Rightarrow> bytes \<Rightarrow> 'd \<Rightarrow> 'd res"

section \<open>MemoryIO\<close>

type_synonym memory_io = "u64 \<Rightarrow> bytes option"

definition MemoryIO_Write :: "u64 \<Rightarrow> bytes \<Rightarrow> memory_io \<Rightarrow> (int \<times> memory_io) res" where
  "MemoryIO_Write page_id buf db =
     (let db1 = (if db page_id \<noteq> None then db(page_id := None) else db) in
      rbind (read_at buf 0 MY_PAGE_SIZE) (\<lambda>s. Inr (0, db1(page_id \<mapsto> s))))"

definition MemoryIO_Read :: "u64 \<Rightarrow> bytes \<Rightarrow> memory_io \<Rightarrow> (int \<times> bytes) res" where
  "MemoryIO_Read page_id buf db =
     (case db page_id of
        None \<Rightarrow> Inr (- 1, buf)
      | Some s \<Rightarrow> rbind (read_at s 0 MY_PAGE_SIZE) (\<lambda>src.
                  rbind (memcpy_at buf 0 src) (\<lambda>b. Inr (0, b))))"

definition memory_disk :: "memory_io disk_ops" where
  "memory_disk =
     \<lparr>ReadPage = \<lambda>i buf db. rbind (MemoryIO_Read i buf db) (\<lambda>(_, b). Inr (b, db)),
      WritePage = \<lambda>i buf db. rbind (MemoryIO_Write i buf db) (\<lambda>(_, db'). Inr db')\<rparr>"

section \<open>FileIO\<close>

subsection \<open>The POSIX calls\<close>

text \<open>
  \<open>sys_open path w\<close> returns the descriptor (negative on failure), \<open>sys_pwrite fd buf off\<close> and
  \<open>sys_close fd\<close> the call's integer result, and \<open>sys_pread fd n off\<close> the bytes it stored into
  the caller's buffer (\<open>None\<close> where it returns -1).
\<close>

record 'w posix =
  sys_open :: "string \<Rightarrow> 'w \<Rightarrow> int \<times> 'w"
  sys_pwrite :: "int \<Rightarrow> bytes \<Rightarrow> nat \<Rightarrow> 'w \<Rightarrow> int \<times> 'w"
  sys_pread :: "int \<Rightarrow> nat \<Rightarrow> nat \<Rightarrow> 'w \<Rightarrow> bytes option \<times> 'w"
  sys_close :: "int \<Rightarrow> 'w \<Rightarrow> int \<times> 'w"

text \<open>The bytes of a file after a positioned write: a gap behind the old end reads as zeros.\<close>

definition file_write :: "bytes \<Rightarrow> nat \<Rightarrow> bytes \<Rightarrow> bytes" where
  "file_write c off b = take off (c @ replicate (off - length c) 0) @ b @ drop (off + length b) c"

text \<open>
  What \<open>FileIO\<close> relies on, with \<open>content w path\<close> the bytes of a file (empty for one that does
  not exist) and \<open>fdpath w\<close> the table of open descriptors: \<open>open\<close> with \<open>O_CREAT\<close> succeeds with
  a fresh positive descriptor and changes no byte, \<open>pwrite\<close> on an open descriptor stores the whole
  buffer at the offset and returns its length, \<open>pread\<close> returns the bytes that are there and changes nothing.
\<close>

definition posix_laws ::
  "'w posix \<Rightarrow> ('w \<Rightarrow> string \<Rightarrow> bytes) \<Rightarrow> ('w \<Rightarrow> int \<Rightarrow> string option) \<Rightarrow> bool" where
  "posix_laws P content fdpath \<longleftrightarrow>
     (\<forall>path w fd w'. sys_open P path w = (fd, w') \<longrightarrow>
        0 < fd \<and> fdpath w fd = None \<and> fdpath w' = (fdpath w)(fd \<mapsto> path) \<and> content w' = content w) \<and>
     (\<forall>fd buf off w n w' path. sys_pwrite P fd buf off w = (n, w') \<longrightarrow> fdpath w fd = Some path \<longrightarrow>
        n = int (length buf) \<and> fdpath w' = fdpath w \<and>
        content w' = (content w)(path := file_write (content w path) off buf)) \<and>
     (\<forall>fd n off w r w' path. sys_pread P fd n off w = (r, w') \<longrightarrow> fdpath w fd = Some path \<longrightarrow>
        r = Some (take n (drop off (content w path))) \<and> fdpath w' = fdpath w \<and>
        content w' = content w)"

subsection \<open>State and operations\<close>

text \<open>
  \<open>opened_file_\<close> is a \<open>std::map\<close>: its entries in key order, since \<open>Close\<close> iterates over them.
\<close>

record 'w file_io =
  opened_file :: "(string \<times> int) list"
  world :: 'w

definition page_path :: "u64 \<Rightarrow> string" where
  "page_path page_id = DB_PREFIX @ dec_string (unat page_id div ITEM_NUM_PER_FILE) @ DB_SUFIX"

definition page_offset :: "u64 \<Rightarrow> nat" where
  "page_offset page_id = (unat page_id mod ITEM_NUM_PER_FILE) * MY_PAGE_SIZE"

definition FileIO_Open :: "'w posix \<Rightarrow> string \<Rightarrow> 'w file_io \<Rightarrow> (int \<times> 'w file_io) res" where
  "FileIO_Open P path s =
     (case sys_open P path (world s) of (fd, w) \<Rightarrow>
        asserting (0 < fd)
          (Inr (fd, s\<lparr>opened_file := (if map_of (opened_file s) path = None
                                       then insort_key fst (path, fd) (opened_file s)
                                       else opened_file s),
                     world := w\<rparr>)))"

definition FileIO_Write :: "'w posix \<Rightarrow> int \<Rightarrow> bytes \<Rightarrow> nat \<Rightarrow> nat \<Rightarrow> 'w file_io \<Rightarrow> (int \<times> 'w file_io) res" where
  "FileIO_Write P fd buf count offset s =
     rbind (read_at buf 0 count) (\<lambda>b.
     (case sys_pwrite P fd b offset (world s) of (n, w) \<Rightarrow> Inr (n, s\<lparr>world := w\<rparr>)))"

definition FileIO_Read ::
  "'w posix \<Rightarrow> int \<Rightarrow> bytes \<Rightarrow> nat \<Rightarrow> nat \<Rightarrow> 'w file_io \<Rightarrow> (int \<times> bytes \<times> 'w file_io) res" where
  "FileIO_Read P fd buf count offset s =
     (case sys_pread P fd count offset (world s) of
        (None, w) \<Rightarrow> Inr (- 1, buf, s\<lparr>world := w\<rparr>)
      | (Some b, w) \<Rightarrow> rbind (memcpy_at buf 0 b) (\<lambda>buf'.
                       Inr (int (length b), buf', s\<lparr>world := w\<rparr>)))"

text \<open>The descriptor of a page's file: the cached one, or a new one.\<close>

definition page_fd :: "'w posix \<Rightarrow> u64 \<Rightarrow> 'w file_io \<Rightarrow> (int \<times> 'w file_io) res" where
  "page_fd P page_id s =
     rbind (case map_of (opened_file s) (page_path page_id) of
              Some fd \<Rightarrow> Inr (fd, s)
            | None \<Rightarrow> FileIO_Open P (page_path page_id) s)
       (\<lambda>(fd, s1). asserting (0 < fd) (Inr (fd, s1)))"

definition FileIO_WritePage :: "'w posix \<Rightarrow> u64 \<Rightarrow> bytes \<Rightarrow> 'w file_io \<Rightarrow> (int \<times> 'w file_io) res" where
  "FileIO_WritePage P page_id buf s =
     rbind (page_fd P page_id s) (\<lambda>(fd, s1). FileIO_Write P fd buf MY_PAGE_SIZE (page_offset page_id) s1)"

definition FileIO_ReadPage ::
  "'w posix \<Rightarrow> u64 \<Rightarrow> bytes \<Rightarrow> 'w file_io \<Rightarrow> (int \<times> bytes \<times> 'w file_io) res" where
  "FileIO_ReadPage P page_id buf s =
     rbind (page_fd P page_id s) (\<lambda>(fd, s1). FileIO_Read P fd buf MY_PAGE_SIZE (page_offset page_id) s1)"

text \<open>
  Both \<open>Close\<close> functions erase the entry their range-based \<open>for\<close> stands on, so the step to the
  next entry uses an invalidated iterator.
\<close>

definition FileIO_Close_all :: "'w posix \<Rightarrow> 'w file_io \<Rightarrow> (int \<times> 'w file_io) res" where
  "FileIO_Close_all P s =
     (case opened_file s of
        [] \<Rightarrow> Inr (0, s)
      | (_, fd) # _ \<Rightarrow>
          (case sys_close P fd (world s) of (res, w) \<Rightarrow>
             if res < 0 then Inr (res, s\<lparr>world := w\<rparr>) else Inl Bad_Deref))"

definition FileIO_Close :: "'w posix \<Rightarrow> int \<Rightarrow> 'w file_io \<Rightarrow> (int \<times> 'w file_io) res" where
  "FileIO_Close P fd s =
     (case sys_close P fd (world s) of (res, w) \<Rightarrow>
        if fd \<in> set (map snd (opened_file s)) then Inl Bad_Deref else Inr (res, s\<lparr>world := w\<rparr>))"

definition file_disk :: "'w posix \<Rightarrow> 'w file_io disk_ops" where
  "file_disk P =
     \<lparr>ReadPage = \<lambda>i buf s. rbind (FileIO_ReadPage P i buf s) (\<lambda>(_, b, s'). Inr (b, s')),
      WritePage = \<lambda>i buf s. rbind (FileIO_WritePage P i buf s) (\<lambda>(_, s'). Inr s')\<rparr>"

section \<open>The contract of a page store\<close>

text \<open>
  \<open>dpage d\<close> is the map of pages the store \<open>d\<close> holds. A write makes the page readable and keeps
  every other page (pages in a gap before the written one may appear); a read changes no page and
  delivers the stored one.
\<close>

locale page_disk =
  fixes D :: "'d disk_ops"
    and dinv :: "'d \<Rightarrow> bool"
    and dpage :: "'d \<Rightarrow> u64 \<Rightarrow> bytes option"
  assumes write_page: "dinv d \<Longrightarrow> length buf = MY_PAGE_SIZE \<Longrightarrow>
      \<exists>d'. WritePage D i buf d = Inr d' \<and> dinv d' \<and> (dpage d)(i \<mapsto> buf) \<subseteq>\<^sub>m dpage d'"
    and read_page: "dinv d \<Longrightarrow> length buf = MY_PAGE_SIZE \<Longrightarrow>
      \<exists>buf' d'. ReadPage D i buf d = Inr (buf', d') \<and> length buf' = MY_PAGE_SIZE \<and> dinv d' \<and>
        dpage d' = dpage d \<and> (\<forall>c. dpage d i = Some c \<longrightarrow> buf' = c)"
    and page_length: "dinv d \<Longrightarrow> dpage d i = Some c \<Longrightarrow> length c = MY_PAGE_SIZE"
begin

lemma read_written:
  assumes "dinv d" "length buf = MY_PAGE_SIZE" "length buf0 = MY_PAGE_SIZE" "WritePage D i buf d = Inr d'"
  shows "\<exists>d''. ReadPage D i buf0 d' = Inr (buf, d'')"
proof -
  have "dinv d'" "(dpage d)(i \<mapsto> buf) \<subseteq>\<^sub>m dpage d'"
    using write_page [OF assms(1,2), of i] assms(4) by auto
  moreover from this(2) have "dpage d' i = Some buf" by (auto simp: map_le_def)
  ultimately show ?thesis using read_page [of d' buf0 i] assms(3) by fastforce
qed

end

section \<open>MemoryIO meets the contract\<close>

definition memory_inv :: "memory_io \<Rightarrow> bool" where
  "memory_inv db \<longleftrightarrow> (\<forall>i c. db i = Some c \<longrightarrow> length c = MY_PAGE_SIZE)"

interpretation mem: page_disk memory_disk memory_inv "\<lambda>db. db"
proof
  fix d :: memory_io and buf :: bytes and i
  assume "memory_inv d" "length buf = MY_PAGE_SIZE"
  then show "\<exists>d'. WritePage memory_disk i buf d = Inr d' \<and> memory_inv d' \<and> d(i \<mapsto> buf) \<subseteq>\<^sub>m d'"
    by (auto simp: memory_disk_def MemoryIO_Write_def read_at_def memory_inv_def Let_def)
next
  fix d :: memory_io and buf :: bytes and i
  assume "memory_inv d" "length buf = MY_PAGE_SIZE"
  then show "\<exists>buf' d'. ReadPage memory_disk i buf d = Inr (buf', d') \<and> length buf' = MY_PAGE_SIZE \<and>
      memory_inv d' \<and> d' = d \<and> (\<forall>c. d i = Some c \<longrightarrow> buf' = c)"
    by (cases "d i") (auto simp: memory_disk_def MemoryIO_Read_def read_at_def memory_inv_def memcpy_at_def)
next
  show "memory_inv d \<Longrightarrow> d i = Some c \<Longrightarrow> length c = MY_PAGE_SIZE" for d i c
    by (simp add: memory_inv_def)
qed

section \<open>FileIO meets the contract\<close>

text \<open>The page a file holds at its place, if the file reaches that far.\<close>

definition file_page :: "('w \<Rightarrow> string \<Rightarrow> bytes) \<Rightarrow> 'w file_io \<Rightarrow> u64 \<Rightarrow> bytes option" where
  "file_page content s i =
     (let c = content (world s) (page_path i) in
      if page_offset i + MY_PAGE_SIZE \<le> length c
      then Some (take MY_PAGE_SIZE (drop (page_offset i) c)) else None)"

text \<open>Every cached descriptor is open on the file it is cached for.\<close>

definition file_inv :: "('w \<Rightarrow> int \<Rightarrow> string option) \<Rightarrow> 'w file_io \<Rightarrow> bool" where
  "file_inv fdpath s \<longleftrightarrow>
     (\<forall>path fd. map_of (opened_file s) path = Some fd \<longrightarrow> 0 < fd \<and> fdpath (world s) fd = Some path)"

lemma posix_openD:
  "posix_laws P content fdpath \<Longrightarrow> sys_open P path w = (fd, w') \<Longrightarrow>
   0 < fd \<and> fdpath w fd = None \<and> fdpath w' = (fdpath w)(fd \<mapsto> path) \<and> content w' = content w"
  unfolding posix_laws_def by blast

lemma posix_pwriteD:
  "posix_laws P content fdpath \<Longrightarrow> sys_pwrite P fd buf off w = (n, w') \<Longrightarrow> fdpath w fd = Some path \<Longrightarrow>
   n = int (length buf) \<and> fdpath w' = fdpath w \<and> content w' = (content w)(path := file_write (content w path) off buf)"
  unfolding posix_laws_def by blast

lemma posix_preadD:
  "posix_laws P content fdpath \<Longrightarrow> sys_pread P fd n off w = (r, w') \<Longrightarrow> fdpath w fd = Some path \<Longrightarrow>
   r = Some (take n (drop off (content w path))) \<and> fdpath w' = fdpath w \<and> content w' = content w"
  unfolding posix_laws_def by blast

lemma map_of_insort_key:
  "map_of xs k = None \<Longrightarrow> map_of (insort_key fst (k, v) xs) = (map_of xs)(k \<mapsto> v)"
  by (induction xs) (auto simp: fun_eq_iff)

lemma page_path_eq_iff: "page_path i = page_path j \<longleftrightarrow> unat i div ITEM_NUM_PER_FILE = unat j div ITEM_NUM_PER_FILE"
  by (simp add: page_path_def)

lemma page_place_inj:
  assumes "page_path i = page_path j" and "page_offset i = page_offset j"
  shows "i = j"
proof -
  have "unat i div ITEM_NUM_PER_FILE = unat j div ITEM_NUM_PER_FILE"
    using assms(1) by (simp add: page_path_eq_iff)
  moreover have "unat i mod ITEM_NUM_PER_FILE = unat j mod ITEM_NUM_PER_FILE"
    using assms(2) by (simp add: page_offset_def MY_PAGE_SIZE_def)
  ultimately have "unat i = unat j"
    by (metis div_mult_mod_eq)
  then show ?thesis by (simp add: word_eq_iff_unsigned [where 'a = nat])
qed

text \<open>Two different pages of one file occupy disjoint ranges.\<close>

lemma page_offset_disjoint:
  assumes "page_path i = page_path j" and "i \<noteq> j"
  shows "page_offset i + MY_PAGE_SIZE \<le> page_offset j \<or> page_offset j + MY_PAGE_SIZE \<le> page_offset i"
proof -
  have "unat i mod ITEM_NUM_PER_FILE \<noteq> unat j mod ITEM_NUM_PER_FILE"
    using assms page_place_inj [of i j] by (auto simp: page_offset_def)
  then have "Suc (unat i mod ITEM_NUM_PER_FILE) \<le> unat j mod ITEM_NUM_PER_FILE \<or>
             Suc (unat j mod ITEM_NUM_PER_FILE) \<le> unat i mod ITEM_NUM_PER_FILE" by linarith
  then have "Suc (unat i mod ITEM_NUM_PER_FILE) * MY_PAGE_SIZE \<le> (unat j mod ITEM_NUM_PER_FILE) * MY_PAGE_SIZE \<or>
             Suc (unat j mod ITEM_NUM_PER_FILE) * MY_PAGE_SIZE \<le> (unat i mod ITEM_NUM_PER_FILE) * MY_PAGE_SIZE"
    using mult_le_mono1 by blast
  then show ?thesis
    by (simp add: page_offset_def add.commute)
qed

lemma length_file_write: "length (file_write c off b) = max (length c) (off + length b)"
  by (auto simp: file_write_def)

lemma file_write_read:
  "take (length b) (drop off (file_write c off b)) = b"
  by (auto simp: file_write_def)

lemma file_write_other:
  assumes "o2 + n \<le> length c" and "o2 + n \<le> off \<or> off + length b \<le> o2"
  shows "take n (drop o2 (file_write c off b)) = take n (drop o2 c)"
  using assms(2)
proof
  assume le: "o2 + n \<le> off"
  have "take (n + o2) (file_write c off b) = take (n + o2) c"
    using le assms(1) by (simp add: file_write_def min_def)
  then show ?thesis by (simp only: take_drop)
next
  assume ge: "off + length b \<le> o2"
  then have "drop o2 (file_write c off b) = drop o2 c"
    using assms(1) by (simp add: file_write_def)
  then show ?thesis by simp
qed

lemma page_fd_ok:
  assumes L: "posix_laws P content fdpath" and I: "file_inv fdpath s"
  obtains fd s1 where "page_fd P i s = Inr (fd, s1)" and "file_inv fdpath s1"
    and "fdpath (world s1) fd = Some (page_path i)" and "content (world s1) = content (world s)"
proof (cases "map_of (opened_file s) (page_path i)")
  case (Some fd)
  then show ?thesis
    using that [of fd s] I by (auto simp: page_fd_def file_inv_def)
next
  case None
  obtain fd w where o: "sys_open P (page_path i) (world s) = (fd, w)" by fastforce
  note l = posix_openD [OF L o]
  let ?s = "s\<lparr>opened_file := insort_key fst (page_path i, fd) (opened_file s), world := w\<rparr>"
  have "page_fd P i s = Inr (fd, ?s)"
    using None o l by (simp add: page_fd_def FileIO_Open_def)
  moreover have "file_inv fdpath ?s"
    using I l None by (auto simp: file_inv_def map_of_insort_key)
  ultimately show ?thesis
    using that [of fd ?s] l by simp
qed

lemma file_page_write:
  assumes "content (world s') = (content (world s))(page_path i :=
      file_write (content (world s) (page_path i)) (page_offset i) buf)"
    and "length buf = MY_PAGE_SIZE"
  shows "(file_page content s)(i \<mapsto> buf) \<subseteq>\<^sub>m file_page content s'"
proof (rule map_leI)
  fix j c
  assume j: "((file_page content s)(i \<mapsto> buf)) j = Some c"
  show "file_page content s' j = Some c"
  proof (cases "j = i")
    case True
    then show ?thesis
      using j assms file_write_read [of buf "page_offset i"]
      by (simp add: file_page_def Let_def length_file_write)
  next
    case False
    then have old: "file_page content s j = Some c" using j by simp
    then have len: "page_offset j + MY_PAGE_SIZE \<le> length (content (world s) (page_path j))"
      by (auto simp: file_page_def Let_def split: if_splits)
    show ?thesis
    proof (cases "page_path j = page_path i")
      case same: True
      show ?thesis
        using old len same assms page_offset_disjoint [OF same False]
          file_write_other [of "page_offset j" MY_PAGE_SIZE "content (world s) (page_path i)" "page_offset i" buf]
        by (auto simp: file_page_def Let_def length_file_write split: if_splits)
    next
      case False
      then show ?thesis using old assms by (simp add: file_page_def)
    qed
  qed
qed

lemma file_page_cong:
  "content (world s') = content (world s) \<Longrightarrow> file_page content s' = file_page content s"
  by (simp add: file_page_def fun_eq_iff)

text \<open>
  \<open>FileIO\<close> over any POSIX layer with the documented behaviour is a page store: pages never
  overlap, although many share one file.
\<close>

lemma file_page_disk:
  assumes L: "posix_laws P content fdpath"
  shows "page_disk (file_disk P) (file_inv fdpath) (file_page content)"
proof
  fix s and buf :: bytes and i
  assume I: "file_inv fdpath s" and len: "length buf = MY_PAGE_SIZE"
  obtain fd s1 where fd: "page_fd P i s = Inr (fd, s1)" "file_inv fdpath s1"
    "fdpath (world s1) fd = Some (page_path i)" "content (world s1) = content (world s)"
    by (rule page_fd_ok [OF L I])
  obtain n w where w: "sys_pwrite P fd buf (page_offset i) (world s1) = (n, w)" by fastforce
  note l = posix_pwriteD [OF L w fd(3)]
  have "WritePage (file_disk P) i buf s = Inr (s1\<lparr>world := w\<rparr>)"
    using fd(1) w len by (simp add: file_disk_def FileIO_WritePage_def FileIO_Write_def read_at_def)
  moreover have "file_inv fdpath (s1\<lparr>world := w\<rparr>)"
    using fd(2) l by (simp add: file_inv_def)
  moreover have "(file_page content s)(i \<mapsto> buf) \<subseteq>\<^sub>m file_page content (s1\<lparr>world := w\<rparr>)"
    by (rule file_page_write) (use l fd(4) len in simp_all)
  ultimately show "\<exists>d'. WritePage (file_disk P) i buf s = Inr d' \<and> file_inv fdpath d' \<and>
      (file_page content s)(i \<mapsto> buf) \<subseteq>\<^sub>m file_page content d'" by blast
next
  fix s and buf :: bytes and i
  assume I: "file_inv fdpath s" and len: "length buf = MY_PAGE_SIZE"
  obtain fd s1 where fd: "page_fd P i s = Inr (fd, s1)" "file_inv fdpath s1"
    "fdpath (world s1) fd = Some (page_path i)" "content (world s1) = content (world s)"
    by (rule page_fd_ok [OF L I])
  obtain r w where w: "sys_pread P fd MY_PAGE_SIZE (page_offset i) (world s1) = (r, w)" by fastforce
  note l = posix_preadD [OF L w fd(3)]
  define b where "b = take MY_PAGE_SIZE (drop (page_offset i) (content (world s) (page_path i)))"
  have blen: "length b \<le> MY_PAGE_SIZE" by (simp add: b_def)
  then have R: "ReadPage (file_disk P) i buf s = Inr (b @ drop (length b) buf, s1\<lparr>world := w\<rparr>)"
    using fd w l len by (simp add: file_disk_def FileIO_ReadPage_def FileIO_Read_def memcpy_at_def b_def)
  have "\<forall>c. file_page content s i = Some c \<longrightarrow> b @ drop (length b) buf = c"
    using len by (auto simp: file_page_def Let_def b_def split: if_splits)
  with R show "\<exists>buf' d'. ReadPage (file_disk P) i buf s = Inr (buf', d') \<and> length buf' = MY_PAGE_SIZE \<and>
      file_inv fdpath d' \<and> file_page content d' = file_page content s \<and>
      (\<forall>c. file_page content s i = Some c \<longrightarrow> buf' = c)"
    using fd(2,4) l blen len
    by (intro exI [of _ "b @ drop (length b) buf"] exI [of _ "s1\<lparr>world := w\<rparr>"])
       (auto simp: file_inv_def intro!: file_page_cong)
next
  show "file_inv fdpath s \<Longrightarrow> file_page content s i = Some c \<Longrightarrow> length c = MY_PAGE_SIZE" for s i c
    by (auto simp: file_page_def Let_def split: if_splits)
qed

section \<open>A POSIX layer in memory\<close>

text \<open>
  A POSIX layer with the named behaviour: descriptor \<open>k\<close> is the \<open>k\<close>-th path opened. It shows
  that \<open>posix_laws\<close> can hold.
\<close>

record mem_world =
  mem_files :: "string \<Rightarrow> bytes"
  mem_fds :: "string list"

definition mem_fdpath :: "mem_world \<Rightarrow> int \<Rightarrow> string option" where
  "mem_fdpath w fd =
     (if 0 < fd \<and> nat fd \<le> length (mem_fds w) then Some (mem_fds w ! (nat fd - 1)) else None)"

definition mem_posix :: "mem_world posix" where
  "mem_posix =
     \<lparr>sys_open = \<lambda>path w. (int (length (mem_fds w)) + 1, w\<lparr>mem_fds := mem_fds w @ [path]\<rparr>),
      sys_pwrite = \<lambda>fd buf off w. (case mem_fdpath w fd of
          None \<Rightarrow> (- 1, w)
        | Some p \<Rightarrow> (int (length buf),
            w\<lparr>mem_files := (mem_files w)(p := file_write (mem_files w p) off buf)\<rparr>)),
      sys_pread = \<lambda>fd n off w. (case mem_fdpath w fd of
          None \<Rightarrow> (None, w)
        | Some p \<Rightarrow> (Some (take n (drop off (mem_files w p))), w)),
      sys_close = \<lambda>fd w. (0, w)\<rparr>"

definition mem_world0 :: "mem_world file_io" where
  "mem_world0 = \<lparr>opened_file = [], world = \<lparr>mem_files = (\<lambda>_. []), mem_fds = []\<rparr>\<rparr>"

lemma mem_posix_laws: "posix_laws mem_posix mem_files mem_fdpath"
  unfolding posix_laws_def
proof (intro conjI allI impI)
  fix path w fd w'
  assume "sys_open mem_posix path w = (fd, w')"
  then have fd: "fd = int (length (mem_fds w)) + 1" and w': "w' = w\<lparr>mem_fds := mem_fds w @ [path]\<rparr>"
    by (simp_all add: mem_posix_def)
  show "0 < fd" "mem_fdpath w fd = None" "mem_files w' = mem_files w"
    by (simp_all add: fd w' mem_fdpath_def)
  show "mem_fdpath w' = (mem_fdpath w)(fd \<mapsto> path)"
    by (rule ext) (auto simp: fd w' mem_fdpath_def nth_append nat_add_distrib)
qed (auto simp: mem_posix_def mem_fdpath_def split: if_splits)

lemma mem_world0_inv: "file_inv mem_fdpath mem_world0"
  by (simp add: file_inv_def mem_world0_def)

section \<open>Properties\<close>

text \<open>
  C15: \<open>FileIO::WritePage\<close> and \<open>FileIO::ReadPage\<close> over a POSIX layer with the documented
  behaviour. Pages share files of \<open>ITEM_NUM_PER_FILE\<close> pages, opened on demand and cached by path;
  still, after writing page \<open>i\<close>, reading page \<open>i\<close> gives the written bytes, and reading any other
  page that was stored before gives what it gave before.
\<close>

theorem FileIO_write_then_read:
  assumes "posix_laws P content fdpath" and "file_inv fdpath s"
    and "length buf = MY_PAGE_SIZE" and "length out = MY_PAGE_SIZE"
  shows "\<exists>n s1. FileIO_WritePage P i buf s = Inr (n, s1) \<and> file_inv fdpath s1 \<and>
    (\<exists>k s2. FileIO_ReadPage P i out s1 = Inr (k, buf, s2)) \<and>
    (\<forall>j c. j \<noteq> i \<and> file_page content s j = Some c \<longrightarrow> (\<exists>k s2. FileIO_ReadPage P j out s1 = Inr (k, c, s2)))"
proof -
  note pd = file_page_disk [OF assms(1)]
  obtain s1 where W: "WritePage (file_disk P) i buf s = Inr s1" "file_inv fdpath s1"
    "(file_page content s)(i \<mapsto> buf) \<subseteq>\<^sub>m file_page content s1"
    using page_disk.write_page [OF pd assms(2,3)] by blast
  have R: "\<exists>k s2. FileIO_ReadPage P j out s1 = Inr (k, c, s2)" if pj: "file_page content s1 j = Some c" for j c
  proof -
    obtain s2 where "ReadPage (file_disk P) j out s1 = Inr (c, s2)"
      using page_disk.read_page [OF pd W(2) assms(4)] pj by blast
    then show ?thesis by (auto simp: file_disk_def rbind_Inr_iff)
  qed
  obtain n where "FileIO_WritePage P i buf s = Inr (n, s1)"
    using W(1) by (auto simp: file_disk_def rbind_Inr_iff)
  moreover have "file_page content s1 j = Some c" if "((file_page content s)(i \<mapsto> buf)) j = Some c" for j c
    using map_leD [OF W(3) that] .
  ultimately show ?thesis using W(2) R by (metis fun_upd_other fun_upd_same)
qed

theorem FileIO_write_then_read_witness:
  "\<exists>n s1. FileIO_WritePage mem_posix 7 (replicate MY_PAGE_SIZE 1) mem_world0 = Inr (n, s1) \<and>
     (\<exists>k s2. FileIO_ReadPage mem_posix 7 (replicate MY_PAGE_SIZE 0) s1 = Inr (k, replicate MY_PAGE_SIZE 1, s2))"
  using FileIO_write_then_read [OF mem_posix_laws mem_world0_inv, of "replicate MY_PAGE_SIZE 1"
    "replicate MY_PAGE_SIZE 0" 7] by auto

text \<open>
  Both \<open>FileIO::Close\<close> functions erase the map entry their loop stands on and then advance the
  invalidated iterator: a close that succeeds on a cached file never returns normally.
\<close>

lemma FileIO_Close_invalid_iterator:
  assumes "opened_file s = (path, fd) # rest" and "sys_close P fd (world s) = (res, w)" and "0 \<le> res"
  shows "FileIO_Close_all P s = Inl Bad_Deref \<and> FileIO_Close P fd s = Inl Bad_Deref"
  using assms by (simp add: FileIO_Close_all_def FileIO_Close_def)

lemma FileIO_Close_invalid_iterator_witness:
  "FileIO_Close_all mem_posix (mem_world0\<lparr>opened_file := [(''a'', 1)]\<rparr>) = Inl Bad_Deref"
  using FileIO_Close_invalid_iterator [of "mem_world0\<lparr>opened_file := [(''a'', 1)]\<rparr>" "''a''" 1 "[]" mem_posix]
  by (simp add: mem_posix_def)

end
