(* ===== verification/Buffer.thy ===== *)
theory Buffer
  imports LRU_List Disk
begin

text \<open>
  \<open>common/buffer/buffer.cpp\<close> and \<open>common/buffer/lru_index.cpp\<close>: the page cache of an instance.
  A fixed pool of nodes is split between \<open>page_list_\<close> (resident pages, found through
  \<open>lru_index_\<close>) and \<open>free_list_\<close>; a full pool writes its oldest fifth back to the page store.
  Seen from outside the cache and the store under it are one map from page numbers to pages.
\<close>

section \<open>LruIndex\<close>

datatype LruIndexFlag = EXIST | NOT_EXIST

type_synonym lru_map = "u64 \<Rightarrow> node_ptr option"

definition LruIndex_Get :: "u64 \<Rightarrow> lru_map \<Rightarrow> (LruIndexFlag \<times> node_ptr) res" where
  "LruIndex_Get pid m =
     (case m pid of
        None \<Rightarrow> Inr (NOT_EXIST, None)
      | Some p \<Rightarrow> asserting (p \<noteq> None) (Inr (EXIST, p)))"

definition LruIndex_Delete :: "u64 \<Rightarrow> lru_map \<Rightarrow> lru_map" where
  "LruIndex_Delete pid m = m(pid := None)"

definition LruIndex_Put :: "u64 \<Rightarrow> node_ptr \<Rightarrow> lru_map \<Rightarrow> lru_map" where
  "LruIndex_Put pid p m = (LruIndex_Delete pid m)(pid \<mapsto> p)"

section \<open>Buffer state and construction\<close>

record 'd buffer =
  page_num :: int
  page_list :: lru
  free_list :: lru
  lru_index :: lru_map
  nodes :: node_heap
  disk :: 'd

text \<open>
  The constructor's loop: one node per page of the pool, the pool being fresh anonymous memory
  (zeros). Node \<open>i\<close> is allocated at address \<open>i\<close>; \<open>vs i\<close> is the value its uninitialised
  \<open>version_\<close> happens to have.
\<close>

primrec init_free_list :: "(nat \<Rightarrow> u64) \<Rightarrow> nat \<Rightarrow> nat \<Rightarrow> (node_heap \<times> lru) res" where
  "init_free_list vs psize 0 = Inr (Map.empty, LRU_new)"
| "init_free_list vs psize (Suc i) =
     rbind (init_free_list vs psize i) (\<lambda>(h, fl).
       Prepend (Some i) (h(i \<mapsto> PageNode_new (vs i) (replicate psize 0))) fl)"

definition Buffer_new :: "(nat \<Rightarrow> u64) \<Rightarrow> u64 \<Rightarrow> u64 \<Rightarrow> 'd \<Rightarrow> 'd buffer res" where
  "Buffer_new vs total_size psize d =
     (if psize = 0 then Inl Div_By_Zero
      else (let num = signed_take_bit 31 (uint (total_size div psize)) in
        rbind (init_free_list vs (unat psize) (nat num)) (\<lambda>(h, fl).
        asserting (lru_size fl = num)
         (asserting (lru_size LRU_new = 0)
          (Inr \<lparr>page_num = num, page_list = LRU_new, free_list = fl, lru_index = Map.empty,
                nodes = h, disk = d\<rparr>)))))"

section \<open>Operations\<close>

text \<open>The loop body that \<open>FlushPageList\<close> and \<open>FlushALl\<close> share: evict the tail of \<open>page_list_\<close>.\<close>

definition flush_tail :: "'d disk_ops \<Rightarrow> 'd buffer \<Rightarrow> 'd buffer res" where
  "flush_tail D s =
     rbind (Popback (nodes s) (page_list s)) (\<lambda>(n, h1, pl).
     rbind (load h1 n) (\<lambda>nd.
     rbind (WritePage D (page_id (node_page nd)) (page_buf (node_page nd)) (disk s)) (\<lambda>d.
     rbind (update_node (node_page_update (\<lambda>_. set_page_id UINT64_MAX (node_page nd))) n h1) (\<lambda>h2.
     rbind (Prepend n h2 (free_list s)) (\<lambda>(h3, fl).
     Inr (s\<lparr>page_list := pl, free_list := fl, nodes := h3, disk := d,
            lru_index := LruIndex_Delete (page_id (node_page nd)) (lru_index s)\<rparr>))))))"

primrec times :: "nat \<Rightarrow> ('s \<Rightarrow> 's res) \<Rightarrow> 's \<Rightarrow> 's res" where
  "times 0 f s = Inr s"
| "times (Suc n) f s = rbind (f s) (times n f)"

definition FlushPageList :: "'d disk_ops \<Rightarrow> 'd buffer \<Rightarrow> 'd buffer res" where
  "FlushPageList D s =
     asserting (lru_size (free_list s) = 0)
      (asserting (lru_size (page_list s) = page_num s)
        (times (nat (page_num s div 5)) (flush_tail D) s))"

definition FlushALl :: "'d disk_ops \<Rightarrow> 'd buffer \<Rightarrow> 'd buffer res" where
  "FlushALl D s = times (nat (lru_size (page_list s))) (flush_tail D) s"

definition FreeListToPageList :: "u64 \<Rightarrow> bytes \<Rightarrow> nat \<Rightarrow> 'd buffer \<Rightarrow> 'd buffer res" where
  "FreeListToPageList pid buf count s =
     asserting (lru_size (free_list s) > 0)
      (asserting (lru_size (page_list s) < page_num s)
        (rbind (Popback (nodes s) (free_list s)) (\<lambda>(n, h1, fl).
         rbind (load h1 n) (\<lambda>nd.
         rbind (set_page_buf buf count (set_page_id pid (node_page nd))) (\<lambda>pg.
         rbind (update_node (node_page_update (\<lambda>_. pg)) n h1) (\<lambda>h2.
         rbind (Prepend n h2 (page_list s)) (\<lambda>(h3, pl).
         Inr (s\<lparr>page_list := pl, free_list := fl, nodes := h3,
                lru_index := LruIndex_Put pid n (lru_index s)\<rparr>))))))))"

text \<open>Make room if the pool is full, then let the page in: the critical section of a miss.\<close>

definition take_in :: "'d disk_ops \<Rightarrow> u64 \<Rightarrow> bytes \<Rightarrow> nat \<Rightarrow> 'd buffer \<Rightarrow> 'd buffer res" where
  "take_in D pid buf count s =
     rbind (if lru_size (free_list s) \<le> 0 then FlushPageList D s else Inr s)
       (FreeListToPageList pid buf count)"

definition BufferGetWithLock :: "'d disk_ops \<Rightarrow> u64 \<Rightarrow> bytes \<Rightarrow> nat \<Rightarrow> 'd buffer \<Rightarrow> (bytes \<times> 'd buffer) res" where
  "BufferGetWithLock D pid buf count s =
     asserting (lru_size (page_list s) + lru_size (free_list s) = page_num s)
      (rbind (LruIndex_Get pid (lru_index s)) (\<lambda>(flag, n).
        case flag of
          EXIST \<Rightarrow>
            (case LRU_Get n (nodes s) (page_list s) of (h, pl) \<Rightarrow>
             rbind (load h n) (\<lambda>nd.
             rbind (read_at (page_buf (node_page nd)) 0 count) (\<lambda>src.
             rbind (memcpy_at buf 0 src) (\<lambda>b.
             Inr (b, s\<lparr>nodes := h, page_list := pl\<rparr>)))))
        | NOT_EXIST \<Rightarrow>
            rbind (ReadPage D pid buf (disk s)) (\<lambda>(b, d).
            rbind (take_in D pid b count (s\<lparr>disk := d\<rparr>)) (\<lambda>s'.
            Inr (b, s')))))"

definition BufferPutWithLock :: "'d disk_ops \<Rightarrow> u64 \<Rightarrow> bytes \<Rightarrow> nat \<Rightarrow> 'd buffer \<Rightarrow> 'd buffer res" where
  "BufferPutWithLock D pid buf count s =
     asserting (lru_size (page_list s) + lru_size (free_list s) = page_num s)
      (rbind (LruIndex_Get pid (lru_index s)) (\<lambda>(flag, n).
        case flag of
          EXIST \<Rightarrow>
            asserting (n \<noteq> None)
             (case LRU_Get n (nodes s) (page_list s) of (h, pl) \<Rightarrow>
              rbind (load h n) (\<lambda>nd.
              rbind (set_page_buf buf count (node_page nd)) (\<lambda>pg.
              rbind (update_node (node_page_update (\<lambda>_. pg)) n h) (\<lambda>h'.
              Inr (s\<lparr>nodes := h', page_list := pl\<rparr>)))))
        | NOT_EXIST \<Rightarrow> asserting (n = None) (take_in D pid buf count s)))"

text \<open>
  The variants without the function-wide lock, cut where they hold no mutex: the size check and
  index lookup, and what follows it. Other threads may act between the two parts.
\<close>

definition Buffer_lookup :: "u64 \<Rightarrow> 'd buffer \<Rightarrow> (LruIndexFlag \<times> node_ptr) res" where
  "Buffer_lookup pid s =
     asserting (lru_size (page_list s) + lru_size (free_list s) = page_num s)
      (LruIndex_Get pid (lru_index s))"

definition BufferGet_rest ::
  "'d disk_ops \<Rightarrow> u64 \<Rightarrow> bytes \<Rightarrow> nat \<Rightarrow> LruIndexFlag \<times> node_ptr \<Rightarrow> 'd buffer \<Rightarrow> (bytes \<times> 'd buffer) res" where
  "BufferGet_rest D pid buf count found s =
     (case found of
        (EXIST, n) \<Rightarrow>
          (case LRU_Get n (nodes s) (page_list s) of (h, pl) \<Rightarrow>
           rbind (load h n) (\<lambda>nd.
           rbind (read_at (page_buf (node_page nd)) 0 count) (\<lambda>src.
           rbind (memcpy_at buf 0 src) (\<lambda>b.
           Inr (b, s\<lparr>nodes := h, page_list := pl\<rparr>)))))
      | (NOT_EXIST, n) \<Rightarrow>
          rbind (ReadPage D pid buf (disk s)) (\<lambda>(b, d).
          rbind (take_in D pid b count (s\<lparr>disk := d\<rparr>)) (\<lambda>s'.
          Inr (b, s'))))"

definition BufferPut_rest ::
  "'d disk_ops \<Rightarrow> u64 \<Rightarrow> bytes \<Rightarrow> nat \<Rightarrow> LruIndexFlag \<times> node_ptr \<Rightarrow> 'd buffer \<Rightarrow> 'd buffer res" where
  "BufferPut_rest D pid buf count found s =
     (case found of
        (EXIST, n) \<Rightarrow>
          (case LRU_Get n (nodes s) (page_list s) of (h, pl) \<Rightarrow>
           rbind (load h n) (\<lambda>nd.
           rbind (set_page_buf buf count (node_page nd)) (\<lambda>pg.
           rbind (update_node (node_page_update (\<lambda>_. pg)) n h) (\<lambda>h'.
           Inr (s\<lparr>nodes := h', page_list := pl\<rparr>)))))
      | (NOT_EXIST, n) \<Rightarrow> take_in D pid buf count s)"

definition BufferGet :: "'d disk_ops \<Rightarrow> u64 \<Rightarrow> bytes \<Rightarrow> nat \<Rightarrow> 'd buffer \<Rightarrow> (bytes \<times> 'd buffer) res" where
  "BufferGet D pid buf count s =
     rbind (Buffer_lookup pid s) (\<lambda>found. BufferGet_rest D pid buf count found s)"

definition BufferPut :: "'d disk_ops \<Rightarrow> u64 \<Rightarrow> bytes \<Rightarrow> nat \<Rightarrow> 'd buffer \<Rightarrow> 'd buffer res" where
  "BufferPut D pid buf count s =
     rbind (Buffer_lookup pid s) (\<lambda>found. BufferPut_rest D pid buf count found s)"

text \<open>The destructor up to the unmapping of the pool.\<close>

definition Buffer_delete :: "'d disk_ops \<Rightarrow> 'd buffer \<Rightarrow> 'd buffer res option" where
  "Buffer_delete D s =
     (case FlushALl D s of
        Inl e \<Rightarrow> Some (Inl e)
      | Inr s1 \<Rightarrow>
        (case LRU_delete (free_list s1) (nodes s1) of
           None \<Rightarrow> None
         | Some (Inl e) \<Rightarrow> Some (Inl e)
         | Some (Inr h) \<Rightarrow>
           (case LRU_delete (page_list s1) h of
              None \<Rightarrow> None
            | Some (Inl e) \<Rightarrow> Some (Inl e)
            | Some (Inr h') \<Rightarrow> Some (Inr (s1\<lparr>nodes := h'\<rparr>)))))"

end
