(* ===== verification/Buffer_Refinement.thy ===== *)
theory Buffer_Refinement
  imports Buffer
begin

text \<open>
  Correctness of the buffer over any page store with the contract \<open>page_disk\<close>: the invariant
  every operation keeps, and the refinement of the abstract map from page numbers to pages that
  cache and store together represent.
\<close>

section \<open>Invariant and abstraction\<close>

definition pg :: "node_heap \<Rightarrow> nat \<Rightarrow> page" where
  "pg h a = node_page (the (h a))"

text \<open>The index holds exactly the resident nodes, by page number.\<close>

definition index_ok :: "node_heap \<Rightarrow> lru_map \<Rightarrow> nat list \<Rightarrow> bool" where
  "index_ok h m ps \<longleftrightarrow> distinct (map (\<lambda>a. page_id (pg h a)) ps) \<and>
     (\<forall>i p. m i = Some p \<longleftrightarrow> (\<exists>a \<in> set ps. p = Some a \<and> page_id (pg h a) = i))"

text \<open>
  \<open>ps\<close> and \<open>fs\<close> are the node sequences of \<open>page_list_\<close> and \<open>free_list_\<close>: disjoint, together
  the whole pool, every buffer one page long.
\<close>

definition buf_inv :: "'d buffer \<Rightarrow> nat list \<Rightarrow> nat list \<Rightarrow> bool" where
  "buf_inv s ps fs \<longleftrightarrow>
     dll (nodes s) (page_list s) ps \<and> dll (nodes s) (free_list s) fs \<and> set ps \<inter> set fs = {} \<and>
     page_num s = int (length ps + length fs) \<and>
     (\<forall>a \<in> set ps \<union> set fs. length (page_buf (pg (nodes s) a)) = MY_PAGE_SIZE) \<and>
     index_ok (nodes s) (lru_index s) ps"

text \<open>The page a client sees: the resident copy, or else the stored one.\<close>

definition bview :: "('d \<Rightarrow> u64 \<Rightarrow> bytes option) \<Rightarrow> 'd buffer \<Rightarrow> u64 \<Rightarrow> bytes option" where
  "bview dpage s i =
     (case lru_index s i of
        Some (Some a) \<Rightarrow> Some (page_buf (pg (nodes s) a))
      | _ \<Rightarrow> dpage (disk s) i)"

lemma same_pages_pg: "same_pages h h' \<Longrightarrow> pg h' = pg h"
proof
  fix a
  assume "same_pages h h'"
  then have "map_option node_page (h' a) = map_option node_page (h a)" by (simp add: same_pages_def)
  then show "pg h' a = pg h a" by (cases "h a"; cases "h' a") (auto simp: pg_def)
qed

lemma index_ok_lookup:
  "index_ok h m ps \<Longrightarrow> a \<in> set ps \<Longrightarrow> m (page_id (pg h a)) = Some (Some a)"
  by (auto simp: index_ok_def)

lemma index_ok_None: "index_ok h m ps \<Longrightarrow> m i = None \<longleftrightarrow> (\<forall>a \<in> set ps. page_id (pg h a) \<noteq> i)"
  by (metis index_ok_def option.exhaust option.distinct(1))

lemma index_ok_Some: "index_ok h m ps \<Longrightarrow> m i = Some p \<longleftrightarrow> (\<exists>a \<in> set ps. p = Some a \<and> page_id (pg h a) = i)"
  by (simp add: index_ok_def)

lemma index_ok_cong: "(\<And>a. page_id (pg h' a) = page_id (pg h a)) \<Longrightarrow> index_ok h' m ps = index_ok h m ps"
  by (simp add: index_ok_def)

section \<open>Moving a node from the end of one list to the front of the other\<close>

lemma move_node:
  assumes l1: "dll h l1 (xs @ [n])" and l2: "dll h l2 ys" and disj: "set (xs @ [n]) \<inter> set ys = {}"
  obtains h1 l1' nd where "Popback h l1 = Inr (Some n, h1, l1')" and "h1 n = Some nd"
    and "node_page nd = pg h n"
    and "\<And>q. \<exists>h3 l2'. Prepend (Some n) (h1(n \<mapsto> nd\<lparr>node_page := q\<rparr>)) l2 = Inr (h3, l2') \<and>
          dll h3 l1' xs \<and> dll h3 l2' (n # ys) \<and> pg h3 = (pg h)(n := q)"
proof -
  obtain h1 l1' nd where P: "Popback h l1 = Inr (Some n, h1, l1')" "dll h1 l1' xs" "same_pages h h1"
    "same_off (insert n (set xs)) h h1" "h1 n = Some nd" "node_prev nd = None"
    using Popback_dll [OF l1] by blast
  have nxs: "n \<notin> set xs" "n \<notin> set ys" using dll_distinct [OF l1] disj by auto
  have pg1: "pg h1 = pg h" by (rule same_pages_pg [OF P(3)])
  have ys1: "dll h1 l2 ys" using P(4) disj by (intro dll_frame [OF l2]) (auto simp: same_off_def)
  have *: "\<exists>h3 l2'. Prepend (Some n) (h1(n \<mapsto> nd\<lparr>node_page := q\<rparr>)) l2 = Inr (h3, l2') \<and>
      dll h3 l1' xs \<and> dll h3 l2' (n # ys) \<and> pg h3 = (pg h)(n := q)" for q
  proof -
    let ?h2 = "h1(n \<mapsto> nd\<lparr>node_page := q\<rparr>)"
    have x2: "dll ?h2 l1' xs" and y2: "dll ?h2 l2 ys"
      using nxs by (auto intro: dll_frame [OF P(2)] dll_frame [OF ys1])
    obtain h3 l2' where Q: "Prepend (Some n) ?h2 l2 = Inr (h3, l2')" "dll h3 l2' (n # ys)"
      "same_pages ?h2 h3" "same_off (insert n (set ys)) ?h2 h3"
      using Prepend_dll [OF y2, of n "nd\<lparr>node_page := q\<rparr>"] P(6) nxs by auto
    have "dll h3 l1' xs"
      using Q(4) nxs disj by (intro dll_frame [OF x2]) (auto simp: same_off_def)
    moreover have "pg h3 = (pg h)(n := q)"
      using same_pages_pg [OF Q(3)] pg1 by (auto simp: pg_def fun_eq_iff)
    ultimately show ?thesis using Q by blast
  qed
  show ?thesis
    by (rule that [OF P(1) P(5) _ *]) (use P(5) pg1 in \<open>simp add: pg_def fun_eq_iff\<close>, metis option.sel)
qed

section \<open>Index updates\<close>

lemma index_ok_delete:
  assumes "index_ok h m (xs @ [n])" and "\<And>a. a \<in> set xs \<Longrightarrow> page_id (pg h' a) = page_id (pg h a)"
  shows "index_ok h' (LruIndex_Delete (page_id (pg h n)) m) xs"
proof -
  have "distinct (map (\<lambda>a. page_id (pg h' a)) xs) = distinct (map (\<lambda>a. page_id (pg h a)) xs)"
    using assms(2) by (simp cong: map_cong)
  then have d: "distinct (map (\<lambda>a. page_id (pg h' a)) xs)" using assms(1) by (simp add: index_ok_def)
  have ne: "page_id (pg h a) \<noteq> page_id (pg h n)" if "a \<in> set xs" for a
  proof -
    have "distinct (map (\<lambda>a. page_id (pg h a)) (xs @ [n]))" using assms(1) unfolding index_ok_def by blast
    then show ?thesis using that by (auto simp: image_iff)
  qed
  have m: "m i = Some p \<longleftrightarrow> (\<exists>a \<in> set xs. p = Some a \<and> page_id (pg h' a) = i) \<or> p = Some n \<and> page_id (pg h n) = i"
    for i p using assms(2) by (auto simp: index_ok_Some [OF assms(1)])
  show ?thesis
    unfolding index_ok_def using d ne assms(2) by (auto simp: LruIndex_Delete_def m)
qed

lemma index_ok_put:
  assumes "index_ok h m xs" and "m i = None" and "page_id (pg h' n) = i" and "n \<notin> set xs"
    and "\<And>a. a \<in> set xs \<Longrightarrow> page_id (pg h' a) = page_id (pg h a)"
  shows "index_ok h' (LruIndex_Put i (Some n) m) (n # xs)"
proof -
  have "distinct (map (\<lambda>a. page_id (pg h' a)) xs) = distinct (map (\<lambda>a. page_id (pg h a)) xs)"
    using assms(5) by (simp cong: map_cong)
  then have d: "distinct (map (\<lambda>a. page_id (pg h' a)) xs)" using assms(1) by (simp add: index_ok_def)
  have ne: "page_id (pg h' a) \<noteq> i" if "a \<in> set xs" for a
    using index_ok_None [OF assms(1), of i] assms(2) assms(5) [OF that] that by simp
  have m: "m j = Some p \<longleftrightarrow> (\<exists>a \<in> set xs. p = Some a \<and> page_id (pg h' a) = j)" for j p
    using assms(5) by (auto simp: index_ok_Some [OF assms(1)])
  show ?thesis
    unfolding index_ok_def using d assms(3,4) by (auto simp: LruIndex_Put_def LruIndex_Delete_def m dest: ne)
qed

lemma buf_inv_sizes:
  assumes "buf_inv s ps fs"
  shows "lru_size (page_list s) = int (length ps)" and "lru_size (free_list s) = int (length fs)"
    and "lru_size (page_list s) + lru_size (free_list s) = page_num s"
  using assms by (simp_all add: buf_inv_def dll_def)

lemma LruIndex_Get_inv:
  assumes "buf_inv s ps fs"
  shows "LruIndex_Get i (lru_index s) =
    (case lru_index s i of None \<Rightarrow> Inr (NOT_EXIST, None) | Some p \<Rightarrow> Inr (EXIST, p))"
proof (cases "lru_index s i")
  case (Some p)
  moreover have "p \<noteq> None"
    using Some assms index_ok_Some [of "nodes s" "lru_index s" ps i p] by (auto simp: buf_inv_def)
  ultimately show ?thesis by (simp add: LruIndex_Get_def)
qed (simp add: LruIndex_Get_def)

section \<open>Eviction\<close>

context page_disk
begin

lemma flush_tail_ok:
  assumes inv: "buf_inv s (xs @ [n]) fs" and d: "dinv (disk s)"
  obtains s' where "flush_tail D s = Inr s'" and "buf_inv s' xs (n # fs)" and "dinv (disk s')"
    and "page_num s' = page_num s" and "lru_index s' \<subseteq>\<^sub>m lru_index s"
    and "bview dpage s \<subseteq>\<^sub>m bview dpage s'"
proof -
  let ?h = "nodes s" and ?i = "page_id (pg (nodes s) n)" and ?q = "set_page_id UINT64_MAX (pg (nodes s) n)"
  have I: "dll ?h (page_list s) (xs @ [n])" "dll ?h (free_list s) fs" "set (xs @ [n]) \<inter> set fs = {}"
    "index_ok ?h (lru_index s) (xs @ [n])" "length (page_buf (pg ?h n)) = MY_PAGE_SIZE"
    using inv by (auto simp: buf_inv_def)
  obtain h1 pl nd where P: "Popback ?h (page_list s) = Inr (Some n, h1, pl)" "h1 n = Some nd"
    "node_page nd = pg ?h n"
    and M: "\<And>q. \<exists>h3 fl. Prepend (Some n) (h1(n \<mapsto> nd\<lparr>node_page := q\<rparr>)) (free_list s) = Inr (h3, fl) \<and>
      dll h3 pl xs \<and> dll h3 fl (n # fs) \<and> pg h3 = (pg ?h)(n := q)"
    by (rule move_node [OF I(1,2,3)]) blast
  obtain h3 fl where Q: "Prepend (Some n) (h1(n \<mapsto> nd\<lparr>node_page := ?q\<rparr>)) (free_list s) = Inr (h3, fl)"
    "dll h3 pl xs" "dll h3 fl (n # fs)" "pg h3 = (pg ?h)(n := ?q)" using M [of ?q] by blast
  obtain d' where W: "WritePage D ?i (page_buf (pg ?h n)) (disk s) = Inr d'" "dinv d'"
    "(dpage (disk s))(?i \<mapsto> page_buf (pg ?h n)) \<subseteq>\<^sub>m dpage d'"
    using write_page [OF d I(5)] by blast
  let ?s = "s\<lparr>page_list := pl, free_list := fl, nodes := h3, disk := d',
              lru_index := LruIndex_Delete ?i (lru_index s)\<rparr>"
  have nx: "n \<notin> set xs" using dll_distinct [OF I(1)] by simp
  have ix: "index_ok h3 (LruIndex_Delete ?i (lru_index s)) xs"
    using Q(4) nx by (intro index_ok_delete [OF I(4)]) auto
  have "flush_tail D s = Inr ?s"
    using P Q(1) W(1) by (simp add: flush_tail_def)
  moreover have "buf_inv ?s xs (n # fs)"
    using inv Q ix nx by (auto simp: buf_inv_def set_page_id_def)
  moreover have "bview dpage s \<subseteq>\<^sub>m bview dpage ?s"
  proof (rule map_leI)
    fix j c
    assume b: "bview dpage s j = Some c"
    show "bview dpage ?s j = Some c"
    proof (cases "lru_index s j")
      case None
      then show ?thesis
        using b index_ok_lookup [OF I(4), of n] map_leD [OF W(3), of j c]
        by (cases "j = ?i") (auto simp: bview_def LruIndex_Delete_def)
    next
      case (Some p)
      then obtain a where a: "a \<in> set (xs @ [n])" "p = Some a" "page_id (pg ?h a) = j"
        using index_ok_Some [OF I(4)] by blast
      show ?thesis
      proof (cases "j = ?i")
        case True
        then have "a = n" using index_ok_lookup [OF I(4), of n] Some a(2) by simp
        then show ?thesis
          using b Some a(2) True map_leD [OF W(3), of j c] by (simp add: bview_def LruIndex_Delete_def)
      next
        case False
        then have "a \<noteq> n" using a(3) by auto
        then show ?thesis
          using b Some a(2) False Q(4) by (simp add: bview_def LruIndex_Delete_def)
      qed
    qed
  qed
  ultimately show ?thesis
    using that [of ?s] W(2) by (simp add: LruIndex_Delete_def map_le_def)
qed

lemma times_flush_ok:
  assumes "buf_inv s ps fs" and "dinv (disk s)" and "k \<le> length ps"
  obtains s' where "times k (flush_tail D) s = Inr s'"
    and "buf_inv s' (take (length ps - k) ps) (drop (length ps - k) ps @ fs)" and "dinv (disk s')"
    and "page_num s' = page_num s" and "lru_index s' \<subseteq>\<^sub>m lru_index s"
    and "bview dpage s \<subseteq>\<^sub>m bview dpage s'"
  using assms
proof (induction k arbitrary: s ps fs thesis)
  case 0
  then show ?case by simp
next
  case (Suc k)
  obtain xs n where ps: "ps = xs @ [n]" using Suc.prems(4) by (cases ps rule: rev_cases) auto
  obtain s1 where s1: "flush_tail D s = Inr s1" "buf_inv s1 xs (n # fs)" "dinv (disk s1)"
    "page_num s1 = page_num s" "lru_index s1 \<subseteq>\<^sub>m lru_index s" "bview dpage s \<subseteq>\<^sub>m bview dpage s1"
    using Suc.prems(2,3) ps by (metis flush_tail_ok)
  have "k \<le> length xs" using Suc.prems(4) ps by simp
  from Suc.IH [OF _ s1(2,3) this] obtain s2 where s2: "times k (flush_tail D) s1 = Inr s2"
    "buf_inv s2 (take (length xs - k) xs) (drop (length xs - k) xs @ n # fs)" "dinv (disk s2)"
    "page_num s2 = page_num s1" "lru_index s2 \<subseteq>\<^sub>m lru_index s1" "bview dpage s1 \<subseteq>\<^sub>m bview dpage s2"
    by blast
  show ?case
    by (rule Suc.prems(1) [of s2]) (use s1 s2 ps in \<open>auto intro: map_le_trans\<close>)
qed

lemma FlushALl_ok:
  assumes "buf_inv s ps fs" and "dinv (disk s)"
  obtains s' where "FlushALl D s = Inr s'" and "buf_inv s' [] (ps @ fs)" and "dinv (disk s')"
    and "bview dpage s \<subseteq>\<^sub>m bview dpage s'" and "page_num s' = page_num s"
  by (rule times_flush_ok [OF assms order.refl])
     (use that buf_inv_sizes [OF assms(1)] in \<open>auto simp: FlushALl_def\<close>)

lemma FlushPageList_ok:
  assumes inv: "buf_inv s ps []" and d: "dinv (disk s)"
  obtains s' k where "FlushPageList D s = Inr s'" and "k = nat (page_num s div 5)" and
    "buf_inv s' (take (length ps - k) ps) (drop (length ps - k) ps)" and "dinv (disk s')"
    and "page_num s' = page_num s" and "lru_index s' \<subseteq>\<^sub>m lru_index s"
    and "bview dpage s \<subseteq>\<^sub>m bview dpage s'"
proof -
  have "nat (page_num s div 5) \<le> length ps" using inv by (simp add: buf_inv_def)
  from times_flush_ok [OF inv d this] show ?thesis
    using that buf_inv_sizes [OF inv] by (auto simp: FlushPageList_def)
qed

end

section \<open>Letting a page in\<close>

lemma FreeListToPageList_ok:
  assumes inv: "buf_inv s ps fs" and fs: "fs \<noteq> []" and new: "lru_index s i = None"
    and len: "length buf = MY_PAGE_SIZE"
  obtains s' where "FreeListToPageList i buf MY_PAGE_SIZE s = Inr s'"
    and "buf_inv s' (last fs # ps) (butlast fs)" and "disk s' = disk s"
    and "bview dpage s' = (bview dpage s)(i \<mapsto> buf)" and "page_num s' = page_num s"
proof -
  let ?h = "nodes s" and ?n = "last fs"
  let ?q = "(set_page_id i (pg (nodes s) ?n))\<lparr>page_buf := buf\<rparr>"
  have F: "fs = butlast fs @ [?n]" using fs by simp
  have I: "dll ?h (free_list s) (butlast fs @ [?n])" "dll ?h (page_list s) ps"
    "set (butlast fs @ [?n]) \<inter> set ps = {}" "index_ok ?h (lru_index s) ps"
    "length (page_buf (pg ?h ?n)) = MY_PAGE_SIZE"
    using inv F fs by (auto simp: buf_inv_def)
  have nps: "?n \<notin> set ps" using I(3) by auto
  obtain h1 fl nd where P: "Popback ?h (free_list s) = Inr (Some ?n, h1, fl)" "h1 ?n = Some nd"
    "node_page nd = pg ?h ?n"
    and M: "\<And>q. \<exists>h3 pl. Prepend (Some ?n) (h1(?n \<mapsto> nd\<lparr>node_page := q\<rparr>)) (page_list s) = Inr (h3, pl) \<and>
      dll h3 fl (butlast fs) \<and> dll h3 pl (?n # ps) \<and> pg h3 = (pg ?h)(?n := q)"
    by (rule move_node [OF I(1,2,3)]) blast
  obtain h3 pl where Q: "Prepend (Some ?n) (h1(?n \<mapsto> nd\<lparr>node_page := ?q\<rparr>)) (page_list s) = Inr (h3, pl)"
    "dll h3 fl (butlast fs)" "dll h3 pl (?n # ps)" "pg h3 = (pg ?h)(?n := ?q)" using M [of ?q] by blast
  let ?s = "s\<lparr>page_list := pl, free_list := fl, nodes := h3,
              lru_index := LruIndex_Put i (Some ?n) (lru_index s)\<rparr>"
  have sb: "set_page_buf buf MY_PAGE_SIZE (set_page_id i (pg ?h ?n)) = Inr ?q"
    using I(5) len by (simp add: set_page_buf_full set_page_id_def)
  have g: "lru_size (free_list s) > 0" "lru_size (page_list s) < page_num s"
    using buf_inv_sizes [OF inv] fs by (cases fs; simp)+
  have "FreeListToPageList i buf MY_PAGE_SIZE s = Inr ?s"
    using g P sb Q(1) by (simp add: FreeListToPageList_def)
  moreover have ix: "index_ok h3 (LruIndex_Put i (Some ?n) (lru_index s)) (?n # ps)"
    using Q(4) nps by (intro index_ok_put [OF I(4) new]) (auto simp: set_page_id_def)
  have bl: "set (butlast fs) \<subseteq> set fs" by (auto dest: in_set_butlastD)
  have nb: "?n \<notin> set (butlast fs)"
    using dll_distinct [OF I(1)] by (simp del: append_butlast_last_id)
  have "buf_inv ?s (?n # ps) (butlast fs)"
    unfolding buf_inv_def
  proof (intro conjI)
    show "set (?n # ps) \<inter> set (butlast fs) = {}" using inv bl nb by (auto simp: buf_inv_def)
    show "page_num ?s = int (length (?n # ps) + length (butlast fs))"
      using inv fs by (cases fs) (simp_all add: buf_inv_def)
    show "\<forall>a \<in> set (?n # ps) \<union> set (butlast fs). length (page_buf (pg (nodes ?s) a)) = MY_PAGE_SIZE"
      using inv Q(4) bl len by (auto simp: buf_inv_def)
  qed (use Q(2,3) ix in simp_all)
  moreover have "bview dpage ?s = (bview dpage s)(i \<mapsto> buf)"
  proof
    fix j
    show "bview dpage ?s j = ((bview dpage s)(i \<mapsto> buf)) j"
    proof (cases "j = i")
      case True
      then show ?thesis using Q(4) by (simp add: bview_def LruIndex_Put_def)
    next
      case False
      moreover have "a \<noteq> ?n" if "lru_index s j = Some (Some a)" for a
        using that index_ok_Some [OF I(4)] nps by auto
      ultimately show ?thesis
        using Q(4) by (auto simp: bview_def LruIndex_Put_def LruIndex_Delete_def split: option.splits)
    qed
  qed
  ultimately show ?thesis using that [of ?s] by simp
qed

context page_disk
begin

text \<open>With at least five nodes an eviction frees a node, so letting a page in always succeeds.\<close>

lemma take_in_ok:
  assumes inv: "buf_inv s ps fs" and d: "dinv (disk s)" and new: "lru_index s i = None"
    and len: "length buf = MY_PAGE_SIZE" and five: "5 \<le> page_num s"
  obtains s' ps' fs' where "take_in D i buf MY_PAGE_SIZE s = Inr s'" and "buf_inv s' ps' fs'"
    and "dinv (disk s')" and "(bview dpage s)(i \<mapsto> buf) \<subseteq>\<^sub>m bview dpage s'"
    and "page_num s' = page_num s"
proof (cases "fs = []")
  case False
  obtain s' where "FreeListToPageList i buf MY_PAGE_SIZE s = Inr s'"
    "buf_inv s' (last fs # ps) (butlast fs)" "disk s' = disk s" "bview dpage s' = (bview dpage s)(i \<mapsto> buf)"
    "page_num s' = page_num s"
    by (rule FreeListToPageList_ok [OF inv False new len])
  then show ?thesis
    using that [of s'] d False buf_inv_sizes [OF inv] by (simp add: take_in_def)
next
  case True
  obtain s1 k where s1: "FlushPageList D s = Inr s1" "k = nat (page_num s div 5)"
    "buf_inv s1 (take (length ps - k) ps) (drop (length ps - k) ps)" "dinv (disk s1)"
    "lru_index s1 \<subseteq>\<^sub>m lru_index s" "bview dpage s \<subseteq>\<^sub>m bview dpage s1" "page_num s1 = page_num s"
    using FlushPageList_ok [of s ps] inv d True by metis
  have k: "0 < k" "k \<le> length ps" using s1(2) five inv True by (auto simp: buf_inv_def)
  then have ne: "drop (length ps - k) ps \<noteq> []" by simp
  have new1: "lru_index s1 i = None"
    using s1(5) new by (metis domIff map_le_def)
  obtain s' where s': "FreeListToPageList i buf MY_PAGE_SIZE s1 = Inr s'"
    "buf_inv s' (last (drop (length ps - k) ps) # take (length ps - k) ps) (butlast (drop (length ps - k) ps))"
    "disk s' = disk s1" "bview dpage s' = (bview dpage s1)(i \<mapsto> buf)"
    "page_num s' = page_num s1"
    by (rule FreeListToPageList_ok [OF s1(3) ne new1 len])
  have "(bview dpage s)(i \<mapsto> buf) \<subseteq>\<^sub>m bview dpage s'"
    using s1(6) s'(4) by (simp add: map_le_upd)
  then show ?thesis
    using that s1 s' True buf_inv_sizes [OF inv] by (simp add: take_in_def)
qed

section \<open>Get and Put\<close>

lemma BufferPutWithLock_ok:
  assumes inv: "buf_inv s ps fs" and d: "dinv (disk s)" and len: "length buf = MY_PAGE_SIZE"
    and five: "5 \<le> page_num s"
  obtains s' ps' fs' where "BufferPutWithLock D i buf MY_PAGE_SIZE s = Inr s'" and "buf_inv s' ps' fs'"
    and "dinv (disk s')" and "(bview dpage s)(i \<mapsto> buf) \<subseteq>\<^sub>m bview dpage s'"
    and "page_num s' = page_num s"
proof (cases "lru_index s i")
  case None
  then show ?thesis
    using take_in_ok [OF inv d None len five] that buf_inv_sizes [OF inv] LruIndex_Get_inv [OF inv, of i]
    by (simp add: BufferPutWithLock_def) blast
next
  case (Some p)
  have ix: "index_ok (nodes s) (lru_index s) ps" using inv by (simp add: buf_inv_def)
  then obtain a where a: "a \<in> set ps" "p = Some a" "page_id (pg (nodes s) a) = i"
    using Some index_ok_Some by blast
  obtain nd where nd: "nodes s a = Some nd" using inv a(1) dll_dom by (fastforce simp: buf_inv_def)
  let ?h = "(nodes s)(a \<mapsto> nd\<lparr>node_page := (node_page nd)\<lparr>page_buf := buf\<rparr>\<rparr>)"
  have pgh: "pg ?h = (pg (nodes s))(a := (pg (nodes s) a)\<lparr>page_buf := buf\<rparr>)"
    using nd by (auto simp: pg_def)
  have "length (page_buf (node_page nd)) = MY_PAGE_SIZE" using inv a(1) nd by (force simp: buf_inv_def pg_def)
  then have put: "BufferPutWithLock D i buf MY_PAGE_SIZE s = Inr (s\<lparr>nodes := ?h\<rparr>)"
    using Some a nd len buf_inv_sizes [OF inv] LruIndex_Get_inv [OF inv, of i]
    by (simp add: BufferPutWithLock_def LRU_Get_def set_page_buf_full)
  have "dll ?h l xs = dll (nodes s) l xs" for l xs
    using nd by (simp add: dll_def path_upd_other)
  moreover have "index_ok ?h (lru_index s) ps"
    by (rule iffD2 [OF index_ok_cong ix]) (simp add: pgh)
  ultimately have "buf_inv (s\<lparr>nodes := ?h\<rparr>) ps fs"
    using inv len by (auto simp: buf_inv_def pgh)
  moreover have "bview dpage (s\<lparr>nodes := ?h\<rparr>) = (bview dpage s)(i \<mapsto> buf)"
  proof
    fix j
    have "b \<noteq> a" if "j \<noteq> i" "lru_index s j = Some (Some b)" for b
      using that a(3) index_ok_Some [OF ix, of j "Some b"] by auto
    then show "bview dpage (s\<lparr>nodes := ?h\<rparr>) j = ((bview dpage s)(i \<mapsto> buf)) j"
      using Some a(2) by (cases "j = i") (auto simp: bview_def pgh split: option.splits)
  qed
  ultimately show ?thesis using that put d by simp
qed

lemma BufferGetWithLock_ok:
  assumes inv: "buf_inv s ps fs" and d: "dinv (disk s)" and len: "length buf = MY_PAGE_SIZE"
    and five: "5 \<le> page_num s"
  obtains b s' ps' fs' where "BufferGetWithLock D i buf MY_PAGE_SIZE s = Inr (b, s')" and "buf_inv s' ps' fs'"
    and "dinv (disk s')" and "\<forall>c. bview dpage s i = Some c \<longrightarrow> b = c"
    and "(bview dpage s)(i \<mapsto> b) \<subseteq>\<^sub>m bview dpage s'" and "page_num s' = page_num s"
proof (cases "lru_index s i")
  case None
  obtain b d1 where R: "ReadPage D i buf (disk s) = Inr (b, d1)" "length b = MY_PAGE_SIZE" "dinv d1"
    "dpage d1 = dpage (disk s)" "\<forall>c. dpage (disk s) i = Some c \<longrightarrow> b = c"
    using read_page [OF d len] by blast
  have inv1: "buf_inv (s\<lparr>disk := d1\<rparr>) ps fs" using inv by (simp add: buf_inv_def)
  have bv: "bview dpage (s\<lparr>disk := d1\<rparr>) = bview dpage s" using R(4) by (auto simp: bview_def split: option.splits)
  obtain s' ps' fs' where "take_in D i b MY_PAGE_SIZE (s\<lparr>disk := d1\<rparr>) = Inr s'" "buf_inv s' ps' fs'"
    "dinv (disk s')" "(bview dpage s)(i \<mapsto> b) \<subseteq>\<^sub>m bview dpage s'" "page_num s' = page_num s"
    using take_in_ok [OF inv1, of i b] None R(2,3) five bv by auto
  then show ?thesis
    using that R None buf_inv_sizes [OF inv] LruIndex_Get_inv [OF inv, of i]
    by (simp add: BufferGetWithLock_def bview_def)
next
  case (Some p)
  then obtain a where a: "a \<in> set ps" "p = Some a"
    using inv index_ok_Some unfolding buf_inv_def by blast
  obtain nd where nd: "nodes s a = Some nd" using inv a(1) dll_dom by (fastforce simp: buf_inv_def)
  have L: "length (page_buf (node_page nd)) = MY_PAGE_SIZE" using inv a(1) nd by (force simp: buf_inv_def pg_def)
  have G: "BufferGetWithLock D i buf MY_PAGE_SIZE s = Inr (page_buf (node_page nd), s)"
    using Some a nd len L buf_inv_sizes [OF inv] LruIndex_Get_inv [OF inv, of i]
    by (simp add: BufferGetWithLock_def LRU_Get_def read_at_def memcpy_at_full)
  have "bview dpage s i = Some (page_buf (node_page nd))"
    using Some a nd by (simp add: bview_def pg_def)
  then show ?thesis
    using that [OF G inv d] by (simp add: map_le_def)
qed

end

end
