(* ===== verification/Buffer_Runs.thy ===== *)
theory Buffer_Runs
  imports Buffer_Refinement
begin

text \<open>
  The buffer from construction to destruction: the constructor establishes the invariant, the
  variants without the function-wide lock agree with the locked ones when not interrupted, and
  every sequence of \<open>BufferGet\<close>, \<open>BufferPut\<close> and \<open>FlushALl\<close> calls behaves like operations
  on one map. Further: what happens with fewer than five nodes, and in the destructor.
\<close>

section \<open>Sequences of calls and the map they implement\<close>

datatype buf_op = Get_op u64 | Put_op u64 bytes | Flush_op

text \<open>
  Each call passes a caller's buffer of one page; \<open>BufferGet\<close>'s one is initially arbitrary, here
  zeros. The outputs are the pages the \<open>Get\<close> calls deliver.
\<close>

fun run_buffer :: "'d disk_ops \<Rightarrow> buf_op list \<Rightarrow> 'd buffer \<Rightarrow> (bytes list \<times> 'd buffer) res" where
  "run_buffer D [] s = Inr ([], s)"
| "run_buffer D (Get_op i # ops) s =
     rbind (BufferGet D i (replicate MY_PAGE_SIZE 0) MY_PAGE_SIZE s) (\<lambda>(b, s').
     rbind (run_buffer D ops s') (\<lambda>(out, s''). Inr (b # out, s'')))"
| "run_buffer D (Put_op i buf # ops) s =
     rbind (BufferPut D i buf MY_PAGE_SIZE s) (run_buffer D ops)"
| "run_buffer D (Flush_op # ops) s = rbind (FlushALl D s) (run_buffer D ops)"

text \<open>The same calls on a map; \<open>None\<close> where a page was never stored.\<close>

fun run_map :: "buf_op list \<Rightarrow> (u64 \<Rightarrow> bytes option) \<Rightarrow> bytes option list" where
  "run_map [] m = []"
| "run_map (Get_op i # ops) m = m i # run_map ops m"
| "run_map (Put_op i buf # ops) m = run_map ops (m(i \<mapsto> buf))"
| "run_map (Flush_op # ops) m = run_map ops m"

definition op_ok :: "buf_op \<Rightarrow> bool" where
  "op_ok p = (case p of Put_op i buf \<Rightarrow> length buf = MY_PAGE_SIZE | _ \<Rightarrow> True)"

section \<open>Construction\<close>

lemma init_free_list_ok:
  "\<exists>h fl. init_free_list vs psize n = Inr (h, fl) \<and> dll h fl (rev [0..<n]) \<and> dom h = {..<n} \<and>
     (\<forall>a < n. length (page_buf (pg h a)) = psize)"
proof (induction n)
  case 0
  show ?case by (simp add: dll_new)
next
  case (Suc n)
  then obtain h fl where h: "init_free_list vs psize n = Inr (h, fl)" "dll h fl (rev [0..<n])"
    "dom h = {..<n}" "\<forall>a < n. length (page_buf (pg h a)) = psize" by blast
  let ?nd = "PageNode_new (vs n) (replicate psize 0)"
  let ?h = "h(n \<mapsto> ?nd)"
  have "dll ?h fl (rev [0..<n])" by (rule dll_frame [OF h(2)]) auto
  from Prepend_dll [OF this, of n ?nd] obtain h' fl' where
    P: "Prepend (Some n) ?h fl = Inr (h', fl')" "dll h' fl' (n # rev [0..<n])" "same_pages ?h h'"
    by (auto simp: PageNode_new_def)
  have pgh: "pg h' = pg ?h" by (rule same_pages_pg [OF P(3)])
  have "dom h' = dom ?h"
    unfolding dom_def using P(3) by (metis (no_types) map_option_is_None same_pages_def)
  then have "dom h' = {..<Suc n}" using h(3) by auto
  moreover have "\<forall>a < Suc n. length (page_buf (pg h' a)) = psize"
    unfolding pgh using h(4) by (auto simp: pg_def PageNode_new_def Page_new_def less_Suc_eq)
  ultimately show ?case using h(1) P(1,2) by simp
qed

lemma Buffer_new_ok:
  assumes "unat psize = MY_PAGE_SIZE" and "unat (tsize div psize) < 2 ^ 31"
  shows "\<exists>s. Buffer_new vs tsize psize d = Inr s \<and> buf_inv s [] (rev [0..<unat (tsize div psize)]) \<and>
    page_num s = int (unat (tsize div psize)) \<and> disk s = d"
proof -
  let ?n = "unat (tsize div psize)"
  have nz: "psize \<noteq> 0" using assms(1) MY_PAGE_SIZE_pos by (metis less_irrefl unat_0)
  have num: "signed_take_bit 31 (uint (tsize div psize)) = int ?n"
  proof -
    define n where "n = ?n"
    have "signed_take_bit 31 (int n) = int n"
      using assms(2) by (intro signed_take_bit_int_eq_self) (simp_all add: n_def [symmetric])
    then show ?thesis by (simp only: uint_nat n_def)
  qed
  obtain h fl where h: "init_free_list vs MY_PAGE_SIZE ?n = Inr (h, fl)" "dll h fl (rev [0..<?n])"
    "\<forall>a < ?n. length (page_buf (pg h a)) = MY_PAGE_SIZE"
    using init_free_list_ok by blast
  have "lru_size fl = int ?n" using h(2) by (simp add: dll_def)
  then show ?thesis
    using nz num h assms(1)
    by (simp add: Buffer_new_def Let_def LRU_new_def buf_inv_def index_ok_def dll_new [unfolded LRU_new_def])
qed

section \<open>The variants without the function-wide lock\<close>

lemma BufferGet_eq: "BufferGet D i buf count s = BufferGetWithLock D i buf count s"
  by (cases "LruIndex_Get i (lru_index s)")
     (auto simp: BufferGet_def BufferGetWithLock_def Buffer_lookup_def BufferGet_rest_def asserting_def
       split: LruIndexFlag.splits)

lemma BufferPut_eq: "BufferPut D i buf count s = BufferPutWithLock D i buf count s"
  by (auto simp: BufferPut_def BufferPutWithLock_def Buffer_lookup_def BufferPut_rest_def asserting_def
      LruIndex_Get_def split: LruIndexFlag.splits option.splits)

section \<open>Runs refine the map\<close>

context page_disk
begin

lemma run_buffer_ok:
  assumes "buf_inv s ps fs" and "dinv (disk s)" and "5 \<le> page_num s" and "m \<subseteq>\<^sub>m bview dpage s"
    and "list_all op_ok ops"
  shows "\<exists>out s' ps' fs'. run_buffer D ops s = Inr (out, s') \<and> buf_inv s' ps' fs' \<and> dinv (disk s') \<and>
    list_all2 (\<lambda>b c. \<forall>v. c = Some v \<longrightarrow> b = v) out (run_map ops m)"
  using assms
proof (induction ops m arbitrary: s ps fs rule: run_map.induct)
  case (1 m)
  then show ?case by auto
next
  case (2 i ops m)
  obtain b s1 ps1 fs1 where G: "BufferGetWithLock D i (replicate MY_PAGE_SIZE 0) MY_PAGE_SIZE s = Inr (b, s1)"
    "buf_inv s1 ps1 fs1" "dinv (disk s1)" "\<forall>c. bview dpage s i = Some c \<longrightarrow> b = c"
    "(bview dpage s)(i \<mapsto> b) \<subseteq>\<^sub>m bview dpage s1" "page_num s1 = page_num s"
    by (rule BufferGetWithLock_ok [OF 2(2,3) length_replicate 2(4)])
  have hit: "\<forall>v. m i = Some v \<longrightarrow> b = v" using G(4) 2(5) by (auto dest: map_leD)
  have "m \<subseteq>\<^sub>m bview dpage s1"
    using 2(5) G(4,5) by (fastforce simp: map_le_def dom_def fun_upd_def split: if_splits)
  with 2(1) [OF G(2,3)] 2(4,6) G(6) obtain out s' ps' fs' where
    "run_buffer D ops s1 = Inr (out, s')" "buf_inv s' ps' fs'" "dinv (disk s')"
    "list_all2 (\<lambda>b c. \<forall>v. c = Some v \<longrightarrow> b = v) out (run_map ops m)" by auto
  then show ?case using G(1) hit by (auto simp: BufferGet_eq)
next
  case (3 i buf ops m)
  obtain s1 ps1 fs1 where P: "BufferPutWithLock D i buf MY_PAGE_SIZE s = Inr s1"
    "buf_inv s1 ps1 fs1" "dinv (disk s1)" "(bview dpage s)(i \<mapsto> buf) \<subseteq>\<^sub>m bview dpage s1"
    "page_num s1 = page_num s"
    using BufferPutWithLock_ok [OF 3(2,3) _ 3(4), of buf i] 3(6) by (auto simp: op_ok_def)
  have "m(i \<mapsto> buf) \<subseteq>\<^sub>m bview dpage s1"
    using 3(5) P(4) by (meson map_le_trans map_le_upd)
  with 3(1) [OF P(2,3)] 3(4,6) P(1,5) show ?case by (simp add: BufferPut_eq fun_upd_def)
next
  case (4 ops m)
  obtain s1 where F: "FlushALl D s = Inr s1" "buf_inv s1 [] (ps @ fs)" "dinv (disk s1)"
    "bview dpage s \<subseteq>\<^sub>m bview dpage s1" "page_num s1 = page_num s"
    by (rule FlushALl_ok [OF 4(2,3)])
  with 4(1) [OF F(2,3)] 4(4,5,6) show ?case by (auto intro: map_le_trans)
qed

text \<open>After \<open>FlushALl\<close> everything the client sees is in the page store.\<close>

lemma FlushALl_durable:
  assumes "buf_inv s ps fs" and "dinv (disk s)"
  shows "\<exists>s'. FlushALl D s = Inr s' \<and> bview dpage s \<subseteq>\<^sub>m dpage (disk s') \<and> lru_index s' = Map.empty"
proof -
  obtain s' where s': "FlushALl D s = Inr s'" "buf_inv s' [] (ps @ fs)" "bview dpage s \<subseteq>\<^sub>m bview dpage s'"
    by (rule FlushALl_ok [OF assms])
  then have "lru_index s' = Map.empty"
    by (auto simp: buf_inv_def index_ok_def fun_eq_iff)
  moreover from this have "bview dpage s' = dpage (disk s')" by (simp add: bview_def fun_eq_iff)
  ultimately show ?thesis using s' by metis
qed

lemma Buffer_delete_bad:
  assumes "buf_inv s ps fs" and "dinv (disk s)" and "0 < page_num s"
  shows "Buffer_delete D s = Some (Inl Bad_Deref)"
proof -
  obtain s' where s': "FlushALl D s = Inr s'" "buf_inv s' [] (ps @ fs)"
    by (rule FlushALl_ok [OF assms(1,2)])
  moreover have "ps @ fs \<noteq> []" using assms(1,3) by (auto simp: buf_inv_def)
  ultimately show ?thesis
    using LRU_delete_nonempty [of "nodes s'" "free_list s'" "ps @ fs"]
    by (simp add: Buffer_delete_def buf_inv_def)
qed

end

text \<open>A full pool of fewer than five nodes evicts nothing, and the next miss fails.\<close>

lemma take_in_small:
  assumes inv: "buf_inv s ps []" and small: "page_num s < 5"
  shows "take_in D i buf count s = Inl Assert_Fail"
proof -
  have "0 \<le> page_num s" using inv by (simp add: buf_inv_def)
  then have "page_num s div 5 = 0" using small by simp
  then show ?thesis
    using buf_inv_sizes [OF inv] by (simp add: take_in_def FlushPageList_def FreeListToPageList_def)
qed

section \<open>Properties\<close>

text \<open>
  C10: the buffer over \<open>FileIO\<close> is one map from page numbers to pages. A buffer of at least five
  pages is constructed without a failed assertion, and then every sequence of \<open>BufferGet\<close>,
  \<open>BufferPut\<close> and \<open>FlushALl\<close> calls on whole pages succeeds, with any number of evictions and
  re-reads in between; each \<open>BufferGet\<close> of a page put before, or present in the files at the
  start, delivers the bytes last put (or the initial ones).
\<close>

theorem buffer_refines_page_map:
  assumes "posix_laws P content fdpath" and "file_inv fdpath d"
    and "unat psize = MY_PAGE_SIZE" and "unat (tsize div psize) < 2 ^ 31" and "5 \<le> unat (tsize div psize)"
    and "list_all op_ok ops"
  shows "\<exists>s out s'. Buffer_new vs tsize psize d = Inr s \<and> run_buffer (file_disk P) ops s = Inr (out, s') \<and>
    list_all2 (\<lambda>b c. \<forall>v. c = Some v \<longrightarrow> b = v) out (run_map ops (file_page content d))"
proof -
  obtain s fs where s: "Buffer_new vs tsize psize d = Inr s" "buf_inv s [] fs"
    "page_num s = int (unat (tsize div psize))" "disk s = d"
    using Buffer_new_ok [OF assms(3,4), of vs d] by blast
  have five: "5 \<le> page_num s" unfolding s(3) using assms(5) by linarith
  have "lru_index s = Map.empty" using s(2) by (auto simp: buf_inv_def index_ok_def fun_eq_iff)
  then have "file_page content d \<subseteq>\<^sub>m bview (file_page content) s"
    using s(4) by (simp add: bview_def map_le_def)
  with page_disk.run_buffer_ok [OF file_page_disk [OF assms(1)] s(2) _ five _ assms(6)] assms(2) s
  show ?thesis by blast
qed

theorem buffer_refines_page_map_witness:
  "\<exists>s out s'. Buffer_new (\<lambda>_. 0) 81920 16384 mem_world0 = Inr s \<and>
     run_buffer (file_disk mem_posix) [Put_op 1 (replicate MY_PAGE_SIZE 9), Flush_op, Get_op 1] s = Inr (out, s') \<and>
     out = [replicate MY_PAGE_SIZE 9]"
proof -
  have "unat (16384 :: u64) = MY_PAGE_SIZE" "unat (81920 div 16384 :: u64) < 2 ^ 31"
    "5 \<le> unat (81920 div 16384 :: u64)" by (simp_all add: MY_PAGE_SIZE_def)
  moreover have "list_all op_ok [Put_op 1 (replicate MY_PAGE_SIZE 9), Flush_op, Get_op 1]"
    by (simp add: op_ok_def)
  ultimately obtain s out s' where r: "Buffer_new (\<lambda>_. 0) 81920 16384 mem_world0 = Inr s"
    "run_buffer (file_disk mem_posix) [Put_op 1 (replicate MY_PAGE_SIZE 9), Flush_op, Get_op 1] s = Inr (out, s')"
    "list_all2 (\<lambda>b c. \<forall>v. c = Some v \<longrightarrow> b = v) out
      (run_map [Put_op 1 (replicate MY_PAGE_SIZE 9), Flush_op, Get_op 1] (file_page mem_files mem_world0))"
    using buffer_refines_page_map [OF mem_posix_laws mem_world0_inv] by blast
  from r(3) have "out = [replicate MY_PAGE_SIZE 9]" by (simp add: list_all2_Cons2)
  then show ?thesis using r(1,2) by blast
qed

text \<open>
  C17: \<open>Buffer::FlushALl\<close> makes the buffer durable. On every state with the invariant, over
  \<open>FileIO\<close>, it succeeds, leaves no page resident, and every page the client saw before, resident
  or not, is then in the files.
\<close>

theorem FlushALl_writes_all:
  assumes "posix_laws P content fdpath" and "file_inv fdpath (disk s)" and "buf_inv s ps fs"
  shows "\<exists>s'. FlushALl (file_disk P) s = Inr s' \<and> lru_index s' = Map.empty \<and>
    bview (file_page content) s \<subseteq>\<^sub>m file_page content (disk s')"
  using page_disk.FlushALl_durable [OF file_page_disk [OF assms(1)] assms(3,2)] by blast

theorem FlushALl_writes_all_witness:
  "\<exists>s s'. Buffer_new (\<lambda>_. 0) 81920 16384 mem_world0 = Inr s \<and> FlushALl (file_disk mem_posix) s = Inr s'"
proof -
  obtain s fs where "Buffer_new (\<lambda>_. 0) 81920 16384 mem_world0 = Inr s" "buf_inv s [] fs" "disk s = mem_world0"
    using Buffer_new_ok [of 16384 81920 "\<lambda>_. 0" mem_world0] by (auto simp: MY_PAGE_SIZE_def)
  then show ?thesis using FlushALl_writes_all [OF mem_posix_laws] mem_world0_inv by metis
qed


text \<open>
  A pool of fewer than five pages. \<open>FlushPageList\<close> evicts \<open>page_num_ / 5 = 0\<close> pages, so once
  the pool is full, putting a page that is not resident ends in the failed assertion
  \<open>free_list_->size() > 0\<close>.
\<close>

lemma Buffer_small_pool_fails:
  assumes "buf_inv s ps []" and "page_num s < 5" and "lru_index s i = None"
  shows "BufferPut D i buf count s = Inl Assert_Fail"
  using assms take_in_small [OF assms(1,2)] buf_inv_sizes [OF assms(1)] LruIndex_Get_inv [OF assms(1), of i]
  by (simp add: BufferPut_eq BufferPutWithLock_def)

text \<open>
  The destructor \<open>Buffer::~Buffer\<close> flushes all pages, which moves every node to \<open>free_list_\<close>, and then deletes
  that list: for every pool with at least one page it accesses freed memory.
\<close>

lemma Buffer_destructor_use_after_free:
  assumes "posix_laws P content fdpath" and "file_inv fdpath (disk s)" and "buf_inv s ps fs" and "0 < page_num s"
  shows "Buffer_delete (file_disk P) s = Some (Inl Bad_Deref)"
  using page_disk.Buffer_delete_bad [OF file_page_disk [OF assms(1)] assms(3,2,4)] .

end
