(* ===== verification/Record_Index.thy ===== *)
theory Record_Index
  imports Disk
begin

text \<open>
  \<open>common/index/index.cpp\<close>: the index from a key to the page and location of its row, its binary
  file format (\<open>Serialize\<close>/\<open>DeSerialize\<close>, 24 bytes per entry in chunks of 524280 bytes behind a
  16-byte header) and its text format (\<open>Serialize2\<close>/\<open>DeSerialize2\<close>). The iteration order of the
  \<open>unordered_map\<close> is unspecified: the serialisers take the entries in some order.
\<close>

section \<open>Index operations\<close>

record index_item =
  item_page_id :: u64
  item_location :: u64

datatype IndexFlag = IDX_EXIST | IDX_NOT_EXIST

type_synonym index_map = "u64 \<Rightarrow> index_item option"
type_synonym entry = "u64 \<times> index_item"

definition IndexGet :: "u64 \<Rightarrow> index_item \<Rightarrow> index_map \<Rightarrow> IndexFlag \<times> index_item" where
  "IndexGet key out m =
     (case m key of None \<Rightarrow> (IDX_NOT_EXIST, out) | Some it \<Rightarrow> (IDX_EXIST, it))"

definition IndexPut :: "u64 \<Rightarrow> index_item \<Rightarrow> index_map \<Rightarrow> int \<times> index_map" where
  "IndexPut key it m =
     (case m key of
        Some old \<Rightarrow> (0, m(key \<mapsto> old\<lparr>item_page_id := item_page_id it, item_location := item_location it\<rparr>))
      | None \<Rightarrow> (0, m(key \<mapsto> \<lparr>item_page_id = item_page_id it, item_location = item_location it\<rparr>)))"

section \<open>Binary format\<close>

definition CHUNK :: nat where
  "CHUNK = 524280"

subsection \<open>Serialize\<close>

text \<open>The loop variables: the local buffer, its used part, the file offset, and the files.\<close>

record 'w ser_state =
  sbuf :: bytes
  sused :: nat
  soffset :: nat
  sfile :: "'w file_io"

definition Serialize_entry :: "'w posix \<Rightarrow> int \<Rightarrow> entry \<Rightarrow> 'w ser_state \<Rightarrow> 'w ser_state res" where
  "Serialize_entry P fd e st =
     rbind (if sused st = CHUNK
            then rbind (FileIO_Write P fd (sbuf st) (sused st) (soffset st) (sfile st)) (\<lambda>(x, f).
                 asserting (x = int (sused st))
                   (Inr (st\<lparr>sfile := f, soffset := soffset st + sused st, sused := 0\<rparr>)))
            else Inr st) (\<lambda>st1.
     rbind (memcpy_at (sbuf st1) (sused st1 + 0 * 8) (enc64 (fst e))) (\<lambda>b0.
     rbind (memcpy_at b0 (sused st1 + 1 * 8) (enc64 (item_page_id (snd e)))) (\<lambda>b1.
     rbind (memcpy_at b1 (sused st1 + 2 * 8) (enc64 (item_location (snd e)))) (\<lambda>b2.
     Inr (st1\<lparr>sbuf := b2, sused := sused st1 + 3 * 8\<rparr>)))))"

fun Serialize_loop :: "'w posix \<Rightarrow> int \<Rightarrow> entry list \<Rightarrow> 'w ser_state \<Rightarrow> 'w ser_state res" where
  "Serialize_loop P fd [] st = Inr st"
| "Serialize_loop P fd (e # es) st = rbind (Serialize_entry P fd e st) (Serialize_loop P fd es)"

text \<open>
  \<open>Serialize\<close> up to its final \<open>Close\<close>; \<open>es\<close> are the entries in iteration order, \<open>buf0\<close> the
  initial content of the uninitialised local buffer.
\<close>

definition Index_write :: "'w posix \<Rightarrow> string \<Rightarrow> entry list \<Rightarrow> bytes \<Rightarrow> 'w file_io \<Rightarrow> (int \<times> 'w file_io) res" where
  "Index_write P index_name es buf0 f =
     rbind (FileIO_Open P (DB_PREFIX @ index_name) f) (\<lambda>(fd, f1).
     asserting (0 \<le> fd)
      (rbind (FileIO_Write P fd (enc64 (of_nat (8 + 8 + 3 * 8 * length es))) 8 0 f1) (\<lambda>(_, f2).
       rbind (FileIO_Write P fd (enc64 (of_nat (length es))) 8 8 f2) (\<lambda>(_, f3).
       rbind (Serialize_loop P fd es \<lparr>sbuf = buf0, sused = 0, soffset = 2 * 8, sfile = f3\<rparr>) (\<lambda>st.
       if sused st > 0
       then rbind (FileIO_Write P fd (sbuf st) (sused st) (soffset st) (sfile st)) (\<lambda>(_, f4). Inr (fd, f4))
       else Inr (fd, sfile st))))))"

definition Index_Serialize :: "'w posix \<Rightarrow> string \<Rightarrow> entry list \<Rightarrow> bytes \<Rightarrow> 'w file_io \<Rightarrow> 'w file_io res" where
  "Index_Serialize P index_name es buf0 f =
     rbind (Index_write P index_name es buf0 f) (\<lambda>(fd, f1).
     rbind (FileIO_Close P fd f1) (\<lambda>(r, f2). asserting (r = 0) (Inr f2)))"

subsection \<open>DeSerialize\<close>

fun DeSerialize_for :: "nat \<Rightarrow> nat \<Rightarrow> bytes \<Rightarrow> index_map \<Rightarrow> index_map res" where
  "DeSerialize_for 0 i buf m = Inr m"
| "DeSerialize_for (Suc n) i buf m =
     rbind (read_at buf (3 * i * 8 + 0 * 8) 8) (\<lambda>k.
     rbind (read_at buf (3 * i * 8 + 1 * 8) 8) (\<lambda>p.
     rbind (read_at buf (3 * i * 8 + 2 * 8) 8) (\<lambda>l.
     DeSerialize_for n (Suc i) buf
       (snd (IndexPut (dec64 k) \<lparr>item_page_id = dec64 p, item_location = dec64 l\<rparr> m)))))"

text \<open>The \<open>while\<close> loop over the chunks; \<open>None\<close> would be a loop that does not end.\<close>

partial_function (option) DeSerialize_loop ::
  "'w posix \<Rightarrow> int \<Rightarrow> nat \<Rightarrow> nat \<Rightarrow> bytes \<Rightarrow> index_map \<Rightarrow> 'w file_io \<Rightarrow> (index_map \<times> 'w file_io) res option" where
  "DeSerialize_loop P fd file_size offset buf m f =
     (if offset < file_size
      then let read_size = (if (offset + CHUNK) mod 2 ^ 64 \<le> file_size then CHUNK else file_size - offset) in
        (case rbind (FileIO_Read P fd buf read_size offset f) (\<lambda>(x, buf1, f1).
                asserting (x = int read_size)
                 (rbind (DeSerialize_for (read_size div (3 * 8)) 0 buf1 m) (\<lambda>m1. Inr (buf1, m1, f1)))) of
           Inl e \<Rightarrow> Some (Inl e)
         | Inr (buf1, m1, f1) \<Rightarrow>
             DeSerialize_loop P fd file_size ((offset + read_size) mod 2 ^ 64) buf1 m1 f1)
      else Some (Inr (m, f)))"

text \<open>\<open>DeSerialize\<close> up to its final \<open>Close\<close>; \<open>u\<close> and \<open>v\<close> are the uninitialised header variables.\<close>

definition Index_read ::
  "'w posix \<Rightarrow> string \<Rightarrow> u64 \<Rightarrow> u64 \<Rightarrow> bytes \<Rightarrow> index_map \<Rightarrow> 'w file_io \<Rightarrow> (int \<times> index_map \<times> 'w file_io) res option" where
  "Index_read P index_name u v buf0 m f =
     (case rbind (FileIO_Open P (DB_PREFIX @ index_name) f) (\<lambda>(fd, f1).
           asserting (0 \<le> fd)
            (rbind (FileIO_Read P fd (enc64 u) 8 0 f1) (\<lambda>(_, fs, f2).
             rbind (FileIO_Read P fd (enc64 v) 8 8 f2) (\<lambda>(_, _, f3).
             Inr (fd, fs, f3))))) of
        Inl e \<Rightarrow> Some (Inl e)
      | Inr (fd, fs, f3) \<Rightarrow>
          map_option (\<lambda>r. rbind r (\<lambda>(m', f4). Inr (fd, m', f4)))
            (DeSerialize_loop P fd (unat (dec64 fs)) (8 + 8) buf0 m f3))"

definition Index_DeSerialize ::
  "'w posix \<Rightarrow> string \<Rightarrow> u64 \<Rightarrow> u64 \<Rightarrow> bytes \<Rightarrow> index_map \<Rightarrow> 'w file_io \<Rightarrow> (index_map \<times> 'w file_io) res option" where
  "Index_DeSerialize P index_name u v buf0 m f =
     map_option (\<lambda>r. rbind r (\<lambda>(fd, m', f1).
       rbind (FileIO_Close P fd f1) (\<lambda>(c, f2). asserting (c = 0) (Inr (m', f2)))))
       (Index_read P index_name u v buf0 m f)"

section \<open>Text format\<close>

definition Index_Serialize2 :: "entry list \<Rightarrow> string" where
  "Index_Serialize2 es =
     concat (map (\<lambda>(k, it). dec_string (unat k) @ '' '' @ dec_string (unat (item_page_id it)) @ '' '' @
                            dec_string (unat (item_location it)) @ '' '') es)"

text \<open>
  \<open>ss >> x\<close> for a \<open>uint64_t\<close>: nothing happens on a failed stream; white space is skipped; at the end
  the stream fails and \<open>x\<close> stays; without digits \<open>x\<close> becomes 0 and the stream fails; a value out of
  range gives the largest one and the stream fails; a minus sign negates modulo \<open>2 ^ 64\<close>.
\<close>

record istream =
  rest :: string
  failed :: bool

definition is_space :: "char \<Rightarrow> bool" where
  "is_space c \<longleftrightarrow> c \<in> {CHR '' '', CHR 0x09, CHR 0x0A, CHR 0x0B, CHR 0x0C, CHR 0x0D}"

definition skip_sign :: "string \<Rightarrow> string" where
  "skip_sign s = (if hd s \<in> {CHR ''-'', CHR ''+''} then tl s else s)"

definition get_u64 :: "istream \<Rightarrow> u64 \<Rightarrow> u64 \<times> istream" where
  "get_u64 st old =
     (if failed st then (old, st)
      else let s = dropWhile is_space (rest st) in
        if s = [] then (old, \<lparr>rest = [], failed = True\<rparr>)
        else let t = skip_sign s; ds = takeWhile is_digit t; r = dropWhile is_digit t in
          if ds = [] then (0, \<lparr>rest = r, failed = True\<rparr>)
          else if 2 ^ 64 \<le> dec_value ds then (UINT64_MAX, \<lparr>rest = r, failed = True\<rparr>)
          else ((if hd s = CHR ''-'' then - of_nat (dec_value ds) else of_nat (dec_value ds)),
                \<lparr>rest = r, failed = False\<rparr>))"

lemma get_u64_le:
  assumes "(v, st') = get_u64 st old"
  shows "length (rest st') \<le> length (rest st)" and "\<not> failed st' \<Longrightarrow> length (rest st') < length (rest st)"
proof -
  let ?s = "dropWhile is_space (rest st)"
  let ?t = "skip_sign ?s"
  have s: "length ?s \<le> length (rest st)" by (rule length_dropWhile_le)
  have t: "length ?t \<le> length ?s" by (simp add: skip_sign_def)
  have r: "length (takeWhile is_digit ?t) + length (dropWhile is_digit ?t) = length ?t"
    by (simp flip: length_append)
  have lt: "length (dropWhile is_digit ?t) < length (rest st)" if "takeWhile is_digit ?t \<noteq> []"
    using s t r length_greater_0_conv [of "takeWhile is_digit ?t"] that by linarith
  show "length (rest st') \<le> length (rest st)"
    using assms s t r by (auto simp: get_u64_def Let_def split: if_splits)
  show "length (rest st') < length (rest st)" if "\<not> failed st'"
    using assms that lt by (auto simp: get_u64_def Let_def split: if_splits)
qed

function DeSerialize2_loop :: "istream \<Rightarrow> u64 \<Rightarrow> u64 \<Rightarrow> u64 \<Rightarrow> index_map \<Rightarrow> index_map" where
  "DeSerialize2_loop st key page_id loc m =
     (case get_u64 st key of (key', st1) \<Rightarrow>
        if failed st1 then m
        else (case get_u64 st1 page_id of (page_id', st2) \<Rightarrow>
              case get_u64 st2 loc of (loc', st3) \<Rightarrow>
                DeSerialize2_loop st3 key' page_id' loc'
                  (if m key' = None then m(key' \<mapsto> \<lparr>item_page_id = page_id', item_location = loc'\<rparr>) else m)))"
  by pat_completeness auto
termination
  by (relation "measure (\<lambda>(st, _). length (rest st))")
     (auto intro: le_less_trans [OF get_u64_le(1) le_less_trans [OF get_u64_le(1) get_u64_le(2)]])

declare DeSerialize2_loop.simps [simp del]

definition Index_DeSerialize2 :: "string \<Rightarrow> u64 \<Rightarrow> u64 \<Rightarrow> u64 \<Rightarrow> index_map \<Rightarrow> index_map" where
  "Index_DeSerialize2 content key page_id loc m =
     DeSerialize2_loop \<lparr>rest = content, failed = False\<rparr> key page_id loc m"

section \<open>Lookup and update\<close>

lemma IndexPut_eq [simp]: "IndexPut key it m = (0, m(key \<mapsto> it))"
proof -
  have A: "old\<lparr>item_page_id := item_page_id it, item_location := item_location it\<rparr> = it" for old :: index_item
    by (rule index_item.equality) simp_all
  have B: "\<lparr>item_page_id = item_page_id it, item_location = item_location it\<rparr> = it"
    by (rule index_item.equality) simp_all
  show ?thesis by (cases "m key") (simp_all only: IndexPut_def option.case A B)
qed

lemma IndexGet_eq: "IndexGet key out m = (case m key of None \<Rightarrow> (IDX_NOT_EXIST, out) | Some it \<Rightarrow> (IDX_EXIST, it))"
  by (simp add: IndexGet_def)

section \<open>The encoding of entries\<close>

definition enc_entry :: "entry \<Rightarrow> bytes" where
  "enc_entry e = enc64 (fst e) @ enc64 (item_page_id (snd e)) @ enc64 (item_location (snd e))"

definition encs :: "entry list \<Rightarrow> bytes" where
  "encs es = concat (map enc_entry es)"

definition puts :: "index_map \<Rightarrow> entry list \<Rightarrow> index_map" where
  "puts m es = foldl (\<lambda>m e. m(fst e \<mapsto> snd e)) m es"

lemma length_enc_entry [simp]: "length (enc_entry e) = 24"
  by (simp add: enc_entry_def)

lemma encs_simps [simp]: "encs [] = []" "encs (e # es) = enc_entry e @ encs es" "encs (es @ fs) = encs es @ encs fs"
  by (simp_all add: encs_def)

lemma length_encs [simp]: "length (encs es) = 24 * length es"
  by (induction es) simp_all

lemma take_encs: "take (24 * q) (encs es) = encs (take q es)"
proof (cases "q \<le> length es")
  case True
  have "take (24 * q) (encs (take q es @ drop q es)) = encs (take q es)"
    using True by (simp only: encs_simps) (simp add: min_def)
  then show ?thesis by simp
qed simp

lemma drop_encs: "drop (24 * q) (encs es) = encs (drop q es)"
proof (cases "q \<le> length es")
  case True
  have "drop (24 * q) (encs (take q es @ drop q es)) = encs (drop q es)"
    using True by (simp only: encs_simps) (simp add: min_def)
  then show ?thesis by simp
qed simp

lemma puts_simps [simp]: "puts m [] = m" "puts m (e # es) = puts (m(fst e \<mapsto> snd e)) es"
  "puts m (es @ fs) = puts (puts m es) fs"
  by (simp_all add: puts_def)

lemma puts_map_of: "distinct (map fst es) \<Longrightarrow> puts m es = m ++ map_of es"
proof (induction es arbitrary: m)
  case (Cons e es)
  then have "map_of es (fst e) = None" by (simp add: map_of_eq_None_iff)
  then have "m(fst e \<mapsto> snd e) ++ map_of es = m ++ map_of (e # es)"
    by (cases e) (auto simp: fun_eq_iff map_add_def split: option.splits)
  then show ?case using Cons by (simp del: map_of.simps)
qed simp

section \<open>File access under the POSIX laws\<close>

lemma FileIO_Open_ok:
  assumes "posix_laws P content fdpath"
  obtains fd f' where "FileIO_Open P path f = Inr (fd, f')" and "0 < fd"
    and "fdpath (world f') fd = Some path" and "content (world f') = content (world f)"
proof -
  obtain fd w where o: "sys_open P path (world f) = (fd, w)" by fastforce
  note l = posix_openD [OF assms o]
  have "\<exists>f'. FileIO_Open P path f = Inr (fd, f') \<and> world f' = w"
    using o l by (simp add: FileIO_Open_def)
  then show ?thesis using that l by auto
qed

lemma FileIO_Write_ok:
  assumes "posix_laws P content fdpath" and "fdpath (world f) fd = Some path" and "count \<le> length buf"
  obtains f' where "FileIO_Write P fd buf count off f = Inr (int count, f')"
    and "fdpath (world f') fd = Some path"
    and "content (world f') path = file_write (content (world f) path) off (take count buf)"
proof -
  obtain n w where w: "sys_pwrite P fd (take count buf) off (world f) = (n, w)" by fastforce
  note l = posix_pwriteD [OF assms(1) w assms(2)]
  show ?thesis
    by (rule that [of "f\<lparr>world := w\<rparr>"]) (use w l assms in \<open>auto simp: FileIO_Write_def read_at_def min_def\<close>)
qed

lemma FileIO_Read_ok:
  assumes "posix_laws P content fdpath" and "fdpath (world f) fd = Some path"
    and "off + count \<le> length (content (world f) path)" and "count \<le> length buf"
  obtains f' where "FileIO_Read P fd buf count off f =
      Inr (int count, take count (drop off (content (world f) path)) @ drop count buf, f')"
    and "fdpath (world f') fd = Some path" and "content (world f') = content (world f)"
proof -
  obtain r w where w: "sys_pread P fd count off (world f) = (r, w)" by fastforce
  note l = posix_preadD [OF assms(1) w assms(2)]
  define b where "b = take count (drop off (content (world f) path))"
  have len: "length b = count" using assms(3) by (simp add: b_def)
  show ?thesis
    by (rule that [of "f\<lparr>world := w\<rparr>"])
       (use w l assms len in \<open>auto simp: FileIO_Read_def memcpy_at_def simp flip: b_def\<close>)
qed

lemma take_file_write:
  "off \<le> length c \<Longrightarrow> take (off + length b) (file_write c off b) = take off c @ b"
  by (simp add: file_write_def)

section \<open>What Serialize leaves in the file\<close>

text \<open>
  The loop invariant: the file up to the current offset, followed by the used part of the buffer,
  is the header followed by the entries done.
\<close>

definition ser_inv ::
  "('w \<Rightarrow> string \<Rightarrow> bytes) \<Rightarrow> ('w \<Rightarrow> int \<Rightarrow> string option) \<Rightarrow> int \<Rightarrow> string \<Rightarrow> bytes \<Rightarrow> 'w ser_state \<Rightarrow> bool" where
  "ser_inv content fdpath fd path bs st \<longleftrightarrow>
     fdpath (world (sfile st)) fd = Some path \<and> length (sbuf st) = CHUNK \<and>
     sused st \<le> CHUNK \<and> 24 dvd sused st \<and> soffset st \<le> length (content (world (sfile st)) path) \<and>
     take (soffset st) (content (world (sfile st)) path) @ take (sused st) (sbuf st) = bs"

lemma ser_inv_flush:
  assumes L: "posix_laws P content fdpath" and I: "ser_inv content fdpath fd path bs st"
  obtains f where "FileIO_Write P fd (sbuf st) (sused st) (soffset st) (sfile st) = Inr (int (sused st), f)"
    and "ser_inv content fdpath fd path bs (st\<lparr>sfile := f, soffset := soffset st + sused st, sused := 0\<rparr>)"
proof -
  let ?b = "take (sused st) (sbuf st)" and ?c = "content (world (sfile st)) path"
  have blen: "length ?b = sused st" using I by (simp add: ser_inv_def)
  obtain f where f: "FileIO_Write P fd (sbuf st) (sused st) (soffset st) (sfile st) = Inr (int (sused st), f)"
    "fdpath (world f) fd = Some path" "content (world f) path = file_write ?c (soffset st) ?b"
    using FileIO_Write_ok [OF L, of "sfile st" fd path "sused st" "sbuf st" "soffset st"] I
    by (auto simp: ser_inv_def)
  have "take (soffset st + sused st) (content (world f) path) = bs"
    using take_file_write [of "soffset st" ?c ?b] I f(3) blen by (simp add: ser_inv_def)
  then show ?thesis
    using that [OF f(1)] f(2,3) I blen by (simp add: ser_inv_def length_file_write)
qed

lemma ser_inv_append:
  assumes I: "ser_inv content fdpath fd path bs st" and u: "sused st \<noteq> CHUNK"
  obtains b where "rbind (memcpy_at (sbuf st) (sused st + 0 * 8) (enc64 (fst e))) (\<lambda>b0.
     rbind (memcpy_at b0 (sused st + 1 * 8) (enc64 (item_page_id (snd e)))) (\<lambda>b1.
     memcpy_at b1 (sused st + 2 * 8) (enc64 (item_location (snd e))))) = Inr b"
    and "ser_inv content fdpath fd path (bs @ enc_entry e) (st\<lparr>sbuf := b, sused := sused st + 3 * 8\<rparr>)"
proof -
  obtain k where k: "sused st = 24 * k" using I by (auto simp: ser_inv_def dvd_def)
  then have room: "sused st + 24 \<le> CHUNK" using I u by (simp add: ser_inv_def CHUNK_def)
  let ?b = "take (sused st) (sbuf st) @ enc_entry e @ drop (sused st + 24) (sbuf st)"
  have "rbind (memcpy_at (sbuf st) (sused st + 0 * 8) (enc64 (fst e))) (\<lambda>b0.
     rbind (memcpy_at b0 (sused st + 1 * 8) (enc64 (item_page_id (snd e)))) (\<lambda>b1.
     memcpy_at b1 (sused st + 2 * 8) (enc64 (item_location (snd e))))) = Inr ?b"
    using I room by (simp add: memcpy_at_def ser_inv_def enc_entry_def min_def add.commute)
  moreover have "ser_inv content fdpath fd path (bs @ enc_entry e) (st\<lparr>sbuf := ?b, sused := sused st + 3 * 8\<rparr>)"
    using I room k by (auto simp: ser_inv_def min_def)
  ultimately show ?thesis by (rule that)
qed

lemma Serialize_entry_ok:
  assumes L: "posix_laws P content fdpath" and I: "ser_inv content fdpath fd path bs st"
  obtains st' where "Serialize_entry P fd e st = Inr st'"
    and "ser_inv content fdpath fd path (bs @ enc_entry e) st'"
proof -
  obtain st1 where st1: "(if sused st = CHUNK
       then rbind (FileIO_Write P fd (sbuf st) (sused st) (soffset st) (sfile st)) (\<lambda>(x, f).
            asserting (x = int (sused st))
              (Inr (st\<lparr>sfile := f, soffset := soffset st + sused st, sused := 0\<rparr>)))
       else Inr st) = Inr st1" "ser_inv content fdpath fd path bs st1" "sused st1 \<noteq> CHUNK"
  proof (cases "sused st = CHUNK")
    case True
    obtain f where "FileIO_Write P fd (sbuf st) (sused st) (soffset st) (sfile st) = Inr (int (sused st), f)"
      "ser_inv content fdpath fd path bs (st\<lparr>sfile := f, soffset := soffset st + sused st, sused := 0\<rparr>)"
      by (rule ser_inv_flush [OF L I])
    then show ?thesis
      using True that [of "st\<lparr>sfile := f, soffset := soffset st + sused st, sused := 0\<rparr>"]
      by (simp add: CHUNK_def)
  next
    case False
    then show ?thesis using that [of st] I by simp
  qed
  obtain b where "rbind (memcpy_at (sbuf st1) (sused st1 + 0 * 8) (enc64 (fst e))) (\<lambda>b0.
     rbind (memcpy_at b0 (sused st1 + 1 * 8) (enc64 (item_page_id (snd e)))) (\<lambda>b1.
     memcpy_at b1 (sused st1 + 2 * 8) (enc64 (item_location (snd e))))) = Inr b"
    "ser_inv content fdpath fd path (bs @ enc_entry e) (st1\<lparr>sbuf := b, sused := sused st1 + 3 * 8\<rparr>)"
    by (rule ser_inv_append [OF st1(2,3), where e = e])
  then show ?thesis
    using that st1(1) unfolding Serialize_entry_def
    by (force simp: rbind_Inr_iff simp del: mult_zero_left)
qed

lemma Serialize_loop_ok:
  assumes L: "posix_laws P content fdpath" and "ser_inv content fdpath fd path bs st"
  shows "\<exists>st'. Serialize_loop P fd es st = Inr st' \<and> ser_inv content fdpath fd path (bs @ encs es) st'"
  using assms(2)
proof (induction es arbitrary: bs st)
  case (Cons e es)
  obtain st1 where st1: "Serialize_entry P fd e st = Inr st1"
    "ser_inv content fdpath fd path (bs @ enc_entry e) st1"
    by (rule Serialize_entry_ok [OF L Cons.prems])
  with Cons.IH [OF st1(2)] show ?case by auto
qed auto

definition index_header :: "entry list \<Rightarrow> bytes" where
  "index_header es = enc64 (of_nat (8 + 8 + 3 * 8 * length es)) @ enc64 (of_nat (length es))"

lemma length_index_header [simp]: "length (index_header es) = 16"
  by (simp add: index_header_def)

lemma Index_write_ok:
  assumes L: "posix_laws P content fdpath" and len: "length buf0 = CHUNK"
  obtains fd f' where "Index_write P name es buf0 f = Inr (fd, f')"
    and "fdpath (world f') fd = Some (DB_PREFIX @ name)"
    and "take (16 + 24 * length es) (content (world f') (DB_PREFIX @ name)) = index_header es @ encs es"
proof -
  let ?p = "DB_PREFIX @ name"
  let ?a = "enc64 (of_nat (8 + 8 + 3 * 8 * length es))" and ?b = "enc64 (of_nat (length es))"
  obtain fd f1 where f1: "FileIO_Open P ?p f = Inr (fd, f1)" "0 < fd" "fdpath (world f1) fd = Some ?p"
    by (rule FileIO_Open_ok [OF L])
  obtain f2 where f2: "FileIO_Write P fd ?a 8 0 f1 = Inr (int 8, f2)" "fdpath (world f2) fd = Some ?p"
    "content (world f2) ?p = file_write (content (world f1) ?p) 0 ?a"
    using FileIO_Write_ok [OF L f1(3), of 8 ?a 0] by auto
  obtain f3 where f3: "FileIO_Write P fd ?b 8 8 f2 = Inr (int 8, f3)" "fdpath (world f3) fd = Some ?p"
    "content (world f3) ?p = file_write (content (world f2) ?p) 8 ?b"
    using FileIO_Write_ok [OF L f2(2), of 8 ?b 8] by auto
  have c2: "take 8 (content (world f2) ?p) = ?a" "8 \<le> length (content (world f2) ?p)"
    using f2(3) take_file_write [of 0 "content (world f1) ?p" ?a] by (simp_all add: length_file_write)
  then have "take 16 (content (world f3) ?p) = index_header es" "16 \<le> length (content (world f3) ?p)"
    using f3(3) take_file_write [of 8 "content (world f2) ?p" ?b]
    by (simp_all add: length_file_write index_header_def)
  then have "ser_inv content fdpath fd ?p (index_header es) \<lparr>sbuf = buf0, sused = 0, soffset = 2 * 8, sfile = f3\<rparr>"
    using f3(2) len by (simp add: ser_inv_def)
  from Serialize_loop_ok [OF L this] obtain st where
    st: "Serialize_loop P fd es \<lparr>sbuf = buf0, sused = 0, soffset = 2 * 8, sfile = f3\<rparr> = Inr st"
    "ser_inv content fdpath fd ?p (index_header es @ encs es) st" by blast
  obtain f4 where f4: "FileIO_Write P fd (sbuf st) (sused st) (soffset st) (sfile st) = Inr (int (sused st), f4)"
    "ser_inv content fdpath fd ?p (index_header es @ encs es)
      (st\<lparr>sfile := f4, soffset := soffset st + sused st, sused := 0\<rparr>)"
    by (rule ser_inv_flush [OF L st(2)])
  have *: "fdpath (world (sfile t)) fd = Some ?p \<and>
      take (16 + 24 * length es) (content (world (sfile t)) ?p) = index_header es @ encs es"
    if t: "ser_inv content fdpath fd ?p (index_header es @ encs es) t" "sused t = 0" for t
  proof -
    have e: "take (soffset t) (content (world (sfile t)) ?p) = index_header es @ encs es"
      "soffset t \<le> length (content (world (sfile t)) ?p)"
      using t by (simp_all add: ser_inv_def)
    from arg_cong [OF e(1), of length] e(2) have "soffset t = 16 + 24 * length es" by simp
    with e t show ?thesis by (simp add: ser_inv_def)
  qed
  show ?thesis
  proof (cases "sused st = 0")
    case True
    then show ?thesis
      using that [of fd "sfile st"] * [OF st(2)] f1 f2(1) f3(1) st(1) by (simp add: Index_write_def)
  next
    case False
    then show ?thesis
      using that [of fd f4] * [OF f4(2)] f1 f2(1) f3(1) st(1) f4(1) by (simp add: Index_write_def)
  qed
qed

section \<open>What DeSerialize reads back\<close>

lemma DeSerialize_for_ok:
  "buf = pre @ encs es @ suf \<Longrightarrow> length pre = 24 * i \<Longrightarrow> DeSerialize_for (length es) i buf m = Inr (puts m es)"
proof (induction es arbitrary: i pre m)
  case (Cons e es)
  obtain k it where e: "e = (k, it)" by (cases e)
  have off: "3 * i * 8 + 0 * 8 = 24 * i" "3 * i * 8 + 1 * 8 = 24 * i + 8" "3 * i * 8 + 2 * 8 = 24 * i + 16"
    by simp_all
  have rd: "read_at buf (24 * i) 8 = Inr (enc64 k)" "read_at buf (24 * i + 8) 8 = Inr (enc64 (item_page_id it))"
    "read_at buf (24 * i + 16) 8 = Inr (enc64 (item_location it))"
    using Cons.prems by (simp_all add: read_at_def e enc_entry_def)
  have it: "\<lparr>item_page_id = item_page_id it, item_location = item_location it\<rparr> = it"
    by (rule index_item.equality) simp_all
  have "DeSerialize_for (length (e # es)) i buf m = DeSerialize_for (length es) (Suc i) buf (m(k \<mapsto> it))"
    unfolding length_Cons DeSerialize_for.simps off
    by (simp only: rd rbind_simps dec64_enc64 it IndexPut_eq snd_conv)
  also have "\<dots> = Inr (puts (m(k \<mapsto> it)) es)"
    by (rule Cons.IH [of "pre @ enc_entry e"]) (use Cons.prems in simp_all)
  finally show ?case by (simp add: e)
qed simp

lemma DeSerialize_loop_ok:
  assumes L: "posix_laws P content fdpath" and fd: "fdpath (world f) fd = Some path"
    and c: "take (16 + 24 * length es) (content (world f) path) = hdr @ encs es" and h: "length hdr = 16"
    and small: "16 + 24 * length es + CHUNK < 2 ^ 64" and b: "length buf = CHUNK" and k: "k \<le> length es"
  shows "\<exists>f'. DeSerialize_loop P fd (16 + 24 * length es) (16 + 24 * k) buf m f = Some (Inr (puts m (drop k es), f')) \<and>
    fdpath (world f') fd = Some path"
  using fd c b k
proof (induction "length es - k" arbitrary: k buf m f rule: less_induct)
  case less
  let ?N = "16 + 24 * length es" and ?o = "16 + 24 * k"
  show ?case
  proof (cases "k = length es")
    case True
    then show ?thesis using less.prems by (simp add: DeSerialize_loop.simps)
  next
    case False
    define q where "q = min 21845 (length es - k)"
    have q: "0 < q" "q \<le> length es - k" "24 * q \<le> CHUNK" "k + q \<le> length es"
      using False less.prems(4) by (auto simp: q_def CHUNK_def)
    have rs: "(if (?o + CHUNK) mod 2 ^ 64 \<le> ?N then CHUNK else ?N - ?o) = 24 * q"
      using small less.prems(4) by (auto simp: q_def CHUNK_def min_def mod_less)
    let ?c = "content (world f) path"
    have "length ?c \<ge> ?N"
      using arg_cong [OF less.prems(2), of length] h by simp
    then have fits: "?o + 24 * q \<le> length ?c" using q(4) by simp
    have "take (24 * q) (drop ?o (take ?N ?c)) = take (24 * q) (drop ?o ?c)"
      using q(4) by (simp add: drop_take min_def)
    moreover have "take (24 * q) (drop ?o (hdr @ encs es)) = encs (take q (drop k es))"
      using h by (simp add: drop_encs take_encs)
    ultimately have chunk: "take (24 * q) (drop ?o ?c) = encs (take q (drop k es))"
      using less.prems(2) by simp
    obtain f1 where f1: "FileIO_Read P fd buf (24 * q) ?o f =
        Inr (int (24 * q), encs (take q (drop k es)) @ drop (24 * q) buf, f1)"
      "fdpath (world f1) fd = Some path" "content (world f1) = content (world f)"
      using FileIO_Read_ok [OF L less.prems(1) fits, of buf] q(3) less.prems(3) unfolding chunk by auto
    let ?buf = "encs (take q (drop k es)) @ drop (24 * q) buf"
    have ql: "length (take q (drop k es)) = q" using q(2) by simp
    have for_ok: "DeSerialize_for q 0 ?buf m = Inr (puts m (take q (drop k es)))"
      using DeSerialize_for_ok [of ?buf "[]" "take q (drop k es)" "drop (24 * q) buf" 0 m] ql by simp
    have next_off: "(?o + 24 * q) mod 2 ^ 64 = 16 + 24 * (k + q)"
      using small q(4) by (simp add: mod_less)
    have lt: "?o < ?N" using False less.prems(4) by simp
    have "DeSerialize_loop P fd ?N ?o buf m f =
        DeSerialize_loop P fd ?N (16 + 24 * (k + q)) ?buf (puts m (take q (drop k es))) f1"
      by (subst DeSerialize_loop.simps)
         (simp only: lt if_True Let_def rs f1(1) rbind_simps prod.case asserting_simps for_ok sum.case
           next_off, simp add: for_ok)
    moreover have "\<exists>f'. DeSerialize_loop P fd ?N (16 + 24 * (k + q)) ?buf (puts m (take q (drop k es))) f1 =
        Some (Inr (puts (puts m (take q (drop k es))) (drop (k + q) es), f')) \<and> fdpath (world f') fd = Some path"
      by (rule less.hyps) (use q f1 less.prems ql in auto)
    moreover have "puts (puts m (take q (drop k es))) (drop (k + q) es) = puts m (drop k es)"
      by (metis append_take_drop_id drop_drop puts_simps(3) add.commute)
    ultimately show ?thesis by simp
  qed
qed

lemma Index_read_ok:
  assumes L: "posix_laws P content fdpath"
    and c: "take (16 + 24 * length es) (content (world f) (DB_PREFIX @ name)) = index_header es @ encs es"
    and small: "16 + 24 * length es + CHUNK < 2 ^ 64" and b: "length buf0 = CHUNK"
  shows "\<exists>fd f'. Index_read P name u v buf0 m f = Some (Inr (fd, puts m es, f'))"
proof -
  let ?p = "DB_PREFIX @ name"
  obtain fd f1 where f1: "FileIO_Open P ?p f = Inr (fd, f1)" "0 < fd" "fdpath (world f1) fd = Some ?p"
    "content (world f1) = content (world f)" by (rule FileIO_Open_ok [OF L])
  let ?c = "content (world f) ?p"
  have len: "16 + 24 * length es \<le> length ?c"
    using arg_cong [OF c, of length] by simp
  have "take 8 (take (16 + 24 * length es) ?c) = take 8 ?c" by (simp add: min_def)
  then have hd8: "take 8 ?c = enc64 (of_nat (16 + 24 * length es))" unfolding c by (simp add: index_header_def)
  obtain f2 where f2: "FileIO_Read P fd (enc64 u) 8 0 f1 = Inr (int 8, enc64 (of_nat (16 + 24 * length es)), f2)"
    "fdpath (world f2) fd = Some ?p" "content (world f2) = content (world f)"
    using FileIO_Read_ok [OF L f1(3), of 0 8 "enc64 u"] f1(4) len hd8 by auto
  obtain f3 where f3: "FileIO_Read P fd (enc64 v) 8 8 f2 = Inr (int 8, take 8 (drop 8 ?c), f3)"
    "fdpath (world f3) fd = Some ?p" "content (world f3) = content (world f)"
    using FileIO_Read_ok [OF L f2(2), of 8 8 "enc64 v"] f2(3) len by auto
  have un: "unat (of_nat (16 + 24 * length es) :: u64) = 16 + 24 * length es"
    using small by (subst unsigned_of_nat) (simp add: take_bit_nat_eq_self)
  obtain f4 where "DeSerialize_loop P fd (16 + 24 * length es) (16 + 24 * 0) buf0 m f3 = Some (Inr (puts m (drop 0 es), f4))"
    using DeSerialize_loop_ok [OF L f3(2) _ length_index_header small b le0] c f3(3) by metis
  then show ?thesis
    using f1(1,2) f2(1) f3(1) un by (simp add: Index_read_def)
qed

section \<open>The text format\<close>

lemma is_digit_not_space: "is_digit c \<Longrightarrow> \<not> is_space c"
  by (auto simp: is_digit_def is_space_def)

lemma dec_string_hd: "is_digit (hd (dec_string n))"
  by (rule dec_string_digits [of _ n]) simp

lemma skip_sign_dec: "skip_sign (dec_string n @ r) = dec_string n @ r"
  using dec_string_hd [of n] by (auto simp: skip_sign_def is_digit_def)

lemma takeWhile_dec: "takeWhile is_digit (dec_string n @ CHR '' '' # r) = dec_string n"
  and dropWhile_dec: "dropWhile is_digit (dec_string n @ CHR '' '' # r) = CHR '' '' # r"
  using dec_string_digits by (simp_all add: takeWhile_append2 dropWhile_append2 is_digit_def)

lemma get_u64_dec:
  assumes "sp = [] \<or> sp = '' ''"
  shows "get_u64 \<lparr>rest = sp @ dec_string (unat x) @ CHR '' '' # r, failed = False\<rparr> old =
    (x, \<lparr>rest = CHR '' '' # r, failed = False\<rparr>)"
proof -
  let ?d = "dec_string (unat x) @ CHR '' '' # r"
  obtain c cs where c: "dec_string (unat x) = c # cs" by (cases "dec_string (unat x)") auto
  then have cd: "is_digit c" using dec_string_hd [of "unat x"] by simp
  then have s: "dropWhile is_space (sp @ ?d) = ?d"
    using assms c is_digit_not_space [OF cd] by (auto simp: is_space_def)
  have "hd ?d \<noteq> CHR ''-''" using cd c by (auto simp: is_digit_def)
  moreover have "\<not> 2 ^ 64 \<le> dec_value (dec_string (unat x))"
    using unsigned_less [where w = x] by (simp add: not_le)
  ultimately show ?thesis
    using s by (simp add: get_u64_def Let_def skip_sign_dec takeWhile_dec dropWhile_dec)
qed

lemma get_u64_end:
  "sp = [] \<or> sp = '' '' \<Longrightarrow> get_u64 \<lparr>rest = sp, failed = False\<rparr> old = (old, \<lparr>rest = [], failed = True\<rparr>)"
  by (auto simp: get_u64_def is_space_def)

lemma DeSerialize2_loop_ok:
  assumes "sp = [] \<or> sp = '' ''" and "distinct (map fst es)" and "fst ` set es \<inter> dom m = {}"
  shows "DeSerialize2_loop \<lparr>rest = sp @ Index_Serialize2 es, failed = False\<rparr> key page_id loc m = puts m es"
  using assms
proof (induction es arbitrary: sp key page_id loc m)
  case Nil
  then show ?case
    using get_u64_end [OF Nil(1)] by (simp add: DeSerialize2_loop.simps Index_Serialize2_def)
next
  case (Cons e es)
  obtain k it where e: "e = (k, it)" by (cases e)
  let ?r = "Index_Serialize2 es"
  have ser: "Index_Serialize2 (e # es) = dec_string (unat k) @ CHR '' '' # dec_string (unat (item_page_id it)) @
      CHR '' '' # dec_string (unat (item_location it)) @ CHR '' '' # ?r"
    by (simp add: Index_Serialize2_def e)
  have g1: "get_u64 \<lparr>rest = CHR '' '' # dec_string (unat x) @ CHR '' '' # r, failed = False\<rparr> old =
    (x, \<lparr>rest = CHR '' '' # r, failed = False\<rparr>)" for x r old
    using get_u64_dec [of "'' ''" x r old] by simp
  have it: "\<lparr>item_page_id = item_page_id it, item_location = item_location it\<rparr> = it"
    by (rule index_item.equality) simp_all
  have mk: "m k = None" using Cons.prems(3) e by auto
  have disj: "fst ` set es \<inter> dom (m(k \<mapsto> it)) = {}" using Cons.prems(2,3) e by simp
  have "DeSerialize2_loop \<lparr>rest = sp @ Index_Serialize2 (e # es), failed = False\<rparr> key page_id loc m =
      DeSerialize2_loop \<lparr>rest = '' '' @ ?r, failed = False\<rparr> k (item_page_id it) (item_location it) (m(k \<mapsto> it))"
    by (subst DeSerialize2_loop.simps) (simp add: ser get_u64_dec [OF Cons.prems(1)] g1 mk it)
  also have "\<dots> = puts (m(k \<mapsto> it)) es"
    by (rule Cons.IH [OF _ _ disj]) (use Cons.prems e in simp_all)
  finally show ?case by (simp add: e)
qed

section \<open>Properties\<close>



text \<open>
  C23: the text index file is a round trip. For entries with pairwise different keys,
  \<open>Index::DeSerialize2\<close> on the text \<open>Index::Serialize2\<close> writes rebuilds exactly the index,
  whatever its uninitialised local variables hold.
\<close>

theorem index_text_roundtrip:
  assumes "distinct (map fst es)"
  shows "Index_DeSerialize2 (Index_Serialize2 es) key page_id loc Map.empty = map_of es"
  using DeSerialize2_loop_ok [of "[]" es Map.empty] puts_map_of [OF assms, of Map.empty] assms
  by (simp add: Index_DeSerialize2_def)

theorem index_text_roundtrip_witness:
  "Index_DeSerialize2 (Index_Serialize2 [(7, \<lparr>item_page_id = 1, item_location = 64\<rparr>)]) 0 0 0 Map.empty =
     map_of [(7, \<lparr>item_page_id = 1, item_location = 64\<rparr>)]"
  by (rule index_text_roundtrip) simp

end
