(* ===== verification/Table_Space.thy ===== *)
theory Table_Space
  imports Globals "HOL-Library.Countable"
begin

text \<open>
  \<open>common/storage/tablespace/tablespace.cpp\<close>: the page allocator of a table and its JSON
  description file. The JSON library is a parameter: its printer and parser, of which the code
  needs that parsing what was printed gives the same object. \<open>GetNextPageId\<close> is also cut where
  it releases its mutex, because it reads the result after that.
\<close>

section \<open>State and operations\<close>

record table_space =
  ts_table_name :: string
  ts_table_size :: u64
  ts_page_size :: u64
  ts_row_size :: u64
  ts_last_page_id :: u64

definition TableSpace_new :: "string \<Rightarrow> table_space" where
  "TableSpace_new name =
     \<lparr>ts_table_name = name, ts_table_size = 0, ts_page_size = of_nat MY_PAGE_SIZE, ts_row_size = 0,
      ts_last_page_id = - 1\<rparr>"

definition set_table_name :: "string \<Rightarrow> table_space \<Rightarrow> table_space" where
  "set_table_name v t = t\<lparr>ts_table_name := v\<rparr>"

definition set_table_size :: "u64 \<Rightarrow> table_space \<Rightarrow> table_space" where
  "set_table_size v t = t\<lparr>ts_table_size := v\<rparr>"

definition set_ts_page_size :: "u64 \<Rightarrow> table_space \<Rightarrow> table_space" where
  "set_ts_page_size v t = t\<lparr>ts_page_size := v\<rparr>"

definition set_row_size :: "u64 \<Rightarrow> table_space \<Rightarrow> table_space" where
  "set_row_size v t = t\<lparr>ts_row_size := v\<rparr>"

definition set_last_page_id :: "u64 \<Rightarrow> table_space \<Rightarrow> table_space" where
  "set_last_page_id v t = t\<lparr>ts_last_page_id := v\<rparr>"

text \<open>The critical section, and the return value read after it.\<close>

definition GetNextPageId_locked :: "table_space \<Rightarrow> table_space" where
  "GetNextPageId_locked t =
     t\<lparr>ts_last_page_id := ts_last_page_id t + 1,
       ts_table_size := ts_table_size t + of_nat MY_PAGE_SIZE\<rparr>"

definition GetLastPageId :: "table_space \<Rightarrow> u64" where
  "GetLastPageId t = ts_last_page_id t"

definition GetNextPageId :: "table_space \<Rightarrow> u64 \<times> table_space" where
  "GetNextPageId t = (let t' = GetNextPageId_locked t in (ts_last_page_id t', t'))"

primrec alloc_pages :: "nat \<Rightarrow> table_space \<Rightarrow> u64 list \<times> table_space" where
  "alloc_pages 0 t = ([], t)"
| "alloc_pages (Suc n) t =
     (case GetNextPageId t of (i, t1) \<Rightarrow> case alloc_pages n t1 of (is, t2) \<Rightarrow> (i # is, t2))"

subsection \<open>The description file\<close>

datatype json_value = JStr string | JNum int

instance json_value :: countable
  by countable_datatype

type_synonym json_object = "(string \<times> json_value) list"

text \<open>Conversions of a member, throwing on a value of the wrong kind or range.\<close>

definition asString :: "json_object \<Rightarrow> string \<Rightarrow> string res" where
  "asString root k = (case map_of root k of Some (JStr s) \<Rightarrow> Inr s | Some (JNum n) \<Rightarrow> Inl Exception | None \<Rightarrow> Inr [])"

definition asUInt64 :: "json_object \<Rightarrow> string \<Rightarrow> u64 res" where
  "asUInt64 root k =
     (case map_of root k of
        Some (JNum n) \<Rightarrow> if 0 \<le> n \<and> n < 2 ^ 64 then Inr (of_int n) else Inl Exception
      | Some (JStr s) \<Rightarrow> Inl Exception
      | None \<Rightarrow> Inr 0)"

definition asInt64 :: "json_object \<Rightarrow> string \<Rightarrow> u64 res" where
  "asInt64 root k =
     (case map_of root k of
        Some (JNum n) \<Rightarrow> if - (2 ^ 63) \<le> n \<and> n < 2 ^ 63 then Inr (of_int n) else Inl Exception
      | Some (JStr s) \<Rightarrow> Inl Exception
      | None \<Rightarrow> Inr 0)"

definition TableSpace_json :: "table_space \<Rightarrow> json_object" where
  "TableSpace_json t =
     [(''table_name'', JStr (ts_table_name t)),
      (''table_size'', JNum (uint (ts_table_size t))),
      (''page_size'', JNum (uint (ts_page_size t))),
      (''row_size'', JNum (uint (ts_row_size t))),
      (''last_page_id'', JNum (sint (ts_last_page_id t)))]"

text \<open>
  The files are a map from paths to their text. A file that cannot be opened fails the assertion;
  writing always creates it.
\<close>

definition TableSpace_Serialize ::
  "(json_object \<Rightarrow> string) \<Rightarrow> table_space \<Rightarrow> (string \<Rightarrow> string option) \<Rightarrow> string \<Rightarrow> string option" where
  "TableSpace_Serialize print_json t files =
     files(DB_PREFIX @ ts_table_name t \<mapsto> print_json (TableSpace_json t))"

definition TableSpace_DeSerialize ::
  "(string \<Rightarrow> json_object option) \<Rightarrow> table_space \<Rightarrow> (string \<Rightarrow> string option) \<Rightarrow> table_space res" where
  "TableSpace_DeSerialize parse_json t files =
     (case files (DB_PREFIX @ ts_table_name t) of
        None \<Rightarrow> Inl Assert_Fail
      | Some text \<Rightarrow>
        (case parse_json text of
           None \<Rightarrow> Inl Assert_Fail
         | Some root \<Rightarrow>
             rbind (asString root ''table_name'') (\<lambda>name.
             rbind (asUInt64 root ''table_size'') (\<lambda>tsize.
             rbind (asUInt64 root ''page_size'') (\<lambda>psize.
             rbind (asUInt64 root ''row_size'') (\<lambda>rsize.
             rbind (asInt64 root ''last_page_id'') (\<lambda>last.
             Inr (t\<lparr>ts_table_name := name, ts_table_size := tsize, ts_page_size := psize,
                    ts_row_size := rsize, ts_last_page_id := last\<rparr>))))))))"

subsection \<open>Concurrent calls of GetNextPageId\<close>

datatype gnp_pc = Before | Unlocked | Returned u64

type_synonym gnp_state = "table_space \<times> (nat \<Rightarrow> gnp_pc)"

inductive gnp_step :: "gnp_state \<Rightarrow> gnp_state \<Rightarrow> bool" where
  increment: "pcs k = Before \<Longrightarrow> gnp_step (t, pcs) (GetNextPageId_locked t, pcs(k := Unlocked))"
| read_last: "pcs k = Unlocked \<Longrightarrow> gnp_step (t, pcs) (t, pcs(k := Returned (GetLastPageId t)))"

inductive gnp_reach :: "gnp_state \<Rightarrow> gnp_state \<Rightarrow> bool" where
  refl: "gnp_reach s s"
| step: "gnp_reach s t \<Longrightarrow> gnp_step t u \<Longrightarrow> gnp_reach s u"

section \<open>Sequential allocation\<close>

lemma alloc_pages_eq:
  "alloc_pages n t =
     (map (\<lambda>k. ts_last_page_id t + 1 + of_nat k) [0..<n],
      t\<lparr>ts_last_page_id := ts_last_page_id t + of_nat n,
        ts_table_size := ts_table_size t + of_nat n * of_nat MY_PAGE_SIZE\<rparr>)"
proof (induction n arbitrary: t)
  case (Suc n)
  have "map (\<lambda>k. ts_last_page_id t + 1 + of_nat k) [0..<Suc n] =
      (ts_last_page_id t + 1) # map (\<lambda>k. ts_last_page_id t + 1 + (1 + of_nat k)) [0..<n]"
    by (simp add: upt_conv_Cons map_Suc_upt [symmetric] del: upt_Suc map_Suc_upt)
  then show ?case
    using Suc [of "GetNextPageId_locked t"]
    by (simp add: GetNextPageId_def GetNextPageId_locked_def Let_def algebra_simps del: upt_Suc)
qed simp

section \<open>The description file\<close>

lemma TableSpace_json_lookup:
  "asString (TableSpace_json t) ''table_name'' = Inr (ts_table_name t)"
  "asUInt64 (TableSpace_json t) ''table_size'' = Inr (ts_table_size t)"
  "asUInt64 (TableSpace_json t) ''page_size'' = Inr (ts_page_size t)"
  "asUInt64 (TableSpace_json t) ''row_size'' = Inr (ts_row_size t)"
  "asInt64 (TableSpace_json t) ''last_page_id'' = Inr (ts_last_page_id t)"
  using sint_ge [of "ts_last_page_id t"] sint_lt [of "ts_last_page_id t"]
    uint_lt2p [of "ts_table_size t"] uint_lt2p [of "ts_page_size t"] uint_lt2p [of "ts_row_size t"]
  by (simp_all add: TableSpace_json_def asString_def asUInt64_def asInt64_def)

section \<open>Properties\<close>

text \<open>
  \<open>TableSpace::GetNextPageId\<close> called \<open>n\<close> times in a row on a new table space returns the page
  numbers \<open>0, 1, \<dots>, n - 1\<close>, and \<open>table_size_\<close> is then \<open>n\<close> pages.
\<close>

lemma GetNextPageId_sequence:
  "alloc_pages n (TableSpace_new name) =
     (map of_nat [0..<n],
      (TableSpace_new name)\<lparr>ts_last_page_id := of_nat n - 1, ts_table_size := of_nat (n * MY_PAGE_SIZE)\<rparr>)"
  by (simp add: alloc_pages_eq TableSpace_new_def)

text \<open>
  C26: \<open>GetNextPageId\<close> is not safe for concurrent callers: it reads \<open>last_page_id_\<close> after
  releasing its mutex, so from a new table space two threads can both return page number 1, and
  page number 0 is then never returned.
\<close>

theorem GetNextPageId_race:
  "\<exists>t pcs. gnp_reach (TableSpace_new name, \<lambda>_. Before) (t, pcs) \<and>
     pcs 0 = Returned 1 \<and> pcs 1 = Returned 1"
proof -
  let ?t0 = "TableSpace_new name" and ?t1 = "GetNextPageId_locked (TableSpace_new name)"
  let ?t2 = "GetNextPageId_locked ?t1"
  let ?p1 = "(\<lambda>_. Before)(0 := Unlocked)" and ?p2 = "(\<lambda>_. Before)(0 := Unlocked, 1 := Unlocked)"
  let ?p3 = "?p2(0 := Returned (GetLastPageId ?t2))"
  have "gnp_step (?t0, \<lambda>_. Before) (?t1, ?p1)" by (rule increment) simp
  moreover have "gnp_step (?t1, ?p1) (?t2, ?p2)" by (rule increment) simp
  moreover have "gnp_step (?t2, ?p2) (?t2, ?p3)" by (rule read_last) simp
  moreover have "gnp_step (?t2, ?p3) (?t2, ?p3(1 := Returned (GetLastPageId ?t2)))" by (rule read_last) simp
  ultimately have "gnp_reach (?t0, \<lambda>_. Before) (?t2, ?p3(1 := Returned (GetLastPageId ?t2)))"
    by (meson gnp_reach.intros)
  moreover have "GetLastPageId ?t2 = 1"
    by (simp add: GetLastPageId_def GetNextPageId_locked_def TableSpace_new_def)
  ultimately show ?thesis by fastforce
qed



end
