(* ===== verification/Lock_Table.thy ===== *)
theory Lock_Table
  imports Globals
begin

text \<open>
  \<open>common/lock_table/lock_table.cpp\<close>: the page locks of one instance. A node's mode is \<open>O\<close> (the
  instance does not own the page), \<open>P\<close> (owned, free), \<open>S\<close> (read-locked) or \<open>X\<close> (write-locked);
  \<open>thread_set\<close> holds the threads that announced a write and block an invalidation. Each
  operation runs under the node's mutex; an operation that would wait on the node's condition
  variable is \<open>Blocked\<close> and changes nothing.
\<close>

section \<open>State\<close>

datatype LockMode = LM_O | LM_P | LM_S | LM_X

record lock_node =
  node_instance :: int
  lock_mode :: LockMode
  lock_count :: int
  thread_count :: int
  thread_set :: "u64 set"
  invalid_req :: bool
  lock_remoting :: bool

type_synonym lock_table = "u64 \<Rightarrow> lock_node option"

definition LockNode_new :: "int \<Rightarrow> lock_node" where
  "LockNode_new inst =
     \<lparr>node_instance = inst, lock_mode = LM_O, lock_count = 0, thread_count = 0, thread_set = {},
      invalid_req = False, lock_remoting = False\<rparr>"

text \<open>\<open>Init\<close> inserts a node per page; \<open>insert\<close> keeps an entry that is already there.\<close>

definition LockTable_Init :: "u64 \<Rightarrow> u64 \<Rightarrow> int \<Rightarrow> lock_table \<Rightarrow> lock_table" where
  "LockTable_Init start_page end_page inst tbl =
     fold (\<lambda>i t. if t (of_nat i) = None then t(of_nat i \<mapsto> LockNode_new inst) else t)
       [unat start_page..<unat end_page] tbl"

section \<open>Operations on a node\<close>

definition Lock_node :: "LockMode \<Rightarrow> lock_node \<Rightarrow> (RC \<times> lock_node) res" where
  "Lock_node mode n =
     (case mode of
        LM_X \<Rightarrow>
          if lock_mode n = LM_P
          then asserting (lock_count n = 0)
                 (Inr (RCOK, n\<lparr>lock_mode := LM_X, lock_count := lock_count n + 1\<rparr>))
          else Inl Blocked
      | LM_S \<Rightarrow>
          (case lock_mode n of
             LM_X \<Rightarrow> Inl Blocked
           | LM_O \<Rightarrow> Inr (RCOK, n)
           | LM_P \<Rightarrow> asserting (lock_count n = 0)
                      (Inr (RCOK, n\<lparr>lock_count := lock_count n + 1, lock_mode := LM_S\<rparr>))
           | LM_S \<Rightarrow> asserting (lock_count n > 0) (Inr (RCOK, n\<lparr>lock_count := lock_count n + 1\<rparr>)))
      | _ \<Rightarrow> Inl Assert_Fail)"

definition UnLock_node :: "lock_node \<Rightarrow> (RC \<times> lock_node) res" where
  "UnLock_node n =
     (case lock_mode n of
        LM_X \<Rightarrow> asserting (lock_count n = 1)
                 (Inr (RCOK, n\<lparr>lock_count := lock_count n - 1, lock_mode := LM_P\<rparr>))
      | LM_S \<Rightarrow> asserting (lock_count n > 0)
                 (Inr (RCOK, n\<lparr>lock_count := lock_count n - 1,
                               lock_mode := (if lock_count n - 1 = 0 then LM_P else LM_S)\<rparr>))
      | _ \<Rightarrow> Inr (RCOK, n))"

definition AddThread_node :: "u64 \<Rightarrow> lock_node \<Rightarrow> lock_node" where
  "AddThread_node thd n =
     (if thd \<notin> thread_set n
      then n\<lparr>thread_set := insert thd (thread_set n), thread_count := thread_count n + 1\<rparr> else n)"

definition RemoveThread_node :: "u64 \<Rightarrow> lock_node \<Rightarrow> lock_node res" where
  "RemoveThread_node thd n =
     asserting (lock_mode n \<noteq> LM_O)
      (if thd \<in> thread_set n
       then asserting (thread_count n > 0)
              (Inr (n\<lparr>thread_count := thread_count n - 1, thread_set := thread_set n - {thd}\<rparr>))
       else Inr n)"

text \<open>
  \<open>LockInvalid\<close> announces itself in \<open>invalid_req\<close> before it takes the mutex, then waits until no
  thread is registered. The timed wait after that has the same predicate.
\<close>

definition LockInvalid_announce :: "lock_node \<Rightarrow> lock_node" where
  "LockInvalid_announce n = n\<lparr>invalid_req := True\<rparr>"

definition LockInvalid_node :: "lock_node \<Rightarrow> (RC \<times> lock_node) res" where
  "LockInvalid_node n =
     (if thread_count n \<noteq> 0 then Inl Blocked
      else if thread_count n = 0
      then asserting (thread_count n = 0)
            (asserting (lock_count n = 0) (Inr (RCOK, n\<lparr>lock_mode := LM_O, invalid_req := False\<rparr>)))
      else Inr (TIME_OUT, n\<lparr>invalid_req := False\<rparr>))"

section \<open>Operations on the table\<close>

definition with_node :: "u64 \<Rightarrow> lock_table \<Rightarrow> (lock_node \<Rightarrow> ('a \<times> lock_node) res) \<Rightarrow> ('a \<times> lock_table) res" where
  "with_node page_id tbl f =
     (case tbl page_id of
        None \<Rightarrow> Inl Assert_Fail
      | Some n \<Rightarrow> rbind (f n) (\<lambda>(r, n'). Inr (r, tbl(page_id \<mapsto> n'))))"

definition LockTable_Lock :: "u64 \<Rightarrow> LockMode \<Rightarrow> lock_table \<Rightarrow> (RC \<times> lock_table) res" where
  "LockTable_Lock page_id mode tbl = with_node page_id tbl (Lock_node mode)"

definition LockTable_UnLock :: "u64 \<Rightarrow> lock_table \<Rightarrow> (RC \<times> lock_table) res" where
  "LockTable_UnLock page_id tbl = with_node page_id tbl UnLock_node"

definition LockTable_AddThread :: "u64 \<Rightarrow> u64 \<Rightarrow> lock_table \<Rightarrow> (bool \<times> lock_table) res" where
  "LockTable_AddThread page_id thd tbl = with_node page_id tbl (\<lambda>n. Inr (True, AddThread_node thd n))"

definition LockTable_RemoveThread :: "u64 \<Rightarrow> u64 \<Rightarrow> lock_table \<Rightarrow> (bool \<times> lock_table) res" where
  "LockTable_RemoveThread page_id thd tbl =
     with_node page_id tbl (\<lambda>n. rbind (RemoveThread_node thd n) (\<lambda>n'. Inr (True, n')))"

text \<open>
  The whole of \<open>LockInvalid\<close>: after the mode is \<open>O\<close> the page is fetched from the instance's
  buffer, which is the argument \<open>bget\<close>.
\<close>

definition LockTable_LockInvalid ::
  "(u64 \<Rightarrow> bytes \<Rightarrow> nat \<Rightarrow> 'b \<Rightarrow> (bytes \<times> 'b) res) \<Rightarrow> u64 \<Rightarrow> bytes \<Rightarrow> nat \<Rightarrow> lock_table \<Rightarrow> 'b
   \<Rightarrow> (RC \<times> bytes \<times> lock_table \<times> 'b) res" where
  "LockTable_LockInvalid bget page_id page_buf count tbl b =
     rbind (with_node page_id tbl (\<lambda>n. LockInvalid_node (LockInvalid_announce n))) (\<lambda>(rc, tbl').
       if rc = RCOK
       then rbind (bget page_id page_buf count b) (\<lambda>(buf, b'). Inr (rc, buf, tbl', b'))
       else Inr (rc, page_buf, tbl', b))"

definition LockModeToChar :: "LockMode \<Rightarrow> char" where
  "LockModeToChar m = (case m of LM_X \<Rightarrow> CHR ''X'' | LM_S \<Rightarrow> CHR ''S'' | LM_P \<Rightarrow> CHR ''P'' | LM_O \<Rightarrow> CHR ''O'')"

section \<open>The node invariant\<close>

text \<open>The count and the registered threads agree with the mode and the set.\<close>

fun count_ok :: "LockMode \<Rightarrow> int \<Rightarrow> bool" where
  "count_ok LM_X c \<longleftrightarrow> c = 1"
| "count_ok LM_S c \<longleftrightarrow> c > 0"
| "count_ok LM_P c \<longleftrightarrow> c = 0"
| "count_ok LM_O c \<longleftrightarrow> c = 0"

definition node_ok :: "lock_node \<Rightarrow> bool" where
  "node_ok n \<longleftrightarrow> count_ok (lock_mode n) (lock_count n) \<and>
     finite (thread_set n) \<and> thread_count n = int (card (thread_set n))"

lemma node_ok_new: "node_ok (LockNode_new inst)"
  by (simp add: node_ok_def LockNode_new_def)

lemma node_ok_Lock: "node_ok n \<Longrightarrow> Lock_node m n = Inr (rc, n') \<Longrightarrow> node_ok n' \<and> rc = RCOK"
  by (cases "lock_mode n") (auto simp: node_ok_def Lock_node_def asserting_Inr_iff split: LockMode.splits if_splits)

lemma node_ok_UnLock: "node_ok n \<Longrightarrow> UnLock_node n = Inr (rc, n') \<Longrightarrow> node_ok n' \<and> rc = RCOK"
  by (cases "lock_mode n") (auto simp: node_ok_def UnLock_node_def asserting_Inr_iff split: if_splits)

lemma node_ok_AddThread: "node_ok n \<Longrightarrow> node_ok (AddThread_node t n)"
  by (auto simp: node_ok_def AddThread_node_def)

lemma card_remove_int: "finite A \<Longrightarrow> a \<in> A \<Longrightarrow> int (card (A - {a})) = int (card A) - 1"
  by (metis Suc_pred card_Diff_singleton card_gt_0_iff diff_Suc_1 empty_iff of_nat_1 of_nat_Suc add_diff_cancel_left')

lemma node_ok_RemoveThread: "node_ok n \<Longrightarrow> RemoveThread_node t n = Inr n' \<Longrightarrow> node_ok n'"
  by (auto simp: node_ok_def RemoveThread_node_def asserting_Inr_iff card_remove_int split: if_splits)

lemma node_ok_LockInvalid: "node_ok n \<Longrightarrow> LockInvalid_node n = Inr (rc, n') \<Longrightarrow> node_ok n' \<and> rc = RCOK"
  by (auto simp: node_ok_def LockInvalid_node_def asserting_Inr_iff split: if_splits)

text \<open>On such a node no assertion of \<open>Lock\<close> or \<open>UnLock\<close> fails, and the waits are exactly these.\<close>

lemma Lock_X_outcome:
  "node_ok n \<Longrightarrow> Lock_node LM_X n =
     (if lock_mode n = LM_P then Inr (RCOK, n\<lparr>lock_mode := LM_X, lock_count := 1\<rparr>) else Inl Blocked)"
  by (cases "lock_mode n") (simp_all add: node_ok_def Lock_node_def)

lemma Lock_S_outcome:
  "node_ok n \<Longrightarrow> Lock_node LM_S n =
     (case lock_mode n of
        LM_X \<Rightarrow> Inl Blocked
      | LM_O \<Rightarrow> Inr (RCOK, n)
      | _ \<Rightarrow> Inr (RCOK, n\<lparr>lock_mode := LM_S, lock_count := lock_count n + 1\<rparr>))"
  by (cases "lock_mode n") (simp_all add: node_ok_def Lock_node_def)

lemma UnLock_outcome:
  "node_ok n \<Longrightarrow> UnLock_node n =
     (case lock_mode n of
        LM_X \<Rightarrow> Inr (RCOK, n\<lparr>lock_mode := LM_P, lock_count := 0\<rparr>)
      | LM_S \<Rightarrow> Inr (RCOK, n\<lparr>lock_count := lock_count n - 1,
                             lock_mode := (if lock_count n = 1 then LM_P else LM_S)\<rparr>)
      | _ \<Rightarrow> Inr (RCOK, n))"
  by (cases "lock_mode n") (simp_all add: node_ok_def UnLock_node_def)

end
