(* ===== verification/Lock_Protocol.thy ===== *)
theory Lock_Protocol
  imports Lock_Table
begin

text \<open>
  The page lock under concurrency: a labelled step relation on one lock node together with what
  each thread holds, runs as sequences of events, and what holds in every reachable state. The
  threads follow the code's discipline: a thread takes one lock at a time and releases what it
  took. \<open>Grant\<close> is the change from \<open>O\<close> to \<open>P\<close> of \<open>GetWritePageLock\<close>
  (\<open>instance/txn/ycsb_txn.cpp\<close>) after the instance obtained the page.
\<close>

section \<open>Steps and runs\<close>

datatype lock_event =
  Acquire nat LockMode | Release nat | Register u64 | Unregister u64 | Announce | Invalidate | Grant

type_synonym lock_sys = "lock_node \<times> (nat \<Rightarrow> LockMode option)"

definition grant_node :: "lock_node \<Rightarrow> lock_node res" where
  "grant_node n = asserting (lock_mode n = LM_O) (Inr (n\<lparr>lock_mode := LM_P\<rparr>))"

inductive lstep :: "lock_sys \<Rightarrow> lock_event \<Rightarrow> lock_sys \<Rightarrow> bool" where
  acquire: "held t = None \<Longrightarrow> m = LM_S \<or> m = LM_X \<Longrightarrow> Lock_node m n = Inr (rc, n') \<Longrightarrow>
     lstep (n, held) (Acquire t m) (n', held(t \<mapsto> m))"
| release: "held t = Some m \<Longrightarrow> UnLock_node n = Inr (rc, n') \<Longrightarrow>
     lstep (n, held) (Release t) (n', held(t := None))"
| register: "lstep (n, held) (Register thd) (AddThread_node thd n, held)"
| unregister: "RemoveThread_node thd n = Inr n' \<Longrightarrow> lstep (n, held) (Unregister thd) (n', held)"
| announce: "lstep (n, held) Announce (LockInvalid_announce n, held)"
| invalidate: "LockInvalid_node n = Inr (rc, n') \<Longrightarrow> lstep (n, held) Invalidate (n', held)"
| grant: "grant_node n = Inr n' \<Longrightarrow> lstep (n, held) Grant (n', held)"

inductive lrun :: "lock_sys \<Rightarrow> lock_event list \<Rightarrow> lock_sys \<Rightarrow> bool" where
  empty: "lrun s [] s"
| snoc: "lrun s es t \<Longrightarrow> lstep t e u \<Longrightarrow> lrun s (es @ [e]) u"

inductive_cases lstepE: "lstep s e t"
inductive_simps lstep_simps:
  "lstep (n, held) (Acquire t m) s'" "lstep (n, held) (Release t) s'" "lstep (n, held) (Register thd) s'"
  "lstep (n, held) (Unregister thd) s'" "lstep (n, held) Announce s'" "lstep (n, held) Invalidate s'"
  "lstep (n, held) Grant s'"

text \<open>A local run: the instance owns the page and keeps it.\<close>

definition local_event :: "lock_event \<Rightarrow> bool" where
  "local_event e \<longleftrightarrow> e \<noteq> Invalidate \<and> e \<noteq> Grant"

section \<open>The node invariant along runs\<close>

lemma node_ok_announce: "node_ok n \<Longrightarrow> node_ok (LockInvalid_announce n)"
  by (simp add: node_ok_def LockInvalid_announce_def)

lemma node_ok_grant: "node_ok n \<Longrightarrow> grant_node n = Inr n' \<Longrightarrow> node_ok n'"
  by (auto simp: node_ok_def grant_node_def asserting_Inr_iff)

lemma lstep_node_ok: "lstep (n, held) e (n', held') \<Longrightarrow> node_ok n \<Longrightarrow> node_ok n'"
  by (erule lstepE)
     (auto dest: node_ok_Lock node_ok_UnLock node_ok_RemoveThread node_ok_LockInvalid node_ok_grant
       intro: node_ok_AddThread node_ok_announce)

lemma lrun_node_ok: "lrun s es t \<Longrightarrow> node_ok (fst s) \<Longrightarrow> node_ok (fst t)"
proof (induction rule: lrun.induct)
  case (snoc s es t e u)
  then show ?case using lstep_node_ok [of "fst t" "snd t" e "fst u" "snd u"] by simp
qed

section \<open>Exclusion in local runs\<close>

text \<open>Who holds what, by mode.\<close>

fun holders_ok :: "LockMode \<Rightarrow> int \<Rightarrow> (nat \<Rightarrow> LockMode option) \<Rightarrow> bool" where
  "holders_ok LM_P c held \<longleftrightarrow> held = Map.empty"
| "holders_ok LM_X c held \<longleftrightarrow> (\<exists>t. held = [t \<mapsto> LM_X])"
| "holders_ok LM_S c held \<longleftrightarrow> finite (dom held) \<and> ran held \<subseteq> {LM_S} \<and> c = int (card (dom held))"
| "holders_ok LM_O c held \<longleftrightarrow> False"

definition excl :: "lock_sys \<Rightarrow> bool" where
  "excl s \<longleftrightarrow> node_ok (fst s) \<and> holders_ok (lock_mode (fst s)) (lock_count (fst s)) (snd s)"

lemma excl_acquire:
  assumes "excl (n, held)" and "held t = None" and "m = LM_S \<or> m = LM_X" and "Lock_node m n = Inr (rc, n')"
  shows "excl (n', held(t \<mapsto> m))"
proof -
  have ok: "node_ok n" "node_ok n'" using assms node_ok_Lock by (auto simp: excl_def)
  show ?thesis
  proof (cases "lock_mode n")
    case LM_P
    then have h: "held = Map.empty" using assms(1) by (simp add: excl_def)
    have "holders_ok (lock_mode n') (lock_count n') [t \<mapsto> m]"
    proof (cases m)
      case LM_X
      then have "lock_mode n' = LM_X" using assms(4) LM_P Lock_X_outcome [OF ok(1)] by auto
      then show ?thesis using LM_X by (simp only: holders_ok.simps) blast
    next
      case LM_S
      then have "lock_mode n' = LM_S" "lock_count n' = 1"
        using assms(4) LM_P ok(1) Lock_S_outcome [OF ok(1)] by (auto simp: node_ok_def)
      then show ?thesis using LM_S by simp
    qed (use assms(3) in simp_all)
    then show ?thesis using h ok(2) by (simp add: excl_def)
  next
    case LM_S
    then have h: "finite (dom held)" "ran held \<subseteq> {LM_S}" "lock_count n = int (card (dom held))"
      using assms(1) by (simp_all add: excl_def)
    have m: "m = LM_S" using assms(3,4) LM_S Lock_X_outcome [OF ok(1)] by auto
    have "t \<notin> dom held" using assms(2) by auto
    then have "int (card (dom (held(t \<mapsto> LM_S)))) = lock_count n + 1" using h(1,3) by simp
    moreover have "ran (held(t \<mapsto> LM_S)) \<subseteq> {LM_S}" using h(2) assms(2) by simp
    moreover have "lock_mode n' = LM_S" "lock_count n' = lock_count n + 1"
      using m assms(4) LM_S Lock_S_outcome [OF ok(1)] by auto
    ultimately show ?thesis
      using h(1) m ok(2) by (simp add: excl_def)
  next
    case LM_X
    then show ?thesis
      using assms(3,4) Lock_X_outcome [OF ok(1)] Lock_S_outcome [OF ok(1)] by auto
  next
    case LM_O
    then show ?thesis using assms(1) by (simp add: excl_def)
  qed
qed

lemma excl_release:
  assumes "excl (n, held)" and "held t = Some m" and "UnLock_node n = Inr (rc, n')"
  shows "excl (n', held(t := None))"
proof -
  have ok: "node_ok n" "node_ok n'" using assms node_ok_UnLock by (auto simp: excl_def)
  show ?thesis
  proof (cases "lock_mode n")
    case LM_S
    then have h: "finite (dom held)" "ran held \<subseteq> {LM_S}" "lock_count n = int (card (dom held))"
      using assms(1) by (simp_all add: excl_def)
    have t: "t \<in> dom held" using assms(2) by auto
    have r: "ran (held(t := None)) \<subseteq> {LM_S}" using h(2) by (auto simp: ran_def)
    show ?thesis
    proof (cases "lock_count n = 1")
      case True
      then have "dom held = {t}" using h t by (metis card_1_singletonE of_nat_1_eq_iff singletonD)
      then have "held(t := None) = Map.empty" by (metis dom_eq_empty_conv dom_fun_upd Diff_cancel)
      then show ?thesis
        using True assms(3) LM_S ok UnLock_outcome [OF ok(1)] by (auto simp: excl_def)
    next
      case False
      have "lock_count n - 1 = int (card (dom (held(t := None))))"
        using h(3) card_remove_int [OF h(1) t] by (simp only: dom_fun_upd simp_thms if_True)
      moreover have "finite (dom (held(t := None)))" using h(1) by simp
      moreover have "lock_mode n' = LM_S" "lock_count n' = lock_count n - 1"
        using False assms(3) LM_S UnLock_outcome [OF ok(1)] by auto
      ultimately show ?thesis
        using r ok(2) by (simp add: excl_def del: dom_fun_upd)
    qed
  next
    case LM_X
    then obtain u where "held = [u \<mapsto> LM_X]" using assms(1) by (auto simp: excl_def)
    then have "held(t := None) = Map.empty" using assms(2) by (auto split: if_splits)
    then show ?thesis
      using assms(3) LM_X ok UnLock_outcome [OF ok(1)] by (auto simp: excl_def)
  next
    case LM_P
    then show ?thesis using assms(1,2) by (simp add: excl_def)
  next
    case LM_O
    then show ?thesis using assms(1) by (simp add: excl_def)
  qed
qed

lemma AddThread_same [simp]:
  "lock_mode (AddThread_node t n) = lock_mode n" "lock_count (AddThread_node t n) = lock_count n"
  by (simp_all add: AddThread_node_def)

lemma RemoveThread_same:
  "RemoveThread_node t n = Inr n' \<Longrightarrow> lock_mode n' = lock_mode n \<and> lock_count n' = lock_count n"
  by (auto simp: RemoveThread_node_def asserting_Inr_iff split: if_splits)

lemma announce_same [simp]:
  "lock_mode (LockInvalid_announce n) = lock_mode n" "lock_count (LockInvalid_announce n) = lock_count n"
  "thread_count (LockInvalid_announce n) = thread_count n" "thread_set (LockInvalid_announce n) = thread_set n"
  by (simp_all add: LockInvalid_announce_def)

lemma excl_same:
  "excl (n, held) \<Longrightarrow> node_ok n' \<Longrightarrow> lock_mode n' = lock_mode n \<Longrightarrow> lock_count n' = lock_count n \<Longrightarrow> excl (n', held)"
  by (simp add: excl_def)

lemma excl_step:
  assumes "lstep s e s'" and "local_event e" and "excl s"
  shows "excl s'"
  using assms(1)
proof (cases rule: lstep.cases)
  case (acquire held t m n rc n')
  then show ?thesis using assms(3) excl_acquire by blast
next
  case (release held t m n rc n')
  then show ?thesis using assms(3) excl_release by blast
next
  case (register n held thd)
  then show ?thesis
    using assms(3) excl_same [of n held "AddThread_node thd n"] node_ok_AddThread [of n thd] by (simp add: excl_def)
next
  case (unregister thd n n' held)
  then show ?thesis
    using assms(3) excl_same [of n held n'] RemoveThread_same [of thd n n'] node_ok_RemoveThread [of n thd n']
    by (simp add: excl_def)
next
  case (announce n held)
  then show ?thesis
    using assms(3) excl_same [of n held "LockInvalid_announce n"] node_ok_announce [of n] by (simp add: excl_def)
qed (use assms(2) in \<open>simp_all add: local_event_def\<close>)

lemma excl_run: "lrun s es t \<Longrightarrow> list_all local_event es \<Longrightarrow> excl s \<Longrightarrow> excl t"
  by (induction rule: lrun.induct) (auto intro: excl_step)

section \<open>Registered threads block invalidation\<close>

lemma node_ok_registered: "node_ok n \<Longrightarrow> thd \<in> thread_set n \<Longrightarrow> thread_count n \<noteq> 0"
  by (auto simp: node_ok_def card_eq_0_iff)

lemma Lock_thread_set: "Lock_node m n = Inr (rc, n') \<Longrightarrow> thread_set n' = thread_set n \<and> (lock_mode n \<noteq> LM_O \<longrightarrow> lock_mode n' \<noteq> LM_O)"
  by (auto simp: Lock_node_def asserting_Inr_iff split: LockMode.splits if_splits)

lemma UnLock_thread_set: "UnLock_node n = Inr (rc, n') \<Longrightarrow> thread_set n' = thread_set n \<and> (lock_mode n \<noteq> LM_O \<longrightarrow> lock_mode n' \<noteq> LM_O)"
  by (auto simp: UnLock_node_def asserting_Inr_iff split: LockMode.splits if_splits)

lemma RemoveThread_other: "RemoveThread_node thd' n = Inr n' \<Longrightarrow> thd \<noteq> thd' \<Longrightarrow> thd \<in> thread_set n \<Longrightarrow> thd \<in> thread_set n'"
  by (auto simp: RemoveThread_node_def asserting_Inr_iff split: if_splits)

lemma registered_step:
  assumes "lstep (n, held) e (n', held')" and "node_ok n" and "thd \<in> thread_set n" and "lock_mode n \<noteq> LM_O"
    and "e \<noteq> Unregister thd"
  shows "thd \<in> thread_set n' \<and> lock_mode n' \<noteq> LM_O \<and> e \<noteq> Invalidate"
  using assms(1)
proof (cases rule: lstep.cases)
  case (acquire t m rc)
  then show ?thesis using assms(3,4) Lock_thread_set by auto
next
  case (release t m rc)
  then show ?thesis using assms(3,4) UnLock_thread_set by auto
next
  case (register thd')
  then show ?thesis using assms(3,4) by (simp add: AddThread_node_def)
next
  case (unregister thd')
  then show ?thesis
    using assms(3,4,5) RemoveThread_same [of thd' n n'] RemoveThread_other [of thd' n n' thd] by simp
next
  case (invalidate rc)
  then show ?thesis
    using node_ok_registered [OF assms(2,3)] by (simp add: LockInvalid_node_def)
next
  case announce
  then show ?thesis using assms(3,4) by simp
next
  case grant
  then show ?thesis using assms(4) by (simp add: grant_node_def)
qed

lemma registered_run:
  "lrun s es t \<Longrightarrow> node_ok (fst s) \<Longrightarrow> thd \<in> thread_set (fst s) \<Longrightarrow> lock_mode (fst s) \<noteq> LM_O \<Longrightarrow>
   Unregister thd \<notin> set es \<Longrightarrow>
   thd \<in> thread_set (fst t) \<and> lock_mode (fst t) \<noteq> LM_O \<and> Invalidate \<notin> set es"
proof (induction rule: lrun.induct)
  case (snoc s es t e u)
  then have IH: "thd \<in> thread_set (fst t)" "lock_mode (fst t) \<noteq> LM_O" "Invalidate \<notin> set es" by auto
  have "node_ok (fst t)" using lrun_node_ok [OF snoc.hyps(1)] snoc.prems(1) .
  moreover have "lstep (fst t, snd t) e (fst u, snd u)" "e \<noteq> Unregister thd"
    using snoc.hyps(2) snoc.prems(4) by auto
  ultimately have "thd \<in> thread_set (fst u) \<and> lock_mode (fst u) \<noteq> LM_O \<and> e \<noteq> Invalidate"
    using registered_step IH(1,2) by blast
  then show ?case using IH(3) by auto
qed simp

section \<open>Properties\<close>

text \<open>
  C21: mutual exclusion of the page lock while the instance keeps the page. In every run of \<open>Lock\<close>,
  \<open>UnLock\<close>, \<open>AddThread\<close>, \<open>RemoveThread\<close> and invalidation requests from an owned free node, a
  thread that holds the write lock is the only holder; a write lock is granted exactly when nobody
  holds the page and a read lock exactly when nobody holds it for writing (otherwise the caller
  waits); and releasing never fails an assertion.
\<close>

theorem lock_mutual_exclusion:
  assumes "node_ok n0" and "lock_mode n0 = LM_P" and "lrun (n0, Map.empty) es (n, held)"
    and "list_all local_event es"
  shows "(\<forall>t u. held t = Some LM_X \<and> held u \<noteq> None \<longrightarrow> u = t) \<and>
    (\<exists>n'. Lock_node LM_X n = (if held = Map.empty then Inr (RCOK, n') else Inl Blocked)) \<and>
    (\<exists>n'. Lock_node LM_S n = (if LM_X \<in> ran held then Inl Blocked else Inr (RCOK, n'))) \<and>
    (\<exists>n'. UnLock_node n = Inr (RCOK, n'))"
proof -
  have "excl (n0, Map.empty)" using assms(1,2) by (simp add: excl_def)
  then have e: "node_ok n" "holders_ok (lock_mode n) (lock_count n) held"
    using excl_run [OF assms(3,4)] by (simp_all add: excl_def)
  note out = Lock_X_outcome [OF e(1)] Lock_S_outcome [OF e(1)] UnLock_outcome [OF e(1)]
  show ?thesis
  proof (cases "lock_mode n")
    case LM_S
    then have h: "finite (dom held)" "ran held \<subseteq> {LM_S}" "lock_count n = int (card (dom held))" "lock_count n > 0"
      using e by (simp_all add: node_ok_def)
    then have "held \<noteq> Map.empty" by auto
    moreover have "held t \<noteq> Some LM_X" for t using h(2) by (auto simp: ran_def)
    moreover have "LM_X \<notin> ran held" using h(2) by auto
    ultimately show ?thesis using out LM_S by simp
  next
    case LM_X
    then obtain t where "held = [t \<mapsto> LM_X]" using e(2) by auto
    then show ?thesis using out LM_X by (auto split: if_splits)
  qed (use e(2) out in auto)
qed

theorem lock_mutual_exclusion_witness:
  "\<exists>n held. lrun ((LockNode_new 0)\<lparr>lock_mode := LM_P\<rparr>, Map.empty) [Acquire 3 LM_X] (n, held) \<and>
     held 3 = Some LM_X \<and> Lock_node LM_X n = Inl Blocked"
proof -
  let ?s = "(LockNode_new 0)\<lparr>lock_mode := LM_P\<rparr>"
  let ?n = "?s\<lparr>lock_mode := LM_X, lock_count := 1\<rparr>"
  have ok: "node_ok ?s" by (simp add: node_ok_def LockNode_new_def)
  have "lstep (?s, Map.empty) (Acquire 3 LM_X) (?n, Map.empty(3 \<mapsto> LM_X))"
    using lstep.acquire [of Map.empty 3 LM_X ?s RCOK ?n] by (simp add: Lock_node_def LockNode_new_def)
  then have r: "lrun (?s, Map.empty) [Acquire 3 LM_X] (?n, [3 \<mapsto> LM_X])"
    using lrun.snoc [OF lrun.empty] by fastforce
  have "Lock_node LM_X ?n = Inl Blocked"
    using lock_mutual_exclusion [OF ok _ r] by (simp add: local_event_def)
  then show ?thesis using r by (intro exI [of _ ?n] exI [of _ "[3 \<mapsto> LM_X]"]) simp
qed

text \<open>
  C22: a registered thread keeps the page. While a thread is in \<open>thread_set\<close> of an owned node,
  every run of lock operations, by any threads and with any invalidation requests, leaves the node
  owned: no invalidation completes before that thread is removed with \<open>RemoveThread\<close>.
\<close>

theorem registered_thread_keeps_page:
  assumes "node_ok n" and "thd \<in> thread_set n" and "lock_mode n \<noteq> LM_O"
    and "lrun (n, held) es (n', held')" and "Unregister thd \<notin> set es"
  shows "lock_mode n' \<noteq> LM_O \<and> thd \<in> thread_set n' \<and> Invalidate \<notin> set es \<and> LockInvalid_node n' = Inl Blocked"
proof -
  have r: "thd \<in> thread_set n' \<and> lock_mode n' \<noteq> LM_O \<and> Invalidate \<notin> set es"
    using registered_run [OF assms(4)] assms by simp
  have "node_ok n'" using lrun_node_ok [OF assms(4)] assms(1) by simp
  then have "thread_count n' \<noteq> 0" using node_ok_registered r by blast
  then show ?thesis using r by (simp add: LockInvalid_node_def)
qed

theorem registered_thread_keeps_page_witness:
  "LockInvalid_node (AddThread_node 4 ((LockNode_new 0)\<lparr>lock_mode := LM_P\<rparr>)) = Inl Blocked"
  using registered_thread_keeps_page [of "AddThread_node 4 ((LockNode_new 0)\<lparr>lock_mode := LM_P\<rparr>)" 4 Map.empty "[]"
    "AddThread_node 4 ((LockNode_new 0)\<lparr>lock_mode := LM_P\<rparr>)" Map.empty] lrun.empty
  by (simp add: node_ok_def AddThread_node_def LockNode_new_def)

text \<open>
  C25: with invalidation in play the lock does not exclude writers. A reader that locks while the
  node is in mode \<open>O\<close> is not counted, but its \<open>UnLock\<close> acts on whatever mode it finds; after the
  page is granted and a writer has locked it, the reader's \<open>UnLock\<close> releases the writer's lock
  and a second writer gets in.
\<close>

theorem two_writers_reachable:
  "\<exists>es n held. lrun (LockNode_new 0, Map.empty) es (n, held) \<and> held 1 = Some LM_X \<and> held 2 = Some LM_X"
proof -
  let ?n0 = "LockNode_new 0"
  let ?p = "?n0\<lparr>lock_mode := LM_P\<rparr>" and ?x = "?n0\<lparr>lock_mode := LM_X, lock_count := 1\<rparr>"
  let ?h0 = "Map.empty(0 \<mapsto> LM_S)" and ?h1 = "Map.empty(0 \<mapsto> LM_S, 1 \<mapsto> LM_X)"
  let ?h2 = "?h1(0 := None)"
  have "lstep (?n0, Map.empty) (Acquire 0 LM_S) (?n0, ?h0)"
    by (rule lstep.acquire [where rc = RCOK]) (simp_all add: Lock_node_def LockNode_new_def)
  moreover have "lstep (?n0, ?h0) Grant (?p, ?h0)"
    by (rule lstep.grant) (simp add: grant_node_def LockNode_new_def)
  moreover have "lstep (?p, ?h0) (Acquire 1 LM_X) (?x, ?h1)"
    by (rule lstep.acquire [where rc = RCOK]) (simp_all add: Lock_node_def LockNode_new_def)
  moreover have "lstep (?x, ?h1) (Release 0) (?p, ?h2)"
    by (rule lstep.release) (simp_all add: UnLock_node_def LockNode_new_def)
  moreover have "lstep (?p, ?h2) (Acquire 2 LM_X) (?x, ?h2(2 \<mapsto> LM_X))"
    by (rule lstep.acquire [where rc = RCOK]) (simp_all add: Lock_node_def LockNode_new_def)
  ultimately have "\<exists>es. lrun (?n0, Map.empty) es (?x, ?h2(2 \<mapsto> LM_X))"
    by (meson lrun.intros)
  then show ?thesis by fastforce
qed

text \<open>
  \<open>LockInvalid\<close> and readers. Only writers register in \<open>thread_set\<close>; if a local reader holds
  the page and no writer is registered, \<open>LockInvalid\<close> does not wait for the reader but fails its
  assertion \<open>count == 0\<close>.
\<close>

lemma LockInvalid_fails_on_reader:
  assumes "node_ok n" and "lock_mode n = LM_S" and "thread_set n = {}"
  shows "LockInvalid_node (LockInvalid_announce n) = Inl Assert_Fail"
  using assms by (simp add: LockInvalid_node_def node_ok_def)

end
