(* ===== verification/Row_Mvcc.thy ===== *)
theory Row_Mvcc
  imports Globals
begin

text \<open>
  \<open>instance/concurrency_control/row_mvcc.cpp\<close>: multi-version timestamp ordering for one row. The
  row objects are shared by pointer (a history entry, \<open>_latest_row\<close>, \<open>row_\<close> and the \<open>cur_row\<close>
  of transactions may be the same object), so they live on a heap. One call of \<open>access\<close> runs
  under the row's latch. \<open>SnapShotReadRow\<close> and \<open>WriteRow\<close> of the row handler are arguments.
\<close>

section \<open>State\<close>

record row_item =
  row_key :: u64
  row_size :: nat
  row_bytes :: bytes

record his_entry =
  his_valid :: bool
  his_reserved :: bool
  his_ts :: u64
  his_row :: "nat option"

record req_entry =
  req_valid :: bool
  req_type :: TsType
  req_ts :: u64
  req_txn :: nat

text \<open>What \<open>access\<close> uses of a transaction: its timestamp and the two fields it answers in.\<close>

record mtxn =
  txn_ts :: u64
  cur_row :: "nat option"
  ts_ready :: bool

text \<open>
  The object's fields, then the heap of row objects (with the content \<open>junk\<close> of fresh ones), the
  transactions, the active timestamps of the threads (\<open>all_ts_\<close> of the manager) and the database.
  \<open>_his_len\<close> and \<open>_req_len\<close> are the lengths of the two arrays.
\<close>

record 'db mvcc =
  m_key :: u64
  m_size :: nat
  base_row :: "nat option"
  latest_row :: "nat option"
  latest_wts :: u64
  oldest_wts :: u64
  write_history :: "his_entry list"
  exists_prewrite :: bool
  prewrite_ts :: u64
  prewrite_his_id :: nat
  max_served_rts :: u64
  requests :: "req_entry list"
  num_versions :: int
  rows :: "nat \<Rightarrow> row_item option"
  next_row :: nat
  junk :: "nat \<Rightarrow> bytes"
  txns :: "nat \<Rightarrow> mtxn"
  all_ts :: "u64 list"
  mdb :: 'db

record 'db row_store =
  snapshot_read :: "u64 \<Rightarrow> nat \<Rightarrow> 'db \<Rightarrow> (bytes \<times> 'db) res"
  write_row :: "u64 \<Rightarrow> bytes \<Rightarrow> 'db \<Rightarrow> 'db res"

definition THREAD_CNT :: nat where
  "THREAD_CNT = 4"

definition his_empty :: his_entry where
  "his_empty = \<lparr>his_valid = False, his_reserved = False, his_ts = 0, his_row = None\<rparr>"

definition req_empty :: req_entry where
  "req_empty = \<lparr>req_valid = False, req_type = R_REQ, req_ts = 0, req_txn = 0\<rparr>"

text \<open>\<open>init\<close>; the two prewrite fields are not initialised (parameters \<open>pts\<close> and \<open>pid\<close>).\<close>

definition mvcc_init :: "u64 \<Rightarrow> nat \<Rightarrow> u64 \<Rightarrow> nat \<Rightarrow> (nat \<Rightarrow> bytes) \<Rightarrow> (nat \<Rightarrow> mtxn) \<Rightarrow> u64 list \<Rightarrow> 'db \<Rightarrow> 'db mvcc" where
  "mvcc_init key sz pts pid jk tx ats d =
     \<lparr>m_key = key, m_size = sz, base_row = None, latest_row = None, latest_wts = 0, oldest_wts = 0,
      write_history = replicate 4 his_empty, exists_prewrite = False, prewrite_ts = pts,
      prewrite_his_id = pid, max_served_rts = 0, requests = replicate 4 req_empty, num_versions = 0,
      rows = Map.empty, next_row = 0, junk = jk, txns = tx, all_ts = ats, mdb = d\<rparr>"

section \<open>The manager's view of active transactions\<close>

definition GetMinTs :: "u64 list \<Rightarrow> u64" where
  "GetMinTs ats = foldl (\<lambda>m t. if m > t then t else m) UINT64_MAX ats"

section \<open>Helpers of the row\<close>

text \<open>The first free request slot.\<close>

fun free_slot :: "req_entry list \<Rightarrow> nat \<Rightarrow> nat option" where
  "free_slot [] i = None"
| "free_slot (r # rs) i = (if \<not> req_valid r then Some i else free_slot rs (Suc i))"

definition double_requests :: "req_entry list \<Rightarrow> req_entry list" where
  "double_requests rs = rs @ replicate (length rs) req_empty"

definition double_history :: "his_entry list \<Rightarrow> his_entry list" where
  "double_history hs = hs @ replicate (length hs) his_empty"

text \<open>\<open>buffer_req\<close>: the array may be doubled once per call.\<close>

definition buffer_req :: "TsType \<Rightarrow> nat \<Rightarrow> 'db mvcc \<Rightarrow> 'db mvcc res" where
  "buffer_req ty txn s =
     (let e = \<lparr>req_valid = True, req_type = ty, req_ts = txn_ts (txns s txn), req_txn = txn\<rparr> in
      case free_slot (requests s) 0 of
        Some i \<Rightarrow> Inr (s\<lparr>requests := (requests s)[i := e]\<rparr>)
      | None \<Rightarrow>
          (case free_slot (double_requests (requests s)) 0 of
             Some i \<Rightarrow> Inr (s\<lparr>requests := (double_requests (requests s))[i := e]\<rparr>)
           | None \<Rightarrow> Inl Assert_Fail))"

definition GetLatestRow :: "'db row_store \<Rightarrow> 'db mvcc \<Rightarrow> 'db mvcc res" where
  "GetLatestRow S s =
     asserting (latest_row s = None)
      (asserting (num_versions s = 0)
       (asserting (base_row s = None)
        (rbind (snapshot_read S (m_key s) (m_size s) (mdb s)) (\<lambda>(b, d).
         Inr (s\<lparr>rows := (rows s)(next_row s \<mapsto> \<lparr>row_key = m_key s, row_size = m_size s, row_bytes = b\<rparr>),
                next_row := Suc (next_row s), base_row := Some (next_row s),
                latest_row := Some (next_row s), mdb := d\<rparr>)))))"

text \<open>The variant for tests leaves the bytes of the new row object as they are.\<close>

definition GetLatestRowForTest :: "'db mvcc \<Rightarrow> 'db mvcc res" where
  "GetLatestRowForTest s =
     asserting (latest_row s = None)
      (asserting (num_versions s = 0)
       (asserting (base_row s = None)
        (Inr (s\<lparr>rows := (rows s)(next_row s \<mapsto>
                    \<lparr>row_key = m_key s, row_size = m_size s, row_bytes = junk s (next_row s)\<rparr>),
                next_row := Suc (next_row s), base_row := Some (next_row s),
                latest_row := Some (next_row s)\<rparr>))))"

text \<open>\<open>CheckLatestRow\<close>: the first entry with that row, if it is not \<open>row_\<close>, is a committed version.\<close>

fun entry_of_row :: "nat option \<Rightarrow> his_entry list \<Rightarrow> his_entry option" where
  "entry_of_row p [] = None"
| "entry_of_row p (e # es) = (if p = his_row e then Some e else entry_of_row p es)"

definition CheckLatestRow :: "'db mvcc \<Rightarrow> unit res" where
  "CheckLatestRow s =
     (if latest_row s = None \<or> latest_row s = base_row s then Inr ()
      else (case entry_of_row (latest_row s) (write_history s) of
              None \<Rightarrow> Inl Assert_Fail
            | Some e \<Rightarrow> asserting (his_valid e) (asserting (his_reserved e) (Inr ()))))"

text \<open>\<open>if(nullptr == _latest_row) { GetLatestRow(txn); }\<close>\<close>

definition ensure_latest :: "'db row_store \<Rightarrow> 'db mvcc \<Rightarrow> 'db mvcc res" where
  "ensure_latest S s = (if latest_row s = None then GetLatestRow S s else Inr s)"

text \<open>\<open>memcpy(dst->row_, src->row_, size_)\<close> between two row objects.\<close>

definition copy_row :: "nat option \<Rightarrow> nat option \<Rightarrow> 'db mvcc \<Rightarrow> 'db mvcc res" where
  "copy_row dst src s =
     (case (dst, src) of
        (Some p, Some q) \<Rightarrow>
          (case (rows s p, rows s q) of
             (Some rp, Some rq) \<Rightarrow>
               rbind (read_at (row_bytes rq) 0 (m_size s)) (\<lambda>b.
               rbind (memcpy_at (row_bytes rp) 0 b) (\<lambda>b'.
               Inr (s\<lparr>rows := (rows s)(p \<mapsto> rp\<lparr>row_bytes := b'\<rparr>)\<rparr>)))
           | _ \<Rightarrow> Inl Bad_Deref)
      | _ \<Rightarrow> Inl Bad_Deref)"

subsection \<open>Version search\<close>

text \<open>
  The scan for the newest valid version older than \<open>bound\<close>; \<open>tr\<close> is what storing the timestamp
  in the loop's local variable does to it. The index is the array length if there is none.
\<close>

definition scan_step :: "(u64 \<Rightarrow> u64) \<Rightarrow> u64 \<Rightarrow> his_entry list \<Rightarrow> u64 \<times> nat \<Rightarrow> nat \<Rightarrow> u64 \<times> nat" where
  "scan_step tr bound hs acc i =
     (if his_valid (hs ! i) \<and> his_ts (hs ! i) < bound \<and> his_ts (hs ! i) > fst acc
      then (tr (his_ts (hs ! i)), i) else acc)"

definition scan_version :: "(u64 \<Rightarrow> u64) \<Rightarrow> u64 \<Rightarrow> his_entry list \<Rightarrow> u64 \<times> nat" where
  "scan_version tr bound hs = foldl (scan_step tr bound hs) (0, length hs) [0..<length hs]"

text \<open>In the read path the local variable is a \<open>uint32_t\<close>.\<close>

definition trunc32 :: "u64 \<Rightarrow> u64" where
  "trunc32 t = ucast (ucast t :: u32)"

subsection \<open>Reserving a history entry\<close>

text \<open>Garbage collection of the versions up to \<open>m\<close>: entries, latest row and version count.\<close>

fun gc_entries :: "u64 \<Rightarrow> his_entry list \<Rightarrow> nat option \<Rightarrow> int \<Rightarrow> (his_entry list \<times> nat option \<times> int) res" where
  "gc_entries m [] lr nv = Inr ([], lr, nv)"
| "gc_entries m (e # es) lr nv =
     (if his_valid e \<and> his_ts e \<le> m
      then asserting (his_row e \<noteq> None)
            (rbind (gc_entries m es (if lr = his_row e then None else lr) (nv - 1)) (\<lambda>(es', lr', nv').
             Inr (e\<lparr>his_valid := False, his_reserved := False\<rparr> # es', lr', nv')))
      else rbind (gc_entries m es lr nv) (\<lambda>(es', lr', nv'). Inr (e # es', lr', nv')))"

definition collect :: "'db mvcc \<Rightarrow> 'db mvcc res" where
  "collect s =
     (let min_ts = GetMinTs (all_ts s) in
      if oldest_wts s < min_ts \<and> num_versions s = int (length (write_history s))
      then (case scan_version (\<lambda>t. t) min_ts (write_history s) of
              (m, idx) \<Rightarrow>
                if idx \<noteq> length (write_history s)
                then rbind (gc_entries m (write_history s) (latest_row s) (num_versions s)) (\<lambda>(hs, lr, nv).
                     Inr (s\<lparr>oldest_wts := m, write_history := hs, latest_row := lr, num_versions := nv\<rparr>))
                else Inr s)
      else Inr s)"

text \<open>
  The search for a free entry, preferring the first one that has a row object, else the last free
  one; \<open>idx\<close> is returned if there is none.
\<close>

fun pick_entry :: "his_entry list \<Rightarrow> nat \<Rightarrow> nat \<Rightarrow> nat" where
  "pick_entry [] i idx = idx"
| "pick_entry (e # es) i idx =
     (if \<not> his_valid e \<and> \<not> his_reserved e \<and> his_row e \<noteq> None then i
      else if \<not> his_valid e \<and> \<not> his_reserved e then pick_entry es (Suc i) i
      else pick_entry es (Suc i) idx)"

text \<open>The oldest valid version: its timestamp and index.\<close>

definition oldest_version :: "his_entry list \<Rightarrow> u64 \<times> nat" where
  "oldest_version hs =
     foldl (\<lambda>(t, j) i. if his_valid (hs ! i) \<and> his_ts (hs ! i) < t then (his_ts (hs ! i), i) else (t, j))
       (UINT64_MAX, length hs) [0..<length hs]"

definition choose_entry :: "u64 \<Rightarrow> 'db mvcc \<Rightarrow> (nat \<times> 'db mvcc) res" where
  "choose_entry ts s =
     (let len = length (write_history s) in
      rbind (if num_versions s < int len
             then (let idx = pick_entry (write_history s) 0 len in asserting (idx < len) (Inr idx))
             else Inr len) (\<lambda>idx.
      if idx = len
      then if len \<ge> THREAD_CNT
           then (case oldest_version (write_history s) of
                   (t, j) \<Rightarrow>
                     asserting (t > oldest_wts s)
                      (if j < len
                       then asserting (his_row (write_history s ! j) \<noteq> None)
                              (Inr (j, s\<lparr>oldest_wts := t, num_versions := num_versions s - 1\<rparr>))
                       else Inl Out_Of_Bounds))
           else Inr (len, s\<lparr>write_history := double_history (write_history s), prewrite_ts := ts\<rparr>)
      else Inr (idx, s)))"

text \<open>Filling in the chosen entry.\<close>

definition take_entry :: "u64 \<Rightarrow> nat \<Rightarrow> 'db mvcc \<Rightarrow> (nat option \<times> 'db mvcc) res" where
  "take_entry ts idx s =
     asserting (idx \<noteq> length (write_history s))
      (if idx < length (write_history s)
       then
         (let e = write_history s ! idx;
              s1 = (if his_row e = None
                    then s\<lparr>rows := (rows s)(next_row s \<mapsto>
                              \<lparr>row_key = m_key s, row_size = m_size s, row_bytes = junk s (next_row s)\<rparr>),
                           next_row := Suc (next_row s)\<rparr>
                    else s);
              p = (if his_row e = None then Some (next_row s) else his_row e);
              e' = e\<lparr>his_valid := False, his_reserved := True, his_ts := ts, his_row := p\<rparr> in
          case p of
            None \<Rightarrow> Inl Assert_Fail
          | Some a \<Rightarrow>
              (case rows s1 a of
                 None \<Rightarrow> Inl Bad_Deref
               | Some r \<Rightarrow>
                   asserting (row_key r = m_key s)
                    (asserting (row_size r = m_size s)
                      (Inr (p, s1\<lparr>write_history := (write_history s)[idx := e'], exists_prewrite := True,
                                  prewrite_his_id := idx, prewrite_ts := ts\<rparr>)))))
       else Inl Out_Of_Bounds)"

definition reserveRow :: "u64 \<Rightarrow> 'db mvcc \<Rightarrow> (nat option \<times> 'db mvcc) res" where
  "reserveRow ts s =
     asserting (\<not> exists_prewrite s)
      (rbind (collect s) (\<lambda>s1.
       rbind (choose_entry ts s1) (\<lambda>(idx, s2). take_entry ts idx s2)))"

subsection \<open>Serving pending requests\<close>

definition next_prewrite :: "u64 \<Rightarrow> req_entry list \<Rightarrow> u64" where
  "next_prewrite ts rs =
     foldl (\<lambda>m r. if req_valid r \<and> req_type r = P_REQ \<and> req_ts r > ts \<and> req_ts r < m then req_ts r else m)
       UINT64_MAX rs"

text \<open>\<open>cur_row\<close> and \<open>ts_ready\<close> of a waiting transaction are set, its slot is freed.\<close>

definition answer :: "nat \<Rightarrow> nat \<Rightarrow> nat option \<Rightarrow> 'db mvcc \<Rightarrow> 'db mvcc" where
  "answer i txn p s =
     s\<lparr>requests := (requests s)[i := (requests s ! i)\<lparr>req_valid := False\<rparr>],
       txns := (txns s)(txn := (txns s txn)\<lparr>cur_row := p, ts_ready := True\<rparr>)\<rparr>"

definition serve_request :: "'db row_store \<Rightarrow> u64 \<Rightarrow> u64 \<Rightarrow> nat \<Rightarrow> 'db mvcc \<Rightarrow> 'db mvcc res" where
  "serve_request S ts npt i s =
     (let r = requests s ! i in
      asserting (req_valid r \<longrightarrow> req_ts r > ts)
       (if req_valid r \<and> req_type r = R_REQ \<and> req_ts r < npt
        then rbind (ensure_latest S (s\<lparr>max_served_rts :=
                 (if req_ts r > max_served_rts s then req_ts r else max_served_rts s)\<rparr>)) (\<lambda>s1.
             Inr (answer i (req_txn r) (latest_row s1) s1))
        else if req_valid r \<and> req_ts r = npt
        then asserting (req_type r = P_REQ)
              (rbind (reserveRow (req_ts r) s) (\<lambda>(p, s1).
               rbind (ensure_latest S s1) (\<lambda>s2.
               rbind (copy_row p (latest_row s2) s2) (\<lambda>s3.
               Inr (answer i (req_txn r) p s3)))))
        else Inr s))"

fun serve_requests :: "'db row_store \<Rightarrow> u64 \<Rightarrow> u64 \<Rightarrow> nat list \<Rightarrow> 'db mvcc \<Rightarrow> 'db mvcc res" where
  "serve_requests S ts npt [] s = Inr s"
| "serve_requests S ts npt (i # is) s = rbind (serve_request S ts npt i s) (serve_requests S ts npt is)"

definition update_buffer :: "'db row_store \<Rightarrow> u64 \<Rightarrow> 'db mvcc \<Rightarrow> 'db mvcc res" where
  "update_buffer S ts s =
     serve_requests S ts (next_prewrite ts (requests s)) [0..<length (requests s)] s"

section \<open>access\<close>

definition set_cur :: "nat \<Rightarrow> nat option \<Rightarrow> 'db mvcc \<Rightarrow> 'db mvcc" where
  "set_cur txn p s = s\<lparr>txns := (txns s)(txn := (txns s txn)\<lparr>cur_row := p\<rparr>)\<rparr>"

definition set_wait :: "nat \<Rightarrow> 'db mvcc \<Rightarrow> 'db mvcc" where
  "set_wait txn s = s\<lparr>txns := (txns s)(txn := (txns s txn)\<lparr>ts_ready := False\<rparr>)\<rparr>"

definition access_read :: "'db row_store \<Rightarrow> nat \<Rightarrow> 'db mvcc \<Rightarrow> (RC \<times> 'db mvcc) res" where
  "access_read S txn s =
     (let ts = txn_ts (txns s txn) in
      if ts < oldest_wts s then Inr (Abort, s)
      else if ts > latest_wts s
      then if exists_prewrite s \<and> prewrite_ts s < ts
           then rbind (buffer_req R_REQ txn s) (\<lambda>s1. Inr (WAIT, set_wait txn s1))
           else rbind (ensure_latest S s) (\<lambda>s1.
                Inr (RCOK, (set_cur txn (latest_row s1) s1)\<lparr>max_served_rts :=
                   (if ts > max_served_rts s1 then ts else max_served_rts s1)\<rparr>))
      else (case scan_version trunc32 ts (write_history s) of
              (_, the_i) \<Rightarrow>
                if the_i = length (write_history s)
                then rbind (ensure_latest S s) (\<lambda>s1. Inr (RCOK, set_cur txn (latest_row s1) s1))
                else asserting (his_row (write_history s ! the_i) \<noteq> None)
                       (Inr (RCOK, set_cur txn (his_row (write_history s ! the_i)) s))))"

definition access_prewrite :: "'db row_store \<Rightarrow> nat \<Rightarrow> 'db mvcc \<Rightarrow> (RC \<times> 'db mvcc) res" where
  "access_prewrite S txn s =
     (let ts = txn_ts (txns s txn) in
      if ts < latest_wts s \<or> ts < max_served_rts s \<or> exists_prewrite s \<and> prewrite_ts s > ts
      then Inr (Abort, s)
      else if exists_prewrite s
      then rbind (buffer_req P_REQ txn s) (\<lambda>s1. Inr (WAIT, set_wait txn s1))
      else rbind (reserveRow ts s) (\<lambda>(p, s1).
           rbind (ensure_latest S s1) (\<lambda>s2.
           rbind (copy_row p (latest_row s2) s2) (\<lambda>s3.
           Inr (RCOK, set_cur txn p s3)))))"

definition access_write :: "'db row_store \<Rightarrow> nat \<Rightarrow> nat option \<Rightarrow> 'db mvcc \<Rightarrow> (RC \<times> 'db mvcc) res" where
  "access_write S txn row s =
     (let ts = txn_ts (txns s txn); k = prewrite_his_id s in
      asserting (ts > latest_wts s)
       (if k < length (write_history s)
        then asserting (row = his_row (write_history s ! k))
          (let s1 = s\<lparr>write_history := (write_history s)[k :=
                         (write_history s ! k)\<lparr>his_valid := True, his_ts := ts\<rparr>],
                      latest_wts := ts, latest_row := row\<rparr> in
           case row of
             None \<Rightarrow> Inl Bad_Deref
           | Some p \<Rightarrow>
               (case rows s1 p of
                  None \<Rightarrow> Inl Bad_Deref
                | Some r \<Rightarrow>
                    rbind (write_row S (row_key r) (row_bytes r) (mdb s1)) (\<lambda>d.
                    let s2 = s1\<lparr>mdb := d,
                                rows := (case base_row s1 of None \<Rightarrow> rows s1 | Some b \<Rightarrow> (rows s1)(b := None)),
                                base_row := None, exists_prewrite := False,
                                num_versions := num_versions s1 + 1\<rparr> in
                    rbind (update_buffer S ts s2) (\<lambda>s3. Inr (RCOK, s3)))))
        else Inl Out_Of_Bounds))"

definition access_abort :: "'db row_store \<Rightarrow> nat \<Rightarrow> nat option \<Rightarrow> 'db mvcc \<Rightarrow> (RC \<times> 'db mvcc) res" where
  "access_abort S txn row s =
     (let ts = txn_ts (txns s txn); k = prewrite_his_id s in
      if k < length (write_history s)
      then asserting (row = his_row (write_history s ! k))
        (let s1 = s\<lparr>write_history := (write_history s)[k :=
                       (write_history s ! k)\<lparr>his_valid := False, his_reserved := False\<rparr>],
                    exists_prewrite := False\<rparr> in
         rbind (update_buffer S ts s1) (\<lambda>s2. Inr (RCOK, s2)))
      else Inl Out_Of_Bounds)"

definition mvcc_access :: "'db row_store \<Rightarrow> nat \<Rightarrow> TsType \<Rightarrow> nat option \<Rightarrow> 'db mvcc \<Rightarrow> (RC \<times> 'db mvcc) res" where
  "mvcc_access S txn ty row s =
     (case ty of
        R_REQ \<Rightarrow> access_read S txn s
      | P_REQ \<Rightarrow> access_prewrite S txn s
      | W_REQ \<Rightarrow> access_write S txn row s
      | XP_REQ \<Rightarrow> access_abort S txn row s)"

end
