(* ===== verification/Row_Mvcc_Inv.thy ===== *)
theory Row_Mvcc_Inv
  imports Row_Mvcc
begin

text \<open>
  The invariant of a row's version history and that \<open>access\<close> keeps it: the version count, order
  and rows of the history, the single reservation, the pending requests behind it, and that
  \<open>_latest_row\<close> holds the bytes the database has.
\<close>

section \<open>The invariant\<close>

definition versions :: "his_entry list \<Rightarrow> nat set" where
  "versions hs = {i. i < length hs \<and> his_valid (hs ! i)}"

text \<open>Valid versions: counted, with different timestamps in the window, each with a row.\<close>

definition hist_ok :: "his_entry list \<Rightarrow> u64 \<Rightarrow> u64 \<Rightarrow> int \<Rightarrow> bool" where
  "hist_ok hs lw ow nv \<longleftrightarrow>
     2 \<le> length hs \<and> nv = int (card (versions hs)) \<and> inj_on (\<lambda>i. his_ts (hs ! i)) (versions hs) \<and>
     ow \<le> lw \<and> lw < UINT64_MAX \<and>
     (\<forall>i \<in> versions hs. ow < his_ts (hs ! i) \<and> his_ts (hs ! i) \<le> lw \<and> his_row (hs ! i) \<noteq> None)"

text \<open>\<open>_latest_row\<close> is the newest version's row; without versions it is \<open>row_\<close> (or null).\<close>

definition latest_ok :: "'db mvcc \<Rightarrow> bool" where
  "latest_ok s \<longleftrightarrow>
     (if versions (write_history s) = {} then latest_row s = base_row s
      else base_row s = None \<and> (\<exists>i \<in> versions (write_history s).
        his_ts (write_history s ! i) = latest_wts s \<and> latest_row s = his_row (write_history s ! i)))"

text \<open>At most one entry is reserved, and then it is the announced prewrite, newer than all.\<close>

definition reserve_ok :: "'db mvcc \<Rightarrow> bool" where
  "reserve_ok s \<longleftrightarrow>
     (let hs = write_history s; k = prewrite_his_id s in
      if exists_prewrite s
      then k < length hs \<and> \<not> his_valid (hs ! k) \<and> his_row (hs ! k) \<noteq> None \<and>
           latest_wts s < prewrite_ts s \<and> prewrite_ts s < UINT64_MAX \<and> max_served_rts s \<le> prewrite_ts s \<and>
           (\<forall>i < length hs. his_reserved (hs ! i) \<and> \<not> his_valid (hs ! i) \<longrightarrow> i = k)
      else (\<forall>i < length hs. his_reserved (hs ! i) \<longrightarrow> his_valid (hs ! i)))"

definition row_ok :: "'db mvcc \<Rightarrow> nat \<Rightarrow> bool" where
  "row_ok s p \<longleftrightarrow> p < next_row s \<and> (\<exists>r. rows s p = Some r \<and> row_key r = m_key s \<and>
     row_size r = m_size s \<and> length (row_bytes r) = m_size s)"

text \<open>The row objects: allocated, of the right key and size, no two entries sharing one.\<close>

definition heap_ok :: "'db mvcc \<Rightarrow> bool" where
  "heap_ok s \<longleftrightarrow>
     (\<forall>i < length (write_history s). \<forall>p. his_row (write_history s ! i) = Some p \<longrightarrow> row_ok s p) \<and>
     (\<forall>p. base_row s = Some p \<longrightarrow> row_ok s p) \<and>
     (\<forall>i < length (write_history s). \<forall>j < length (write_history s). \<forall>p.
        his_row (write_history s ! i) = Some p \<and> his_row (write_history s ! j) = Some p \<longrightarrow> i = j) \<and>
     (\<forall>i < length (write_history s). his_row (write_history s ! i) \<noteq> None \<longrightarrow>
        his_row (write_history s ! i) \<noteq> base_row s) \<and>
     (\<forall>n. length (junk s n) = m_size s)"

definition core_inv :: "'db mvcc \<Rightarrow> bool" where
  "core_inv s \<longleftrightarrow> hist_ok (write_history s) (latest_wts s) (oldest_wts s) (num_versions s) \<and>
     latest_ok s \<and> reserve_ok s \<and> heap_ok s"

text \<open>The pending requests are newer than \<open>ts\<close>, with different timestamps, those of their transactions.\<close>

definition req_ok :: "u64 \<Rightarrow> (nat \<Rightarrow> mtxn) \<Rightarrow> req_entry \<Rightarrow> bool" where
  "req_ok ts T r \<longleftrightarrow> (req_type r = R_REQ \<or> req_type r = P_REQ) \<and> ts < req_ts r \<and> req_ts r < UINT64_MAX \<and>
     txn_ts (T (req_txn r)) = req_ts r"

definition pending_after :: "u64 \<Rightarrow> 'db mvcc \<Rightarrow> bool" where
  "pending_after ts s \<longleftrightarrow>
     (\<forall>i < length (requests s). req_valid (requests s ! i) \<longrightarrow> req_ok ts (txns s) (requests s ! i)) \<and>
     (\<forall>i < length (requests s). \<forall>j < length (requests s).
        req_valid (requests s ! i) \<and> req_valid (requests s ! j) \<and>
        req_ts (requests s ! i) = req_ts (requests s ! j) \<longrightarrow> i = j) \<and>
     requests s \<noteq> []"

text \<open>They wait for a reservation that is older than they are.\<close>

definition pend_ok :: "'db mvcc \<Rightarrow> bool" where
  "pend_ok s \<longleftrightarrow> pending_after (prewrite_ts s) s \<and>
     (exists_prewrite s \<or> (\<forall>i < length (requests s). \<not> req_valid (requests s ! i)))"

definition mvcc_inv :: "'db mvcc \<Rightarrow> bool" where
  "mvcc_inv s \<longleftrightarrow> core_inv s \<and> pend_ok s"

section \<open>Versions\<close>

lemma finite_versions [simp]: "finite (versions hs)"
  by (simp add: versions_def)

lemma versions_update:
  "k < length hs \<Longrightarrow>
   versions (hs[k := e]) = (if his_valid e then insert k (versions hs) else versions hs - {k})"
  by (auto simp: versions_def nth_list_update)

lemma versions_append_empty: "versions (hs @ replicate n his_empty) = versions hs"
proof (rule set_eqI)
  fix i
  show "i \<in> versions (hs @ replicate n his_empty) \<longleftrightarrow> i \<in> versions hs"
  proof (cases "i < length hs")
    case False
    then have "\<not> (i < length hs + n \<and> his_valid ((hs @ replicate n his_empty) ! i))"
      by (auto simp: nth_append his_empty_def)
    with False show ?thesis by (auto simp: versions_def)
  qed (simp add: versions_def nth_append)
qed

lemma card_versions_le: "card (versions hs) \<le> length hs"
proof -
  have "versions hs \<subseteq> {..<length hs}" by (auto simp: versions_def)
  then show ?thesis using card_mono [of "{..<length hs}"] by simp
qed

lemma card_versions_full: "card (versions hs) = length hs \<Longrightarrow> versions hs = {..<length hs}"
  using card_subset_eq [of "{..<length hs}" "versions hs"] by (auto simp: versions_def)

lemma card_versions_free:
  assumes "card (versions hs) < length hs"
  shows "\<exists>i < length hs. \<not> his_valid (hs ! i)"
proof (rule ccontr)
  assume "\<not> ?thesis"
  then have "versions hs = {..<length hs}" by (auto simp: versions_def)
  then show False using assms by simp
qed

lemma zero_less_UINT64_MAX [simp]: "0 < UINT64_MAX"
  by (simp add: word_gt_0)

lemma mvcc_inv_init:
  assumes "\<forall>n. length (jk n) = sz"
  shows "mvcc_inv (mvcc_init key sz pts pid jk tx ats d)"
proof -
  have v: "versions (replicate 4 his_empty) = {}" by (auto simp: versions_def his_empty_def)
  show ?thesis
    using assms
    by (simp add: mvcc_inv_def core_inv_def mvcc_init_def hist_ok_def latest_ok_def reserve_ok_def heap_ok_def
        pend_ok_def pending_after_def v) (simp add: his_empty_def req_empty_def)
qed

section \<open>The version scan\<close>

text \<open>Without truncation the scan finds the newest valid version below the bound, if there is one.\<close>

definition scan_result :: "u64 \<Rightarrow> his_entry list \<Rightarrow> nat \<Rightarrow> u64 \<times> nat \<Rightarrow> bool" where
  "scan_result bound hs n acc \<longleftrightarrow>
     (case acc of (t, j) \<Rightarrow>
        (j = length hs \<and> t = 0 \<or> j < length hs \<and> j < n \<and> his_valid (hs ! j) \<and> his_ts (hs ! j) < bound \<and> t = his_ts (hs ! j)) \<and>
        (\<forall>i < n. his_valid (hs ! i) \<and> his_ts (hs ! i) < bound \<longrightarrow> his_ts (hs ! i) \<le> t))"

lemma scan_prefix:
  assumes tr: "\<And>i. i < length hs \<Longrightarrow> his_valid (hs ! i) \<Longrightarrow> his_ts (hs ! i) < bound \<Longrightarrow> tr (his_ts (hs ! i)) = his_ts (hs ! i)"
    and "n \<le> length hs"
  shows "scan_result bound hs n (foldl (scan_step tr bound hs) (0, length hs) [0..<n])"
  using assms(2)
proof (induction n)
  case 0
  then show ?case by (simp add: scan_result_def)
next
  case (Suc n)
  let ?acc = "foldl (scan_step tr bound hs) (0, length hs) [0..<n]"
  obtain t j where acc: "?acc = (t, j)" by fastforce
  have IH: "scan_result bound hs n (t, j)" using Suc acc by simp
  have n: "n < length hs" using Suc.prems by simp
  show ?case
  proof (cases "his_valid (hs ! n) \<and> his_ts (hs ! n) < bound \<and> his_ts (hs ! n) > t")
    case True
    then have "foldl (scan_step tr bound hs) (0, length hs) [0..<Suc n] = (his_ts (hs ! n), n)"
      using acc tr [OF n] by (simp add: scan_step_def)
    then show ?thesis using IH True n by (auto simp: scan_result_def less_Suc_eq)
  next
    case False
    then have "foldl (scan_step tr bound hs) (0, length hs) [0..<Suc n] = (t, j)"
      using acc by (auto simp: scan_step_def)
    then show ?thesis using IH False n by (auto simp: scan_result_def less_Suc_eq not_less)
  qed
qed

lemma scan_version_result:
  assumes "\<And>i. i < length hs \<Longrightarrow> his_valid (hs ! i) \<Longrightarrow> his_ts (hs ! i) < bound \<Longrightarrow> tr (his_ts (hs ! i)) = his_ts (hs ! i)"
  shows "scan_result bound hs (length hs) (scan_version tr bound hs)"
  unfolding scan_version_def by (rule scan_prefix [OF assms]) simp_all

lemma trunc32_small: "t < 2 ^ 32 \<Longrightarrow> trunc32 t = t"
  by (simp add: trunc32_def word_eq_iff_unsigned [where 'a = nat] unsigned_ucast_eq word_less_nat_alt
      unsigned_take_bit_eq take_bit_nat_eq_self)

section \<open>What the helpers leave alone\<close>

definition same_env :: "'db mvcc \<Rightarrow> 'db mvcc \<Rightarrow> bool" where
  "same_env s t \<longleftrightarrow> m_key t = m_key s \<and> m_size t = m_size s \<and> latest_wts t = latest_wts s \<and>
     max_served_rts t = max_served_rts s \<and> requests t = requests s \<and> txns t = txns s \<and>
     all_ts t = all_ts s \<and> junk t = junk s"

lemma same_env_refl [simp]: "same_env s s"
  by (simp add: same_env_def)

lemma same_env_trans: "same_env s t \<Longrightarrow> same_env t u \<Longrightarrow> same_env s u"
  by (simp add: same_env_def)

text \<open>Existing row objects keep their content; \<open>_latest_row\<close> is kept or dropped.\<close>

definition keeps_rows :: "'db mvcc \<Rightarrow> 'db mvcc \<Rightarrow> bool" where
  "keeps_rows s t \<longleftrightarrow> next_row s \<le> next_row t \<and> (\<forall>p < next_row s. rows t p = rows s p) \<and> mdb t = mdb s \<and>
     (latest_row t = None \<or> latest_row t = latest_row s)"

lemma keeps_rows_refl [simp]: "keeps_rows s s"
  by (simp add: keeps_rows_def)

lemma keeps_rows_trans: "keeps_rows s t \<Longrightarrow> keeps_rows t u \<Longrightarrow> keeps_rows s u"
  by (auto simp: keeps_rows_def)

section \<open>Garbage collection\<close>

definition gc_entry :: "u64 \<Rightarrow> his_entry \<Rightarrow> his_entry" where
  "gc_entry m e = (if his_valid e \<and> his_ts e \<le> m then e\<lparr>his_valid := False, his_reserved := False\<rparr> else e)"

lemma gc_entry_simps [simp]:
  "his_row (gc_entry m e) = his_row e" "his_ts (gc_entry m e) = his_ts e"
  "his_valid (gc_entry m e) \<longleftrightarrow> his_valid e \<and> m < his_ts e"
  by (auto simp: gc_entry_def)

lemma gc_entries_eq:
  "(\<And>e. e \<in> set hs \<Longrightarrow> his_valid e \<Longrightarrow> his_row e \<noteq> None) \<Longrightarrow>
   gc_entries m hs lr nv =
     Inr (map (gc_entry m) hs,
          if \<exists>e \<in> set hs. his_valid e \<and> his_ts e \<le> m \<and> his_row e = lr then None else lr,
          nv - int (length (filter (\<lambda>e. his_valid e \<and> his_ts e \<le> m) hs)))"
proof (induction hs arbitrary: lr nv)
  case (Cons e hs)
  have rows: "his_row x \<noteq> None" if "x \<in> set hs" "his_valid x" for x using Cons.prems that by simp
  show ?case
  proof (cases "his_valid e \<and> his_ts e \<le> m")
    case True
    then show ?thesis
      using Cons.prems [of e] Cons.IH [OF rows] rows by (auto simp: gc_entry_def)
  next
    case False
    then show ?thesis using Cons.IH [OF rows] by (auto simp: gc_entry_def)
  qed
qed simp

lemma versions_gc: "versions (map (gc_entry m) hs) = {i \<in> versions hs. m < his_ts (hs ! i)}"
  by (auto simp: versions_def)

lemma card_gc:
  "int (card (versions hs)) - int (length (filter (\<lambda>e. his_valid e \<and> his_ts e \<le> m) hs)) =
   int (card (versions (map (gc_entry m) hs)))"
proof -
  let ?A = "{i \<in> versions hs. m < his_ts (hs ! i)}" and ?B = "{i. i < length hs \<and> his_valid (hs ! i) \<and> his_ts (hs ! i) \<le> m}"
  have "versions hs = ?A \<union> ?B" "?A \<inter> ?B = {}" by (auto simp: versions_def)
  moreover have "finite ?A" "finite ?B" by simp_all
  ultimately have "card (versions hs) = card ?A + card ?B" using card_Un_disjoint [of ?A ?B] by simp
  then show ?thesis by (simp add: versions_gc length_filter_conv_card)
qed

lemma heap_ok_inj:
  "heap_ok s \<Longrightarrow> i < length (write_history s) \<Longrightarrow> j < length (write_history s) \<Longrightarrow>
   his_row (write_history s ! i) = Some p \<Longrightarrow> his_row (write_history s ! j) = Some p \<Longrightarrow> i = j"
  unfolding heap_ok_def by blast

lemma heap_ok_sub:
  assumes heap: "heap_ok s"
    and sub: "\<And>i p. i < length (write_history t) \<Longrightarrow> his_row (write_history t ! i) = Some p \<Longrightarrow>
      i < length (write_history s) \<and> his_row (write_history s ! i) = Some p"
    and same: "rows t = rows s" "next_row t = next_row s" "junk t = junk s" "m_key t = m_key s" "m_size t = m_size s"
    "base_row t = base_row s"
  shows "heap_ok t"
proof -
  have ok: "row_ok t p \<longleftrightarrow> row_ok s p" for p using same by (simp add: row_ok_def)
  show ?thesis
    unfolding heap_ok_def ok same
  proof (intro conjI allI impI)
    fix i assume "i < length (write_history t)" "his_row (write_history t ! i) \<noteq> None"
    then obtain p where p: "his_row (write_history t ! i) = Some p" "i < length (write_history s)"
      "his_row (write_history s ! i) = Some p" using sub by blast
    have "his_row (write_history s ! i) \<noteq> base_row s" using heap p(2,3) unfolding heap_ok_def by blast
    then show "his_row (write_history t ! i) \<noteq> base_row s" using p by simp
  next
    fix i j p
    assume "i < length (write_history t)" "j < length (write_history t)"
      "his_row (write_history t ! i) = Some p \<and> his_row (write_history t ! j) = Some p"
    then show "i = j" using heap_ok_inj [OF heap, of i j p] sub [of i p] sub [of j p] by blast
  qed (use heap sub in \<open>auto simp: heap_ok_def\<close>)
qed

lemma heap_ok_rows:
  assumes "heap_ok s" and "length (write_history t) = length (write_history s)"
    and "\<And>i. i < length (write_history s) \<Longrightarrow> his_row (write_history t ! i) = his_row (write_history s ! i)"
    and "rows t = rows s" "next_row t = next_row s" "junk t = junk s" "m_key t = m_key s" "m_size t = m_size s"
    "base_row t = base_row s"
  shows "heap_ok t"
  by (rule heap_ok_sub [OF assms(1)]) (use assms in auto)

lemma latest_in_window:
  assumes "core_inv s" and "versions (write_history s) \<noteq> {}"
  obtains i p where "i \<in> versions (write_history s)" and "his_ts (write_history s ! i) = latest_wts s"
    and "latest_row s = Some p" and "his_row (write_history s ! i) = Some p" and "base_row s = None"
proof -
  obtain i where i: "i \<in> versions (write_history s)" "his_ts (write_history s ! i) = latest_wts s"
    "latest_row s = his_row (write_history s ! i)" "base_row s = None"
    using assms by (auto simp: core_inv_def latest_ok_def)
  moreover have "his_row (write_history s ! i) \<noteq> None" using assms(1) i(1) by (auto simp: core_inv_def hist_ok_def)
  ultimately show ?thesis using that by auto
qed

lemma versions_less: "i \<in> versions hs \<Longrightarrow> i < length hs"
  by (simp add: versions_def)

text \<open>Removing the versions up to the timestamp of one of them.\<close>

lemma hist_ok_gc:
  assumes H: "hist_ok hs lw ow nv" and idx: "idx \<in> versions hs" "m = his_ts (hs ! idx)"
  shows "hist_ok (map (gc_entry m) hs) lw m (nv - int (length (filter (\<lambda>e. his_valid e \<and> his_ts e \<le> m) hs)))"
proof -
  let ?hs = "map (gc_entry m) hs"
  have V: "versions ?hs = {i \<in> versions hs. m < his_ts (hs ! i)}" by (rule versions_gc)
  have nth: "his_ts (?hs ! i) = his_ts (hs ! i)" "his_row (?hs ! i) = his_row (hs ! i)" if "i \<in> versions hs" for i
    using versions_less [OF that] by simp_all
  show ?thesis
    unfolding hist_ok_def
  proof (intro conjI)
    show "nv - int (length (filter (\<lambda>e. his_valid e \<and> his_ts e \<le> m) hs)) = int (card (versions ?hs))"
      using H card_gc [of hs m] by (simp add: hist_ok_def)
    show "inj_on (\<lambda>i. his_ts (?hs ! i)) (versions ?hs)" using H nth by (auto simp: hist_ok_def V inj_on_def)
    show "m \<le> lw" using H idx by (simp add: hist_ok_def)
    show "\<forall>i \<in> versions ?hs. m < his_ts (?hs ! i) \<and> his_ts (?hs ! i) \<le> lw \<and> his_row (?hs ! i) \<noteq> None"
      using H nth by (auto simp: hist_ok_def V)
  qed (use H in \<open>simp_all add: hist_ok_def\<close>)
qed

text \<open>The latest row is forgotten exactly when its version goes.\<close>

lemma latest_ok_gc:
  assumes inv: "core_inv s" and idx: "idx \<in> versions (write_history s)"
    and hs: "hs' = map (gc_entry m) (write_history s)"
    and lr: "lr = (if \<exists>e \<in> set (write_history s). his_valid e \<and> his_ts e \<le> m \<and> his_row e = latest_row s then None else latest_row s)"
  shows "latest_ok (s\<lparr>oldest_wts := m, write_history := hs', latest_row := lr, num_versions := nv\<rparr>)"
proof -
  let ?hs = "write_history s"
  have H: "hist_ok ?hs (latest_wts s) (oldest_wts s) (num_versions s)" and heap: "heap_ok s" using inv by (simp_all add: core_inv_def)
  have V: "versions hs' = {i \<in> versions ?hs. m < his_ts (?hs ! i)}" unfolding hs by (rule versions_gc)
  obtain i0 p where i0: "i0 \<in> versions ?hs" "his_ts (?hs ! i0) = latest_wts s" "latest_row s = Some p"
    "his_row (?hs ! i0) = Some p" "base_row s = None"
    using latest_in_window [OF inv] idx by blast
  have hit: "(\<exists>e \<in> set ?hs. his_valid e \<and> his_ts e \<le> m \<and> his_row e = latest_row s) \<longleftrightarrow> latest_wts s \<le> m" (is "?hit \<longleftrightarrow> _")
  proof
    assume ?hit
    then obtain j where j: "j < length ?hs" "his_ts (?hs ! j) \<le> m" "his_row (?hs ! j) = Some p"
      using i0(3) by (auto simp: in_set_conv_nth)
    then have "j = i0" using heap_ok_inj [OF heap j(1) versions_less [OF i0(1)] j(3) i0(4)] by simp
    then show "latest_wts s \<le> m" using j(2) i0(2) by simp
  next
    assume "latest_wts s \<le> m"
    then show ?hit using i0 versions_less [OF i0(1)] by (intro bexI [of _ "?hs ! i0"]) (auto simp: versions_def)
  qed
  show ?thesis
  proof (cases "latest_wts s \<le> m")
    case True
    then have "versions hs' = {}" using H by (force simp: V hist_ok_def)
    then show ?thesis unfolding lr hit using True i0(5) by (simp add: latest_ok_def)
  next
    case False
    then have "i0 \<in> versions hs'" using i0 by (simp add: V)
    moreover have "his_ts (hs' ! i0) = his_ts (?hs ! i0)" "his_row (hs' ! i0) = his_row (?hs ! i0)"
      using versions_less [OF i0(1)] by (simp_all add: hs)
    moreover have "lr = latest_row s" unfolding lr hit using False by simp
    ultimately show ?thesis using False i0 by (auto simp: latest_ok_def)
  qed
qed

lemma collect_ok:
  assumes inv: "core_inv s" and np: "\<not> exists_prewrite s"
  obtains s' where "collect s = Inr s'" and "core_inv s'" and "\<not> exists_prewrite s'" and "same_env s s'"
    and "keeps_rows s s'" and "next_row s' = next_row s"
proof -
  let ?hs = "write_history s"
  obtain m idx where sc: "scan_version (\<lambda>t. t) (GetMinTs (all_ts s)) ?hs = (m, idx)" by fastforce
  have res: "scan_result (GetMinTs (all_ts s)) ?hs (length ?hs) (m, idx)"
    using scan_version_result [of ?hs _ "\<lambda>t. t"] sc by metis
  have H: "hist_ok ?hs (latest_wts s) (oldest_wts s) (num_versions s)" and heap: "heap_ok s"
    using inv by (simp_all add: core_inv_def)
  show ?thesis
  proof (cases "oldest_wts s < GetMinTs (all_ts s) \<and> num_versions s = int (length ?hs) \<and> idx \<noteq> length ?hs")
    case False
    then have "collect s = Inr s" using sc by (auto simp: collect_def Let_def)
    then show ?thesis using that [of s] inv np by simp
  next
    case True
    then have idx: "idx \<in> versions ?hs" "m = his_ts (?hs ! idx)"
      using res by (auto simp: scan_result_def versions_def)
    have rows: "his_row e \<noteq> None" if "e \<in> set ?hs" "his_valid e" for e
      using H that by (auto simp: hist_ok_def versions_def in_set_conv_nth)
    let ?lr = "if \<exists>e \<in> set ?hs. his_valid e \<and> his_ts e \<le> m \<and> his_row e = latest_row s then None else latest_row s"
    let ?s = "s\<lparr>oldest_wts := m, write_history := map (gc_entry m) ?hs, latest_row := ?lr,
      num_versions := num_versions s - int (length (filter (\<lambda>e. his_valid e \<and> his_ts e \<le> m) ?hs))\<rparr>"
    have C: "collect s = Inr ?s"
      using True sc gc_entries_eq [of ?hs m "latest_row s" "num_versions s", OF rows]
      by (simp add: collect_def Let_def)
    have "reserve_ok ?s" using inv np by (auto simp: core_inv_def reserve_ok_def Let_def gc_entry_def)
    moreover have "heap_ok ?s" by (rule heap_ok_rows [OF heap]) simp_all
    ultimately show ?thesis
      by (intro that [OF C])
        (use hist_ok_gc [OF H idx] latest_ok_gc [OF inv idx(1) HOL.refl HOL.refl] np in \<open>simp_all add: core_inv_def same_env_def keeps_rows_def\<close>)
  qed
qed

section \<open>Reserving an entry\<close>

abbreviation free_entry :: "his_entry \<Rightarrow> bool" where
  "free_entry e \<equiv> \<not> his_valid e \<and> \<not> his_reserved e"

lemma pick_entry_result:
  "pick_entry hs i idx = idx \<and> (\<forall>e \<in> set hs. \<not> free_entry e) \<or>
   (\<exists>k < length hs. pick_entry hs i idx = i + k \<and> free_entry (hs ! k))"
proof (induction hs arbitrary: i idx)
  case (Cons e es)
  show ?case
  proof (cases "free_entry e")
    case True
    then show ?thesis
      using Cons.IH [of "Suc i" i] by (cases "his_row e = None") force+
  next
    case False
    then have "pick_entry (e # es) i idx = pick_entry es (Suc i) idx" by auto
    then show ?thesis using Cons.IH [of "Suc i" idx] False by force
  qed
qed simp

definition oldest_result :: "his_entry list \<Rightarrow> nat \<Rightarrow> u64 \<times> nat \<Rightarrow> bool" where
  "oldest_result hs n r \<longleftrightarrow>
     (r = (UINT64_MAX, length hs) \<and> (\<forall>i \<in> versions hs. i < n \<longrightarrow> UINT64_MAX \<le> his_ts (hs ! i)) \<or>
      snd r \<in> versions hs \<and> fst r = his_ts (hs ! snd r) \<and>
        (\<forall>i \<in> versions hs. i < n \<longrightarrow> fst r \<le> his_ts (hs ! i)))"

lemma oldest_prefix:
  "n \<le> length hs \<Longrightarrow>
   oldest_result hs n (foldl (\<lambda>(t, j) i. if his_valid (hs ! i) \<and> his_ts (hs ! i) < t then (his_ts (hs ! i), i) else (t, j))
     (UINT64_MAX, length hs) [0..<n])"
proof (induction n)
  case (Suc n)
  let ?f = "\<lambda>(t, j) i. if his_valid (hs ! i) \<and> his_ts (hs ! i) < t then (his_ts (hs ! i), i) else (t, j)"
  obtain t j where r: "foldl ?f (UINT64_MAX, length hs) [0..<n] = (t, j)" by fastforce
  then have IH: "oldest_result hs n (t, j)" using Suc by simp
  have "oldest_result hs (Suc n) (?f (t, j) n)"
  proof (cases "his_valid (hs ! n) \<and> his_ts (hs ! n) < t")
    case True
    then show ?thesis
      using IH Suc.prems by (auto simp: oldest_result_def versions_def less_Suc_eq intro: order.strict_implies_order)
  next
    case False
    then show ?thesis using IH by (auto simp: oldest_result_def versions_def less_Suc_eq)
  qed
  then show ?case by (simp add: r)
qed (simp add: oldest_result_def)

lemma oldest_version_min:
  assumes "hist_ok hs lw ow nv" and "versions hs \<noteq> {}"
  obtains j where "oldest_version hs = (his_ts (hs ! j), j)" and "j \<in> versions hs"
    and "\<And>i. i \<in> versions hs \<Longrightarrow> his_ts (hs ! j) \<le> his_ts (hs ! i)"
proof -
  obtain t j where r: "oldest_version hs = (t, j)" by fastforce
  then have res: "oldest_result hs (length hs) (t, j)"
    using oldest_prefix [of "length hs" hs] by (simp add: oldest_version_def)
  obtain i where "i \<in> versions hs" using assms(2) by blast
  moreover have "his_ts (hs ! i) < UINT64_MAX" using assms(1) \<open>i \<in> versions hs\<close>
    by (auto simp: hist_ok_def intro: le_less_trans)
  ultimately show ?thesis
    using that [of j] res r versions_less by (auto simp: oldest_result_def)
qed

text \<open>The state in which entry \<open>idx\<close> is about to be filled: what is left without it is well formed.\<close>

definition ready :: "nat \<Rightarrow> 'db mvcc \<Rightarrow> bool" where
  "ready idx s \<longleftrightarrow> idx < length (write_history s) \<and>
     (let hs = (write_history s)[idx := (write_history s ! idx)\<lparr>his_valid := False\<rparr>] in
      hist_ok hs (latest_wts s) (oldest_wts s) (num_versions s) \<and> latest_ok (s\<lparr>write_history := hs\<rparr>)) \<and>
     heap_ok s \<and> (\<forall>i < length (write_history s). i \<noteq> idx \<and> his_reserved (write_history s ! i) \<longrightarrow>
        his_valid (write_history s ! i))"

lemma ready_free:
  assumes "core_inv s" and "\<not> exists_prewrite s" and "idx < length (write_history s)"
    and "\<not> his_valid (write_history s ! idx)"
  shows "ready idx s"
proof -
  have "(write_history s ! idx)\<lparr>his_valid := False\<rparr> = write_history s ! idx" using assms(4) by simp
  then have "(write_history s)[idx := (write_history s ! idx)\<lparr>his_valid := False\<rparr>] = write_history s"
    by (metis list_update_id)
  moreover have "s\<lparr>write_history := write_history s\<rparr> = s" by simp
  ultimately show ?thesis
    using assms by (simp only: ready_def Let_def) (simp add: core_inv_def reserve_ok_def Let_def)
qed

lemma double_history_ok:
  assumes inv: "core_inv s" and np: "\<not> exists_prewrite s"
  shows "core_inv (s\<lparr>write_history := double_history (write_history s), prewrite_ts := t\<rparr>)"
proof -
  let ?hs = "write_history s" and ?ds = "double_history (write_history s)"
  have V: "versions ?ds = versions ?hs" by (simp add: double_history_def versions_append_empty)
  have nth: "?ds ! i = ?hs ! i" if "i < length ?hs" for i using that by (simp add: double_history_def nth_append)
  have new: "?ds ! i = his_empty" if "\<not> i < length ?hs" "i < length ?ds" for i
    using that by (simp add: double_history_def nth_append)
  have "hist_ok ?ds (latest_wts s) (oldest_wts s) (num_versions s)"
    using inv nth versions_less [of _ ?hs] by (auto simp: core_inv_def hist_ok_def V inj_on_def) (simp add: double_history_def)
  moreover have "latest_ok (s\<lparr>write_history := ?ds, prewrite_ts := t\<rparr>)"
    using inv nth versions_less [of _ ?hs] by (auto simp: core_inv_def latest_ok_def V)
  moreover have "his_reserved (?ds ! i) \<longrightarrow> his_valid (?ds ! i)" if "i < length ?ds" for i
    using inv np nth new [of i] that
    by (cases "i < length ?hs") (auto simp: core_inv_def reserve_ok_def Let_def his_empty_def)
  moreover have "heap_ok (s\<lparr>write_history := ?ds, prewrite_ts := t\<rparr>)"
  proof (rule heap_ok_sub [of s])
    fix i p
    assume "i < length (write_history (s\<lparr>write_history := ?ds, prewrite_ts := t\<rparr>))"
      "his_row (write_history (s\<lparr>write_history := ?ds, prewrite_ts := t\<rparr>) ! i) = Some p"
    then show "i < length ?hs \<and> his_row (?hs ! i) = Some p"
      using new nth by (cases "i < length ?hs") (auto simp: his_empty_def)
  qed (use inv in \<open>simp_all add: core_inv_def\<close>)
  ultimately show ?thesis using np by (simp add: core_inv_def reserve_ok_def)
qed

lemma recycle_ready:
  assumes inv: "core_inv s" and np: "\<not> exists_prewrite s" and full: "num_versions s = int (length (write_history s))"
    and j: "j \<in> versions (write_history s)"
    and least: "\<And>i. i \<in> versions (write_history s) \<Longrightarrow> his_ts (write_history s ! j) \<le> his_ts (write_history s ! i)"
  shows "ready j (s\<lparr>oldest_wts := his_ts (write_history s ! j), num_versions := num_versions s - 1\<rparr>)"
proof -
  let ?hs = "write_history s"
  let ?hs' = "?hs[j := (?hs ! j)\<lparr>his_valid := False\<rparr>]"
  have H: "hist_ok ?hs (latest_wts s) (oldest_wts s) (num_versions s)" using inv by (simp add: core_inv_def)
  have jl: "j < length ?hs" using j by (rule versions_less)
  have V: "versions ?hs' = versions ?hs - {j}" using versions_update [OF jl] by simp
  have nth: "?hs' ! i = ?hs ! i" if "i \<noteq> j" for i using that by simp
  have less: "his_ts (?hs ! j) < his_ts (?hs ! i)" if "i \<in> versions ?hs" "i \<noteq> j" for i
    using least [OF that(1)] H j that by (auto simp: hist_ok_def inj_on_def order.order_iff_strict)
  have "card (versions ?hs) = length ?hs" using H full by (simp add: hist_ok_def)
  then have all: "versions ?hs = {..<length ?hs}" by (rule card_versions_full)
  have "2 \<le> length ?hs" using H by (simp add: hist_ok_def)
  then have "\<exists>i. i < length ?hs \<and> i \<noteq> j" by (intro exI [of _ "if j = 0 then 1 else 0"]) auto
  then obtain i where i: "i \<in> versions ?hs" "i \<noteq> j" using all by auto
  have "hist_ok ?hs' (latest_wts s) (his_ts (?hs ! j)) (num_versions s - 1)"
    unfolding hist_ok_def
  proof (intro conjI)
    show "num_versions s - 1 = int (card (versions ?hs'))"
      using H j jl by (auto simp: hist_ok_def V card_Diff_singleton int_ops(6) all)
    show "inj_on (\<lambda>i. his_ts (?hs' ! i)) (versions ?hs')"
      using H by (auto simp: hist_ok_def V inj_on_def)
    show "\<forall>i \<in> versions ?hs'. his_ts (?hs ! j) < his_ts (?hs' ! i) \<and> his_ts (?hs' ! i) \<le> latest_wts s \<and> his_row (?hs' ! i) \<noteq> None"
      using H less by (auto simp: hist_ok_def V)
  qed (use H j in \<open>simp_all add: hist_ok_def\<close>)
  moreover have "latest_ok (s\<lparr>oldest_wts := his_ts (?hs ! j), num_versions := num_versions s - 1, write_history := ?hs'\<rparr>)"
  proof -
    obtain k p where k: "k \<in> versions ?hs" "his_ts (?hs ! k) = latest_wts s" "latest_row s = Some p"
      "his_row (?hs ! k) = Some p" "base_row s = None"
      using latest_in_window [OF inv] j by blast
    have "k \<noteq> j" using less [OF i] k(2) H i(1) by (auto simp: hist_ok_def)
    then show ?thesis using k by (auto simp: latest_ok_def V)
  qed
  moreover have "heap_ok (s\<lparr>oldest_wts := his_ts (?hs ! j), num_versions := num_versions s - 1\<rparr>)"
    by (rule heap_ok_rows [of s]) (use inv in \<open>simp_all add: core_inv_def\<close>)
  moreover have "\<forall>i < length ?hs. i \<noteq> j \<and> his_reserved (?hs ! i) \<longrightarrow> his_valid (?hs ! i)"
    using inv np by (simp add: core_inv_def reserve_ok_def Let_def)
  ultimately show ?thesis using jl by (simp add: ready_def)
qed

lemma choose_entry_ok:
  assumes inv: "core_inv s" and np: "\<not> exists_prewrite s"
  obtains idx s' where "choose_entry ts s = Inr (idx, s')" and "ready idx s'" and "same_env s s'" and "keeps_rows s s'"
    and "next_row s' = next_row s" and "latest_row s' = latest_row s" and "base_row s' = base_row s"
proof -
  let ?hs = "write_history s"
  have H: "hist_ok ?hs (latest_wts s) (oldest_wts s) (num_versions s)" using inv by (simp add: core_inv_def)
  show ?thesis
  proof (cases "num_versions s < int (length ?hs)")
    case True
    then have "card (versions ?hs) < length ?hs" using H by (simp add: hist_ok_def)
    then obtain i where "i < length ?hs" "\<not> his_valid (?hs ! i)" using card_versions_free by blast
    then have "free_entry (?hs ! i)" using inv np by (auto simp: core_inv_def reserve_ok_def Let_def)
    then have "\<exists>e \<in> set ?hs. free_entry e" using \<open>i < length ?hs\<close> by (intro bexI [of _ "?hs ! i"]) simp_all
    then obtain k where k: "k < length ?hs" "pick_entry ?hs 0 (length ?hs) = k" "free_entry (?hs ! k)"
      using pick_entry_result [of ?hs 0 "length ?hs"] by auto
    have "ready k s" using ready_free [OF inv np k(1)] k(3) by blast
    moreover have "choose_entry ts s = Inr (k, s)" using True k(1,2) by (simp add: choose_entry_def Let_def)
    ultimately show ?thesis using that [of k s] by simp
  next
    case False
    then have full: "num_versions s = int (length ?hs)"
      using H card_versions_le [of ?hs] by (simp add: hist_ok_def)
    have ne: "versions ?hs \<noteq> {}"
      using H full by (auto simp: hist_ok_def simp del: length_0_conv)
    obtain j where j: "oldest_version ?hs = (his_ts (?hs ! j), j)" "j \<in> versions ?hs"
      "\<And>i. i \<in> versions ?hs \<Longrightarrow> his_ts (?hs ! j) \<le> his_ts (?hs ! i)"
      using oldest_version_min [OF H ne] by blast
    show ?thesis
    proof (cases "THREAD_CNT \<le> length ?hs")
      case True
      let ?s = "s\<lparr>oldest_wts := his_ts (?hs ! j), num_versions := num_versions s - 1\<rparr>"
      have "choose_entry ts s = Inr (j, ?s)"
        using True False j H versions_less [OF j(2)] by (simp add: choose_entry_def Let_def hist_ok_def)
      moreover have "ready j ?s" by (rule recycle_ready [OF inv np full j(2,3)])
      ultimately show ?thesis using that [of j ?s] by (simp add: same_env_def keeps_rows_def)
    next
      case len: False
      let ?s = "s\<lparr>write_history := double_history ?hs, prewrite_ts := ts\<rparr>"
      have "length ?hs < length (double_history ?hs)" using H by (auto simp: double_history_def hist_ok_def)
      moreover have "\<not> his_valid (double_history ?hs ! length ?hs)"
        using calculation by (simp add: double_history_def nth_append his_empty_def)
      ultimately have "ready (length ?hs) ?s" using ready_free [OF double_history_ok [OF inv np]] np by simp
      moreover have "choose_entry ts s = Inr (length ?hs, ?s)"
        using False len by (simp add: choose_entry_def Let_def)
      ultimately show ?thesis using that [of "length ?hs" ?s] by (simp add: same_env_def keeps_rows_def)
    qed
  qed
qed

lemma hist_ok_agree:
  assumes "hist_ok hs lw ow nv" and "length hs' = length hs" and "versions hs' = versions hs"
    and "\<And>i. i \<in> versions hs \<Longrightarrow> hs' ! i = hs ! i"
  shows "hist_ok hs' lw ow nv"
  using assms by (simp add: hist_ok_def inj_on_def)

lemma latest_ok_agree:
  assumes "latest_ok s" and "versions (write_history t) = versions (write_history s)"
    and "\<And>i. i \<in> versions (write_history s) \<Longrightarrow> write_history t ! i = write_history s ! i"
    and "latest_row t = latest_row s" "base_row t = base_row s" "latest_wts t = latest_wts s"
  shows "latest_ok t"
  using assms by (auto simp: latest_ok_def)

text \<open>Filling entry \<open>idx\<close> with a row \<open>p\<close> that no other entry and not \<open>row_\<close> uses.\<close>

lemma heap_ok_fill:
  assumes heap: "heap_ok s" and idx: "idx < length (write_history s)"
    and t: "write_history t = (write_history s)[idx := e]" "his_row e = Some p" "row_ok t p"
    and old: "\<And>q. row_ok s q \<Longrightarrow> row_ok t q" and same: "base_row t = base_row s" "junk t = junk s" "m_size t = m_size s"
    and new: "his_row (write_history s ! idx) = Some p \<or> p = next_row s"
  shows "heap_ok t"
proof -
  have lt: "q < next_row s" if "row_ok s q" for q using that by (simp add: row_ok_def)
  have row: "i = idx \<and> q = p \<or> i \<noteq> idx \<and> his_row (write_history s ! i) = Some q"
    if "i < length (write_history s)" "his_row (write_history t ! i) = Some q" for i q
    using that t by (cases "i = idx") auto
  have other: "q \<noteq> p" if "i < length (write_history s)" "i \<noteq> idx" "his_row (write_history s ! i) = Some q" for i q
    using new
  proof
    assume "his_row (write_history s ! idx) = Some p"
    then show ?thesis using heap_ok_inj [OF heap that(1) idx, of p] that by auto
  next
    assume "p = next_row s"
    moreover have "row_ok s q" using heap that by (simp add: heap_ok_def)
    ultimately show ?thesis using lt by blast
  qed
  have base: "base_row s \<noteq> Some p"
    using new
  proof
    assume p: "his_row (write_history s ! idx) = Some p"
    then have "his_row (write_history s ! idx) \<noteq> base_row s" using heap idx unfolding heap_ok_def by blast
    then show ?thesis using p by auto
  next
    assume "p = next_row s"
    then show ?thesis using heap lt by (auto simp: heap_ok_def)
  qed
  have len: "length (write_history t) = length (write_history s)" using t by simp
  show ?thesis
    unfolding heap_ok_def len same
  proof (intro conjI allI impI)
    fix i q assume "i < length (write_history s)" "his_row (write_history t ! i) = Some q"
    then show "row_ok t q" using row [of i q] t(3) old heap by (auto simp: heap_ok_def)
  next
    fix i j q
    assume a: "i < length (write_history s)" "j < length (write_history s)"
      and "his_row (write_history t ! i) = Some q \<and> his_row (write_history t ! j) = Some q"
    then show "i = j"
      using row [of i q] row [of j q] other [of i q] other [of j q] heap_ok_inj [OF heap, of i j q] by blast
  next
    fix i assume a: "i < length (write_history s)" "his_row (write_history t ! i) \<noteq> None"
    then obtain q where q: "his_row (write_history t ! i) = Some q" by blast
    have "his_row (write_history s ! i) \<noteq> None \<longrightarrow> his_row (write_history s ! i) \<noteq> base_row s"
      using heap a(1) by (simp add: heap_ok_def)
    then show "his_row (write_history t ! i) \<noteq> base_row s"
      using row [OF a(1) q] q base by auto
  qed (use heap old in \<open>auto simp: heap_ok_def\<close>)
qed

lemma take_entry_ok:
  assumes rd: "ready idx s" and ts: "latest_wts s < ts" "ts < UINT64_MAX" "max_served_rts s \<le> ts"
  obtains p s' where "take_entry ts idx s = Inr (Some p, s')" and "core_inv s'" and "exists_prewrite s'"
    and "prewrite_ts s' = ts" and "his_row (write_history s' ! prewrite_his_id s') = Some p" and "row_ok s' p"
    and "same_env s s'" and "keeps_rows s s'" and "latest_row s' = latest_row s"
proof -
  let ?hs = "write_history s"
  let ?e = "?hs ! idx"
  have idx: "idx < length ?hs" and heap: "heap_ok s" using rd by (simp_all add: ready_def)
  define fresh where "fresh = (his_row ?e = None)"
  define p where "p = (case his_row ?e of None \<Rightarrow> next_row s | Some q \<Rightarrow> q)"
  define s1 where "s1 = (if fresh then s\<lparr>rows := (rows s)(next_row s \<mapsto>
      \<lparr>row_key = m_key s, row_size = m_size s, row_bytes = junk s (next_row s)\<rparr>), next_row := Suc (next_row s)\<rparr> else s)"
  define e' where "e' = ?e\<lparr>his_valid := False, his_reserved := True, his_ts := ts, his_row := Some p\<rparr>"
  define s' where "s' = s1\<lparr>write_history := ?hs[idx := e'], exists_prewrite := True, prewrite_his_id := idx, prewrite_ts := ts\<rparr>"
  have old: "row_ok s' q" if "row_ok s q" for q
    using that by (auto simp: row_ok_def s'_def s1_def)
  have p: "row_ok s' p"
  proof (cases fresh)
    case True
    then show ?thesis using heap by (simp add: row_ok_def s'_def s1_def p_def fresh_def heap_ok_def)
  next
    case False
    then have "his_row ?e = Some p" by (auto simp: p_def fresh_def)
    then show ?thesis using heap idx old by (simp add: heap_ok_def)
  qed
  have kr: "keeps_rows s s'"
    using heap by (auto simp: keeps_rows_def s'_def s1_def)
  let ?h0 = "?hs[idx := ?e\<lparr>his_valid := False\<rparr>]" and ?h' = "?hs[idx := e']"
  have V: "versions ?h0 = versions ?hs - {idx}" "versions ?h' = versions ?hs - {idx}"
    using versions_update [OF idx] by (simp_all add: e'_def)
  have nth: "?h' ! i = ?h0 ! i" if "i \<in> versions ?h0" for i using that V(1) by auto
  have len: "length ?h' = length ?h0" by simp
  have V': "versions ?h' = versions ?h0" using V by simp
  have "hist_ok ?h0 (latest_wts s) (oldest_wts s) (num_versions s)" "latest_ok (s\<lparr>write_history := ?h0\<rparr>)"
    using rd by (simp_all add: ready_def Let_def)
  then have H: "hist_ok ?h' (latest_wts s) (oldest_wts s) (num_versions s)" and "latest_ok (s\<lparr>write_history := ?h0\<rparr>)"
    using hist_ok_agree [OF _ len V' nth] by blast+
  then have L: "latest_ok s'"
    using latest_ok_agree [of "s\<lparr>write_history := ?h0\<rparr>" s'] V' nth by (simp add: s'_def s1_def)
  have R: "reserve_ok s'"
    using rd idx ts by (auto simp: ready_def reserve_ok_def s'_def s1_def Let_def e'_def nth_list_update)
  have "heap_ok s'"
    by (rule heap_ok_fill [OF heap idx, of s' e' p])
      (use p old in \<open>auto simp: s'_def s1_def e'_def p_def split: option.splits\<close>)
  then have core: "core_inv s'" using H L R by (simp add: core_inv_def s'_def s1_def)
  obtain r where r: "rows s' p = Some r" "row_key r = m_key s'" "row_size r = m_size s'" using p by (auto simp: row_ok_def)
  have "take_entry ts idx s = Inr (Some p, s')"
    using idx r by (auto simp: take_entry_def Let_def s'_def s1_def e'_def p_def fresh_def split: option.splits)
  then show ?thesis
    by (rule that) (use core p kr idx in \<open>simp_all add: same_env_def s'_def s1_def e'_def\<close>)
qed

lemma reserveRow_ok:
  assumes inv: "core_inv s" and np: "\<not> exists_prewrite s"
    and ts: "latest_wts s < ts" "ts < UINT64_MAX" "max_served_rts s \<le> ts"
  obtains p s' where "reserveRow ts s = Inr (Some p, s')" and "core_inv s'" and "exists_prewrite s'"
    and "prewrite_ts s' = ts" and "his_row (write_history s' ! prewrite_his_id s') = Some p" and "row_ok s' p"
    and "same_env s s'" and "keeps_rows s s'"
proof -
  obtain s1 where 1: "collect s = Inr s1" "core_inv s1" "\<not> exists_prewrite s1" "same_env s s1" "keeps_rows s s1"
    using collect_ok [OF inv np] by blast
  obtain idx s2 where 2: "choose_entry ts s1 = Inr (idx, s2)" "ready idx s2" "same_env s1 s2" "keeps_rows s1 s2"
    using choose_entry_ok [OF 1(2,3), of ts] by blast
  have "latest_wts s2 < ts" "max_served_rts s2 \<le> ts" using 1(4) 2(3) ts by (simp_all add: same_env_def)
  then obtain p s' where 3: "take_entry ts idx s2 = Inr (Some p, s')" "core_inv s'" "exists_prewrite s'"
    "prewrite_ts s' = ts" "his_row (write_history s' ! prewrite_his_id s') = Some p" "row_ok s' p"
    "same_env s2 s'" "keeps_rows s2 s'"
    using take_entry_ok [OF 2(2) _ ts(2)] by metis
  have "same_env s s'" by (rule same_env_trans [OF same_env_trans [OF 1(4) 2(3)] 3(7)])
  moreover have "keeps_rows s s'" by (rule keeps_rows_trans [OF keeps_rows_trans [OF 1(5) 2(4)] 3(8)])
  moreover have "reserveRow ts s = Inr (Some p, s')" using np 1(1) 2(1) 3(1) by (simp add: reserveRow_def)
  ultimately show ?thesis using that 3 by blast
qed

end
