(* ===== verification/Row_Mvcc_Serve.thy ===== *)
theory Row_Mvcc_Serve
  imports Row_Mvcc_Inv
begin

text \<open>
  The interface of the row storage below a row's version history, as a locale, and that the
  helpers of \<open>access\<close> (fetching the latest row, reserving and filling a row, answering the pending
  requests) keep the invariant and hand out the committed content.
\<close>

section \<open>The interface of the row storage\<close>

text \<open>
  \<open>drow d k\<close> is the stored content of row \<open>k\<close>, \<open>rvalid k b\<close> says that bytes \<open>b\<close> may be stored
  for it. A snapshot read returns the content; a write of valid bytes of the same length replaces
  it and nothing else.
\<close>

locale row_storage =
  fixes S :: "'db row_store" and dinv :: "'db \<Rightarrow> bool" and drow :: "'db \<Rightarrow> u64 \<Rightarrow> bytes option"
    and rvalid :: "u64 \<Rightarrow> bytes \<Rightarrow> bool"
  assumes snapshot_law: "dinv d \<Longrightarrow> drow d k = Some b \<Longrightarrow>
      \<exists>d'. snapshot_read S k (length b) d = Inr (b, d') \<and> dinv d' \<and> drow d' = drow d"
    and write_law: "dinv d \<Longrightarrow> drow d k = Some b \<Longrightarrow> length b' = length b \<Longrightarrow> rvalid k b' \<Longrightarrow>
      \<exists>d'. write_row S k b' d = Inr d' \<and> dinv d' \<and> drow d' = (drow d)(k \<mapsto> b')"

text \<open>The database holds \<open>c\<close> for the row, and so does \<open>_latest_row\<close>.\<close>

definition val_ok :: "('db \<Rightarrow> bool) \<Rightarrow> ('db \<Rightarrow> u64 \<Rightarrow> bytes option) \<Rightarrow> bytes \<Rightarrow> 'db mvcc \<Rightarrow> bool" where
  "val_ok dinv drow c s \<longleftrightarrow> dinv (mdb s) \<and> drow (mdb s) (m_key s) = Some c \<and> length c = m_size s \<and>
     (\<forall>p r. latest_row s = Some p \<and> rows s p = Some r \<longrightarrow> row_bytes r = c)"

text \<open>The reservation and the history are the same.\<close>

definition same_his :: "'db mvcc \<Rightarrow> 'db mvcc \<Rightarrow> bool" where
  "same_his s t \<longleftrightarrow> write_history t = write_history s \<and> exists_prewrite t = exists_prewrite s \<and>
     prewrite_ts t = prewrite_ts s \<and> prewrite_his_id t = prewrite_his_id s"

text \<open>The object handed to the prewriting transaction.\<close>

abbreviation reserved_row :: "'db mvcc \<Rightarrow> nat option" where
  "reserved_row s \<equiv> his_row (write_history s ! prewrite_his_id s)"

section \<open>Fields the invariant does not read\<close>

lemma core_inv_irrelevant [simp]:
  "core_inv (s\<lparr>txns := T\<rparr>) = core_inv s"
  "core_inv (s\<lparr>requests := Q\<rparr>) = core_inv s"
  "core_inv (s\<lparr>mdb := d\<rparr>) = core_inv s"
  "core_inv (s\<lparr>all_ts := A\<rparr>) = core_inv s"
  by (simp_all add: core_inv_def latest_ok_def reserve_ok_def heap_ok_def row_ok_def)

lemma val_ok_irrelevant [simp]:
  "val_ok dinv drow c (s\<lparr>txns := T\<rparr>) = val_ok dinv drow c s"
  "val_ok dinv drow c (s\<lparr>requests := Q\<rparr>) = val_ok dinv drow c s"
  "val_ok dinv drow c (s\<lparr>max_served_rts := m\<rparr>) = val_ok dinv drow c s"
  "val_ok dinv drow c (s\<lparr>all_ts := A\<rparr>) = val_ok dinv drow c s"
  by (simp_all add: val_ok_def)

lemma core_inv_answer [simp]: "core_inv (answer i t p s) = core_inv s"
  by (simp add: answer_def)

lemma val_ok_answer [simp]: "val_ok dinv drow c (answer i t p s) = val_ok dinv drow c s"
  by (simp add: answer_def)

lemma core_inv_served:
  "core_inv s \<Longrightarrow> (exists_prewrite s \<Longrightarrow> m \<le> prewrite_ts s) \<Longrightarrow> core_inv (s\<lparr>max_served_rts := m\<rparr>)"
  by (simp add: core_inv_def latest_ok_def reserve_ok_def heap_ok_def row_ok_def Let_def)

lemma core_inv_rows:
  assumes "core_inv s" and "\<And>q. row_ok s q \<Longrightarrow> row_ok (s\<lparr>rows := R\<rparr>) q"
  shows "core_inv (s\<lparr>rows := R\<rparr>)"
  using assms by (auto simp: core_inv_def latest_ok_def reserve_ok_def heap_ok_def Let_def)

lemma latest_row_ok:
  assumes inv: "core_inv s" and p: "latest_row s = Some p"
  shows "row_ok s p"
proof (cases "versions (write_history s) = {}")
  case True
  then show ?thesis using inv p by (simp add: core_inv_def latest_ok_def heap_ok_def)
next
  case False
  then obtain i q where "i < length (write_history s)" "latest_row s = Some q" "his_row (write_history s ! i) = Some q"
    using latest_in_window [OF inv] versions_less by metis
  then show ?thesis using inv p by (simp add: core_inv_def heap_ok_def)
qed

lemma val_ok_keeps:
  assumes "val_ok dinv drow c s" and "core_inv s" and "keeps_rows s t" and "same_env s t"
  shows "val_ok dinv drow c t"
proof -
  have "row_bytes r = c" if "latest_row t = Some p" "rows t p = Some r" for p r
  proof -
    have p: "latest_row s = Some p" using assms(3) that(1) by (auto simp: keeps_rows_def)
    then have "p < next_row s" using latest_row_ok [OF assms(2)] by (simp add: row_ok_def)
    then have "rows s p = Some r" using assms(3) that(2) by (simp add: keeps_rows_def)
    then show ?thesis using assms(1) p by (simp add: val_ok_def)
  qed
  then show ?thesis using assms by (auto simp: val_ok_def same_env_def keeps_rows_def)
qed

section \<open>Copying and fetching\<close>

lemma copy_row_ok:
  assumes inv: "core_inv s" and val: "val_ok dinv drow c s" and q: "latest_row s = Some q" and p: "row_ok s p"
  obtains s' where "copy_row (Some p) (Some q) s = Inr s'" and "core_inv s'" and "val_ok dinv drow c s'"
    and "same_env s s'" and "same_his s s'" and "latest_row s' = latest_row s" and "mdb s' = mdb s"
    and "\<exists>r. rows s' p = Some r \<and> row_bytes r = c"
proof -
  obtain rp where rp: "rows s p = Some rp" "length (row_bytes rp) = m_size s" "p < next_row s"
    "row_key rp = m_key s" "row_size rp = m_size s"
    using p by (auto simp: row_ok_def)
  obtain rq where rq: "rows s q = Some rq" "length (row_bytes rq) = m_size s"
    using latest_row_ok [OF inv q] by (auto simp: row_ok_def)
  have c: "row_bytes rq = c" using val q rq(1) by (simp add: val_ok_def)
  let ?R = "(rows s)(p \<mapsto> rp\<lparr>row_bytes := c\<rparr>)"
  have "copy_row (Some p) (Some q) s = Inr (s\<lparr>rows := ?R\<rparr>)"
    using rp rq c by (simp add: copy_row_def read_at_def memcpy_at_def)
  moreover have "core_inv (s\<lparr>rows := ?R\<rparr>)"
    by (rule core_inv_rows [OF inv]) (use rp rq c in \<open>auto simp: row_ok_def\<close>)
  moreover have "val_ok dinv drow c (s\<lparr>rows := ?R\<rparr>)"
    using val by (auto simp: val_ok_def)
  ultimately show ?thesis
    using that [of "s\<lparr>rows := ?R\<rparr>"] by (simp add: same_env_def same_his_def)
qed

context row_storage
begin

lemma ensure_latest_ok:
  assumes inv: "core_inv s" and val: "val_ok dinv drow c s"
  obtains s' q where "ensure_latest S s = Inr s'" and "core_inv s'" and "val_ok dinv drow c s'"
    and "latest_row s' = Some q" and "same_env s s'" and "same_his s s'" and "drow (mdb s') = drow (mdb s)"
    and "next_row s \<le> next_row s'" and "\<And>p. p < next_row s \<Longrightarrow> rows s' p = rows s p"
    and "\<And>p. row_ok s p \<Longrightarrow> row_ok s' p"
proof (cases "latest_row s")
  case (Some q)
  then have "ensure_latest S s = Inr s" by (simp add: ensure_latest_def)
  then show ?thesis using that [of s q] inv val Some by (simp add: same_his_def)
next
  case None
  have V: "versions (write_history s) = {}"
  proof (rule ccontr)
    assume "versions (write_history s) \<noteq> {}"
    then show False using latest_in_window [OF inv] None by (metis option.distinct(1))
  qed
  then have b: "base_row s = None" "num_versions s = 0"
    using inv None by (simp_all add: core_inv_def latest_ok_def hist_ok_def)
  have c: "drow (mdb s) (m_key s) = Some c" "length c = m_size s" "dinv (mdb s)" using val by (simp_all add: val_ok_def)
  obtain d' where d': "snapshot_read S (m_key s) (length c) (mdb s) = Inr (c, d')" "dinv d'" "drow d' = drow (mdb s)"
    using snapshot_law [OF c(3,1)] by blast
  let ?R = "(rows s)(next_row s \<mapsto> \<lparr>row_key = m_key s, row_size = m_size s, row_bytes = c\<rparr>)"
  let ?s = "s\<lparr>rows := ?R, next_row := Suc (next_row s), base_row := Some (next_row s), latest_row := Some (next_row s), mdb := d'\<rparr>"
  have eq: "ensure_latest S s = Inr ?s"
    using None b c d' by (simp add: ensure_latest_def GetLatestRow_def)
  have ok: "row_ok ?s p" if "row_ok s p" for p using that by (auto simp: row_ok_def)
  have heap: "heap_ok s" using inv by (simp add: core_inv_def)
  have lt: "p < next_row s" if "i < length (write_history s)" "his_row (write_history s ! i) = Some p" for i p
    using heap that by (simp add: heap_ok_def row_ok_def)
  have "heap_ok ?s"
    unfolding heap_ok_def
  proof (intro conjI allI impI)
    fix i j p
    assume "i < length (write_history ?s)" "j < length (write_history ?s)"
      "his_row (write_history ?s ! i) = Some p \<and> his_row (write_history ?s ! j) = Some p"
    then show "i = j" using heap_ok_inj [OF heap] by simp
  next
    fix i assume "i < length (write_history ?s)" "his_row (write_history ?s ! i) \<noteq> None"
    then show "his_row (write_history ?s ! i) \<noteq> base_row ?s" using lt [of i] by auto
  next
    fix i p assume "i < length (write_history ?s)" "his_row (write_history ?s ! i) = Some p"
    then show "row_ok ?s p" using ok heap by (simp add: heap_ok_def)
  qed (use heap c in \<open>auto simp: row_ok_def heap_ok_def\<close>)
  then have core: "core_inv ?s"
    using inv V by (simp add: core_inv_def latest_ok_def reserve_ok_def Let_def)
  have "val_ok dinv drow c ?s" using c d' by (simp add: val_ok_def)
  then show ?thesis
    using that [OF eq core] ok d'(3) by (simp add: same_env_def same_his_def)
qed

text \<open>
  Granting a reservation: the transaction gets an object of its own with the committed content.
\<close>

lemma grant_ok:
  assumes inv: "core_inv s" and val: "val_ok dinv drow c s" and np: "\<not> exists_prewrite s"
    and ts: "latest_wts s < ts" "ts < UINT64_MAX" "max_served_rts s \<le> ts"
  obtains p s1 s2 s3 where "reserveRow ts s = Inr (Some p, s1)" and "ensure_latest S s1 = Inr s2"
    and "copy_row (Some p) (latest_row s2) s2 = Inr s3" and "core_inv s3" and "val_ok dinv drow c s3"
    and "exists_prewrite s3" and "prewrite_ts s3 = ts" and "reserved_row s3 = Some p"
    and "same_env s s3" and "drow (mdb s3) = drow (mdb s)" and "\<exists>r. rows s3 p = Some r \<and> row_bytes r = c"
proof -
  obtain p s1 where 1: "reserveRow ts s = Inr (Some p, s1)" "core_inv s1" "exists_prewrite s1" "prewrite_ts s1 = ts"
    "reserved_row s1 = Some p" "row_ok s1 p" "same_env s s1" "keeps_rows s s1"
    using reserveRow_ok [OF inv np ts] by metis
  have val1: "val_ok dinv drow c s1" by (rule val_ok_keeps [OF val inv 1(8,7)])
  obtain s2 q where 2: "ensure_latest S s1 = Inr s2" "core_inv s2" "val_ok dinv drow c s2" "latest_row s2 = Some q"
    "same_env s1 s2" "same_his s1 s2" "drow (mdb s2) = drow (mdb s1)" "row_ok s2 p"
    using ensure_latest_ok [OF 1(2) val1] 1(6) by metis
  obtain s3 where 3: "copy_row (Some p) (Some q) s2 = Inr s3" "core_inv s3" "val_ok dinv drow c s3" "same_env s2 s3"
    "same_his s2 s3" "mdb s3 = mdb s2" "\<exists>r. rows s3 p = Some r \<and> row_bytes r = c"
    using copy_row_ok [OF 2(2,3,4,8)] by metis
  have "same_env s s3" by (rule same_env_trans [OF same_env_trans [OF 1(7) 2(5)] 3(4)])
  moreover have "mdb s1 = mdb s" using 1(8) by (simp add: keeps_rows_def)
  moreover have "exists_prewrite s3" "prewrite_ts s3 = ts" "reserved_row s3 = Some p"
    using 1(3,4,5) 2(6) 3(5) by (simp_all add: same_his_def)
  ultimately show ?thesis using that [OF 1(1) 2(1), of s3] 2(4,7) 3 by simp
qed

end

section \<open>Pending requests\<close>

lemma free_slot_result:
  "(free_slot rs i = None \<and> (\<forall>r \<in> set rs. req_valid r)) \<or>
   (\<exists>k < length rs. free_slot rs i = Some (i + k) \<and> \<not> req_valid (rs ! k))"
proof (induction rs arbitrary: i)
  case (Cons r rs)
  then show ?case using Cons.IH [of "Suc i"] by (cases "req_valid r") force+
qed simp

text \<open>\<open>buffer_req\<close> puts the request into a free slot, of the array or of its doubled copy.\<close>

lemma buffer_req_ok:
  assumes ne: "requests s \<noteq> []"
  obtains k rs where "buffer_req ty txn s =
      Inr (s\<lparr>requests := rs[k := \<lparr>req_valid = True, req_type = ty, req_ts = txn_ts (txns s txn), req_txn = txn\<rparr>]\<rparr>)"
    and "k < length rs" and "\<not> req_valid (rs ! k)" and "rs = requests s \<or> rs = double_requests (requests s)"
proof (cases "free_slot (requests s) 0")
  case (Some k)
  then have "k < length (requests s)" "\<not> req_valid (requests s ! k)" using free_slot_result [of "requests s" 0] by auto
  then show ?thesis using that [of "requests s" k] Some by (simp add: buffer_req_def Let_def)
next
  case None
  let ?d = "double_requests (requests s)"
  have "\<not> req_valid (?d ! length (requests s))" "length (requests s) < length ?d"
    using ne by (simp_all add: double_requests_def nth_append req_empty_def)
  then have "\<not> (\<forall>r \<in> set ?d. req_valid r)" using nth_mem by blast
  then obtain k where "k < length ?d" "free_slot ?d 0 = Some k" "\<not> req_valid (?d ! k)"
    using free_slot_result [of ?d 0] by auto
  then show ?thesis using that [of ?d k] None by (simp add: buffer_req_def Let_def)
qed

lemma pending_after_double:
  assumes "pending_after t s"
  shows "pending_after t (s\<lparr>requests := double_requests (requests s)\<rparr>)"
proof -
  let ?d = "double_requests (requests s)"
  have old: "i < length (requests s) \<and> ?d ! i = requests s ! i" if "i < length ?d" "req_valid (?d ! i)" for i
  proof (cases "i < length (requests s)")
    case False
    then show ?thesis using that by (simp add: double_requests_def nth_append req_empty_def)
  qed (simp add: double_requests_def nth_append)
  have "?d \<noteq> []" using assms by (simp add: pending_after_def double_requests_def)
  moreover have "i = j" if "i < length ?d" "j < length ?d" "req_valid (?d ! i)" "req_valid (?d ! j)"
    "req_ts (?d ! i) = req_ts (?d ! j)" for i j
    using assms old [OF that(1,3)] old [OF that(2,4)] that by (simp add: pending_after_def)
  moreover have "req_ok t (txns s) (?d ! i)"
    if "i < length ?d" "req_valid (?d ! i)" for i
    using assms old [OF that] that by (simp add: pending_after_def)
  ultimately show ?thesis unfolding pending_after_def by simp
qed

lemma pending_after_put:
  assumes pa: "pending_after t s" and k: "k < length (requests s)" "\<not> req_valid (requests s ! k)"
    and e: "req_ok t (txns s) e"
    and fresh: "\<And>i. i < length (requests s) \<Longrightarrow> req_valid (requests s ! i) \<Longrightarrow> req_ts (requests s ! i) \<noteq> req_ts e"
  shows "pending_after t (s\<lparr>requests := (requests s)[k := e]\<rparr>)"
proof -
  have "i = j" if "i < length (requests s)" "j < length (requests s)" "req_valid ((requests s)[k := e] ! i)"
    "req_valid ((requests s)[k := e] ! j)" "req_ts ((requests s)[k := e] ! i) = req_ts ((requests s)[k := e] ! j)" for i j
    using pa that k(1) fresh [of i] fresh [of j]
    by (cases "i = k"; cases "j = k") (simp_all add: pending_after_def)
  moreover have "req_ok t (txns s) ((requests s)[k := e] ! i)"
    if "i < length (requests s)" "req_valid ((requests s)[k := e] ! i)" for i
    using pa that k(1) e by (cases "i = k") (simp_all add: pending_after_def)
  ultimately show ?thesis using pa unfolding pending_after_def by auto
qed

end
