(* ===== verification/Row_Mvcc_Wakeup.thy ===== *)
theory Row_Mvcc_Wakeup
  imports Row_Mvcc_Serve
begin

text \<open>
  \<open>update_buffer\<close>: which of the pending requests are answered when a reservation ends, and that the
  invariant holds again afterwards. The loop is followed index by index against the requests at
  its start.
\<close>

section \<open>The next pending prewrite\<close>

definition prewrites :: "u64 \<Rightarrow> req_entry list \<Rightarrow> u64 set" where
  "prewrites ts rs = {req_ts r |r. r \<in> set rs \<and> req_valid r \<and> req_type r = P_REQ \<and> ts < req_ts r}"

lemma prewrites_simps [simp]:
  "prewrites ts [] = {}"
  "prewrites ts (r # rs) =
     (if req_valid r \<and> req_type r = P_REQ \<and> ts < req_ts r then insert (req_ts r) (prewrites ts rs) else prewrites ts rs)"
  by (auto simp: prewrites_def)

lemma next_prewrite_fold:
  fixes m :: u64
  defines "step ts \<equiv> \<lambda>m r. if req_valid r \<and> req_type r = P_REQ \<and> req_ts r > ts \<and> req_ts r < m then req_ts r else m"
  shows "(\<forall>t \<in> prewrites ts rs. foldl (step ts) m rs \<le> t) \<and> foldl (step ts) m rs \<le> m \<and>
    (foldl (step ts) m rs = m \<or> foldl (step ts) m rs \<in> prewrites ts rs)"
proof (induction rs arbitrary: m)
  case (Cons r rs)
  show ?case
  proof (cases "req_valid r \<and> req_type r = P_REQ \<and> req_ts r > ts")
    case True
    then have st: "step ts m r = min (req_ts r) m" by (auto simp: step_def min_def)
    show ?thesis using Cons.IH [of "min (req_ts r) m"] True by (auto simp: st min_def split: if_splits)
  next
    case False
    then have "step ts m r = m" by (auto simp: step_def)
    then show ?thesis using Cons.IH [of m] False by auto
  qed
qed simp

lemma next_prewrite_least:
  "t \<in> prewrites ts rs \<Longrightarrow> next_prewrite ts rs \<le> t"
  "next_prewrite ts rs = UINT64_MAX \<or> next_prewrite ts rs \<in> prewrites ts rs"
  using next_prewrite_fold [where ts = ts and rs = rs and m = UINT64_MAX] by (simp_all add: next_prewrite_def)

section \<open>The loop over the requests\<close>

text \<open>
  After \<open>n\<close> rounds: a request is pending iff it was and is newer than the next prewrite; the
  transactions of the others have been woken up with a row.
\<close>

definition got_row :: "mtxn \<Rightarrow> bool" where
  "got_row x \<longleftrightarrow> ts_ready x \<and> cur_row x \<noteq> None"

definition served_one :: "u64 \<Rightarrow> (nat \<Rightarrow> mtxn) \<Rightarrow> req_entry \<Rightarrow> req_entry \<Rightarrow> bool" where
  "served_one npt T r0 r \<longleftrightarrow> req_valid r = (req_valid r0 \<and> npt < req_ts r0) \<and> (req_valid r \<longrightarrow> r = r0) \<and>
     (req_valid r0 \<and> req_ts r0 \<le> npt \<longrightarrow> got_row (T (req_txn r0)))"

definition served_upto :: "u64 \<Rightarrow> req_entry list \<Rightarrow> nat \<Rightarrow> req_entry list \<Rightarrow> (nat \<Rightarrow> mtxn) \<Rightarrow> bool" where
  "served_upto npt rs0 n rs T \<longleftrightarrow> length rs = length rs0 \<and>
     (\<forall>j < length rs0. (j < n \<longrightarrow> served_one npt T (rs0 ! j) (rs ! j)) \<and> (\<not> j < n \<longrightarrow> rs ! j = rs0 ! j))"

lemma served_skip:
  assumes "served_upto npt rs0 n rs T" and "n < length rs0" and "req_valid (rs0 ! n) \<Longrightarrow> npt < req_ts (rs0 ! n)"
  shows "served_upto npt rs0 (Suc n) rs T"
proof -
  have "rs ! n = rs0 ! n" using assms(1,2) by (simp add: served_upto_def)
  then have "served_one npt T (rs0 ! n) (rs ! n)" using assms(3) by (auto simp: served_one_def)
  then show ?thesis using assms(1) by (auto simp: served_upto_def less_Suc_eq)
qed

lemma served_answer:
  assumes "served_upto npt rs0 n rs T" and n: "n < length rs0" and "req_ts (rs0 ! n) \<le> npt"
  shows "served_upto npt rs0 (Suc n) (rs[n := (rs ! n)\<lparr>req_valid := False\<rparr>])
    (T(req_txn (rs0 ! n) := (T (req_txn (rs0 ! n)))\<lparr>cur_row := Some p, ts_ready := True\<rparr>))"
    (is "served_upto npt rs0 (Suc n) ?rs ?T")
proof -
  have "served_one npt ?T (rs0 ! n) (?rs ! n)"
    using assms by (auto simp: served_one_def served_upto_def got_row_def)
  moreover have "got_row (?T x)" if "got_row (T x)" for x using that by (simp add: got_row_def)
  then have "served_one npt ?T r0 r" if "served_one npt T r0 r" for r0 r
    using that unfolding served_one_def by blast
  moreover have "?rs ! j = rs ! j" if "j \<noteq> n" for j using that by simp
  moreover have "length ?rs = length rs0" using assms(1) by (simp add: served_upto_def)
  ultimately show ?thesis
    using assms(1,2) unfolding served_upto_def less_Suc_eq by metis
qed

lemma served_pending_after:
  assumes "served_upto npt (requests s0) (length (requests s0)) (requests s) T" and "pending_after ts s0"
    and ts: "\<And>t. txn_ts (txns s t) = txn_ts (txns s0 t)"
  shows "pending_after npt s"
proof -
  have len: "length (requests s) = length (requests s0)" using assms(1) by (simp add: served_upto_def)
  have old: "requests s ! i = requests s0 ! i \<and> req_valid (requests s0 ! i) \<and> npt < req_ts (requests s0 ! i)"
    if "i < length (requests s0)" "req_valid (requests s ! i)" for i
    using assms(1) that unfolding served_upto_def served_one_def by blast
  have "requests s \<noteq> []" using assms(2) len by (auto simp: pending_after_def)
  moreover have "req_ok npt (txns s) (requests s ! i)" if "i < length (requests s0)" "req_valid (requests s ! i)" for i
  proof -
    have "req_ok ts (txns s0) (requests s0 ! i)" using old [OF that] assms(2) that by (simp add: pending_after_def)
    then show ?thesis using old [OF that] by (auto simp: req_ok_def ts)
  qed
  moreover have "i = j" if "i < length (requests s0)" "j < length (requests s0)" "req_valid (requests s ! i)"
    "req_valid (requests s ! j)" "req_ts (requests s ! i) = req_ts (requests s ! j)" for i j
    using old [OF that(1,3)] old [OF that(2,4)] assms(2) that by (simp add: pending_after_def)
  ultimately show ?thesis unfolding pending_after_def len by blast
qed

text \<open>What the loop does not change.\<close>

definition same_row :: "('db \<Rightarrow> u64 \<Rightarrow> bytes option) \<Rightarrow> 'db mvcc \<Rightarrow> 'db mvcc \<Rightarrow> bool" where
  "same_row drow s t \<longleftrightarrow> m_key t = m_key s \<and> m_size t = m_size s \<and> latest_wts t = latest_wts s \<and>
     all_ts t = all_ts s \<and> junk t = junk s \<and> drow (mdb t) = drow (mdb s) \<and>
     (\<forall>x. txn_ts (txns t x) = txn_ts (txns s x))"

lemma same_row_env:
  "same_row drow s0 s \<Longrightarrow> same_env s t \<Longrightarrow> drow (mdb t) = drow (mdb s) \<Longrightarrow> same_row drow s0 t"
  by (simp add: same_row_def same_env_def)

definition woken :: "req_entry list \<Rightarrow> u64 \<Rightarrow> nat \<Rightarrow> nat \<Rightarrow> bool" where
  "woken rs npt n j \<longleftrightarrow> j < n \<and> j < length rs \<and> req_valid (rs ! j) \<and> req_ts (rs ! j) = npt"

definition serve_core ::
  "('db \<Rightarrow> bool) \<Rightarrow> ('db \<Rightarrow> u64 \<Rightarrow> bytes option) \<Rightarrow> bytes \<Rightarrow> u64 \<Rightarrow> 'db mvcc \<Rightarrow> nat \<Rightarrow> 'db mvcc \<Rightarrow> bool" where
  "serve_core dinv drow c npt s0 n s \<longleftrightarrow> core_inv s \<and> val_ok dinv drow c s \<and> same_row drow s0 s \<and>
     max_served_rts s0 \<le> max_served_rts s \<and> max_served_rts s \<le> npt \<and>
     exists_prewrite s = (\<exists>j. woken (requests s0) npt n j) \<and> (exists_prewrite s \<longrightarrow> prewrite_ts s = npt) \<and>
     (\<forall>j. woken (requests s0) npt n j \<longrightarrow> cur_row (txns s (req_txn (requests s0 ! j))) = reserved_row s) \<and>
     (\<forall>j < length (requests s0). j < n \<and> req_valid (requests s0 ! j) \<and> req_type (requests s0 ! j) = R_REQ \<and>
        req_ts (requests s0 ! j) < npt \<longrightarrow> req_ts (requests s0 ! j) \<le> max_served_rts s)"

lemma woken_Suc:
  "woken rs npt (Suc n) j \<longleftrightarrow> woken rs npt n j \<or> j = n \<and> n < length rs \<and> req_valid (rs ! n) \<and> req_ts (rs ! n) = npt"
  by (auto simp: woken_def less_Suc_eq)

lemma serve_core_skip:
  assumes "serve_core dinv drow c npt s0 n s" and "req_valid (requests s0 ! n) \<Longrightarrow> npt < req_ts (requests s0 ! n)"
  shows "serve_core dinv drow c npt s0 (Suc n) s"
proof -
  have "woken (requests s0) npt (Suc n) j = woken (requests s0) npt n j" for j
    using assms(2) by (auto simp: woken_Suc)
  then show ?thesis using assms by (auto simp: serve_core_def less_Suc_eq)
qed

lemma answer_fields [simp]:
  "m_key (answer i t p s) = m_key s" "m_size (answer i t p s) = m_size s" "latest_wts (answer i t p s) = latest_wts s"
  "all_ts (answer i t p s) = all_ts s" "junk (answer i t p s) = junk s" "mdb (answer i t p s) = mdb s"
  "max_served_rts (answer i t p s) = max_served_rts s" "exists_prewrite (answer i t p s) = exists_prewrite s"
  "prewrite_ts (answer i t p s) = prewrite_ts s" "prewrite_his_id (answer i t p s) = prewrite_his_id s"
  "write_history (answer i t p s) = write_history s" "latest_row (answer i t p s) = latest_row s"
  "rows (answer i t p s) = rows s" "base_row (answer i t p s) = base_row s"
  "requests (answer i t p s) = (requests s)[i := (requests s ! i)\<lparr>req_valid := False\<rparr>]"
  "txns (answer i t p s) = (txns s)(t := (txns s t)\<lparr>cur_row := p, ts_ready := True\<rparr>)"
  by (simp_all add: answer_def)

lemma same_row_answer [simp]: "same_row drow s (answer i t p u) = same_row drow s u"
  by (auto simp: same_row_def)

lemma pending_afterD:
  assumes "pending_after ts s" and "i < length (requests s)" and "req_valid (requests s ! i)"
  shows "ts < req_ts (requests s ! i)" and "req_ts (requests s ! i) < UINT64_MAX"
    and "req_type (requests s ! i) = R_REQ \<or> req_type (requests s ! i) = P_REQ"
    and "txn_ts (txns s (req_txn (requests s ! i))) = req_ts (requests s ! i)"
proof -
  have "req_ok ts (txns s) (requests s ! i)" using assms by (simp add: pending_after_def)
  then show "ts < req_ts (requests s ! i)" "req_ts (requests s ! i) < UINT64_MAX"
    "req_type (requests s ! i) = R_REQ \<or> req_type (requests s ! i) = P_REQ"
    "txn_ts (txns s (req_txn (requests s ! i))) = req_ts (requests s ! i)"
    unfolding req_ok_def by simp_all
qed

text \<open>A pending request belongs to one transaction only.\<close>

lemma pending_txn_inj:
  assumes "pending_after ts s" and "i < length (requests s)" "j < length (requests s)"
    and "req_valid (requests s ! i)" "req_valid (requests s ! j)"
    and "req_txn (requests s ! i) = req_txn (requests s ! j)"
  shows "i = j"
proof -
  have "req_ts (requests s ! i) = req_ts (requests s ! j)" using assms pending_afterD(4) by metis
  then show ?thesis using assms by (simp add: pending_after_def)
qed

context row_storage
begin

lemma serve_read:
  assumes I: "serve_core dinv drow c npt s0 n s" and U: "served_upto npt (requests s0) n (requests s) (txns s)"
    and pa: "pending_after ts s0" and n: "n < length (requests s0)"
    and r: "req_valid (requests s0 ! n)" "req_type (requests s0 ! n) = R_REQ" "req_ts (requests s0 ! n) < npt"
  shows "\<exists>s'. serve_request S ts npt n s = Inr s' \<and> serve_core dinv drow c npt s0 (Suc n) s' \<and>
    served_upto npt (requests s0) (Suc n) (requests s') (txns s')"
proof -
  let ?r = "requests s0 ! n"
  have rn: "requests s ! n = ?r" using U n by (simp add: served_upto_def)
  have later: "ts < req_ts ?r" by (rule pending_afterD(1) [OF pa n r(1)])
  let ?m = "if req_ts ?r > max_served_rts s then req_ts ?r else max_served_rts s"
  let ?s = "s\<lparr>max_served_rts := ?m\<rparr>"
  have m: "?m \<le> npt" "max_served_rts s0 \<le> ?m" "max_served_rts s \<le> ?m" "req_ts ?r \<le> ?m"
    using I r(3) by (auto simp: serve_core_def)
  have core: "core_inv ?s" by (rule core_inv_served) (use I m(1) in \<open>auto simp: serve_core_def\<close>)
  have val: "val_ok dinv drow c ?s" using I by (simp add: serve_core_def)
  obtain s1 q where e: "ensure_latest S ?s = Inr s1" "core_inv s1" "val_ok dinv drow c s1" "latest_row s1 = Some q"
    "same_env ?s s1" "same_his ?s s1" "drow (mdb s1) = drow (mdb ?s)"
    using ensure_latest_ok [OF core val] by metis
  let ?t = "answer n (req_txn ?r) (Some q) s1"
  have run: "serve_request S ts npt n s = Inr ?t"
    using rn r later e(1,4) by (simp add: serve_request_def Let_def)
  have rq: "requests s1 = requests s" "txns s1 = txns s" "max_served_rts s1 = ?m" using e(5) by (simp_all add: same_env_def)
  have U': "served_upto npt (requests s0) (Suc n) (requests ?t) (txns ?t)"
    using served_answer [OF U n] r(3) by (simp add: rq)
  have W: "woken (requests s0) npt (Suc n) j = woken (requests s0) npt n j" for j
    using r(3) by (auto simp: woken_Suc)
  have other: "req_txn (requests s0 ! j) \<noteq> req_txn ?r" if "woken (requests s0) npt n j" for j
    using pending_txn_inj [OF pa, of j n] that n r by (auto simp: woken_def)
  have SR: "same_row drow s0 ?t"
    using same_row_env [of drow s0 ?s s1] I e(5,7) by (simp add: serve_core_def same_row_def)
  have "serve_core dinv drow c npt s0 (Suc n) ?t"
    unfolding serve_core_def W
  proof (intro conjI allI impI)
    fix j assume "j < length (requests s0)" "j < Suc n \<and> req_valid (requests s0 ! j) \<and>
      req_type (requests s0 ! j) = R_REQ \<and> req_ts (requests s0 ! j) < npt"
    then show "req_ts (requests s0 ! j) \<le> max_served_rts ?t"
      using I m(3,4) by (auto simp: serve_core_def less_Suc_eq rq intro: order_trans)
  next
    fix j assume "woken (requests s0) npt n j"
    then show "cur_row (txns ?t (req_txn (requests s0 ! j))) = reserved_row ?t"
      using I other e(6) by (simp add: serve_core_def rq same_his_def)
  qed (use I e SR m in \<open>simp_all add: serve_core_def same_his_def rq\<close>)
  then show ?thesis using run U' by blast
qed

lemma serve_prewrite:
  assumes I: "serve_core dinv drow c npt s0 n s" and U: "served_upto npt (requests s0) n (requests s) (txns s)"
    and pa: "pending_after ts s0" and n: "n < length (requests s0)"
    and r: "req_valid (requests s0 ! n)" "req_type (requests s0 ! n) = P_REQ" "req_ts (requests s0 ! n) = npt"
    and lw: "latest_wts s0 < npt"
  shows "\<exists>s'. serve_request S ts npt n s = Inr s' \<and> serve_core dinv drow c npt s0 (Suc n) s' \<and>
    served_upto npt (requests s0) (Suc n) (requests s') (txns s')"
proof -
  let ?r = "requests s0 ! n"
  have rn: "requests s ! n = ?r" using U n by (simp add: served_upto_def)
  have later: "ts < npt" "npt < UINT64_MAX" using pending_afterD [OF pa n r(1)] r(3) by simp_all
  have none: "\<not> woken (requests s0) npt n j" for j
  proof
    assume "woken (requests s0) npt n j"
    then have "j < n" "j < length (requests s0)" "req_valid (requests s0 ! j)" "req_ts (requests s0 ! j) = npt"
      by (simp_all add: woken_def)
    then show False using pa n r unfolding pending_after_def by (metis nat_neq_iff)
  qed
  have np: "\<not> exists_prewrite s" using I none by (simp add: serve_core_def)
  have pre: "core_inv s" "val_ok dinv drow c s" "latest_wts s < npt" "max_served_rts s \<le> npt"
    using I lw by (simp_all add: serve_core_def same_row_def)
  obtain p s1 s2 s3 where g: "reserveRow npt s = Inr (Some p, s1)" "ensure_latest S s1 = Inr s2"
    "copy_row (Some p) (latest_row s2) s2 = Inr s3" "core_inv s3" "val_ok dinv drow c s3"
    "exists_prewrite s3" "prewrite_ts s3 = npt" "reserved_row s3 = Some p" "same_env s s3" "drow (mdb s3) = drow (mdb s)"
    using grant_ok [OF pre(1,2) np pre(3) later(2) pre(4)] by metis
  let ?t = "answer n (req_txn ?r) (Some p) s3"
  have run: "serve_request S ts npt n s = Inr ?t"
    using rn r later g(1,2,3) by (simp add: serve_request_def Let_def)
  have rq: "requests s3 = requests s" "txns s3 = txns s" "max_served_rts s3 = max_served_rts s"
    using g(9) by (simp_all add: same_env_def)
  have U': "served_upto npt (requests s0) (Suc n) (requests ?t) (txns ?t)"
    using served_answer [OF U n] r(3) by (simp add: rq)
  have SR: "same_row drow s0 ?t" using same_row_env [of drow s0 s s3] I g(9,10) by (simp add: serve_core_def)
  have W: "woken (requests s0) npt (Suc n) j \<longleftrightarrow> j = n" for j using none r n by (auto simp: woken_Suc)
  have "serve_core dinv drow c npt s0 (Suc n) ?t"
    using I g SR r W by (auto simp: serve_core_def rq less_Suc_eq)
  then show ?thesis using run U' by blast
qed

lemma serve_step:
  assumes I: "serve_core dinv drow c npt s0 n s" and U: "served_upto npt (requests s0) n (requests s) (txns s)"
    and pa: "pending_after ts s0" and n: "n < length (requests s0)" and lw: "latest_wts s0 < npt"
    and npt: "npt = next_prewrite ts (requests s0)"
  shows "\<exists>s'. serve_request S ts npt n s = Inr s' \<and> serve_core dinv drow c npt s0 (Suc n) s' \<and>
    served_upto npt (requests s0) (Suc n) (requests s') (txns s')"
proof (cases "req_valid (requests s0 ! n) \<and> req_ts (requests s0 ! n) \<le> npt")
  case False
  then have skip: "req_valid (requests s0 ! n) \<Longrightarrow> npt < req_ts (requests s0 ! n)" by auto
  have rn: "requests s ! n = requests s0 ! n" using U n by (simp add: served_upto_def)
  have "serve_request S ts npt n s = Inr s"
    using skip pending_afterD(1) [OF pa n] by (auto simp: serve_request_def Let_def rn)
  then show ?thesis using serve_core_skip [OF I skip] served_skip [OF U n skip] by blast
next
  case True
  note pd = pending_afterD [OF pa n]
  show ?thesis
  proof (cases "req_ts (requests s0 ! n) = npt")
    case False
    then have less: "req_ts (requests s0 ! n) < npt" using True by (simp add: order.order_iff_strict)
    have "req_type (requests s0 ! n) \<noteq> P_REQ"
    proof
      assume "req_type (requests s0 ! n) = P_REQ"
      then have "req_ts (requests s0 ! n) \<in> prewrites ts (requests s0)"
        using True n pd(1) nth_mem [OF n] by (auto simp: prewrites_def)
      then show False using next_prewrite_least(1) less npt by (metis leD)
    qed
    then show ?thesis using serve_read [OF I U pa n] True less pd(3) by blast
  next
    case eq: True
    then have "npt \<in> prewrites ts (requests s0)"
      using next_prewrite_least(2) [of ts "requests s0"] pd(2) True npt by (metis less_irrefl)
    then obtain j where j: "j < length (requests s0)" "req_valid (requests s0 ! j)" "req_type (requests s0 ! j) = P_REQ"
      "req_ts (requests s0 ! j) = npt"
      by (auto simp: prewrites_def in_set_conv_nth)
    then have "j = n" using pa n True eq by (simp add: pending_after_def)
    then show ?thesis using serve_prewrite [OF I U pa n] True eq j lw by blast
  qed
qed

lemma serve_loop:
  assumes pa: "pending_after ts s0" and lw: "latest_wts s0 < npt" and npt: "npt = next_prewrite ts (requests s0)"
  shows "serve_core dinv drow c npt s0 n s \<Longrightarrow> served_upto npt (requests s0) n (requests s) (txns s) \<Longrightarrow>
    n \<le> length (requests s0) \<Longrightarrow>
    \<exists>s'. serve_requests S ts npt [n..<length (requests s0)] s = Inr s' \<and>
      serve_core dinv drow c npt s0 (length (requests s0)) s' \<and>
      served_upto npt (requests s0) (length (requests s0)) (requests s') (txns s')"
proof (induction "length (requests s0) - n" arbitrary: n s)
  case 0
  then show ?case by simp
next
  case (Suc k)
  then have n: "n < length (requests s0)" by simp
  obtain s1 where s1: "serve_request S ts npt n s = Inr s1" "serve_core dinv drow c npt s0 (Suc n) s1"
    "served_upto npt (requests s0) (Suc n) (requests s1) (txns s1)"
    using serve_step [OF Suc.prems(1,2) pa n lw npt] by blast
  have "k = length (requests s0) - Suc n" using Suc.hyps(2) by simp
  from Suc.hyps(1) [OF this s1(2,3)] show ?case using n s1(1) by (simp add: upt_conv_Cons)
qed

text \<open>
  \<open>update_buffer\<close> after the end of a reservation at \<open>ts\<close>: every pending request up to the next
  pending prewrite is answered, and the invariant holds.
\<close>

lemma update_buffer_ok:
  assumes inv: "core_inv s" and val: "val_ok dinv drow c s" and np: "\<not> exists_prewrite s"
    and pa: "pending_after ts s" and lw: "latest_wts s \<le> ts" and ms: "max_served_rts s \<le> ts" and ts: "ts < UINT64_MAX"
  obtains s' where "update_buffer S ts s = Inr s'" and "mvcc_inv s'" and "val_ok dinv drow c s'"
    and "same_row drow s s'" and "max_served_rts s \<le> max_served_rts s'"
    and "served_upto (next_prewrite ts (requests s)) (requests s) (length (requests s)) (requests s') (txns s')"
    and "serve_core dinv drow c (next_prewrite ts (requests s)) s (length (requests s)) s'"
proof -
  let ?npt = "next_prewrite ts (requests s)" and ?n = "length (requests s)"
  have after: "ts < ?npt" using next_prewrite_least(2) [of ts "requests s"] ts by (auto simp: prewrites_def)
  have "serve_core dinv drow c ?npt s 0 s"
    using inv val np ms after by (auto simp: serve_core_def same_row_def woken_def)
  moreover have "served_upto ?npt (requests s) 0 (requests s) (txns s)" by (simp add: served_upto_def)
  ultimately obtain s' where s': "update_buffer S ts s = Inr s'" "serve_core dinv drow c ?npt s ?n s'"
    "served_upto ?npt (requests s) ?n (requests s') (txns s')"
    using serve_loop [OF pa le_less_trans [OF lw after] refl] unfolding update_buffer_def by blast
  have "pending_after ?npt s'"
    by (rule served_pending_after [OF s'(3) pa]) (use s'(2) in \<open>simp add: serve_core_def same_row_def\<close>)
  have "exists_prewrite s' \<and> prewrite_ts s' = ?npt \<or> (\<forall>i < length (requests s'). \<not> req_valid (requests s' ! i))"
  proof (cases "?npt = UINT64_MAX")
    case True
    then have "\<not> req_valid (requests s' ! i)" if "i < length (requests s')" for i
      using pending_afterD(1,2) [OF \<open>pending_after ?npt s'\<close> that] by (metis less_asym)
    then show ?thesis by blast
  next
    case False
    then have "?npt \<in> prewrites ts (requests s)" using next_prewrite_least(2) by blast
    then obtain j where "j < ?n" "req_valid (requests s ! j)" "req_ts (requests s ! j) = ?npt"
      by (auto simp: prewrites_def in_set_conv_nth)
    then have "woken (requests s) ?npt ?n j" by (simp add: woken_def)
    then show ?thesis using s'(2) by (auto simp: serve_core_def)
  qed
  then have "pend_ok s'"
  proof
    assume "exists_prewrite s' \<and> prewrite_ts s' = ?npt"
    then show ?thesis using \<open>pending_after ?npt s'\<close> by (simp add: pend_ok_def)
  next
    assume "\<forall>i < length (requests s'). \<not> req_valid (requests s' ! i)"
    then show ?thesis using \<open>pending_after ?npt s'\<close> by (simp add: pend_ok_def pending_after_def)
  qed
  then show ?thesis using that [OF s'(1)] s'(2,3) by (simp add: mvcc_inv_def serve_core_def)
qed

end

end
