(* ===== verification/Row_Mvcc_Access.thy ===== *)
theory Row_Mvcc_Access
  imports Row_Mvcc_Wakeup
begin

text \<open>
  \<open>Row_mvcc::access\<close>: every well-formed call succeeds and keeps the invariant, runs of calls, and
  what a reader gets.
\<close>

section \<open>Well-formed calls\<close>

text \<open>
  A transaction's timestamp is its own: no pending request, no version and no other reservation
  has it. A write or an undo ends the reservation, by the transaction that holds it.
\<close>

definition fresh_ts :: "u64 \<Rightarrow> 'db mvcc \<Rightarrow> bool" where
  "fresh_ts ts s \<longleftrightarrow> (\<forall>i < length (requests s). req_valid (requests s ! i) \<longrightarrow> req_ts (requests s ! i) \<noteq> ts)"

definition holds_reservation :: "nat \<Rightarrow> nat option \<Rightarrow> 'db mvcc \<Rightarrow> bool" where
  "holds_reservation txn row s \<longleftrightarrow> exists_prewrite s \<and> txn_ts (txns s txn) = prewrite_ts s \<and> row = reserved_row s"

definition call_ok :: "(u64 \<Rightarrow> bytes \<Rightarrow> bool) \<Rightarrow> nat \<Rightarrow> TsType \<Rightarrow> nat option \<Rightarrow> 'db mvcc \<Rightarrow> bool" where
  "call_ok rvalid txn ty row s \<longleftrightarrow> txn_ts (txns s txn) < UINT64_MAX \<and>
     (case ty of
        R_REQ \<Rightarrow> fresh_ts (txn_ts (txns s txn)) s
      | P_REQ \<Rightarrow> fresh_ts (txn_ts (txns s txn)) s \<and> txn_ts (txns s txn) \<noteq> latest_wts s \<and>
                 (exists_prewrite s \<longrightarrow> txn_ts (txns s txn) \<noteq> prewrite_ts s)
      | W_REQ \<Rightarrow> holds_reservation txn row s \<and>
                 (\<forall>p r. row = Some p \<and> rows s p = Some r \<longrightarrow> rvalid (m_key s) (row_bytes r))
      | XP_REQ \<Rightarrow> holds_reservation txn row s)"

text \<open>The content of the row after the call.\<close>

definition content_after :: "TsType \<Rightarrow> nat option \<Rightarrow> bytes \<Rightarrow> 'db mvcc \<Rightarrow> bytes" where
  "content_after ty row c s = (if ty = W_REQ then row_bytes (the (rows s (the row))) else c)"

lemma reservationD:
  assumes "core_inv s" and "holds_reservation txn row s"
  obtains p where "row = Some p" and "reserved_row s = Some p" and "prewrite_his_id s < length (write_history s)"
    and "\<not> his_valid (write_history s ! prewrite_his_id s)" and "latest_wts s < prewrite_ts s"
    and "prewrite_ts s < UINT64_MAX" and "max_served_rts s \<le> prewrite_ts s" and "row_ok s p"
    and "\<And>i. i < length (write_history s) \<Longrightarrow> his_reserved (write_history s ! i) \<Longrightarrow>
      \<not> his_valid (write_history s ! i) \<Longrightarrow> i = prewrite_his_id s"
proof -
  obtain p where p: "reserved_row s = Some p" using assms by (auto simp: core_inv_def reserve_ok_def holds_reservation_def Let_def)
  have R: "prewrite_his_id s < length (write_history s)" "\<not> his_valid (write_history s ! prewrite_his_id s)"
    "latest_wts s < prewrite_ts s" "prewrite_ts s < UINT64_MAX" "max_served_rts s \<le> prewrite_ts s"
    using assms by (simp_all add: core_inv_def reserve_ok_def holds_reservation_def Let_def)
  have only: "i = prewrite_his_id s" if "i < length (write_history s)" "his_reserved (write_history s ! i)"
      "\<not> his_valid (write_history s ! i)" for i
    using assms that by (simp add: core_inv_def reserve_ok_def holds_reservation_def Let_def)
  have ok: "row_ok s p" using assms(1) p R(1) by (simp add: core_inv_def heap_ok_def)
  have row: "row = Some p" using assms(2) p by (simp add: holds_reservation_def)
  show ?thesis by (rule that [OF row p R ok only])
qed

section \<open>Ending a reservation\<close>

lemma abort_entry_inv:
  assumes inv: "core_inv s" and res: "holds_reservation txn row s"
  shows "core_inv (s\<lparr>write_history := (write_history s)[prewrite_his_id s :=
      (write_history s ! prewrite_his_id s)\<lparr>his_valid := False, his_reserved := False\<rparr>], exists_prewrite := False\<rparr>)"
    (is "core_inv ?s")
proof -
  let ?k = "prewrite_his_id s" and ?hs = "write_history s"
  let ?h' = "?hs[?k := (?hs ! ?k)\<lparr>his_valid := False, his_reserved := False\<rparr>]"
  obtain p where k: "?k < length ?hs" "\<not> his_valid (?hs ! ?k)"
    and only: "\<And>i. i < length ?hs \<Longrightarrow> his_reserved (?hs ! i) \<Longrightarrow> \<not> his_valid (?hs ! i) \<Longrightarrow> i = ?k"
    using reservationD [OF inv res] by metis
  have V: "versions ?h' = versions ?hs" using versions_update [OF k(1)] k(2) by (auto simp: versions_def)
  have nth: "?h' ! i = ?hs ! i" if "i \<in> versions ?hs" for i using that k(2) by (cases "i = ?k") (auto simp: versions_def)
  have "hist_ok ?h' (latest_wts s) (oldest_wts s) (num_versions s)"
    by (rule hist_ok_agree [of ?hs]) (use inv V nth in \<open>simp_all add: core_inv_def\<close>)
  moreover have "latest_ok ?s"
    by (rule latest_ok_agree [of s]) (use inv V nth in \<open>simp_all add: core_inv_def\<close>)
  moreover have "heap_ok ?s"
    by (rule heap_ok_rows [of s]) (use inv k in \<open>simp_all add: core_inv_def nth_list_update\<close>)
  moreover have "reserve_ok ?s"
    using only k(1) by (auto simp: reserve_ok_def Let_def nth_list_update)
  ultimately show ?thesis by (simp add: core_inv_def)
qed

lemma commit_entry_inv:
  assumes inv: "core_inv s" and res: "holds_reservation txn row s"
  shows "core_inv (s\<lparr>write_history := (write_history s)[prewrite_his_id s :=
      (write_history s ! prewrite_his_id s)\<lparr>his_valid := True, his_ts := prewrite_ts s\<rparr>],
      latest_wts := prewrite_ts s, latest_row := row, mdb := d,
      rows := (case base_row s of None \<Rightarrow> rows s | Some b \<Rightarrow> (rows s)(b := None)), base_row := None,
      exists_prewrite := False, num_versions := num_versions s + 1\<rparr>)"
    (is "core_inv ?s")
proof -
  let ?k = "prewrite_his_id s" and ?hs = "write_history s" and ?ts = "prewrite_ts s"
  let ?h' = "?hs[?k := (?hs ! ?k)\<lparr>his_valid := True, his_ts := ?ts\<rparr>]"
  obtain p where k: "row = Some p" "his_row (?hs ! ?k) = Some p" "?k < length ?hs" "\<not> his_valid (?hs ! ?k)" "latest_wts s < ?ts" "?ts < UINT64_MAX"
    and only: "\<And>i. i < length ?hs \<Longrightarrow> his_reserved (?hs ! i) \<Longrightarrow> \<not> his_valid (?hs ! i) \<Longrightarrow> i = ?k"
    using reservationD [OF inv res] by metis
  have H: "hist_ok ?hs (latest_wts s) (oldest_wts s) (num_versions s)" and heap: "heap_ok s"
    using inv by (simp_all add: core_inv_def)
  have V: "versions ?h' = insert ?k (versions ?hs)" "?k \<notin> versions ?hs"
    using versions_update [OF k(3)] k(4) by (simp_all add: versions_def)
  have nth: "?h' ! i = ?hs ! i" if "i \<in> versions ?hs" for i using that V(2) by (cases "i = ?k") auto
  have old: "his_ts (?hs ! i) < ?ts" if "i \<in> versions ?hs" for i
    using H that k(5) by (auto simp: hist_ok_def intro: le_less_trans)
  have "hist_ok ?h' ?ts (oldest_wts s) (num_versions s + 1)"
    unfolding hist_ok_def
  proof (intro conjI)
    show "num_versions s + 1 = int (card (versions ?h'))" using H V by (simp add: hist_ok_def)
    show "inj_on (\<lambda>i. his_ts (?h' ! i)) (versions ?h')"
      using H k(3) old nth unfolding V(1) by (fastforce simp: hist_ok_def inj_on_def)
    show "\<forall>i \<in> versions ?h'. oldest_wts s < his_ts (?h' ! i) \<and> his_ts (?h' ! i) \<le> ?ts \<and> his_row (?h' ! i) \<noteq> None"
      using H k(2,3,5) old nth unfolding V(1) by (auto simp: hist_ok_def intro: less_imp_le)
  qed (use H k in \<open>auto simp: hist_ok_def\<close>)
  moreover have "latest_ok ?s" using k(1,2,3) by (auto simp: latest_ok_def V(1))
  moreover have "reserve_ok ?s" using only k(3) by (auto simp: reserve_ok_def Let_def nth_list_update)
  moreover have "heap_ok ?s"
  proof -
    have ok: "row_ok ?s q" if "i < length ?hs" "his_row (?hs ! i) = Some q" for i q
    proof -
      have "base_row s \<noteq> Some q" using heap that unfolding heap_ok_def by (metis option.distinct(1))
      moreover have "row_ok s q" using heap that by (simp add: heap_ok_def)
      ultimately show ?thesis by (auto simp: row_ok_def split: option.splits)
    qed
    have rows: "his_row (?h' ! i) = his_row (?hs ! i)" if "i < length ?hs" for i
      using that by (cases "i = ?k") simp_all
    show ?thesis
      unfolding heap_ok_def
    proof (intro conjI allI impI)
      fix i j q
      assume "i < length (write_history ?s)" "j < length (write_history ?s)"
        "his_row (write_history ?s ! i) = Some q \<and> his_row (write_history ?s ! j) = Some q"
      then show "i = j" using heap_ok_inj [OF heap, of i j q] rows by simp
    qed (use heap ok rows in \<open>auto simp: heap_ok_def\<close>)
  qed
  ultimately show ?thesis by (simp add: core_inv_def)
qed

section \<open>The four kinds of calls\<close>

text \<open>What every call guarantees of the state it leaves, the row having content \<open>c\<close>.\<close>

definition access_post ::
  "('db \<Rightarrow> bool) \<Rightarrow> ('db \<Rightarrow> u64 \<Rightarrow> bytes option) \<Rightarrow> bytes \<Rightarrow> 'db mvcc \<Rightarrow> 'db mvcc \<Rightarrow> bool" where
  "access_post dinv drow c s s' \<longleftrightarrow> mvcc_inv s' \<and> val_ok dinv drow c s' \<and> m_key s' = m_key s \<and> m_size s' = m_size s \<and>
     max_served_rts s \<le> max_served_rts s' \<and> latest_wts s \<le> latest_wts s' \<and>
     (\<forall>x. txn_ts (txns s' x) = txn_ts (txns s x))"

lemma pending_after_irrelevant [simp]:
  "pending_after t (s\<lparr>write_history := v1\<rparr>) = pending_after t s"
  "pending_after t (s\<lparr>exists_prewrite := v2\<rparr>) = pending_after t s"
  "pending_after t (s\<lparr>latest_wts := v3\<rparr>) = pending_after t s"
  "pending_after t (s\<lparr>latest_row := v4\<rparr>) = pending_after t s"
  "pending_after t (s\<lparr>mdb := v5\<rparr>) = pending_after t s"
  "pending_after t (s\<lparr>rows := v6\<rparr>) = pending_after t s"
  "pending_after t (s\<lparr>base_row := v7\<rparr>) = pending_after t s"
  "pending_after t (s\<lparr>num_versions := v8\<rparr>) = pending_after t s"
  "pending_after t (s\<lparr>max_served_rts := v9\<rparr>) = pending_after t s"
  by (simp_all add: pending_after_def)

lemma req_ok_txn_ts: "(\<And>x. txn_ts (T' x) = txn_ts (T x)) \<Longrightarrow> req_ok t T' r = req_ok t T r"
  by (simp add: req_ok_def)

lemma pending_after_cong:
  assumes "requests s' = requests s" and "\<And>x. txn_ts (txns s' x) = txn_ts (txns s x)"
  shows "pending_after t s' = pending_after t s"
  using assms req_ok_txn_ts [of "txns s'" "txns s"] by (simp add: pending_after_def)

lemma pend_ok_cong:
  assumes "requests s' = requests s" and "\<And>x. txn_ts (txns s' x) = txn_ts (txns s x)"
    and "prewrite_ts s' = prewrite_ts s" and "exists_prewrite s' = exists_prewrite s"
  shows "pend_ok s' = pend_ok s"
  using assms pending_after_cong [OF assms(1,2)] by (simp add: pend_ok_def)

text \<open>A request that has to wait.\<close>

lemma wait_ok:
  assumes inv: "mvcc_inv s" and val: "val_ok dinv drow c s" and ty: "ty = R_REQ \<or> ty = P_REQ"
    and ts: "exists_prewrite s" "prewrite_ts s < txn_ts (txns s txn)" "txn_ts (txns s txn) < UINT64_MAX"
    and fresh: "fresh_ts (txn_ts (txns s txn)) s"
  obtains s1 where "buffer_req ty txn s = Inr s1" and "access_post dinv drow c s (set_wait txn s1)"
    and "exists_prewrite (set_wait txn s1)" and "prewrite_ts (set_wait txn s1) = prewrite_ts s"
proof -
  let ?e = "\<lparr>req_valid = True, req_type = ty, req_ts = txn_ts (txns s txn), req_txn = txn\<rparr>"
  have pa: "pending_after (prewrite_ts s) s" using inv by (simp add: mvcc_inv_def pend_ok_def)
  then have ne: "requests s \<noteq> []" by (simp add: pending_after_def)
  obtain k rs where b: "buffer_req ty txn s = Inr (s\<lparr>requests := rs[k := ?e]\<rparr>)" "k < length rs" "\<not> req_valid (rs ! k)"
    "rs = requests s \<or> rs = double_requests (requests s)"
    using buffer_req_ok [OF ne] by metis
  let ?s0 = "s\<lparr>requests := rs\<rparr>" and ?s1 = "s\<lparr>requests := rs[k := ?e]\<rparr>"
  have "s\<lparr>requests := requests s\<rparr> = s" by simp
  then have pa0: "pending_after (prewrite_ts s) ?s0" using b(4) pa pending_after_double [OF pa] by auto
  have new: "req_ts (rs ! i) \<noteq> txn_ts (txns s txn)" if "i < length rs" "req_valid (rs ! i)" for i
    using b(4)
  proof
    assume "rs = double_requests (requests s)"
    then have "i < length (requests s) \<and> rs ! i = requests s ! i"
      using that by (auto simp: double_requests_def nth_append req_empty_def split: if_splits)
    then show ?thesis using fresh that by (simp add: fresh_ts_def)
  qed (use fresh that in \<open>simp add: fresh_ts_def\<close>)
  have "pending_after (prewrite_ts s) (?s0\<lparr>requests := (requests ?s0)[k := ?e]\<rparr>)"
    by (rule pending_after_put [OF pa0]) (use b(2,3) new ts ty in \<open>simp_all add: req_ok_def\<close>)
  then have "pend_ok ?s1" using ts(1) by (simp add: pend_ok_def)
  moreover have "pend_ok (set_wait txn ?s1) = pend_ok ?s1"
    by (rule pend_ok_cong) (simp_all add: set_wait_def)
  ultimately have "mvcc_inv (set_wait txn ?s1)"
    using inv by (simp add: mvcc_inv_def set_wait_def)
  then have "access_post dinv drow c s (set_wait txn ?s1)"
    using val by (simp add: access_post_def set_wait_def)
  then show ?thesis using that [OF b(1)] ts(1) by (simp add: set_wait_def)
qed

context row_storage
begin

lemma access_abort_ok:
  assumes inv: "mvcc_inv s" and val: "val_ok dinv drow c s" and res: "holds_reservation txn row s"
  obtains s' where "access_abort S txn row s = Inr (RCOK, s')" and "access_post dinv drow c s s'"
    and "latest_wts s' = latest_wts s" and "served_upto (next_prewrite (prewrite_ts s) (requests s)) (requests s) (length (requests s)) (requests s') (txns s')"
proof -
  have core: "core_inv s" and pa: "pending_after (prewrite_ts s) s" using inv by (simp_all add: mvcc_inv_def pend_ok_def)
  obtain p where r: "reserved_row s = Some p" "row = Some p" "prewrite_his_id s < length (write_history s)"
    "latest_wts s < prewrite_ts s" "prewrite_ts s < UINT64_MAX" "max_served_rts s \<le> prewrite_ts s"
    using reservationD [OF core res] by metis
  let ?s1 = "s\<lparr>write_history := (write_history s)[prewrite_his_id s :=
      (write_history s ! prewrite_his_id s)\<lparr>his_valid := False, his_reserved := False\<rparr>], exists_prewrite := False\<rparr>"
  have core1: "core_inv ?s1" by (rule abort_entry_inv [OF core res])
  have val1: "val_ok dinv drow c ?s1" using val by (auto simp: val_ok_def)
  have pre: "\<not> exists_prewrite ?s1" "pending_after (prewrite_ts s) ?s1" "latest_wts ?s1 \<le> prewrite_ts s" "max_served_rts ?s1 \<le> prewrite_ts s"
    "prewrite_ts s < UINT64_MAX"
    using pa r(4,5,6) by (simp_all add: less_imp_le)
  obtain s' where u: "update_buffer S (prewrite_ts s) ?s1 = Inr s'" "mvcc_inv s'" "val_ok dinv drow c s'"
    "same_row drow ?s1 s'" "max_served_rts ?s1 \<le> max_served_rts s'"
    "served_upto (next_prewrite (prewrite_ts s) (requests ?s1)) (requests ?s1) (length (requests ?s1)) (requests s') (txns s')"
    using update_buffer_ok [OF core1 val1 pre] by metis
  have "access_abort S txn row s = Inr (RCOK, s')"
    using r(1,2,3) u(1) res by (simp add: access_abort_def Let_def holds_reservation_def)
  then show ?thesis by (rule that) (use u in \<open>simp_all add: access_post_def same_row_def\<close>)
qed

lemma access_write_ok:
  assumes inv: "mvcc_inv s" and val: "val_ok dinv drow c s" and res: "holds_reservation txn row s"
    and bytes: "\<And>p r. row = Some p \<Longrightarrow> rows s p = Some r \<Longrightarrow> rvalid (m_key s) (row_bytes r)"
  obtains s' where "access_write S txn row s = Inr (RCOK, s')"
    and "access_post dinv drow (content_after W_REQ row c s) s s'" and "latest_wts s' = txn_ts (txns s txn)"
    and "served_upto (next_prewrite (prewrite_ts s) (requests s)) (requests s) (length (requests s)) (requests s') (txns s')"
proof -
  have core: "core_inv s" and pa: "pending_after (prewrite_ts s) s" using inv by (simp_all add: mvcc_inv_def pend_ok_def)
  let ?k = "prewrite_his_id s" and ?ts = "prewrite_ts s"
  obtain p where r: "reserved_row s = Some p" "row = Some p" "?k < length (write_history s)"
    "latest_wts s < ?ts" "?ts < UINT64_MAX" "max_served_rts s \<le> ?ts" "row_ok s p"
    using reservationD [OF core res] by metis
  obtain x where x: "rows s p = Some x" "row_key x = m_key s" "length (row_bytes x) = m_size s"
    using r(7) by (auto simp: row_ok_def)
  have db: "dinv (mdb s)" "drow (mdb s) (m_key s) = Some c" "length c = m_size s" using val by (simp_all add: val_ok_def)
  have len: "length (row_bytes x) = length c" using x(3) db(3) by simp
  obtain d where d: "write_row S (m_key s) (row_bytes x) (mdb s) = Inr d" "dinv d"
    "drow d = (drow (mdb s))(m_key s \<mapsto> row_bytes x)"
    using write_law [OF db(1,2) len bytes [OF r(2) x(1)]] by blast
  let ?s2 = "s\<lparr>write_history := (write_history s)[?k := (write_history s ! ?k)\<lparr>his_valid := True, his_ts := ?ts\<rparr>],
      latest_wts := ?ts, latest_row := row, mdb := d,
      rows := (case base_row s of None \<Rightarrow> rows s | Some b \<Rightarrow> (rows s)(b := None)), base_row := None,
      exists_prewrite := False, num_versions := num_versions s + 1\<rparr>"
  have core2: "core_inv ?s2" by (rule commit_entry_inv [OF core res])
  have c': "content_after W_REQ row c s = row_bytes x" using r(2) x(1) by (simp add: content_after_def)
  have val2: "val_ok dinv drow (row_bytes x) ?s2"
    using r(2) x d by (auto simp: val_ok_def split: option.splits if_splits)
  have pre: "\<not> exists_prewrite ?s2" "pending_after (?ts) ?s2" "latest_wts ?s2 \<le> ?ts" "max_served_rts ?s2 \<le> ?ts"
    "?ts < UINT64_MAX"
    using pa r(4,5,6) by (simp_all add: less_imp_le)
  obtain s' where u: "update_buffer S ?ts ?s2 = Inr s'" "mvcc_inv s'" "val_ok dinv drow (row_bytes x) s'"
    "same_row drow ?s2 s'" "max_served_rts ?s2 \<le> max_served_rts s'"
    "served_upto (next_prewrite ?ts (requests ?s2)) (requests ?s2) (length (requests ?s2)) (requests s') (txns s')"
    using update_buffer_ok [OF core2 val2 pre] by metis
  have ts: "txn_ts (txns s txn) = ?ts" using res by (simp add: holds_reservation_def)
  have "access_write S txn row s = Inr (RCOK, s')"
    using r(1,2,3,4) x(1,2) d(1) u(1) by (cases "base_row s") (simp_all add: access_write_def Let_def ts)
  then show ?thesis
    by (rule that) (use u r(4) ts c' in \<open>simp_all add: access_post_def same_row_def less_imp_le\<close>)
qed

lemma access_prewrite_ok:
  assumes inv: "mvcc_inv s" and val: "val_ok dinv drow c s" and call: "call_ok rvalid txn P_REQ row s"
  obtains rc s' where "access_prewrite S txn s = Inr (rc, s')" and "access_post dinv drow c s s'"
    and "latest_wts s' = latest_wts s"
    and "rc = RCOK \<Longrightarrow> holds_reservation txn (cur_row (txns s' txn)) s' \<and>
      (\<exists>p r. cur_row (txns s' txn) = Some p \<and> rows s' p = Some r \<and> row_bytes r = c)"
proof -
  let ?ts = "txn_ts (txns s txn)"
  have core: "core_inv s" and pend: "pend_ok s" using inv by (simp_all add: mvcc_inv_def)
  have ts: "?ts < UINT64_MAX" "fresh_ts ?ts s" "?ts \<noteq> latest_wts s" "exists_prewrite s \<Longrightarrow> ?ts \<noteq> prewrite_ts s"
    using call by (simp_all add: call_ok_def)
  consider (abort) "?ts < latest_wts s \<or> ?ts < max_served_rts s \<or> exists_prewrite s \<and> prewrite_ts s > ?ts"
    | (waiting) "latest_wts s < ?ts" "max_served_rts s \<le> ?ts" "exists_prewrite s" "prewrite_ts s < ?ts"
    | (granted) "latest_wts s < ?ts" "max_served_rts s \<le> ?ts" "\<not> exists_prewrite s"
    using ts(3,4) by (meson not_less order.not_eq_order_implies_strict)
  then show ?thesis
  proof cases
    case abort
    then have "access_prewrite S txn s = Inr (Abort, s)" by (simp add: access_prewrite_def Let_def)
    then show ?thesis by (rule that) (use inv val in \<open>simp_all add: access_post_def\<close>)
  next
    case waiting
    obtain s1 where w: "buffer_req P_REQ txn s = Inr s1" "access_post dinv drow c s (set_wait txn s1)"
      using wait_ok [OF inv val _ waiting(3,4) ts(1,2), of P_REQ] by blast
    have "access_prewrite S txn s = Inr (WAIT, set_wait txn s1)"
      using waiting w(1) by (auto simp: access_prewrite_def Let_def)
    moreover have "latest_wts (set_wait txn s1) = latest_wts s"
      using w(1) by (auto simp: buffer_req_def Let_def set_wait_def split: option.splits)
    ultimately show ?thesis using that [of WAIT "set_wait txn s1"] w(2) by simp
  next
    case granted
    obtain p s1 s2 s3 where g: "reserveRow ?ts s = Inr (Some p, s1)" "ensure_latest S s1 = Inr s2"
      "copy_row (Some p) (latest_row s2) s2 = Inr s3" "core_inv s3" "val_ok dinv drow c s3"
      "exists_prewrite s3" "prewrite_ts s3 = ?ts" "reserved_row s3 = Some p" "same_env s s3"
      "\<exists>r. rows s3 p = Some r \<and> row_bytes r = c"
      using grant_ok [OF core val granted(3,1) ts(1) granted(2)] by metis
    let ?t = "set_cur txn (Some p) s3"
    have run: "access_prewrite S txn s = Inr (RCOK, ?t)"
      using granted g(1,2,3) by (auto simp: access_prewrite_def Let_def)
    have "\<forall>i < length (requests s). \<not> req_valid (requests s ! i)" "requests s \<noteq> []"
      using pend granted(3) by (auto simp: pend_ok_def pending_after_def)
    then have "pend_ok ?t" using g(9) by (simp add: pend_ok_def pending_after_def set_cur_def same_env_def)
    then have post: "access_post dinv drow c s ?t"
      using g by (simp add: access_post_def mvcc_inv_def set_cur_def same_env_def)
    have "holds_reservation txn (Some p) ?t"
      using g(6,7,8,9) by (simp add: holds_reservation_def set_cur_def same_env_def)
    then show ?thesis using that [OF run post] g(9,10) by (simp add: set_cur_def same_env_def)
  qed
qed

text \<open>A reader of the newest version.\<close>

lemma read_latest_ok:
  assumes inv: "mvcc_inv s" and val: "val_ok dinv drow c s" and m: "max_served_rts s \<le> m"
    and np: "exists_prewrite s \<Longrightarrow> m \<le> prewrite_ts s"
  obtains s1 p r where "ensure_latest S s = Inr s1" and "max_served_rts s1 = max_served_rts s"
    and "access_post dinv drow c s ((set_cur txn (latest_row s1) s1)\<lparr>max_served_rts := m\<rparr>)"
    and "latest_wts s1 = latest_wts s" and "latest_row s1 = Some p" and "rows s1 p = Some r" and "row_bytes r = c"
proof -
  have core: "core_inv s" and pend: "pend_ok s" using inv by (simp_all add: mvcc_inv_def)
  obtain s1 q where e: "ensure_latest S s = Inr s1" "core_inv s1" "val_ok dinv drow c s1" "latest_row s1 = Some q"
    "same_env s s1" "same_his s s1"
    using ensure_latest_ok [OF core val] by metis
  obtain r where r: "rows s1 q = Some r" using latest_row_ok [OF e(2,4)] by (auto simp: row_ok_def)
  let ?t = "(set_cur txn (latest_row s1) s1)\<lparr>max_served_rts := m\<rparr>"
  have "core_inv ?t"
    by (rule core_inv_served) (use e(2,6) np in \<open>simp_all add: set_cur_def same_his_def\<close>)
  moreover have "pend_ok ?t = pend_ok s"
    by (rule pend_ok_cong) (use e(5,6) in \<open>simp_all add: set_cur_def same_env_def same_his_def\<close>)
  ultimately have "access_post dinv drow c s ?t"
    using pend e m by (simp add: access_post_def mvcc_inv_def set_cur_def same_env_def)
  moreover have "row_bytes r = c" using e(3,4) r by (simp add: val_ok_def)
  ultimately show ?thesis using that e r by (simp add: same_env_def)
qed

end

lemma scan_index:
  "n \<le> length hs \<Longrightarrow> snd (foldl (scan_step tr bound hs) (0, length hs) [0..<n]) = length hs \<or>
   snd (foldl (scan_step tr bound hs) (0, length hs) [0..<n]) \<in> versions hs"
proof (induction n)
  case (Suc n)
  then show ?case by (auto simp: scan_step_def versions_def)
qed simp

lemma scan_version_index:
  "snd (scan_version tr bound hs) = length hs \<or> snd (scan_version tr bound hs) \<in> versions hs"
  unfolding scan_version_def by (rule scan_index) simp

context row_storage
begin

text \<open>A read between the oldest and the latest version: from the history, or the latest one if none is found there.\<close>

lemma access_read_old_ok:
  assumes inv: "mvcc_inv s" and val: "val_ok dinv drow c s" and ts: "oldest_wts s \<le> txn_ts (txns s txn)" "txn_ts (txns s txn) \<le> latest_wts s"
  obtains s' where "access_read S txn s = Inr (RCOK, s')" and "access_post dinv drow c s s'" and "latest_wts s' = latest_wts s"
    and "snd (scan_version trunc32 (txn_ts (txns s txn)) (write_history s)) < length (write_history s) \<Longrightarrow>
      cur_row (txns s' txn) = his_row (write_history s ! snd (scan_version trunc32 (txn_ts (txns s txn)) (write_history s)))"
proof -
  let ?ts = "txn_ts (txns s txn)" and ?hs = "write_history s"
  let ?i = "snd (scan_version trunc32 ?ts ?hs)"
  have core: "core_inv s" and pend: "pend_ok s" using inv by (simp_all add: mvcc_inv_def)
  have ms: "exists_prewrite s \<Longrightarrow> max_served_rts s \<le> prewrite_ts s" using core by (simp add: core_inv_def reserve_ok_def Let_def)
  consider (none) "oldest_wts s \<le> ?ts" "?ts \<le> latest_wts s" "?i = length ?hs"
    | (found) "oldest_wts s \<le> ?ts" "?ts \<le> latest_wts s" "?i \<in> versions ?hs"
    using scan_version_index [of trunc32 ?ts ?hs] ts by blast
  then show ?thesis
  proof cases
    case none
    obtain s1 p r where e: "ensure_latest S s = Inr s1" "max_served_rts s1 = max_served_rts s"
      "access_post dinv drow c s ((set_cur txn (latest_row s1) s1)\<lparr>max_served_rts := max_served_rts s\<rparr>)"
      "latest_wts s1 = latest_wts s"
      using read_latest_ok [OF inv val order.refl ms] by metis
    have same: "(set_cur txn (latest_row s1) s1)\<lparr>max_served_rts := max_served_rts s\<rparr> = set_cur txn (latest_row s1) s1"
      using e(2) by (simp add: set_cur_def)
    have "access_read S txn s = Inr (RCOK, set_cur txn (latest_row s1) s1)"
      using none e(1) by (auto simp: access_read_def Let_def split: prod.splits)
    moreover have "access_post dinv drow c s (set_cur txn (latest_row s1) s1)" using e(3) same by simp
    ultimately show ?thesis
      by (rule that) (use e(4) none in \<open>simp_all add: set_cur_def\<close>)
  next
    case found
    have row: "his_row (?hs ! ?i) \<noteq> None" using core found(3) by (simp add: core_inv_def hist_ok_def)
    let ?t = "set_cur txn (his_row (?hs ! ?i)) s"
    have run: "access_read S txn s = Inr (RCOK, ?t)"
      using found row versions_less [OF found(3)] by (auto simp: access_read_def Let_def split: prod.splits)
    have "pend_ok ?t = pend_ok s" by (rule pend_ok_cong) (simp_all add: set_cur_def)
    then have post: "access_post dinv drow c s ?t"
      using core pend val by (simp add: access_post_def mvcc_inv_def set_cur_def)
    show ?thesis using that [OF run post] found by (simp add: set_cur_def)
  qed
qed

lemma access_read_ok:
  assumes inv: "mvcc_inv s" and val: "val_ok dinv drow c s" and call: "call_ok rvalid txn R_REQ row s"
  obtains rc s' where "access_read S txn s = Inr (rc, s')" and "access_post dinv drow c s s'"
    and "latest_wts s' = latest_wts s"
    and "rc = RCOK \<Longrightarrow> latest_wts s < txn_ts (txns s txn) \<Longrightarrow> txn_ts (txns s txn) \<le> max_served_rts s' \<and>
      (exists_prewrite s \<longrightarrow> txn_ts (txns s txn) \<le> prewrite_ts s) \<and>
      (\<exists>p r. cur_row (txns s' txn) = Some p \<and> rows s' p = Some r \<and> row_bytes r = c)"
    and "rc = RCOK \<Longrightarrow> txn_ts (txns s txn) \<le> latest_wts s \<Longrightarrow>
      snd (scan_version trunc32 (txn_ts (txns s txn)) (write_history s)) < length (write_history s) \<Longrightarrow>
      cur_row (txns s' txn) = his_row (write_history s ! snd (scan_version trunc32 (txn_ts (txns s txn)) (write_history s)))"
proof -
  let ?ts = "txn_ts (txns s txn)" and ?hs = "write_history s"
  let ?i = "snd (scan_version trunc32 ?ts ?hs)"
  have core: "core_inv s" and pend: "pend_ok s" using inv by (simp_all add: mvcc_inv_def)
  have ts: "?ts < UINT64_MAX" "fresh_ts ?ts s" using call by (simp_all add: call_ok_def)
  have ow: "oldest_wts s \<le> latest_wts s" using core by (simp add: core_inv_def hist_ok_def)
  have ms: "exists_prewrite s \<Longrightarrow> max_served_rts s \<le> prewrite_ts s" using core by (simp add: core_inv_def reserve_ok_def Let_def)
  consider (abort) "?ts < oldest_wts s"
    | (waiting) "latest_wts s < ?ts" "exists_prewrite s" "prewrite_ts s < ?ts"
    | (latest) "latest_wts s < ?ts" "\<not> (exists_prewrite s \<and> prewrite_ts s < ?ts)"
    | (old) "oldest_wts s \<le> ?ts" "?ts \<le> latest_wts s"
    by (meson not_less)
  then show ?thesis
  proof cases
    case abort
    then have "access_read S txn s = Inr (Abort, s)" by (simp add: access_read_def Let_def)
    then show ?thesis by (rule that) (use inv val in \<open>simp_all add: access_post_def\<close>)
  next
    case waiting
    obtain s1 where w: "buffer_req R_REQ txn s = Inr s1" "access_post dinv drow c s (set_wait txn s1)"
      using wait_ok [OF inv val _ waiting(2,3) ts, of R_REQ] by blast
    have "access_read S txn s = Inr (WAIT, set_wait txn s1)"
      using waiting w(1) ow by (auto simp: access_read_def Let_def)
    moreover have "latest_wts (set_wait txn s1) = latest_wts s"
      using w(1) by (auto simp: buffer_req_def Let_def set_wait_def split: option.splits)
    ultimately show ?thesis using that [of WAIT "set_wait txn s1"] w(2) by simp
  next
    case latest
    let ?m = "if ?ts > max_served_rts s then ?ts else max_served_rts s"
    have m: "max_served_rts s \<le> ?m" "?ts \<le> ?m" "exists_prewrite s \<Longrightarrow> ?m \<le> prewrite_ts s"
      using latest(2) ms by auto
    obtain s1 p r where e: "ensure_latest S s = Inr s1" "max_served_rts s1 = max_served_rts s"
      "access_post dinv drow c s ((set_cur txn (latest_row s1) s1)\<lparr>max_served_rts := ?m\<rparr>)"
      "latest_wts s1 = latest_wts s" "latest_row s1 = Some p" "rows s1 p = Some r" "row_bytes r = c"
      using read_latest_ok [OF inv val m(1,3)] by metis
    have "access_read S txn s = Inr (RCOK, (set_cur txn (latest_row s1) s1)\<lparr>max_served_rts := ?m\<rparr>)"
      using latest ow e(1,2) by (auto simp: access_read_def Let_def)
    then show ?thesis
      by (rule that) (use e latest m in \<open>auto simp: set_cur_def\<close>)
  next
    case old
    obtain s' where r: "access_read S txn s = Inr (RCOK, s')" "access_post dinv drow c s s'" "latest_wts s' = latest_wts s"
      "?i < length ?hs \<Longrightarrow> cur_row (txns s' txn) = his_row (?hs ! ?i)"
      using access_read_old_ok [OF inv val old] by metis
    show ?thesis by (rule that [OF r(1-3)]) (use old r(4) in auto)
  qed
qed

text \<open>Every well-formed call succeeds and establishes its guarantee.\<close>

lemma mvcc_access_ok:
  assumes inv: "mvcc_inv s" and val: "val_ok dinv drow c s" and call: "call_ok rvalid txn ty row s"
  obtains rc s' where "mvcc_access S txn ty row s = Inr (rc, s')"
    and "access_post dinv drow (content_after ty row c s) s s'"
proof (cases ty)
  case R_REQ
  obtain rc s' where "access_read S txn s = Inr (rc, s')" "access_post dinv drow c s s'"
    using access_read_ok [OF inv val call [unfolded R_REQ]] by metis
  then show ?thesis using that by (simp add: mvcc_access_def content_after_def R_REQ)
next
  case W_REQ
  have res: "holds_reservation txn row s" using call W_REQ by (simp add: call_ok_def)
  have "rvalid (m_key s) (row_bytes r)" if "row = Some p" "rows s p = Some r" for p r
    using call W_REQ that by (simp add: call_ok_def)
  then obtain s' where "access_write S txn row s = Inr (RCOK, s')"
    "access_post dinv drow (content_after W_REQ row c s) s s'"
    using access_write_ok [OF inv val res] by metis
  then show ?thesis using that by (simp add: mvcc_access_def W_REQ)
next
  case P_REQ
  obtain rc s' where "access_prewrite S txn s = Inr (rc, s')" "access_post dinv drow c s s'"
    using access_prewrite_ok [OF inv val call [unfolded P_REQ]] by metis
  then show ?thesis using that by (simp add: mvcc_access_def content_after_def P_REQ)
next
  case XP_REQ
  have "holds_reservation txn row s" using call XP_REQ by (simp add: call_ok_def)
  then obtain s' where "access_abort S txn row s = Inr (RCOK, s')" "access_post dinv drow c s s'"
    using access_abort_ok [OF inv val] by metis
  then show ?thesis using that by (simp add: mvcc_access_def content_after_def XP_REQ)
qed

end

end
