(* ===== verification/Row_Handler.thy ===== *)
theory Row_Handler
  imports Buffer_Runs Record_Index Lock_Table Row_Mvcc_Access
begin

text \<open>
  \<open>common/storage/row_handler.cpp\<close>: rows inside pages. A row is found through the index, its page
  is fetched through the buffer, and a write is done under the page's write lock. The operations
  meet the contract of the version history (locale \<open>row_storage\<close>) for any page store below.
\<close>

section \<open>State and operations\<close>

text \<open>What the row handler uses of an instance; \<open>'d\<close> is the page store below the buffer.\<close>

record 'd inst_db =
  db_index :: index_map
  db_buffer :: "'d buffer"
  db_locks :: lock_table

text \<open>The uninitialised locals: the \<open>IndexItem\<close>, the bytes of the new page, its \<open>version\<close>.\<close>

record locals =
  l_item :: index_item
  l_buf :: bytes
  l_version :: u64

text \<open>\<open>BufferGet\<close> into a new page and \<open>Deserialize\<close>.\<close>

definition fetch_page :: "'d disk_ops \<Rightarrow> locals \<Rightarrow> u64 \<Rightarrow> 'd inst_db \<Rightarrow> (page \<times> 'd inst_db) res" where
  "fetch_page D L pid d =
     rbind (BufferGet D pid (l_buf L) MY_PAGE_SIZE (db_buffer d)) (\<lambda>(b, buf).
     rbind (Deserialize (Page_new (l_version L) b)) (\<lambda>p. Inr (p, d\<lparr>db_buffer := buf\<rparr>)))"

text \<open>The row's bytes of a page, with the check of the key in its first eight bytes.\<close>

definition row_of_page :: "page \<Rightarrow> index_item \<Rightarrow> u64 \<Rightarrow> nat \<Rightarrow> bytes res" where
  "row_of_page p it key sz =
     rbind (read_at (page_buf p) (unat (item_location it)) sz) (\<lambda>row.
     rbind (read_at row 0 8) (\<lambda>k. asserting (key = dec64 k) (Inr row)))"

definition SnapShotReadRow :: "'d disk_ops \<Rightarrow> locals \<Rightarrow> u64 \<Rightarrow> nat \<Rightarrow> 'd inst_db \<Rightarrow> (bytes \<times> 'd inst_db) res" where
  "SnapShotReadRow D L key sz d =
     (let it = snd (IndexGet key (l_item L) (db_index d)) in
      rbind (fetch_page D L (item_page_id it) d) (\<lambda>(p, d1).
      asserting (page_id p = item_page_id it)
       (rbind (row_of_page p it key sz) (\<lambda>row. Inr (row, d1)))))"

text \<open>\<open>lock_table_[page_id]->lock_mode\<close>: a missing entry is a null pointer.\<close>

definition mode_of :: "u64 \<Rightarrow> 'd inst_db \<Rightarrow> LockMode res" where
  "mode_of pid d = (case db_locks d pid of None \<Rightarrow> Inl Bad_Deref | Some n \<Rightarrow> Inr (lock_mode n))"

definition lock_page :: "u64 \<Rightarrow> LockMode \<Rightarrow> 'd inst_db \<Rightarrow> 'd inst_db res" where
  "lock_page pid m d =
     rbind (LockTable_Lock pid m (db_locks d)) (\<lambda>(rc, t). asserting (rc = RCOK) (Inr (d\<lparr>db_locks := t\<rparr>)))"

definition unlock_page :: "u64 \<Rightarrow> 'd inst_db \<Rightarrow> 'd inst_db res" where
  "unlock_page pid d =
     rbind (LockTable_UnLock pid (db_locks d)) (\<lambda>(rc, t). asserting (rc = RCOK) (Inr (d\<lparr>db_locks := t\<rparr>)))"

definition ReadRow :: "'d disk_ops \<Rightarrow> locals \<Rightarrow> u64 \<Rightarrow> nat \<Rightarrow> 'd inst_db \<Rightarrow> (bytes \<times> 'd inst_db) res" where
  "ReadRow D L key sz d =
     (let it = snd (IndexGet key (l_item L) (db_index d)); pid = item_page_id it in
      rbind (lock_page pid LM_S d) (\<lambda>d1.
      rbind (mode_of pid d1) (\<lambda>m.
      asserting (m = LM_O \<or> m = LM_S)
       (asserting (m \<noteq> LM_P \<and> m \<noteq> LM_X)
        (rbind (fetch_page D L pid d1) (\<lambda>(p, d2).
         asserting (page_id p = pid)
          (rbind (row_of_page p it key sz) (\<lambda>row.
           rbind (unlock_page pid d2) (\<lambda>d3. Inr (row, d3))))))))))"

definition WriteRow :: "'d disk_ops \<Rightarrow> locals \<Rightarrow> u64 \<Rightarrow> bytes \<Rightarrow> 'd inst_db \<Rightarrow> 'd inst_db res" where
  "WriteRow D L key row d =
     (let it = snd (IndexGet key (l_item L) (db_index d)); pid = item_page_id it in
      rbind (mode_of pid d) (\<lambda>m.
      asserting (m \<noteq> LM_O)
       (rbind (lock_page pid LM_X d) (\<lambda>d1.
        rbind (fetch_page D L pid d1) (\<lambda>(p, d2).
        rbind (memcpy_at (page_buf p) (unat (item_location it)) row) (\<lambda>b.
        rbind (Serialize (p\<lparr>page_buf := b\<rparr>)) (\<lambda>q.
        rbind (BufferPut D pid (page_buf q) MY_PAGE_SIZE (db_buffer d2)) (\<lambda>buf.
        unlock_page pid (d2\<lparr>db_buffer := buf\<rparr>)))))))))"

text \<open>The two operations as the version history calls them.\<close>

definition handler_store :: "'d disk_ops \<Rightarrow> locals \<Rightarrow> 'd inst_db row_store" where
  "handler_store D L = \<lparr>snapshot_read = SnapShotReadRow D L, write_row = WriteRow D L\<rparr>"

text \<open>
  \<open>GetRow\<close> up to its first return or its wait: on \<open>WAIT\<close> the caller spins until \<open>ts_ready\<close>.
  \<open>GetRow_resume\<close> is the part after the wait.
\<close>

definition GetRow :: "'db row_store \<Rightarrow> access_t \<Rightarrow> nat \<Rightarrow> 'db mvcc \<Rightarrow> (RC \<times> nat option \<times> 'db mvcc) res" where
  "GetRow S ty txn s =
     rbind (mvcc_access S txn (if ty = RD then R_REQ else P_REQ) None s) (\<lambda>(rc, s').
     Inr (rc, (if rc = RCOK then cur_row (txns s' txn) else None), s'))"

definition GetRow_resume :: "nat \<Rightarrow> 'db mvcc \<Rightarrow> (nat option \<times> 'db mvcc) res" where
  "GetRow_resume txn s =
     (if ts_ready (txns s txn)
      then Inr (cur_row (txns s txn), s\<lparr>txns := (txns s)(txn := (txns s txn)\<lparr>ts_ready := True\<rparr>)\<rparr>)
      else Inl Blocked)"

definition ReturnRow :: "'db row_store \<Rightarrow> access_t \<Rightarrow> nat \<Rightarrow> nat option \<Rightarrow> 'db mvcc \<Rightarrow> 'db mvcc res" where
  "ReturnRow S ty txn row s =
     (if ty = XP then rbind (mvcc_access S txn XP_REQ row s) (\<lambda>(_, s'). Inr s')
      else if ty = WR
      then asserting (row \<noteq> None) (rbind (mvcc_access S txn W_REQ row s) (\<lambda>(_, s'). Inr s'))
      else Inr s)"

section \<open>Rows in pages\<close>

text \<open>A page as the handler needs it: full length, and its own number in the header.\<close>

definition page_ok :: "u64 \<Rightarrow> bytes \<Rightarrow> bool" where
  "page_ok pid c \<longleftrightarrow> length c = MY_PAGE_SIZE \<and> take 8 c = enc64 pid"

text \<open>A stored row starts with its key.\<close>

definition row_valid :: "nat \<Rightarrow> u64 \<Rightarrow> bytes \<Rightarrow> bool" where
  "row_valid sz key b \<longleftrightarrow> length b = sz \<and> 8 \<le> sz \<and> take 8 b = enc64 key"

definition row_at :: "nat \<Rightarrow> index_item \<Rightarrow> bytes \<Rightarrow> bytes" where
  "row_at sz it c = take sz (drop (unat (item_location it)) c)"

text \<open>Two rows of one page do not overlap, and none overlaps the page's fields.\<close>

definition layout_ok :: "nat \<Rightarrow> index_map \<Rightarrow> bool" where
  "layout_ok sz m \<longleftrightarrow>
     (\<forall>k it. m k = Some it \<longrightarrow> 32 \<le> unat (item_location it) \<and> unat (item_location it) + sz \<le> MY_PAGE_SIZE) \<and>
     (\<forall>k it k' it'. m k = Some it \<and> m k' = Some it' \<and> k \<noteq> k' \<and> item_page_id it = item_page_id it' \<longrightarrow>
        unat (item_location it) + sz \<le> unat (item_location it') \<or>
        unat (item_location it') + sz \<le> unat (item_location it))"

definition drow_of :: "('d \<Rightarrow> u64 \<Rightarrow> bytes option) \<Rightarrow> nat \<Rightarrow> 'd inst_db \<Rightarrow> u64 \<Rightarrow> bytes option" where
  "drow_of dpage sz d k =
     (case db_index d k of
        None \<Rightarrow> None
      | Some it \<Rightarrow> map_option (row_at sz it) (bview dpage (db_buffer d) (item_page_id it)))"

text \<open>
  A quiescent instance: the buffer is well formed, every indexed row is on a known page that the
  instance owns and nobody holds, and starts with its key.
\<close>

definition inst_ok :: "('d \<Rightarrow> bool) \<Rightarrow> ('d \<Rightarrow> u64 \<Rightarrow> bytes option) \<Rightarrow> nat \<Rightarrow> 'd inst_db \<Rightarrow> bool" where
  "inst_ok dinv dpage sz d \<longleftrightarrow>
     (\<exists>ps fs. buf_inv (db_buffer d) ps fs) \<and> dinv (disk (db_buffer d)) \<and> 5 \<le> page_num (db_buffer d) \<and>
     layout_ok sz (db_index d) \<and>
     (\<forall>k it. db_index d k = Some it \<longrightarrow>
        (\<exists>n. db_locks d (item_page_id it) = Some n \<and> node_ok n \<and> lock_mode n = LM_P) \<and>
        (\<exists>c. bview dpage (db_buffer d) (item_page_id it) = Some c \<and> page_ok (item_page_id it) c \<and>
             row_valid sz k (row_at sz it c)))"

text \<open>The same with given locks and a given index.\<close>

definition inst_at :: "('d \<Rightarrow> bool) \<Rightarrow> ('d \<Rightarrow> u64 \<Rightarrow> bytes option) \<Rightarrow> nat \<Rightarrow> lock_table \<Rightarrow> index_map \<Rightarrow> 'd inst_db \<Rightarrow> bool" where
  "inst_at dinv dpage sz locks idx d \<longleftrightarrow> inst_ok dinv dpage sz d \<and> db_locks d = locks \<and> db_index d = idx"

section \<open>Fetching a page\<close>

lemma le_nat_lt: "le_nat bs < 256 ^ length bs"
proof (induction bs)
  case (Cons b bs)
  have "unat b < 256" using unsigned_less [of b] by simp
  then show ?case using Cons by simp
qed simp

lemma nat_le_le_nat: "nat_le (length bs) (le_nat bs) = bs"
proof (induction bs)
  case (Cons b bs)
  have "unat b < 256" using unsigned_less [of b] by simp
  then have "(unat b + 256 * le_nat bs) div 256 = le_nat bs" by simp
  moreover have "(word_of_nat (unat b + 256 * le_nat bs) :: u8) = b"
    using \<open>unat b < 256\<close> by (simp add: word_eq_iff_unsigned [where 'a = nat] unat_of_nat del: of_nat_add)
  ultimately show ?case using Cons by simp
qed simp

lemma enc64_dec64: "length bs = 8 \<Longrightarrow> enc64 (dec64 bs) = bs"
  using le_nat_lt [of bs] nat_le_le_nat [of bs] by (simp add: enc64_def dec64_def unat_of_nat)

text \<open>Deserialising and serialising again changes no byte.\<close>

lemma Serialize_after_Deserialize:
  assumes "Deserialize p = Inr q" and "take 32 b = take 32 (page_buf p)" and "32 \<le> length b"
  shows "Serialize (q\<lparr>page_buf := b\<rparr>) = Inr (q\<lparr>page_buf := b\<rparr>)"
proof -
  let ?c = "page_buf p"
  have len: "32 \<le> length ?c" using arg_cong [OF assms(2), of length] assms(3) by simp
  have q: "page_id q = dec64 (take 8 ?c)" "page_size q = dec64 (take 8 (drop 8 ?c))"
    "used_size q = dec64 (take 8 (drop 16 ?c))" "version q = dec64 (take 8 (drop 24 ?c))"
    using assms(1) len by (auto simp: Deserialize_def read_at_def)
  have "take 8 ?c @ take 8 (drop 8 ?c) @ take 8 (drop 16 ?c) @ take 8 (drop 24 ?c) = take 32 ?c"
    using take_add [of 8 8 ?c] take_add [of 16 8 ?c] take_add [of 24 8 ?c] by simp
  then have "enc64 (page_id q) @ enc64 (page_size q) @ enc64 (used_size q) @ enc64 (version q) = take 32 b"
    using len assms(2) by (simp add: q enc64_dec64)
  then have "enc64 (page_id q) @ enc64 (page_size q) @ enc64 (used_size q) @ enc64 (version q) @ drop 32 b = b"
    by (metis append.assoc append_take_drop_id)
  then show ?thesis using assms(3) by (simp add: Serialize_eq)
qed

lemma Deserialize_page_ok:
  assumes "page_ok pid c"
  obtains p where "Deserialize (Page_new v c) = Inr p" and "page_id p = pid" and "page_buf p = c"
proof -
  have len: "length c = MY_PAGE_SIZE" and pid: "take 8 c = enc64 pid" using assms by (simp_all add: page_ok_def)
  have "32 \<le> length c" using len by (simp add: MY_PAGE_SIZE_def)
  then show ?thesis
    using that pid by (simp add: Deserialize_def read_at_def Page_new_def)
qed

context page_disk
begin

lemma fetch_page_ok:
  assumes inv: "buf_inv (db_buffer d) ps fs" and dk: "dinv (disk (db_buffer d))" and five: "5 \<le> page_num (db_buffer d)"
    and L: "length (l_buf L) = MY_PAGE_SIZE" and c: "bview dpage (db_buffer d) pid = Some c" "page_ok pid c"
  obtains p buf ps' fs' where "fetch_page D L pid d = Inr (p, d\<lparr>db_buffer := buf\<rparr>)" and "page_id p = pid"
    and "page_buf p = c" and "Deserialize (Page_new (l_version L) c) = Inr p"
    and "buf_inv buf ps' fs'" and "dinv (disk buf)" and "page_num buf = page_num (db_buffer d)"
    and "bview dpage (db_buffer d) \<subseteq>\<^sub>m bview dpage buf"
proof -
  obtain b buf ps' fs' where G: "BufferGetWithLock D pid (l_buf L) MY_PAGE_SIZE (db_buffer d) = Inr (b, buf)"
    "buf_inv buf ps' fs'" "dinv (disk buf)" "\<forall>c. bview dpage (db_buffer d) pid = Some c \<longrightarrow> b = c"
    "(bview dpage (db_buffer d))(pid \<mapsto> b) \<subseteq>\<^sub>m bview dpage buf" "page_num buf = page_num (db_buffer d)"
    by (rule BufferGetWithLock_ok [OF inv dk L five])
  have b: "b = c" using G(4) c(1) by simp
  obtain p where p: "Deserialize (Page_new (l_version L) c) = Inr p" "page_id p = pid" "page_buf p = c"
    using Deserialize_page_ok [OF c(2)] by blast
  have "bview dpage (db_buffer d) \<subseteq>\<^sub>m bview dpage buf"
    using G(5) c(1) unfolding b by (simp add: fun_upd_idem)
  moreover have "fetch_page D L pid d = Inr (p, d\<lparr>db_buffer := buf\<rparr>)"
    using G(1) p(1) by (simp add: fetch_page_def BufferGet_eq b)
  ultimately show ?thesis using that p G by blast
qed

end

section \<open>The contract of the version history\<close>

lemma drow_of_mono:
  assumes "inst_ok dinv dpage sz d" and "bview dpage (db_buffer d) \<subseteq>\<^sub>m bview dpage buf"
    and "db_index d' = db_index d" and "db_buffer d' = buf"
  shows "drow_of dpage sz d' = drow_of dpage sz d"
proof
  fix k
  show "drow_of dpage sz d' k = drow_of dpage sz d k"
  proof (cases "db_index d k")
    case (Some it)
    then obtain c where "bview dpage (db_buffer d) (item_page_id it) = Some c"
      using assms(1) by (auto simp: inst_ok_def)
    then show ?thesis using assms(2-4) Some map_leD by (fastforce simp: drow_of_def)
  qed (simp add: drow_of_def assms)
qed

lemma inst_ok_mono:
  assumes ok: "inst_ok dinv dpage sz d" and le: "bview dpage (db_buffer d) \<subseteq>\<^sub>m bview dpage buf"
    and buf: "buf_inv buf ps fs" "dinv (disk buf)" "page_num buf = page_num (db_buffer d)"
  shows "inst_ok dinv dpage sz (d\<lparr>db_buffer := buf\<rparr>)"
proof -
  have "\<exists>c. bview dpage buf (item_page_id it) = Some c \<and> page_ok (item_page_id it) c \<and> row_valid sz k (row_at sz it c)"
    if "db_index d k = Some it" for k it
    using ok that map_leD [OF le] unfolding inst_ok_def by blast
  then show ?thesis using ok buf unfolding inst_ok_def by auto
qed

lemma row_of_page_ok:
  assumes "layout_ok sz m" and "m k = Some it" and "page_buf p = c" and "length c = MY_PAGE_SIZE"
    and "row_valid sz k (row_at sz it c)"
  shows "row_of_page p it k sz = Inr (row_at sz it c)"
proof -
  have "unat (item_location it) + sz \<le> MY_PAGE_SIZE" using assms(1,2) by (simp add: layout_ok_def)
  then show ?thesis using assms by (auto simp: row_of_page_def read_at_def row_at_def row_valid_def)
qed

lemma IndexGet_Some [simp]: "m k = Some it \<Longrightarrow> snd (IndexGet k out m) = it"
  by (simp add: IndexGet_def)

context page_disk
begin

lemma SnapShotReadRow_ok:
  assumes ok: "inst_ok dinv dpage sz d" and L: "length (l_buf L) = MY_PAGE_SIZE" and b: "drow_of dpage sz d k = Some b"
  obtains d' where "SnapShotReadRow D L k sz d = Inr (b, d')" and "inst_ok dinv dpage sz d'"
    and "drow_of dpage sz d' = drow_of dpage sz d" and "length b = sz"
    and "db_locks d' = db_locks d" and "db_index d' = db_index d"
proof -
  obtain it where it: "db_index d k = Some it" using b by (auto simp: drow_of_def split: option.splits)
  obtain c where c: "bview dpage (db_buffer d) (item_page_id it) = Some c" "page_ok (item_page_id it) c"
    "row_valid sz k (row_at sz it c)"
    using ok it unfolding inst_ok_def by blast
  have bc: "b = row_at sz it c" using b it c(1) by (simp add: drow_of_def)
  obtain ps fs where B: "buf_inv (db_buffer d) ps fs" "dinv (disk (db_buffer d))" "5 \<le> page_num (db_buffer d)"
    "layout_ok sz (db_index d)"
    using ok by (auto simp: inst_ok_def)
  obtain p buf ps' fs' where F: "fetch_page D L (item_page_id it) d = Inr (p, d\<lparr>db_buffer := buf\<rparr>)" "page_id p = item_page_id it"
    "page_buf p = c" "buf_inv buf ps' fs'" "dinv (disk buf)" "page_num buf = page_num (db_buffer d)"
    "bview dpage (db_buffer d) \<subseteq>\<^sub>m bview dpage buf"
    by (rule fetch_page_ok [OF B(1,2,3) L c(1,2)])
  have "row_of_page p it k sz = Inr b"
    using row_of_page_ok [OF B(4) it F(3) _ c(3)] c(2) bc by (simp add: page_ok_def)
  then have "SnapShotReadRow D L k sz d = Inr (b, d\<lparr>db_buffer := buf\<rparr>)"
    using F(1,2) it by (simp add: SnapShotReadRow_def Let_def)
  then show ?thesis
    by (rule that) (use inst_ok_mono [OF ok F(7,4,5,6)] drow_of_mono [OF ok F(7)] c(3) bc in
      \<open>simp_all add: row_valid_def\<close>)
qed

end

section \<open>Writing a row\<close>

lemma row_at_written:
  assumes w: "memcpy_at c (unat (item_location it)) b = Inr c'" and b: "length b = sz"
  shows "row_at sz it c' = b"
  using read_memcpy_same [OF w] b by (auto simp: mem_simps row_at_def)

lemma row_at_other:
  assumes w: "memcpy_at c (unat (item_location it)) b = Inr c'" and b: "length b = sz"
    and l: "unat (item_location it) + sz \<le> unat (item_location it') \<or> unat (item_location it') + sz \<le> unat (item_location it)"
    and fits: "unat (item_location it') + sz \<le> length c"
  shows "row_at sz it' c' = row_at sz it' c"
proof -
  have "read_at c' (unat (item_location it')) sz = read_at c (unat (item_location it')) sz"
    using l read_memcpy_before [OF w] read_memcpy_after [OF w] b by auto
  then show ?thesis using fits memcpy_at_length [OF w] by (simp add: read_at_def row_at_def)
qed

text \<open>What a write of row \<open>k\<close> does to the rows, whatever else the buffer has learnt.\<close>

lemma written_page:
  assumes ok: "inst_ok dinv dpage sz d" and it: "db_index d k = Some it"
    and c: "bview dpage (db_buffer d) (item_page_id it) = Some c"
    and w: "memcpy_at c (unat (item_location it)) b = Inr c'" and b: "row_valid sz k b"
    and le: "(bview dpage (db_buffer d))(item_page_id it \<mapsto> c') \<subseteq>\<^sub>m bview dpage buf"
    and buf: "buf_inv buf ps fs" "dinv (disk buf)" "page_num buf = page_num (db_buffer d)"
  shows "inst_ok dinv dpage sz (d\<lparr>db_buffer := buf\<rparr>)"
    and "drow_of dpage sz (d\<lparr>db_buffer := buf\<rparr>) = (drow_of dpage sz d)(k \<mapsto> b)"
proof -
  let ?pid = "item_page_id it"
  have lay: "layout_ok sz (db_index d)" and lb: "length b = sz" using ok b by (simp_all add: inst_ok_def row_valid_def)
  have cok: "page_ok ?pid c" using ok it c unfolding inst_ok_def by fastforce
  have loc: "32 \<le> unat (item_location it)" using lay it by (simp add: layout_ok_def)
  have "take 8 c' = take 8 c" using w loc by (auto simp: mem_simps)
  then have c'ok: "page_ok ?pid c'" using cok memcpy_at_length [OF w] by (simp add: page_ok_def)
  have new: "bview dpage buf ?pid = Some c'" using le by (auto simp: map_le_def)
  have other: "bview dpage buf i = Some x" if "bview dpage (db_buffer d) i = Some x" "i \<noteq> ?pid" for i x
    using that map_leD [OF le, of i x] by simp
  have same: "\<exists>x'. bview dpage buf (item_page_id it2) = Some x' \<and> page_ok (item_page_id it2) x' \<and>
      row_at sz it2 x' = row_at sz it2 x"
    if "db_index d k2 = Some it2" "k2 \<noteq> k" "bview dpage (db_buffer d) (item_page_id it2) = Some x" for k2 it2 x
  proof (cases "item_page_id it2 = ?pid")
    case True
    have l2: "unat (item_location it2) + sz \<le> length c" using lay that(1) cok by (simp add: layout_ok_def page_ok_def)
    have "unat (item_location it) + sz \<le> unat (item_location it2) \<or> unat (item_location it2) + sz \<le> unat (item_location it)"
      using lay it that(1,2) True unfolding layout_ok_def by metis
    then have "row_at sz it2 c' = row_at sz it2 c" using row_at_other [OF w lb _ l2] by simp
    then show ?thesis using new c'ok c that(3) True by simp
  next
    case False
    moreover have "page_ok (item_page_id it2) x" using ok that unfolding inst_ok_def by fastforce
    ultimately show ?thesis using other [OF that(3)] by simp
  qed
  have k: "row_at sz it c' = b" by (rule row_at_written [OF w lb])
  have "\<exists>x. bview dpage buf (item_page_id it2) = Some x \<and> page_ok (item_page_id it2) x \<and> row_valid sz k2 (row_at sz it2 x)"
    if "db_index d k2 = Some it2" for k2 it2
  proof (cases "k2 = k")
    case True
    then show ?thesis using that it new c'ok k b by simp
  next
    case False
    then show ?thesis using ok that same [OF that False] unfolding inst_ok_def by fastforce
  qed
  then show "inst_ok dinv dpage sz (d\<lparr>db_buffer := buf\<rparr>)"
    using ok buf unfolding inst_ok_def by auto
  show "drow_of dpage sz (d\<lparr>db_buffer := buf\<rparr>) = (drow_of dpage sz d)(k \<mapsto> b)"
  proof
    fix k2
    show "drow_of dpage sz (d\<lparr>db_buffer := buf\<rparr>) k2 = ((drow_of dpage sz d)(k \<mapsto> b)) k2"
    proof (cases "k2 = k")
      case True
      then show ?thesis using it new k by (simp add: drow_of_def)
    next
      case k2: False
      show ?thesis
      proof (cases "db_index d k2")
        case (Some it2)
        then obtain x where "bview dpage (db_buffer d) (item_page_id it2) = Some x" using ok by (auto simp: inst_ok_def)
        then show ?thesis using same [OF Some k2] Some k2 by (fastforce simp: drow_of_def)
      qed (simp add: drow_of_def k2)
    qed
  qed
qed

text \<open>Locking an owned free page for writing and unlocking it again.\<close>

lemma lock_unlock_page:
  assumes "db_locks d pid = Some n" and "node_ok n" and "lock_mode n = LM_P"
  shows "lock_page pid LM_X d = Inr (d\<lparr>db_locks := (db_locks d)(pid \<mapsto> n\<lparr>lock_mode := LM_X, lock_count := 1\<rparr>)\<rparr>)"
    and "unlock_page pid (d\<lparr>db_locks := (db_locks d)(pid \<mapsto> n\<lparr>lock_mode := LM_X, lock_count := 1\<rparr>), db_buffer := buf\<rparr>) =
      Inr (d\<lparr>db_buffer := buf\<rparr>)"
proof -
  show "lock_page pid LM_X d = Inr (d\<lparr>db_locks := (db_locks d)(pid \<mapsto> n\<lparr>lock_mode := LM_X, lock_count := 1\<rparr>)\<rparr>)"
    using assms by (simp add: lock_page_def LockTable_Lock_def with_node_def Lock_X_outcome)
  have "n\<lparr>lock_count := 0, lock_mode := LM_P\<rparr> = n" using assms by (simp add: node_ok_def)
  then have "(db_locks d)(pid \<mapsto> n\<lparr>lock_count := 0, lock_mode := LM_P\<rparr>) = db_locks d"
    using assms(1) by (simp add: fun_upd_idem)
  then show "unlock_page pid (d\<lparr>db_locks := (db_locks d)(pid \<mapsto> n\<lparr>lock_mode := LM_X, lock_count := 1\<rparr>), db_buffer := buf\<rparr>) =
      Inr (d\<lparr>db_buffer := buf\<rparr>)"
    by (simp add: unlock_page_def LockTable_UnLock_def with_node_def UnLock_node_def)
qed

context page_disk
begin

lemma WriteRow_ok:
  assumes ok: "inst_ok dinv dpage sz d" and L: "length (l_buf L) = MY_PAGE_SIZE" and b0: "drow_of dpage sz d k = Some b0"
    and b: "row_valid sz k b"
  obtains d' where "WriteRow D L k b d = Inr d'" and "inst_ok dinv dpage sz d'"
    and "drow_of dpage sz d' = (drow_of dpage sz d)(k \<mapsto> b)"
    and "db_locks d' = db_locks d" and "db_index d' = db_index d"
proof -
  obtain it where it: "db_index d k = Some it" using b0 by (auto simp: drow_of_def split: option.splits)
  let ?pid = "item_page_id it" and ?loc = "unat (item_location it)"
  obtain c n where c: "bview dpage (db_buffer d) ?pid = Some c" "page_ok ?pid c"
    and n: "db_locks d ?pid = Some n" "node_ok n" "lock_mode n = LM_P"
    using ok it unfolding inst_ok_def by blast
  obtain ps fs where B: "buf_inv (db_buffer d) ps fs" "dinv (disk (db_buffer d))" "5 \<le> page_num (db_buffer d)"
    "layout_ok sz (db_index d)"
    using ok by (auto simp: inst_ok_def)
  let ?t = "(db_locks d)(?pid \<mapsto> n\<lparr>lock_mode := LM_X, lock_count := 1\<rparr>)"
  let ?d1 = "d\<lparr>db_locks := ?t\<rparr>"
  have d1: "db_buffer ?d1 = db_buffer d" by simp
  obtain p buf ps' fs' where run_fetch: "fetch_page D L ?pid ?d1 = Inr (p, ?d1\<lparr>db_buffer := buf\<rparr>)"
    "page_id p = ?pid" and F: "page_buf p = c" "Deserialize (Page_new (l_version L) c) = Inr p"
    "buf_inv buf ps' fs'" "dinv (disk buf)" "page_num buf = page_num (db_buffer d)"
    "bview dpage (db_buffer d) \<subseteq>\<^sub>m bview dpage buf"
    by (rule fetch_page_ok [of ?d1, unfolded d1, OF B(1,2,3) L c])
  have fits: "32 \<le> ?loc" "?loc + sz \<le> MY_PAGE_SIZE" using B(4) it by (simp_all add: layout_ok_def)
  have lc: "length c = MY_PAGE_SIZE" and lb: "length b = sz" using c(2) b by (simp_all add: page_ok_def row_valid_def)
  obtain c' where w: "memcpy_at c ?loc b = Inr c'" using memcpy_at_ok [of ?loc b c] fits lc lb by auto
  have lc': "length c' = MY_PAGE_SIZE" using memcpy_at_length [OF w] lc by simp
  have "take 32 c' = take 32 c" using w fits(1) by (auto simp: mem_simps)
  moreover have "32 \<le> length c'" using lc' by (simp add: MY_PAGE_SIZE_def)
  ultimately have ser: "Serialize (p\<lparr>page_buf := c'\<rparr>) = Inr (p\<lparr>page_buf := c'\<rparr>)"
    using Serialize_after_Deserialize [OF F(2), of c'] by (simp add: Page_new_def)
  obtain buf2 ps2 fs2 where P: "BufferPutWithLock D ?pid c' MY_PAGE_SIZE buf = Inr buf2" "buf_inv buf2 ps2 fs2"
    "dinv (disk buf2)" "(bview dpage buf)(?pid \<mapsto> c') \<subseteq>\<^sub>m bview dpage buf2" "page_num buf2 = page_num buf"
    using BufferPutWithLock_ok [OF F(3,4) lc', of ?pid] B(3) F(5) by auto
  have le: "(bview dpage (db_buffer d))(?pid \<mapsto> c') \<subseteq>\<^sub>m bview dpage buf2"
    using F(6) P(4) by (meson map_le_trans map_le_upd)
  have run: "WriteRow D L k b d = Inr (d\<lparr>db_buffer := buf2\<rparr>)"
    using it n run_fetch(1) F(1) w ser P(1) lock_unlock_page [OF n]
    by (simp add: WriteRow_def Let_def mode_of_def BufferPut_eq)
  show ?thesis
    by (rule that [OF run])
      ((rule written_page [OF ok it c(1) w b le P(2,3)], use P(5) F(5) in simp) | simp)+
qed

lemma handler_row_storage:
  assumes L: "length (l_buf L) = MY_PAGE_SIZE"
  shows "row_storage (handler_store D L) (inst_at dinv dpage sz locks idx) (drow_of dpage sz) (row_valid sz)"
proof
  fix d k b
  assume d: "inst_at dinv dpage sz locks idx d" "drow_of dpage sz d k = Some b"
  then have ok: "inst_ok dinv dpage sz d" by (simp add: inst_at_def)
  obtain d' where "SnapShotReadRow D L k sz d = Inr (b, d')" "inst_ok dinv dpage sz d'"
    "drow_of dpage sz d' = drow_of dpage sz d" "length b = sz" "db_locks d' = db_locks d" "db_index d' = db_index d"
    by (rule SnapShotReadRow_ok [OF ok L d(2)])
  then show "\<exists>d'. snapshot_read (handler_store D L) k (length b) d = Inr (b, d') \<and>
      inst_at dinv dpage sz locks idx d' \<and> drow_of dpage sz d' = drow_of dpage sz d"
    using d(1) by (simp add: handler_store_def inst_at_def)
next
  fix d k b b'
  assume d: "inst_at dinv dpage sz locks idx d" "drow_of dpage sz d k = Some b" and b': "row_valid sz k b'"
  then have ok: "inst_ok dinv dpage sz d" by (simp add: inst_at_def)
  obtain d' where "WriteRow D L k b' d = Inr d'" "inst_ok dinv dpage sz d'"
    "drow_of dpage sz d' = (drow_of dpage sz d)(k \<mapsto> b')" "db_locks d' = db_locks d" "db_index d' = db_index d"
    by (rule WriteRow_ok [OF ok L d(2) b'])
  then show "\<exists>d'. write_row (handler_store D L) k b' d = Inr d' \<and> inst_at dinv dpage sz locks idx d' \<and>
      drow_of dpage sz d' = (drow_of dpage sz d)(k \<mapsto> b')"
    using d(1) by (simp add: handler_store_def inst_at_def)
qed

text \<open>A locked read: the page's lock is as before afterwards.\<close>

lemma ReadRow_ok:
  assumes ok: "inst_ok dinv dpage sz d" and L: "length (l_buf L) = MY_PAGE_SIZE" and b: "drow_of dpage sz d k = Some b"
  obtains d' where "ReadRow D L k sz d = Inr (b, d')" and "inst_ok dinv dpage sz d'"
    and "drow_of dpage sz d' = drow_of dpage sz d" and "db_locks d' = db_locks d"
proof -
  obtain it where it: "db_index d k = Some it" using b by (auto simp: drow_of_def split: option.splits)
  let ?pid = "item_page_id it"
  obtain c n where c: "bview dpage (db_buffer d) ?pid = Some c" "page_ok ?pid c" "row_valid sz k (row_at sz it c)"
    and n: "db_locks d ?pid = Some n" "node_ok n" "lock_mode n = LM_P"
    using ok it unfolding inst_ok_def by blast
  have bc: "b = row_at sz it c" using b it c(1) by (simp add: drow_of_def)
  obtain ps fs where B: "buf_inv (db_buffer d) ps fs" "dinv (disk (db_buffer d))" "5 \<le> page_num (db_buffer d)"
    "layout_ok sz (db_index d)"
    using ok by (auto simp: inst_ok_def)
  have cnt: "lock_count n = 0" using n(2,3) by (simp add: node_ok_def)
  let ?t = "(db_locks d)(?pid \<mapsto> n\<lparr>lock_mode := LM_S, lock_count := 1\<rparr>)"
  let ?d1 = "d\<lparr>db_locks := ?t\<rparr>"
  have lock: "lock_page ?pid LM_S d = Inr ?d1"
    using n cnt by (simp add: lock_page_def LockTable_Lock_def with_node_def Lock_S_outcome)
  have "n\<lparr>lock_count := 0, lock_mode := LM_P\<rparr> = n" using n cnt by simp
  then have "(db_locks d)(?pid \<mapsto> n\<lparr>lock_count := 0, lock_mode := LM_P\<rparr>) = db_locks d"
    using n(1) by (simp add: fun_upd_idem)
  then have unlock: "unlock_page ?pid (?d1\<lparr>db_buffer := buf\<rparr>) = Inr (d\<lparr>db_buffer := buf\<rparr>)" for buf
    by (simp add: unlock_page_def LockTable_UnLock_def with_node_def UnLock_node_def)
  have d1: "db_buffer ?d1 = db_buffer d" by simp
  obtain p buf ps' fs' where F: "fetch_page D L ?pid ?d1 = Inr (p, ?d1\<lparr>db_buffer := buf\<rparr>)" "page_id p = ?pid" "page_buf p = c"
    "Deserialize (Page_new (l_version L) c) = Inr p" "buf_inv buf ps' fs'" "dinv (disk buf)"
    "page_num buf = page_num (db_buffer d)" "bview dpage (db_buffer d) \<subseteq>\<^sub>m bview dpage buf"
    by (rule fetch_page_ok [of ?d1, unfolded d1, OF B(1,2,3) L c(1,2)])
  have "row_of_page p it k sz = Inr b"
    using row_of_page_ok [OF B(4) it F(3) _ c(3)] c(2) bc by (simp add: page_ok_def)
  then have run: "ReadRow D L k sz d = Inr (b, d\<lparr>db_buffer := buf\<rparr>)"
    using lock F(1,2) unlock it by (simp add: ReadRow_def Let_def mode_of_def)
  show ?thesis
    by (rule that [OF run]) (use inst_ok_mono [OF ok F(8,5,6,7)] drow_of_mono [OF ok F(8)] in simp_all)
qed

text \<open>Such instances exist: a new buffer into which one page is put.\<close>

lemma inst_example:
  assumes "dinv d0" and c: "page_ok 0 c" and lay: "layout_ok sz idx"
    and rows: "\<forall>k it. idx k = Some it \<longrightarrow> item_page_id it = 0 \<and> row_valid sz k (row_at sz it c)"
  obtains d where "inst_ok dinv dpage sz d" and "\<And>k it. idx k = Some it \<Longrightarrow> drow_of dpage sz d k = Some (row_at sz it c)"
    and "db_index d = idx" and "db_locks d = [0 \<mapsto> (LockNode_new 0)\<lparr>lock_mode := LM_P\<rparr>]"
proof -
  have ps: "unat (16384 :: u64) = MY_PAGE_SIZE" "unat (81920 div 16384 :: u64) < 2 ^ 31" by (simp_all add: MY_PAGE_SIZE_def)
  obtain s where s: "buf_inv s [] (rev [0..<unat (81920 div 16384 :: u64)])"
    "page_num s = int (unat (81920 div 16384 :: u64))" "disk s = d0"
    using Buffer_new_ok [OF ps, of "\<lambda>_. 0" d0] by blast
  have pre: "dinv (disk s)" "5 \<le> page_num s" "length c = MY_PAGE_SIZE" using assms(1) s(2,3) c by (simp_all add: page_ok_def)
  obtain s1 ps fs where P: "buf_inv s1 ps fs" "dinv (disk s1)" "(bview dpage s)(0 \<mapsto> c) \<subseteq>\<^sub>m bview dpage s1"
    "page_num s1 = page_num s"
    using BufferPutWithLock_ok [OF s(1) pre(1,3,2), of 0] by metis
  let ?d = "\<lparr>db_index = idx, db_buffer = s1, db_locks = [0 \<mapsto> (LockNode_new 0)\<lparr>lock_mode := LM_P\<rparr>]\<rparr>"
  have v: "bview dpage s1 0 = Some c" using P(3) by (auto simp: map_le_def)
  have "inst_ok dinv dpage sz ?d"
    using P s(2) v c lay rows by (auto simp: inst_ok_def node_ok_def LockNode_new_def)
  then show ?thesis using that [of ?d] v rows by (simp add: drow_of_def)
qed

end

section \<open>The row handler over the in-memory page store\<close>

definition zero_locals :: locals where
  "zero_locals = \<lparr>l_item = \<lparr>item_page_id = 0, item_location = 0\<rparr>, l_buf = replicate MY_PAGE_SIZE 0, l_version = 0\<rparr>"

lemma zero_locals_buf [simp]: "length (l_buf zero_locals) = MY_PAGE_SIZE"
  by (simp add: zero_locals_def)

interpretation mem_rows: row_storage "handler_store memory_disk zero_locals"
  "inst_at memory_inv (\<lambda>db. db) sz locks idx" "drow_of (\<lambda>db. db) sz" "row_valid sz" for sz locks idx
  by (rule mem.handler_row_storage) simp

section \<open>Property\<close>

text \<open>
  C7: rows over files. On a quiescent instance whose buffer is over \<open>FileIO\<close>, \<open>WriteRow\<close> of a row
  that starts with its key succeeds and leaves the instance quiescent; afterwards
  \<open>SnapShotReadRow\<close> and the locked \<open>ReadRow\<close> of every indexed key deliver its row: the written
  bytes for the written key, and for every other key the bytes it had, also on the same page.
\<close>

theorem row_write_then_read:
  assumes "posix_laws P content fdpath" and "inst_ok (file_inv fdpath) (file_page content) sz d"
    and "length (l_buf L) = MY_PAGE_SIZE" and "drow_of (file_page content) sz d k = Some b0" and "row_valid sz k b"
  shows "\<exists>d'. WriteRow (file_disk P) L k b d = Inr d' \<and> inst_ok (file_inv fdpath) (file_page content) sz d' \<and>
    (\<forall>k' b'. (if k' = k then Some b else drow_of (file_page content) sz d k') = Some b' \<longrightarrow>
       (\<exists>d''. SnapShotReadRow (file_disk P) L k' sz d' = Inr (b', d'')) \<and>
       (\<exists>d''. ReadRow (file_disk P) L k' sz d' = Inr (b', d'') \<and> db_locks d'' = db_locks d'))"
proof -
  note pd = file_page_disk [OF assms(1)]
  obtain d' where w: "WriteRow (file_disk P) L k b d = Inr d'" "inst_ok (file_inv fdpath) (file_page content) sz d'"
    "drow_of (file_page content) sz d' = (drow_of (file_page content) sz d)(k \<mapsto> b)"
    by (rule page_disk.WriteRow_ok [OF pd assms(2-5)])
  have "(\<exists>d''. SnapShotReadRow (file_disk P) L k' sz d' = Inr (b', d'')) \<and>
      (\<exists>d''. ReadRow (file_disk P) L k' sz d' = Inr (b', d'') \<and> db_locks d'' = db_locks d')"
    if "drow_of (file_page content) sz d' k' = Some b'" for k' b'
    using page_disk.SnapShotReadRow_ok [OF pd w(2) assms(3) that] page_disk.ReadRow_ok [OF pd w(2) assms(3) that]
    by metis
  then show ?thesis using w by (intro exI [of _ d']) (simp add: fun_upd_def)
qed

theorem row_write_then_read_witness:
  "\<exists>d d' d''. WriteRow (file_disk mem_posix) zero_locals 7 (enc64 7) d = Inr d' \<and>
     SnapShotReadRow (file_disk mem_posix) zero_locals 7 8 d' = Inr (enc64 7, d'')"
proof -
  let ?c = "enc64 0 @ replicate 24 0 @ enc64 7 @ replicate (MY_PAGE_SIZE - 40) 0"
  let ?idx = "[7 \<mapsto> \<lparr>item_page_id = 0, item_location = 32\<rparr>] :: index_map"
  have c: "page_ok 0 ?c" "row_at 8 \<lparr>item_page_id = 0, item_location = 32\<rparr> ?c = enc64 7" and rv: "row_valid 8 7 (enc64 7)"
    by (simp_all add: page_ok_def row_at_def row_valid_def MY_PAGE_SIZE_def)
  have lay: "layout_ok 8 ?idx" by (auto simp: layout_ok_def MY_PAGE_SIZE_def)
  have rows: "\<forall>k it. ?idx k = Some it \<longrightarrow> item_page_id it = 0 \<and> row_valid 8 k (row_at 8 it ?c)" using c(2) rv by auto
  obtain d where d: "inst_ok (file_inv mem_fdpath) (file_page mem_files) 8 d" "drow_of (file_page mem_files) 8 d 7 = Some (enc64 7)"
    using page_disk.inst_example [OF file_page_disk [OF mem_posix_laws] mem_world0_inv c(1) lay rows] c(2)
    by (metis (no_types, lifting) fun_upd_same)
  from row_write_then_read [OF mem_posix_laws d(1) zero_locals_buf d(2) rv] show ?thesis by (metis (full_types))
qed

end
