(* ===== verification/Row_Mvcc_Runs.thy ===== *)
theory Row_Mvcc_Runs
  imports Row_Mvcc_Access
begin

text \<open>
  Runs of \<open>Row_mvcc::access\<close> calls by several transactions on one row, interleaved with what the
  transactions do themselves, and the properties of multi-version timestamp ordering.
\<close>

section \<open>Steps\<close>

datatype mvcc_event = Access nat TsType "nat option" RC | Outside

text \<open>
  Between two calls transactions start and end, and the holder of the reservation changes the
  bytes of its row; waiting transactions do nothing.
\<close>

definition outside_ok :: "'db mvcc \<Rightarrow> 'db mvcc \<Rightarrow> bool" where
  "outside_ok s t \<longleftrightarrow> (\<exists>T A R. t = s\<lparr>txns := T, all_ts := A, rows := R\<rparr> \<and>
     (\<forall>i < length (requests s). req_valid (requests s ! i) \<longrightarrow> T (req_txn (requests s ! i)) = txns s (req_txn (requests s ! i))) \<and>
     (\<forall>p. \<not> (exists_prewrite s \<and> reserved_row s = Some p) \<longrightarrow> R p = rows s p) \<and>
     (\<forall>p r. rows s p = Some r \<longrightarrow> (\<exists>b. R p = Some (r\<lparr>row_bytes := b\<rparr>) \<and> length b = length (row_bytes r))))"

inductive mstep :: "'db row_store \<Rightarrow> (u64 \<Rightarrow> bytes \<Rightarrow> bool) \<Rightarrow> 'db mvcc \<Rightarrow> mvcc_event \<Rightarrow> 'db mvcc \<Rightarrow> bool"
  for S rvalid where
  access: "call_ok rvalid txn ty row s \<Longrightarrow> mvcc_access S txn ty row s = Inr (rc, t) \<Longrightarrow>
    mstep S rvalid s (Access txn ty row rc) t"
| outside: "outside_ok s t \<Longrightarrow> mstep S rvalid s Outside t"

inductive mrun :: "'db row_store \<Rightarrow> (u64 \<Rightarrow> bytes \<Rightarrow> bool) \<Rightarrow> 'db mvcc \<Rightarrow> mvcc_event list \<Rightarrow> 'db mvcc \<Rightarrow> bool"
  for S rvalid s where
  empty: "mrun S rvalid s [] s"
| snoc: "mrun S rvalid s es t \<Longrightarrow> mstep S rvalid t e u \<Longrightarrow> mrun S rvalid s (es @ [e]) u"

inductive_cases mstep_accessE: "mstep S rvalid s (Access txn ty row rc) t"

section \<open>The invariant along runs\<close>

lemma latest_not_reserved:
  assumes inv: "core_inv s" and ex: "exists_prewrite s" and p: "latest_row s = Some p"
  shows "reserved_row s \<noteq> Some p"
proof
  assume r: "reserved_row s = Some p"
  have k: "prewrite_his_id s < length (write_history s)" "\<not> his_valid (write_history s ! prewrite_his_id s)"
    using inv ex by (simp_all add: core_inv_def reserve_ok_def Let_def)
  have heap: "heap_ok s" using inv by (simp add: core_inv_def)
  show False
  proof (cases "versions (write_history s) = {}")
    case True
    then have "base_row s = reserved_row s" using inv p r by (simp add: core_inv_def latest_ok_def)
    then show False using heap k(1) r unfolding heap_ok_def by (metis option.distinct(1))
  next
    case False
    then obtain i q where "i \<in> versions (write_history s)" "latest_row s = Some q" "his_row (write_history s ! i) = Some q"
      using latest_in_window [OF inv] by metis
    then show False using heap_ok_inj [OF heap _ k(1), of i p] p r k(2) by (auto simp: versions_def)
  qed
qed

lemma outside_inv:
  assumes o: "outside_ok s t" and inv: "mvcc_inv s" and val: "val_ok dinv drow c s"
  shows "mvcc_inv t \<and> val_ok dinv drow c t"
proof -
  obtain T A R where t: "t = s\<lparr>txns := T, all_ts := A, rows := R\<rparr>"
    and wait: "\<And>i. i < length (requests s) \<Longrightarrow> req_valid (requests s ! i) \<Longrightarrow> T (req_txn (requests s ! i)) = txns s (req_txn (requests s ! i))"
    and same: "\<And>p. \<not> (exists_prewrite s \<and> reserved_row s = Some p) \<Longrightarrow> R p = rows s p"
    and shape: "\<And>p r. rows s p = Some r \<Longrightarrow> \<exists>b. R p = Some (r\<lparr>row_bytes := b\<rparr>) \<and> length b = length (row_bytes r)"
    using o unfolding outside_ok_def by blast
  have core: "core_inv s" and pend: "pend_ok s" using inv by (simp_all add: mvcc_inv_def)
  let ?s = "s\<lparr>txns := T, all_ts := A\<rparr>"
  have "core_inv ?s" using core by simp
  moreover have "row_ok (?s\<lparr>rows := R\<rparr>) q" if "row_ok ?s q" for q
    using that shape [of q] by (auto simp: row_ok_def)
  ultimately have core': "core_inv t" unfolding t by (rule core_inv_rows)
  have "req_ok ts T (requests s ! i) = req_ok ts (txns s) (requests s ! i)"
    if "i < length (requests s)" "req_valid (requests s ! i)" for ts i
    using wait [OF that] by (simp add: req_ok_def)
  then have "pend_ok t" using pend by (simp add: t pend_ok_def pending_after_def)
  moreover have "row_bytes r = c" if "latest_row s = Some p" "R p = Some r" for p r
  proof -
    have "R p = rows s p" using same latest_not_reserved [OF core _ that(1)] by blast
    then show ?thesis using val that by (simp add: val_ok_def)
  qed
  then have "val_ok dinv drow c t" using val by (simp add: t val_ok_def)
  ultimately show ?thesis using core' by (simp add: mvcc_inv_def)
qed

lemma outside_fields:
  assumes "outside_ok s t"
  shows "max_served_rts t = max_served_rts s" and "latest_wts t = latest_wts s"
  using assms by (auto simp: outside_ok_def)

context row_storage
begin

lemma mstep_inv:
  assumes "mstep S rvalid s e t" and inv: "mvcc_inv s" and val: "val_ok dinv drow c s"
  shows "mvcc_inv t \<and> (\<exists>c'. val_ok dinv drow c' t) \<and> max_served_rts s \<le> max_served_rts t \<and> latest_wts s \<le> latest_wts t"
  using assms(1)
proof cases
  case (access txn ty row rc)
  obtain rc' t' where "mvcc_access S txn ty row s = Inr (rc', t')" "access_post dinv drow (content_after ty row c s) s t'"
    using mvcc_access_ok [OF inv val access(2)] by blast
  then show ?thesis using access(3) by (auto simp: access_post_def)
next
  case outside
  then show ?thesis using outside_inv [OF outside(2) inv val] outside_fields [OF outside(2)] by auto
qed

lemma mrun_inv:
  assumes "mrun S rvalid s es t" and "mvcc_inv s" and "val_ok dinv drow c s"
  shows "mvcc_inv t \<and> (\<exists>c'. val_ok dinv drow c' t) \<and> max_served_rts s \<le> max_served_rts t \<and> latest_wts s \<le> latest_wts t"
  using assms
proof (induction rule: mrun.induct)
  case (snoc es t e u)
  then obtain c' where t: "mvcc_inv t" "val_ok dinv drow c' t" "max_served_rts s \<le> max_served_rts t" "latest_wts s \<le> latest_wts t"
    by blast
  show ?case using mstep_inv [OF snoc.hyps(2) t(1,2)] t(3,4) by auto
qed auto

text \<open>A write finds no newer version and no newer reader of the version it replaces.\<close>

lemma write_after_readers:
  assumes st: "mstep S rvalid s (Access txn W_REQ row rc) t" and inv: "mvcc_inv s"
  shows "latest_wts s < txn_ts (txns s txn) \<and> max_served_rts s \<le> txn_ts (txns s txn)"
proof -
  have "call_ok rvalid txn W_REQ row s" using st by (auto elim: mstep_accessE)
  then have res: "holds_reservation txn row s" by (simp add: call_ok_def)
  have core: "core_inv s" using inv by (simp add: mvcc_inv_def)
  obtain p where "latest_wts s < prewrite_ts s" "max_served_rts s \<le> prewrite_ts s" using reservationD [OF core res] by metis
  then show ?thesis using res by (simp add: holds_reservation_def)
qed

end

end
