(* ===== verification/Row_Mvcc_Props.thy ===== *)
theory Row_Mvcc_Props
  imports Row_Mvcc_Runs
begin

text \<open>
  The properties of \<open>Row_mvcc\<close>, for every storage below that meets the contract, and executions
  that show where the implementation departs from timestamp ordering.
\<close>

section \<open>A storage to run examples on\<close>

definition map_store :: "(u64 \<Rightarrow> bytes option) row_store" where
  "map_store = \<lparr>snapshot_read = (\<lambda>k n d. case d k of
       Some b \<Rightarrow> if length b = n then Inr (b, d) else Inl Out_Of_Bounds
     | None \<Rightarrow> Inl Assert_Fail), write_row = (\<lambda>k b d. Inr (d(k \<mapsto> b)))\<rparr>"

interpretation map_rows: row_storage map_store "\<lambda>_. True" "\<lambda>d. d" "\<lambda>_ _. True"
  by unfold_locales (simp_all add: map_store_def)

text \<open>Row 7 of one byte; transaction \<open>i\<close> has timestamp \<open>base + i\<close>.\<close>

definition demo_row :: "u64 \<Rightarrow> u64 list \<Rightarrow> (u64 \<Rightarrow> bytes option) mvcc" where
  "demo_row base ats = mvcc_init 7 1 0 0 (\<lambda>_. [0])
     (\<lambda>i. \<lparr>txn_ts = base + of_nat i, cur_row = None, ts_ready = True\<rparr>) ats [7 \<mapsto> [5]]"

text \<open>
  Well-formed calls one after the other, each returning \<open>RCOK\<close>; a transaction passes back the row
  it got.
\<close>

definition call_okb :: "nat \<Rightarrow> TsType \<Rightarrow> 'db mvcc \<Rightarrow> bool" where
  "call_okb txn ty s \<longleftrightarrow> txn_ts (txns s txn) < UINT64_MAX \<and>
     (if ty = R_REQ \<or> ty = P_REQ
      then list_all (\<lambda>r. \<not> (req_valid r \<and> req_ts r = txn_ts (txns s txn))) (requests s) \<and>
           (ty = P_REQ \<longrightarrow> txn_ts (txns s txn) \<noteq> latest_wts s \<and> \<not> (exists_prewrite s \<and> txn_ts (txns s txn) = prewrite_ts s))
      else exists_prewrite s \<and> txn_ts (txns s txn) = prewrite_ts s \<and> cur_row (txns s txn) = reserved_row s)"

fun exec_calls :: "'db row_store \<Rightarrow> (nat \<times> TsType) list \<Rightarrow> 'db mvcc \<Rightarrow> 'db mvcc res" where
  "exec_calls S [] s = Inr s"
| "exec_calls S ((txn, ty) # cs) s =
     asserting (call_okb txn ty s)
      (rbind (mvcc_access S txn ty (cur_row (txns s txn)) s) (\<lambda>(rc, t).
       asserting (rc = RCOK) (exec_calls S cs t)))"

lemma call_okb: "call_okb txn ty s \<Longrightarrow> call_ok (\<lambda>_ _. True) txn ty (cur_row (txns s txn)) s"
  by (cases ty) (auto simp: call_okb_def call_ok_def fresh_ts_def holds_reservation_def list_all_length)

lemma exec_calls_run:
  "exec_calls S cs s = Inr t \<Longrightarrow> mrun S (\<lambda>_ _. True) s0 es s \<Longrightarrow> \<exists>es'. mrun S (\<lambda>_ _. True) s0 (es @ es') t"
proof (induction S cs s arbitrary: es rule: exec_calls.induct)
  case (1 S s)
  then show ?case by (auto intro: exI [of _ "[]"])
next
  case (2 S txn ty cs s)
  obtain u where u: "call_okb txn ty s" "mvcc_access S txn ty (cur_row (txns s txn)) s = Inr (RCOK, u)" "exec_calls S cs u = Inr t"
    using 2(2) by (auto simp: res_simps)
  let ?e = "Access txn ty (cur_row (txns s txn)) RCOK"
  have "mrun S (\<lambda>_ _. True) s0 (es @ [?e]) u" by (rule mrun.snoc [OF 2(3) mstep.access [OF call_okb [OF u(1)] u(2)]])
  then obtain es' where "mrun S (\<lambda>_ _. True) s0 ((es @ [?e]) @ es') t" using 2(1) [OF u(2) refl u(3)] by blast
  then show ?case by (intro exI [of _ "?e # es'"]) simp
qed

lemma demo_run:
  assumes "exec_calls map_store cs (demo_row base ats) = Inr t"
  shows "mvcc_inv t" and "\<exists>c. val_ok (\<lambda>_. True) (\<lambda>d. d) c t"
proof -
  have "mvcc_inv (demo_row base ats)" unfolding demo_row_def by (rule mvcc_inv_init) simp
  moreover have "val_ok (\<lambda>_. True) (\<lambda>d. d) [5] (demo_row base ats)" by (simp add: demo_row_def val_ok_def mvcc_init_def)
  moreover obtain es where "mrun map_store (\<lambda>_ _. True) (demo_row base ats) es t"
    using exec_calls_run [OF assms mrun.empty] by auto
  ultimately show "mvcc_inv t" "\<exists>c. val_ok (\<lambda>_. True) (\<lambda>d. d) c t" using map_rows.mrun_inv by blast+
qed

lemma scan_version_none:
  assumes "\<And>i. i \<in> versions hs \<Longrightarrow> bound \<le> his_ts (hs ! i)"
  shows "scan_version tr bound hs = (0, length hs)"
proof -
  have "foldl (scan_step tr bound hs) (0, length hs) [0..<n] = (0, length hs)" if "n \<le> length hs" for n
    using that
  proof (induction n)
    case (Suc n)
    then show ?case using assms [of n] by (auto simp: scan_step_def versions_def not_less)
  qed simp
  then show ?thesis by (simp add: scan_version_def)
qed

lemma case_Inr_iff: "(case m of Inl _ \<Rightarrow> False | Inr x \<Rightarrow> Q x) \<longleftrightarrow> (\<exists>x. m = Inr x \<and> Q x)"
  by (cases m) auto

section \<open>Properties\<close>

text \<open>
  C1: the row's version history is well formed and no assertion of \<open>access\<close> fails. In every run of
  calls from \<open>init\<close> by transactions with timestamps of their own, a reservation being ended by its
  holder, the invariant holds (version count, window and order of versions, one reservation newer
  than all versions and served readers, every waiting request waiting for an older reservation),
  \<open>_latest_row\<close> has the bytes the database has, and every further well-formed call returns.
\<close>

theorem mvcc_run_safe:
  assumes "row_storage S dinv drow rvalid" and "dinv d" and "drow d key = Some c" and "length c = sz"
    and "\<forall>n. length (jk n) = sz" and "mrun S rvalid (mvcc_init key sz pts pid jk tx ats d) es s"
  shows "mvcc_inv s \<and> (\<exists>c. val_ok dinv drow c s) \<and>
    (\<forall>txn ty row. call_ok rvalid txn ty row s \<longrightarrow> (\<exists>rc s'. mvcc_access S txn ty row s = Inr (rc, s')))"
proof -
  let ?s0 = "mvcc_init key sz pts pid jk tx ats d"
  have 0: "mvcc_inv ?s0" "val_ok dinv drow c ?s0"
    using assms(2-5) mvcc_inv_init by (simp_all add: val_ok_def mvcc_init_def)
  obtain c' where s: "mvcc_inv s" "val_ok dinv drow c' s"
    using row_storage.mrun_inv [OF assms(1,6) 0] by blast
  then show ?thesis using row_storage.mvcc_access_ok [OF assms(1) s] by metis
qed

theorem mvcc_run_safe_witness:
  "\<exists>s rc t. mrun map_store (\<lambda>_ _. True) (demo_row 0 []) [Access 1 P_REQ None RCOK] s \<and> mvcc_inv s \<and>
     mvcc_access map_store 1 W_REQ (cur_row (txns s 1)) s = Inr (rc, t)"
proof -
  have "case mvcc_access map_store 1 P_REQ None (demo_row 0 []) of Inl _ \<Rightarrow> False
     | Inr (rc, s) \<Rightarrow> rc = RCOK \<and> exists_prewrite s \<and> txn_ts (txns s 1) = prewrite_ts s \<and>
         cur_row (txns s 1) = reserved_row s \<and> call_okb 1 W_REQ s"
    by code_simp
  then obtain s where s: "mvcc_access map_store 1 P_REQ None (demo_row 0 []) = Inr (RCOK, s)"
    "exists_prewrite s" "txn_ts (txns s 1) = prewrite_ts s" "cur_row (txns s 1) = reserved_row s" "call_okb 1 W_REQ s"
    unfolding case_Inr_iff split_paired_Ex prod.case by (auto simp del: exec_calls.simps)
  have "cur_row (txns (demo_row 0 []) 1) = None" by (simp add: demo_row_def mvcc_init_def)
  moreover have "call_okb 1 P_REQ (demo_row 0 [])" by code_simp
  ultimately have "call_ok (\<lambda>_ _. True) 1 P_REQ None (demo_row 0 [])" using call_okb by metis
  from mstep.access [OF this s(1)] have "mrun map_store (\<lambda>_ _. True) (demo_row 0 []) ([] @ [Access 1 P_REQ None RCOK]) s"
    by (rule mrun.snoc [OF mrun.empty])
  then have r: "mrun map_store (\<lambda>_ _. True) (demo_row 0 []) [Access 1 P_REQ None RCOK] s" by simp
  have "call_ok (\<lambda>_ _. True) 1 W_REQ (cur_row (txns s 1)) s"
    by (rule call_okb [OF s(5)])
  then show ?thesis
    using mvcc_run_safe [OF map_rows.row_storage_axioms _ _ _ _ r [unfolded demo_row_def], of "[5]"] r by auto
qed



text \<open>
  C8: writes respect the readers. Once a read has been given the newest version of the row, no
  later write of any run commits with a smaller timestamp than that reader's; and every write
  commits with a larger timestamp than all versions before it.
\<close>

theorem writers_after_readers:
  assumes "row_storage S dinv drow rvalid" and "mvcc_inv s" and "val_ok dinv drow c s"
    and "mstep S rvalid s (Access rd R_REQ row RCOK) t" and "latest_wts s < txn_ts (txns s rd)"
    and "mrun S rvalid t es u" and "mstep S rvalid u (Access wr W_REQ row' rc) v"
  shows "txn_ts (txns s rd) \<le> txn_ts (txns u wr) \<and> latest_wts u < txn_ts (txns u wr)"
proof -
  have acc: "call_ok rvalid rd R_REQ row s" "access_read S rd s = Inr (RCOK, t)"
    using assms(4) by (auto elim!: mstep_accessE simp: mvcc_access_def)
  have served: "txn_ts (txns s rd) \<le> max_served_rts t"
    using row_storage.access_read_ok [OF assms(1-3) acc(1)] acc(2) assms(5) by (metis Inr_inject prod.inject)
  obtain c1 where t: "mvcc_inv t" "val_ok dinv drow c1 t" using row_storage.mstep_inv [OF assms(1,4,2,3)] by blast
  have u: "mvcc_inv u" "max_served_rts t \<le> max_served_rts u" using row_storage.mrun_inv [OF assms(1,6) t] by blast+
  have "latest_wts u < txn_ts (txns u wr) \<and> max_served_rts u \<le> txn_ts (txns u wr)"
    by (rule row_storage.write_after_readers [OF assms(1,7) u(1)])
  then show ?thesis using served u(2) by auto
qed

theorem writers_after_readers_witness:
  "\<exists>t u v. mvcc_access map_store 2 R_REQ None (demo_row 0 []) = Inr (RCOK, t) \<and>
     exec_calls map_store [(3, P_REQ)] t = Inr u \<and>
     mvcc_access map_store 3 W_REQ (cur_row (txns u 3)) u = Inr (RCOK, v) \<and>
     txn_ts (txns (demo_row 0 []) 2) \<le> txn_ts (txns u 3)"
proof -
  have "case mvcc_access map_store 2 R_REQ None (demo_row 0 []) of Inl _ \<Rightarrow> False
    | Inr (rc, t) \<Rightarrow> rc = RCOK \<and> (case exec_calls map_store [(3, P_REQ)] t of Inl _ \<Rightarrow> False
      | Inr u \<Rightarrow> call_okb 3 W_REQ u \<and> (case mvcc_access map_store 3 W_REQ (cur_row (txns u 3)) u of Inl _ \<Rightarrow> False
        | Inr (rc', v) \<Rightarrow> rc' = RCOK))"
    by code_simp
  then obtain t u v where e: "mvcc_access map_store 2 R_REQ None (demo_row 0 []) = Inr (RCOK, t)"
    "exec_calls map_store [(3, P_REQ)] t = Inr u" "call_okb 3 W_REQ u"
    "mvcc_access map_store 3 W_REQ (cur_row (txns u 3)) u = Inr (RCOK, v)"
    unfolding case_Inr_iff split_paired_Ex prod.case by (auto simp del: exec_calls.simps)
  have "call_okb 2 R_REQ (demo_row 0 [])" by code_simp
  moreover have "cur_row (txns (demo_row 0 []) 2) = None" "latest_wts (demo_row 0 []) < txn_ts (txns (demo_row 0 []) 2)"
    by (simp_all add: demo_row_def mvcc_init_def)
  ultimately have r: "mstep map_store (\<lambda>_ _. True) (demo_row 0 []) (Access 2 R_REQ None RCOK) t"
    "latest_wts (demo_row 0 []) < txn_ts (txns (demo_row 0 []) 2)"
    using mstep.access [OF call_okb] e(1) by metis+
  obtain es where w: "mrun map_store (\<lambda>_ _. True) t es u" using exec_calls_run [OF e(2) mrun.empty] by auto
  have inv: "mvcc_inv (demo_row 0 [])" "\<exists>c. val_ok (\<lambda>_. True) (\<lambda>d. d) c (demo_row 0 [])"
    using demo_run [of "[]" 0 "[]"] by simp_all
  show ?thesis
    using writers_after_readers [OF map_rows.row_storage_axioms inv(1) _ r w mstep.access [OF call_okb [OF e(3)] e(4)]]
      inv(2) e by blast
qed

text \<open>
  C13: no wake-up is lost. When a transaction ends its reservation, by a write or an undo, the call
  returns, every pending request up to the next pending prewrite is answered with a row and no
  longer pending, and if any request was pending at least one is answered.
\<close>

theorem end_of_reservation_wakes:
  assumes "row_storage S dinv drow rvalid" and "mvcc_inv s" and "val_ok dinv drow c s"
    and "ty = W_REQ \<or> ty = XP_REQ" and "call_ok rvalid txn ty row s"
  shows "\<exists>s'. mvcc_access S txn ty row s = Inr (RCOK, s') \<and>
    (\<forall>i < length (requests s). req_valid (requests s ! i) \<and>
        req_ts (requests s ! i) \<le> next_prewrite (prewrite_ts s) (requests s) \<longrightarrow>
        \<not> req_valid (requests s' ! i) \<and> got_row (txns s' (req_txn (requests s ! i)))) \<and>
    ((\<exists>i < length (requests s). req_valid (requests s ! i)) \<longrightarrow>
     (\<exists>i < length (requests s). req_valid (requests s ! i) \<and> \<not> req_valid (requests s' ! i)))"
proof -
  let ?rs = "requests s" and ?npt = "next_prewrite (prewrite_ts s) (requests s)"
  have res: "holds_reservation txn row s" using assms(4,5) by (auto simp: call_ok_def)
  obtain s' where s': "mvcc_access S txn ty row s = Inr (RCOK, s')" "served_upto ?npt ?rs (length ?rs) (requests s') (txns s')"
    using assms(4)
  proof
    assume ty: "ty = W_REQ"
    have "rvalid (m_key s) (row_bytes r)" if "row = Some p" "rows s p = Some r" for p r
      using assms(5) ty that by (simp add: call_ok_def)
    then show ?thesis using row_storage.access_write_ok [OF assms(1-3) res] that ty by (simp add: mvcc_access_def) blast
  next
    assume ty: "ty = XP_REQ"
    then show ?thesis using row_storage.access_abort_ok [OF assms(1-3) res] that by (simp add: mvcc_access_def) blast
  qed
  have one: "\<not> req_valid (requests s' ! i) \<and> got_row (txns s' (req_txn (?rs ! i)))"
    if "i < length ?rs" "req_valid (?rs ! i)" "req_ts (?rs ! i) \<le> ?npt" for i
    using s'(2) that unfolding served_upto_def served_one_def by (meson leD)
  have "\<exists>i < length ?rs. req_valid (?rs ! i) \<and> \<not> req_valid (requests s' ! i)"
    if j: "j < length ?rs" "req_valid (?rs ! j)" for j
  proof (cases "?npt = UINT64_MAX")
    case True
    then show ?thesis using one [OF j] j by auto
  next
    case False
    then have "?npt \<in> prewrites (prewrite_ts s) ?rs" using next_prewrite_least(2) by blast
    then obtain i where "i < length ?rs" "req_valid (?rs ! i)" "req_ts (?rs ! i) = ?npt"
      by (auto simp: prewrites_def in_set_conv_nth)
    then show ?thesis using one [of i] by auto
  qed
  then show ?thesis using s'(1) one by blast
qed

theorem end_of_reservation_wakes_witness:
  "\<exists>s t u. exec_calls map_store [(1, P_REQ)] (demo_row 0 []) = Inr s \<and> mvcc_access map_store 2 R_REQ None s = Inr (WAIT, t) \<and>
     mvcc_access map_store 1 W_REQ (cur_row (txns t 1)) t = Inr (RCOK, u) \<and> got_row (txns u 2)"
proof -
  have "case exec_calls map_store [(1, P_REQ)] (demo_row 0 []) of Inl _ \<Rightarrow> False
    | Inr s \<Rightarrow> call_okb 2 R_REQ s \<and> cur_row (txns s 2) = None \<and> (case mvcc_access map_store 2 R_REQ None s of Inl _ \<Rightarrow> False
      | Inr (rc, t) \<Rightarrow> rc = WAIT \<and> call_okb 1 W_REQ t \<and> map req_valid (requests t) = [True, False, False, False] \<and>
          req_ts (requests t ! 0) \<le> next_prewrite (prewrite_ts t) (requests t) \<and> req_txn (requests t ! 0) = 2)"
    by code_simp
  then obtain s t where e: "exec_calls map_store [(1, P_REQ)] (demo_row 0 []) = Inr s" "call_okb 2 R_REQ s"
    "cur_row (txns s 2) = None" "mvcc_access map_store 2 R_REQ None s = Inr (WAIT, t)" "call_okb 1 W_REQ t"
    "map req_valid (requests t) = [True, False, False, False]"
    "req_ts (requests t ! 0) \<le> next_prewrite (prewrite_ts t) (requests t)" "req_txn (requests t ! 0) = 2"
    unfolding case_Inr_iff split_paired_Ex prod.case by (auto simp del: exec_calls.simps)
  obtain c where s: "mvcc_inv s" "val_ok (\<lambda>_. True) (\<lambda>d. d) c s" using demo_run [OF e(1)] by blast
  have st: "mstep map_store (\<lambda>_ _. True) s (Access 2 R_REQ None WAIT) t"
    using mstep.access [OF call_okb [OF e(2)]] e(3,4) by metis
  obtain c' where t: "mvcc_inv t" "val_ok (\<lambda>_. True) (\<lambda>d. d) c' t" using map_rows.mstep_inv [OF st s] by blast
  have r: "0 < length (requests t)" "req_valid (requests t ! 0)" using e(6) by (auto simp: map_eq_Cons_conv)
  obtain u where u: "mvcc_access map_store 1 W_REQ (cur_row (txns t 1)) t = Inr (RCOK, u)"
    "\<forall>i < length (requests t). req_valid (requests t ! i) \<and>
       req_ts (requests t ! i) \<le> next_prewrite (prewrite_ts t) (requests t) \<longrightarrow>
       \<not> req_valid (requests u ! i) \<and> got_row (txns u (req_txn (requests t ! i)))"
    using end_of_reservation_wakes [OF map_rows.row_storage_axioms t disjI1 [OF refl] call_okb [OF e(5)]] by blast
  have "got_row (txns u 2)" using u(2) r e(7,8) by metis
  then show ?thesis using e(1,4) u(1) by blast
qed




text \<open>
  With timestamps from \<open>2^32\<close> on, the scan of a read forgets the upper half of the best timestamp
  found so far: transaction 9 reads version 1 although version 5 is there.
\<close>

lemma read_truncates_timestamp:
  "\<exists>t. exec_calls map_store [(1, P_REQ), (1, W_REQ), (5, P_REQ), (5, W_REQ), (20, P_REQ), (20, W_REQ), (9, R_REQ)]
       (demo_row (2 ^ 32) []) = Inr t \<and> cur_row (txns t 9) = his_row (write_history t ! 3) \<and>
     his_ts (write_history t ! 3) = 2 ^ 32 + 1 \<and> his_valid (write_history t ! 2) \<and> his_ts (write_history t ! 2) = 2 ^ 32 + 5"
proof -
  have "case exec_calls map_store [(1, P_REQ), (1, W_REQ), (5, P_REQ), (5, W_REQ), (20, P_REQ), (20, W_REQ), (9, R_REQ)]
       (demo_row (2 ^ 32) []) of Inl _ \<Rightarrow> False | Inr t \<Rightarrow> cur_row (txns t 9) = his_row (write_history t ! 3) \<and>
     his_ts (write_history t ! 3) = 2 ^ 32 + 1 \<and> his_valid (write_history t ! 2) \<and> his_ts (write_history t ! 2) = 2 ^ 32 + 5"
    by code_simp
  then show ?thesis unfolding case_Inr_iff .
qed

text \<open>A committed write frees \<open>row_\<close>, which transaction 3 was given before and may still be reading.\<close>

lemma write_frees_read_row:
  "\<exists>t. exec_calls map_store [(3, R_REQ), (5, P_REQ), (5, W_REQ)] (demo_row 0 []) = Inr t \<and>
     cur_row (txns t 3) = Some 0 \<and> rows t 0 = None"
proof -
  have "case exec_calls map_store [(3, R_REQ), (5, P_REQ), (5, W_REQ)] (demo_row 0 []) of Inl _ \<Rightarrow> False
    | Inr t \<Rightarrow> cur_row (txns t 3) = Some 0 \<and> (case rows t 0 of None \<Rightarrow> True | Some _ \<Rightarrow> False)"
    by code_simp
  then show ?thesis unfolding case_Inr_iff by (auto simp del: exec_calls.simps split: option.splits)
qed

end
