(* ===== verification/Global_Lock.thy ===== *)
theory Global_Lock
  imports Buffer_Runs Lock_Table Table_Space
begin

text \<open>
  \<open>global_lock/global_lock.cpp\<close>, the coordinator that records which instance owns which page, and
  \<open>global_lock_service/brpc\<close>, the client and server halves of the remote calls between instances
  and coordinator. The transport of a call is an argument: it maps a request to a reply, or to
  \<open>None\<close> where the controller reports a failure. Sizes of type \<open>size_t\<close> and \<open>uint64\<close> are \<open>nat\<close>;
  they have the same width, so passing them on changes nothing.
\<close>

section \<open>Enumerations and messages of the protocol\<close>

datatype RpcLockMode = Rpc_O | Rpc_P | Rpc_S | Rpc_X

datatype RpcRC = Rpc_RCOK | Rpc_Commit | Rpc_Abort | Rpc_WAIT | Rpc_ERROR | Rpc_FINISH | Rpc_TIME_OUT

fun SerializeLockMode :: "LockMode \<Rightarrow> RpcLockMode" where
  "SerializeLockMode LM_O = Rpc_O"
| "SerializeLockMode LM_S = Rpc_S"
| "SerializeLockMode LM_P = Rpc_P"
| "SerializeLockMode LM_X = Rpc_X"

fun SerializeRC :: "RC \<Rightarrow> RpcRC" where
  "SerializeRC RCOK = Rpc_RCOK"
| "SerializeRC Commit = Rpc_Commit"
| "SerializeRC Abort = Rpc_Abort"
| "SerializeRC WAIT = Rpc_WAIT"
| "SerializeRC ERROR = Rpc_ERROR"
| "SerializeRC FINISH = Rpc_FINISH"
| "SerializeRC TIME_OUT = Rpc_TIME_OUT"

fun DeSerializeLockMode :: "RpcLockMode \<Rightarrow> LockMode" where
  "DeSerializeLockMode Rpc_O = LM_O"
| "DeSerializeLockMode Rpc_S = LM_S"
| "DeSerializeLockMode Rpc_P = LM_P"
| "DeSerializeLockMode Rpc_X = LM_X"

fun DeSerializeRC :: "RpcRC \<Rightarrow> RC" where
  "DeSerializeRC Rpc_RCOK = RCOK"
| "DeSerializeRC Rpc_Commit = Commit"
| "DeSerializeRC Rpc_Abort = Abort"
| "DeSerializeRC Rpc_WAIT = WAIT"
| "DeSerializeRC Rpc_ERROR = ERROR"
| "DeSerializeRC Rpc_FINISH = FINISH"
| "DeSerializeRC Rpc_TIME_OUT = TIME_OUT"

record lock_remote_request =
  lq_instance_id :: int
  lq_page_id :: u64
  lq_req_mode :: RpcLockMode
  lq_count :: nat

record lock_remote_reply =
  lr_rc :: RpcRC
  lr_page_buf :: bytes
  lr_count :: nat

record invalid_request =
  iq_page_id :: u64
  iq_count :: nat

record invalid_reply =
  ir_rc :: RpcRC
  ir_page_buf :: bytes
  ir_count :: nat

type_synonym ('q, 'r, 'w) stub = "'q \<Rightarrow> 'w \<Rightarrow> ('r option \<times> 'w) res"

section \<open>The client half\<close>

text \<open>The page of a reply is copied out only if one was asked for.\<close>

definition take_page :: "nat \<Rightarrow> nat \<Rightarrow> bytes \<Rightarrow> bytes \<Rightarrow> bytes res" where
  "take_page count rcount rbuf pbuf =
     (if count > 0
      then asserting (MY_PAGE_SIZE = count)
            (asserting (rcount = count)
              (rbind (read_at rbuf 0 count) (memcpy_at pbuf 0)))
      else Inr pbuf)"

definition Client_LockRemote ::
  "(lock_remote_request, lock_remote_reply, 'w) stub \<Rightarrow> int \<Rightarrow> u64 \<Rightarrow> LockMode \<Rightarrow> bytes \<Rightarrow> nat \<Rightarrow> 'w
   \<Rightarrow> (RC \<times> bytes \<times> 'w) res" where
  "Client_LockRemote stub instance_id pid req_mode pbuf count w =
     rbind (stub \<lparr>lq_instance_id = instance_id, lq_page_id = pid,
                  lq_req_mode = SerializeLockMode req_mode, lq_count = count\<rparr> w) (\<lambda>(reply, w').
       case reply of
         None \<Rightarrow> Inl Assert_Fail
       | Some r \<Rightarrow>
           (let rc = DeSerializeRC (lr_rc r) in
            if TIME_OUT = rc then Inr (TIME_OUT, pbuf, w')
            else if Abort = rc then Inr (Abort, pbuf, w')
            else asserting (RCOK = rc)
                  (rbind (take_page count (lr_count r) (lr_page_buf r) pbuf) (\<lambda>b.
                   Inr (RCOK, b, w')))))"

definition Client_InstanceInitDone :: "(int, unit, 'w) stub \<Rightarrow> int \<Rightarrow> 'w \<Rightarrow> 'w res" where
  "Client_InstanceInitDone stub instance_id w =
     rbind (stub instance_id w) (\<lambda>(reply, w'). case reply of None \<Rightarrow> Inl Assert_Fail | Some _ \<Rightarrow> Inr w')"

definition Client_GlobalLockInitDone :: "(unit, bool, 'w) stub \<Rightarrow> 'w \<Rightarrow> (bool \<times> 'w) res" where
  "Client_GlobalLockInitDone stub w =
     rbind (stub () w) (\<lambda>(reply, w'). case reply of None \<Rightarrow> Inl Assert_Fail | Some b \<Rightarrow> Inr (b, w'))"

definition Client_GetNextTs :: "(unit, u64, 'w) stub \<Rightarrow> 'w \<Rightarrow> (u64 \<times> 'w) res" where
  "Client_GetNextTs stub w =
     rbind (stub () w) (\<lambda>(reply, w'). case reply of None \<Rightarrow> Inl Assert_Fail | Some t \<Rightarrow> Inr (t, w'))"

definition Client_Invalid ::
  "(invalid_request, invalid_reply, 'w) stub \<Rightarrow> u64 \<Rightarrow> bytes \<Rightarrow> nat \<Rightarrow> 'w \<Rightarrow> (RC \<times> bytes \<times> 'w) res" where
  "Client_Invalid stub pid pbuf count w =
     rbind (stub \<lparr>iq_page_id = pid, iq_count = count\<rparr> w) (\<lambda>(reply, w').
       case reply of
         None \<Rightarrow> Inl Assert_Fail
       | Some r \<Rightarrow>
           (let rc = DeSerializeRC (ir_rc r) in
            if TIME_OUT = rc then Inr (TIME_OUT, pbuf, w')
            else asserting (RCOK = rc)
                  (rbind (take_page count (ir_count r) (ir_page_buf r) pbuf) (\<lambda>b.
                   Inr (RCOK, b, w')))))"

definition Client_Test :: "(unit, unit, 'w) stub \<Rightarrow> 'w \<Rightarrow> (int \<times> 'w) res" where
  "Client_Test stub w =
     rbind (stub () w) (\<lambda>(reply, w'). Inr (case reply of None \<Rightarrow> - 1 | Some _ \<Rightarrow> 0, w'))"

text \<open>
  The constructor: \<open>channel_init\<close> is the result of initialising the channel to the address. A
  client is known by the address its channel leads to; the outcome of \<open>Test\<close> is dropped.
\<close>

definition Client_new ::
  "(string \<Rightarrow> int) \<Rightarrow> (string \<Rightarrow> (unit, unit, 'w) stub) \<Rightarrow> string \<Rightarrow> 'w \<Rightarrow> (string \<times> 'w) res" where
  "Client_new channel_init test addr w =
     asserting (channel_init addr = 0)
      (rbind (Client_Test (test addr) w) (\<lambda>(_, w'). Inr (addr, w')))"

section \<open>The coordinator\<close>

definition PROCESS_CNT :: nat where
  "PROCESS_CNT = 2"

definition FILE_SIZE :: u64 where
  "FILE_SIZE = 1677721600"

record instance_info =
  info_instance_id :: int
  info_host :: string
  info_init_done :: bool
  info_client :: "string option"

text \<open>\<open>gl_table\<close> is \<open>write_ins_id\<close> of the nodes of \<open>lock_service_table_\<close>, negative for no owner.\<close>

record 'd global_lock =
  gl_init_done :: bool
  gl_hosts :: "int \<Rightarrow> string option"
  gl_instances :: "instance_info list"
  gl_table :: "u64 \<Rightarrow> int option"
  gl_timestamp :: u64
  gl_buffer :: "'d buffer"

definition GLockNode_new :: int where
  "GLockNode_new = - 1"

text \<open>
  The loop that fetches every page once, here and in \<open>ManagerInstance::Init\<close>; \<open>junk\<close> is what the
  local array holds.
\<close>

fun warm_buffer :: "'d disk_ops \<Rightarrow> (u64 \<Rightarrow> bytes) \<Rightarrow> u64 list \<Rightarrow> 'd buffer \<Rightarrow> 'd buffer res" where
  "warm_buffer D junk [] s = Inr s"
| "warm_buffer D junk (i # is) s =
     rbind (BufferGet D i (junk i) MY_PAGE_SIZE s) (\<lambda>(_, s'). warm_buffer D junk is s')"

definition page_numbers :: "u64 \<Rightarrow> u64 \<Rightarrow> u64 list" where
  "page_numbers a b = map of_nat [unat a..<unat b]"

text \<open>
  The constructor. The workload, table space and index are read from their files first; the loaded
  table space is the argument \<open>ts\<close>. Value-initialised entries have an empty host and a null client.
\<close>

definition GlobalLock_new ::
  "'d disk_ops \<Rightarrow> (nat \<Rightarrow> u64) \<Rightarrow> (u64 \<Rightarrow> bytes) \<Rightarrow> table_space \<Rightarrow> (int \<Rightarrow> string option) \<Rightarrow> 'd \<Rightarrow> 'd global_lock res" where
  "GlobalLock_new D vs junk ts hosts d =
     (let pages = page_numbers 0 (GetLastPageId ts + 1) in
      rbind (Buffer_new vs FILE_SIZE (of_nat MY_PAGE_SIZE) d) (\<lambda>buf.
      rbind (warm_buffer D junk pages buf) (\<lambda>buf'.
      Inr \<lparr>gl_init_done = False, gl_hosts = hosts,
           gl_instances = replicate PROCESS_CNT
             \<lparr>info_instance_id = - 1, info_host = [], info_init_done = False, info_client = None\<rparr>,
           gl_table = map_of (map (\<lambda>i. (i, GLockNode_new)) pages),
           gl_timestamp = 1, gl_buffer = buf'\<rparr>)))"

text \<open>
  \<open>LockRemote\<close>, under the mutex of the page's node. \<open>inval\<close> is the client call \<open>Invalid\<close> to the
  process at an address, \<open>'w\<close> the state of the other processes; \<open>write_ins_id\<close> is an \<open>int\<close>.
\<close>

definition GlobalLock_LockRemote ::
  "'d disk_ops \<Rightarrow> (string \<Rightarrow> u64 \<Rightarrow> bytes \<Rightarrow> nat \<Rightarrow> 'w \<Rightarrow> (RC \<times> bytes \<times> 'w) res) \<Rightarrow> u64 \<Rightarrow> u64 \<Rightarrow> bytes \<Rightarrow> nat
   \<Rightarrow> 'd global_lock \<Rightarrow> 'w \<Rightarrow> (RC \<times> bytes \<times> 'd global_lock \<times> 'w) res" where
  "GlobalLock_LockRemote D inval ins_id pid pbuf count g w =
     (let owner = signed_take_bit 31 (uint ins_id);
          g' = g\<lparr>gl_table := (gl_table g)(pid \<mapsto> owner)\<rparr> in
      case gl_table g pid of
        None \<Rightarrow> Inl Assert_Fail
      | Some j \<Rightarrow>
          if j \<ge> 0
          then if nat j < length (gl_instances g)
               then (case info_client (gl_instances g ! nat j) of
                       None \<Rightarrow> Inl Bad_Deref
                     | Some c \<Rightarrow> rbind (inval c pid pbuf count w) (\<lambda>(rc, b, w').
                                 Inr (rc, b, g', w')))
               else Inl Out_Of_Bounds
          else if count > 0
          then rbind (BufferGet D pid pbuf count (gl_buffer g)) (\<lambda>(b, buf).
               Inr (RCOK, b, g'\<lparr>gl_buffer := buf\<rparr>, w))
          else Inr (RCOK, pbuf, g', w))"

definition GlobalLock_GetNextTs :: "u64 \<Rightarrow> 'd global_lock \<Rightarrow> u64 \<times> 'd global_lock" where
  "GlobalLock_GetNextTs thread_id g = (gl_timestamp g, g\<lparr>gl_timestamp := gl_timestamp g + 1\<rparr>)"

text \<open>\<open>hosts_map_[i]\<close> inserts an empty string where there is no entry.\<close>

definition host_at :: "int \<Rightarrow> (int \<Rightarrow> string option) \<Rightarrow> string \<times> (int \<Rightarrow> string option)" where
  "host_at i m = (case m i of Some h \<Rightarrow> (h, m) | None \<Rightarrow> ([], m(i \<mapsto> [])))"

definition set_instance_i ::
  "(string \<Rightarrow> int) \<Rightarrow> (string \<Rightarrow> (unit, unit, 'w) stub) \<Rightarrow> int \<Rightarrow> 'd global_lock \<Rightarrow> 'w \<Rightarrow> ('d global_lock \<times> 'w) res" where
  "set_instance_i channel_init test i g w =
     asserting (0 \<le> i \<and> i < int PROCESS_CNT)
      (asserting (\<not> info_init_done (gl_instances g ! nat i))
        (case host_at i (gl_hosts g) of (h, m) \<Rightarrow>
           rbind (Client_new channel_init test h w) (\<lambda>(c, w').
           Inr (g\<lparr>gl_hosts := m,
                  gl_instances := (gl_instances g)[nat i :=
                    \<lparr>info_instance_id = i, info_host = h, info_init_done = True, info_client = Some c\<rparr>]\<rparr>, w'))))"

definition GlobalLock_init_done :: "'d global_lock \<Rightarrow> bool \<times> 'd global_lock" where
  "GlobalLock_init_done g =
     (if list_all info_init_done (gl_instances g) then (True, g\<lparr>gl_init_done := True\<rparr>) else (False, g))"

section \<open>The server half\<close>

text \<open>\<open>std::stoi(host.substr(host.find(':') + 1))\<close>: without a colon the whole string is parsed.\<close>

definition after_colon :: "string \<Rightarrow> string" where
  "after_colon host = (if CHR '':'' \<in> set host then tl (dropWhile (\<lambda>c. c \<noteq> CHR '':'') host) else host)"

definition stoi :: "string \<Rightarrow> int res" where
  "stoi s =
     (let t = dropWhile (\<lambda>c. c \<in> set [CHR '' '', CHR 0x09, CHR 0x0A, CHR 0x0B, CHR 0x0C, CHR 0x0D]) s;
          neg = (t \<noteq> [] \<and> hd t = CHR ''-'');
          u = (if t \<noteq> [] \<and> (hd t = CHR ''-'' \<or> hd t = CHR ''+'') then tl t else t);
          ds = takeWhile is_digit u;
          v = (if neg then - int (dec_value ds) else int (dec_value ds)) in
      if ds = [] \<or> v < - (2 ^ 31) \<or> 2 ^ 31 \<le> v then Inl Exception else Inr v)"

text \<open>\<open>add_service\<close> and \<open>start\<close> are the results of the server library's calls.\<close>

definition Impl_Start :: "int \<Rightarrow> (int \<Rightarrow> int) \<Rightarrow> string \<Rightarrow> int res" where
  "Impl_Start add_service start host =
     asserting (add_service = 0)
      (rbind (stoi (after_colon host)) (\<lambda>port. asserting (start port = 0) (Inr port)))"

text \<open>
  The handler of an invalidation on the owning instance; \<open>junk\<close> is what the local array holds. For
  page 0 the mode is checked once more.
\<close>

definition Impl_Invalid ::
  "(u64 \<Rightarrow> bytes \<Rightarrow> nat \<Rightarrow> 'b \<Rightarrow> (bytes \<times> 'b) res) \<Rightarrow> bytes \<Rightarrow> invalid_request \<Rightarrow> lock_table \<Rightarrow> 'b
   \<Rightarrow> (invalid_reply \<times> lock_table \<times> 'b) res" where
  "Impl_Invalid bget junk q tbl b =
     (let count = iq_count q; pid = iq_page_id q in
      asserting (if count > 0 then count = MY_PAGE_SIZE else 0 = count)
       (rbind (LockTable_LockInvalid bget pid junk count tbl b) (\<lambda>(rc, buf, tbl', b').
        asserting (RCOK = rc)
         (asserting (pid = 0 \<longrightarrow> (case tbl' pid of None \<Rightarrow> False | Some n \<Rightarrow> lock_mode n = LM_O))
          (rbind (read_at buf 0 count) (\<lambda>out.
           Inr (\<lparr>ir_rc = Rpc_RCOK, ir_page_buf = out, ir_count = count\<rparr>, tbl', b')))))))"

text \<open>
  The handler of a lock request on the coordinator; \<open>glock\<close> is \<open>GlobalLock::LockRemote\<close>, which
  gets a new array (holding \<open>junk\<close>) or a null pointer. After \<open>TIME_OUT\<close> control reaches the
  assertion.
\<close>

definition Impl_LockRemote ::
  "(u64 \<Rightarrow> u64 \<Rightarrow> bytes \<Rightarrow> nat \<Rightarrow> 'g \<Rightarrow> (RC \<times> bytes \<times> 'g) res) \<Rightarrow> bytes \<Rightarrow> lock_remote_request \<Rightarrow> 'g
   \<Rightarrow> (lock_remote_reply \<times> 'g) res" where
  "Impl_LockRemote glock junk q g =
     (let count = lq_count q in
      asserting (if count > 0 then MY_PAGE_SIZE = count else 0 = count)
       (rbind (glock (of_int (lq_instance_id q)) (lq_page_id q) (if count > 0 then junk else []) count g)
         (\<lambda>(rc, buf, g').
          if Abort = rc
          then Inr (\<lparr>lr_rc = Rpc_Abort, lr_page_buf = [], lr_count = 0\<rparr>, g')
          else asserting (RCOK = rc)
                (rbind (if count > 0 then read_at buf 0 count else Inr []) (\<lambda>out.
                 Inr (\<lparr>lr_rc = Rpc_RCOK, lr_page_buf = out, lr_count = count\<rparr>, g'))))))"

definition Impl_InstanceInitDone ::
  "(string \<Rightarrow> int) \<Rightarrow> (string \<Rightarrow> (unit, unit, 'w) stub) \<Rightarrow> int \<Rightarrow> 'd global_lock \<Rightarrow> 'w \<Rightarrow> (unit \<times> 'd global_lock \<times> 'w) res" where
  "Impl_InstanceInitDone channel_init test i g w =
     rbind (set_instance_i channel_init test i g w) (\<lambda>(g', w'). Inr ((), g', w'))"

definition Impl_GlobalLockInitDone :: "'d global_lock \<Rightarrow> bool \<times> 'd global_lock" where
  "Impl_GlobalLockInitDone g = GlobalLock_init_done g"

definition Impl_GetNextTs :: "'d global_lock \<Rightarrow> u64 \<times> 'd global_lock" where
  "Impl_GetNextTs g = GlobalLock_GetNextTs (- 1) g"

section \<open>Round trips of the encodings\<close>

lemma LockMode_roundtrip [simp]: "DeSerializeLockMode (SerializeLockMode m) = m"
  by (cases m) simp_all

lemma RC_roundtrip [simp]: "DeSerializeRC (SerializeRC rc) = rc"
  by (cases rc) simp_all

lemma after_colon_eq: "CHR '':'' \<notin> set h \<Longrightarrow> after_colon (h @ CHR '':'' # p) = p"
  by (induction h) (auto simp: after_colon_def)

lemma takeWhile_dec_string [simp]: "takeWhile is_digit (dec_string n) = dec_string n"
  by (simp add: takeWhile_eq_all_conv dec_string_digits)

lemma not_is_digit [simp]:
  "\<not> is_digit CHR '' ''" "\<not> is_digit CHR ''-''" "\<not> is_digit CHR ''+''" "\<not> is_digit CHR 0x09" "\<not> is_digit CHR 0x0A"
  "\<not> is_digit CHR 0x0B" "\<not> is_digit CHR 0x0C" "\<not> is_digit CHR 0x0D"
  by (simp_all add: is_digit_def)

lemma stoi_dec_string:
  assumes "n < 2 ^ 31"
  shows "stoi (dec_string n) = Inr (int n)"
proof -
  obtain c cs where d: "dec_string n = c # cs" by (cases "dec_string n") simp_all
  then have "is_digit c" using dec_string_digits [of c n] by simp
  then have c: "c \<noteq> x" if "\<not> is_digit x" for x using that by auto
  have tw: "takeWhile is_digit (c # cs) = c # cs" and v: "dec_value (c # cs) = n"
    unfolding d [symmetric] by simp_all
  have "\<not> int n < - (2 ^ 31)" "\<not> 2 ^ 31 \<le> int n" using assms by simp_all
  then show ?thesis
    unfolding d stoi_def Let_def by (simp add: c tw v del: takeWhile.simps)
qed

text \<open>A server started for an address \<open>host:port\<close> listens on that port.\<close>

lemma Impl_Start_port:
  assumes "CHR '':'' \<notin> set h" and "p < 2 ^ 31" and "start (int p) = 0"
  shows "Impl_Start 0 start (h @ CHR '':'' # dec_string p) = Inr (int p)"
  using assms by (simp add: Impl_Start_def after_colon_eq stoi_dec_string)

end
