(* ===== verification/Ycsb_Query.thy ===== *)
theory Ycsb_Query
  imports Globals Complex_Main "HOL-Library.Multiset"
begin

text \<open>
  \<open>instance/benchmarks/ycsb_query.cpp\<close> and \<open>query.cpp\<close>: the generator of the requests of a query
  and the per-thread queues of generated queries. The \<open>drand48\<close> family of the C library is a
  parameter; \<open>double\<close> arithmetic is taken as arithmetic on \<open>real\<close>.
\<close>

section \<open>Requests and the random source\<close>

record ycsb_request =
  rtype :: access_t
  rkey :: u64
  rvalue :: u8
  scan_len :: nat

text \<open>\<open>drand48_r\<close> and \<open>lrand48_r\<close> on the thread's buffer, and the ranges they document.\<close>

record 'r rng =
  drand48 :: "'r \<Rightarrow> real \<times> 'r"
  lrand48 :: "'r \<Rightarrow> int \<times> 'r"

definition rng_ok :: "'r rng \<Rightarrow> bool" where
  "rng_ok R \<longleftrightarrow> (\<forall>s. 0 \<le> fst (drand48 R s) \<and> fst (drand48 R s) < 1 \<and>
     0 \<le> fst (lrand48 R s) \<and> fst (lrand48 R s) < 2 ^ 31)"

text \<open>The globals of \<open>common/global.cpp\<close> the generator reads.\<close>

record query_cfg =
  g_virtual_part_cnt :: nat
  g_part_cnt :: nat
  g_part_per_txn :: nat
  g_perc_multi_part :: real
  g_read_perc :: real
  g_write_perc :: real
  g_zipf_theta :: real
  g_synth_table_size :: u64
  g_req_per_query :: nat
  g_key_order :: bool

definition SCAN_LEN :: nat where
  "SCAN_LEN = 20"

definition default_cfg :: query_cfg where
  "default_cfg =
     \<lparr>g_virtual_part_cnt = 1, g_part_cnt = 1, g_part_per_txn = 1, g_perc_multi_part = 1,
      g_read_perc = 9 / 10, g_write_perc = 1 / 10, g_zipf_theta = 6 / 10,
      g_synth_table_size = 20889600, g_req_per_query = 16, g_key_order = False\<rparr>"

section \<open>Zipfian keys\<close>

definition zeta :: "nat \<Rightarrow> real \<Rightarrow> real" where
  "zeta n theta = foldl (\<lambda>sum i. sum + (1 / real i) powr theta) 0 [1..<Suc n]"

text \<open>The static members, computed once by \<open>calculateDenom\<close>.\<close>

record zipf_static =
  the_n :: u64
  denom :: real

definition table_size_of :: "query_cfg \<Rightarrow> u64 res" where
  "table_size_of C =
     (if g_virtual_part_cnt C = 0 then Inl Div_By_Zero
      else Inr (g_synth_table_size C div of_nat (g_virtual_part_cnt C)))"

definition calculateDenom :: "query_cfg \<Rightarrow> zipf_static \<Rightarrow> zipf_static res" where
  "calculateDenom C z =
     asserting (the_n z = 0)
      (rbind (table_size_of C) (\<lambda>table_size.
       Inr \<lparr>the_n = table_size - 1, denom = zeta (unat (table_size - 1)) (g_zipf_theta C)\<rparr>))"

text \<open>\<open>zipf\<close> for the drawn number \<open>u\<close>; \<open>zeta_2_theta\<close> is the member set by \<open>init\<close>.\<close>

definition zipf :: "query_cfg \<Rightarrow> zipf_static \<Rightarrow> real \<Rightarrow> u64 \<Rightarrow> real \<Rightarrow> real \<Rightarrow> u64 res" where
  "zipf C z zeta_2_theta n theta u =
     asserting (the_n z = n)
      (asserting (theta = g_zipf_theta C)
       (let alpha = 1 / (1 - theta);
            zetan = denom z;
            eta = (1 - (2 / real (unat n)) powr (1 - theta)) / (1 - zeta_2_theta / zetan);
            uz = u * zetan in
        if uz < 1 then Inr 1
        else if uz < 1 + (1 / 2) powr theta then Inr 2
        else Inr (1 + of_nat (nat \<lfloor>real (unat n) * (eta * u - eta + 1) powr alpha\<rfloor>))))"

section \<open>Generating the requests of a query\<close>

text \<open>
  The partitions a query touches: the loop appends a partition unless it is there already; the
  array has room for \<open>g_req_per_query\<close> entries. \<open>FIRST_PART_LOCAL\<close> is true.
\<close>

fun fill_parts :: "nat \<Rightarrow> nat \<Rightarrow> nat \<Rightarrow> nat list \<Rightarrow> u64 list \<Rightarrow> u64 list res" where
  "fill_parts room thd r [] parts = Inr parts"
| "fill_parts room thd r (i # is) parts =
     (if length parts < room
      then (let p = of_nat (if i = 0 then thd else r) in
            fill_parts room thd r is (if p \<in> set parts then parts else parts @ [p]))
      else Inl Out_Of_Bounds)"

definition choose_parts :: "query_cfg \<Rightarrow> nat \<Rightarrow> real \<Rightarrow> int \<Rightarrow> u64 list res" where
  "choose_parts C thd r rint =
     (if r < g_perc_multi_part C
      then if g_part_per_txn C = 0 then Inr []
           else if g_virtual_part_cnt C = 0 then Inl Div_By_Zero
           else fill_parts (g_req_per_query C) (thd mod g_virtual_part_cnt C)
                  (nat rint mod g_virtual_part_cnt C) [0..<g_part_per_txn C] []
      else if g_part_cnt C = 0 then Inl Div_By_Zero
      else if g_req_per_query C = 0 then Inl Out_Of_Bounds
      else Inr [of_nat (thd mod g_part_cnt C)])"

text \<open>
  The local variables of the loop: the filled prefix of \<open>requests\<close>, the field \<open>scan_len\<close> of the
  slot behind it, the keys, the count.
\<close>

record gen_state =
  gs_reqs :: "ycsb_request list"
  gs_slot_len :: nat
  gs_keys :: "u64 set"
  gs_access_cnt :: int

definition pick_rtype :: "query_cfg \<Rightarrow> real \<Rightarrow> access_t" where
  "pick_rtype C r =
     (if r < g_read_perc C then RD
      else if r \<ge> g_read_perc C \<and> r \<le> g_write_perc C + g_read_perc C then WR
      else SCAN)"

definition scan_keys :: "query_cfg \<Rightarrow> u64 \<Rightarrow> u64 \<Rightarrow> nat \<Rightarrow> u64 set" where
  "scan_keys C row_id part_id len = (\<lambda>i. (row_id + of_nat i) * of_nat (g_part_cnt C) + part_id) ` {..<len}"

text \<open>
  A request that clashes with an earlier one is dropped (\<open>continue\<close>): its slot is overwritten by the
  next one. The field \<open>scan_len\<close> is written for scans only.
\<close>

definition add_request :: "query_cfg \<Rightarrow> access_t \<Rightarrow> u64 \<Rightarrow> u64 \<Rightarrow> u8 \<Rightarrow> gen_state \<Rightarrow> gen_state" where
  "add_request C ty row_id part_id v s =
     (let key = row_id * of_nat (g_virtual_part_cnt C) + part_id;
          len = (if ty = SCAN then SCAN_LEN else gs_slot_len s);
          req = \<lparr>rtype = ty, rkey = key, rvalue = v, scan_len = len\<rparr> in
      if ty = RD \<or> ty = WR
      then if key \<notin> gs_keys s
           then s\<lparr>gs_reqs := gs_reqs s @ [req], gs_slot_len := 0, gs_keys := insert key (gs_keys s),
                  gs_access_cnt := gs_access_cnt s + 1\<rparr>
           else s
      else if scan_keys C row_id part_id len \<inter> gs_keys s \<noteq> {} then s\<lparr>gs_slot_len := len\<rparr>
      else s\<lparr>gs_reqs := gs_reqs s @ [req], gs_slot_len := 0,
             gs_keys := scan_keys C row_id part_id len \<union> gs_keys s,
             gs_access_cnt := gs_access_cnt s + int SCAN_LEN\<rparr>)"

definition gen_one ::
  "'r rng \<Rightarrow> query_cfg \<Rightarrow> zipf_static \<Rightarrow> real \<Rightarrow> u64 list \<Rightarrow> nat \<Rightarrow> gen_state \<Rightarrow> 'r \<Rightarrow> (gen_state \<times> 'r) res" where
  "gen_one R C z z2 parts tmp s rs =
     (case drand48 R rs of (r, rs1) \<Rightarrow>
      let ith = tmp * length parts div g_req_per_query C in
      if ith < length parts
      then rbind (table_size_of C) (\<lambda>table_size.
           case drand48 R rs1 of (u, rs2) \<Rightarrow>
           rbind (zipf C z z2 (table_size - 1) (g_zipf_theta C) u) (\<lambda>row_id.
           asserting (row_id < table_size)
            (case lrand48 R rs2 of (v, rs3) \<Rightarrow>
             Inr (add_request C (pick_rtype C r) row_id (parts ! ith) (of_int (v mod 256)) s, rs3))))
      else Inl Out_Of_Bounds)"

fun gen_loop ::
  "'r rng \<Rightarrow> query_cfg \<Rightarrow> zipf_static \<Rightarrow> real \<Rightarrow> u64 list \<Rightarrow> nat list \<Rightarrow> gen_state \<Rightarrow> 'r \<Rightarrow> (gen_state \<times> 'r) res" where
  "gen_loop R C z z2 parts [] s rs = Inr (s, rs)"
| "gen_loop R C z z2 parts (t # ts) s rs =
     rbind (gen_one R C z z2 parts t s rs) (\<lambda>(s', rs'). gen_loop R C z z2 parts ts s' rs')"

subsection \<open>Sorting by key\<close>

text \<open>One pass of the inner loop over \<open>j < i\<close>: neighbours out of order are exchanged.\<close>

fun bubble :: "nat \<Rightarrow> ycsb_request list \<Rightarrow> ycsb_request list" where
  "bubble 0 qs = qs"
| "bubble (Suc i) (a # b # qs) =
     (if rkey a > rkey b then b # bubble i (a # qs) else a # bubble i (b # qs))"
| "bubble (Suc i) qs = qs"

text \<open>The outer loop counts \<open>i\<close> down from \<open>request_cnt - 1\<close> to 1.\<close>

fun sort_requests :: "nat \<Rightarrow> ycsb_request list \<Rightarrow> ycsb_request list" where
  "sort_requests 0 qs = qs"
| "sort_requests (Suc i) qs = sort_requests i (bubble (Suc i) qs)"

text \<open>The final check; for no request at all \<open>request_cnt - 1\<close> wraps and the loop leaves the array.\<close>

definition check_order :: "ycsb_request list \<Rightarrow> unit res" where
  "check_order qs =
     (if qs = [] then Inl Out_Of_Bounds
      else asserting (\<forall>i < length qs - 1. rkey (qs ! i) < rkey (qs ! Suc i)) (Inr ()))"

definition gen_requests ::
  "'r rng \<Rightarrow> query_cfg \<Rightarrow> zipf_static \<Rightarrow> real \<Rightarrow> nat \<Rightarrow> 'r \<Rightarrow> (ycsb_request list \<times> u64 list \<times> 'r) res" where
  "gen_requests R C z z2 thd rs =
     (case drand48 R rs of (r, rs1) \<Rightarrow>
      case lrand48 R rs1 of (rint, rs2) \<Rightarrow>
      rbind (choose_parts C thd r rint) (\<lambda>parts.
      rbind (gen_loop R C z z2 parts [0..<g_req_per_query C]
               \<lparr>gs_reqs = [], gs_slot_len = 0, gs_keys = {}, gs_access_cnt = 0\<rparr> rs2) (\<lambda>(s, rs3).
      if g_key_order C
      then (let qs = sort_requests (length (gs_reqs s) - 1) (gs_reqs s) in
            rbind (check_order qs) (\<lambda>_. Inr (qs, parts, rs3)))
      else Inr (gs_reqs s, parts, rs3))))"

text \<open>\<open>ycsb_query::init\<close>; the two arrays come from the thread's arena.\<close>

definition ycsb_query_init ::
  "'r rng \<Rightarrow> query_cfg \<Rightarrow> zipf_static \<Rightarrow> nat \<Rightarrow> 'r \<Rightarrow> (ycsb_request list \<times> u64 list \<times> 'r) res" where
  "ycsb_query_init R C z thd rs =
     asserting (the_n z \<noteq> 0)
      (asserting (denom z \<noteq> 0) (gen_requests R C z (zeta 2 (g_zipf_theta C)) thd rs))"

section \<open>The queues of the threads\<close>

definition MAX_TXN_PER_PART :: nat where
  "MAX_TXN_PER_PART = 1000"

definition ABORT_BUFFER_SIZE :: nat where
  "ABORT_BUFFER_SIZE = 10"

definition WARMUP :: nat where
  "WARMUP = 0"

record query_thd =
  q_idx :: nat
  queries :: "ycsb_request list list"

definition query_cnt :: "nat \<Rightarrow> nat" where
  "query_cnt thread_cnt = WARMUP div thread_cnt + MAX_TXN_PER_PART + 4 + ABORT_BUFFER_SIZE"

fun init_queries ::
  "'r rng \<Rightarrow> query_cfg \<Rightarrow> zipf_static \<Rightarrow> nat \<Rightarrow> nat \<Rightarrow> 'r \<Rightarrow> (ycsb_request list list \<times> 'r) res" where
  "init_queries R C z thd 0 rs = Inr ([], rs)"
| "init_queries R C z thd (Suc n) rs =
     rbind (ycsb_query_init R C z thd rs) (\<lambda>(q, _, rs1).
     rbind (init_queries R C z thd n rs1) (\<lambda>(qs, rs2). Inr (q # qs, rs2)))"

text \<open>\<open>seed\<close> is what \<open>srand48_r\<close> makes of its argument.\<close>

definition Query_thd_init ::
  "'r rng \<Rightarrow> query_cfg \<Rightarrow> zipf_static \<Rightarrow> (nat \<Rightarrow> 'r) \<Rightarrow> nat \<Rightarrow> nat \<Rightarrow> query_thd res" where
  "Query_thd_init R C z seed thread_cnt thd =
     rbind (init_queries R C z thd (query_cnt thread_cnt) (seed (thd + 1))) (\<lambda>(qs, _).
     Inr \<lparr>q_idx = 0, queries = qs\<rparr>)"

definition get_next_query :: "query_thd \<Rightarrow> (ycsb_request list \<times> query_thd) res" where
  "get_next_query t =
     (if q_idx t < length (queries t)
      then Inr (queries t ! q_idx t, t\<lparr>q_idx := Suc (q_idx t)\<rparr>)
      else Inl Out_Of_Bounds)"

text \<open>
  \<open>Query_queue::init\<close>: one queue per thread; the initialising threads draw distinct numbers from
  \<open>_next_tid\<close> and fill separate queues.
\<close>

fun init_threads ::
  "'r rng \<Rightarrow> query_cfg \<Rightarrow> zipf_static \<Rightarrow> (nat \<Rightarrow> 'r) \<Rightarrow> nat \<Rightarrow> nat list \<Rightarrow> query_thd list res" where
  "init_threads R C z seed thread_cnt [] = Inr []"
| "init_threads R C z seed thread_cnt (t # ts) =
     rbind (Query_thd_init R C z seed thread_cnt t) (\<lambda>q.
     rbind (init_threads R C z seed thread_cnt ts) (\<lambda>qs. Inr (q # qs)))"

definition Query_queue_init ::
  "'r rng \<Rightarrow> query_cfg \<Rightarrow> (nat \<Rightarrow> 'r) \<Rightarrow> nat \<Rightarrow> zipf_static \<Rightarrow> (query_thd list \<times> zipf_static) res" where
  "Query_queue_init R C seed thread_cnt z =
     rbind (calculateDenom C z) (\<lambda>z'.
     rbind (init_threads R C z' seed thread_cnt [0..<thread_cnt]) (\<lambda>qs. Inr (qs, z')))"

definition Query_queue_get_next_query :: "nat \<Rightarrow> query_thd list \<Rightarrow> (ycsb_request list \<times> query_thd list) res" where
  "Query_queue_get_next_query thd qs =
     (if thd < length qs
      then rbind (get_next_query (qs ! thd)) (\<lambda>(q, t). Inr (q, qs[thd := t]))
      else Inl Out_Of_Bounds)"

section \<open>Bounds of the Zipfian keys\<close>

lemma zeta_0 [simp]: "zeta 0 theta = 0"
  by (simp add: zeta_def)

lemma zeta_Suc: "zeta (Suc n) theta = zeta n theta + (1 / real (Suc n)) powr theta"
  by (simp add: zeta_def)

lemma zeta_2: "zeta 2 theta = 1 + (1 / 2) powr theta"
  by (simp add: zeta_Suc numeral_2_eq_2)

lemma zeta_pos: "0 < zeta (Suc n) theta"
  by (induction n) (simp_all add: zeta_Suc add_pos_pos)

lemma zeta_strict_mono: "m < n \<Longrightarrow> zeta m theta < zeta n theta"
proof (induction n)
  case (Suc n)
  have "zeta n theta < zeta (Suc n) theta" by (simp add: zeta_Suc)
  with Suc show ?case by (cases "m = n") auto
qed simp

text \<open>The third case of \<open>zipf\<close>: the value lies between 3 and \<open>n\<close>.\<close>

lemma zipf_tail:
  fixes theta u :: real
  assumes th: "0 < theta" "theta < 1" and n: "3 \<le> n" and u: "u < 1" "zeta 2 theta \<le> u * zeta n theta"
  defines "eta \<equiv> (1 - (2 / real n) powr (1 - theta)) / (1 - zeta 2 theta / zeta n theta)"
  shows "2 \<le> real n * (eta * u - eta + 1) powr (1 / (1 - theta))"
    and "real n * (eta * u - eta + 1) powr (1 / (1 - theta)) < real n"
proof -
  let ?z = "zeta 2 theta / zeta n theta" and ?q = "(2 / real n) powr (1 - theta)" and ?x = "eta * u - eta + 1"
  have zn: "0 < zeta n theta" using zeta_pos [of "n - 1"] n by simp
  have "zeta 2 theta < zeta n theta" using zeta_strict_mono [of 2 n] n by simp
  then have z: "0 < 1 - ?z" using zn by simp
  have q: "0 < ?q" "?q < 1" using powr_less_mono2 [of "1 - theta" "2 / real n" 1] n th by simp_all
  have eta: "0 < eta" using z q(2) by (simp add: eta_def)
  have "?z \<le> u" using u(2) zn by (simp add: pos_divide_le_eq)
  then have "eta * (1 - u) \<le> eta * (1 - ?z)" using eta by (intro mult_left_mono) auto
  also have "\<dots> = 1 - ?q"
    using nonzero_divide_eq_eq [of "1 - ?z" "1 - ?q" eta] z by (simp only: eta_def) linarith
  finally have lo: "?q \<le> ?x" by (simp add: algebra_simps)
  have "0 < eta * (1 - u)" using eta u(1) by simp
  then have hi: "?x < 1" by (simp add: algebra_simps)
  have inv: "?q powr (1 / (1 - theta)) = 2 / real n" using n th by (simp add: powr_powr)
  have "2 / real n \<le> ?x powr (1 / (1 - theta))"
    using powr_mono2 [of "1 / (1 - theta)" ?q ?x] lo q(1) th inv by simp
  then show "2 \<le> real n * ?x powr (1 / (1 - theta))" using n by (simp add: field_simps)
  have "?x powr (1 / (1 - theta)) < 1"
    using powr_less_mono2 [of "1 / (1 - theta)" ?x 1] hi lo q(1) th by simp
  then show "real n * ?x powr (1 / (1 - theta)) < real n" using n by simp
qed

lemma zipf_ok:
  assumes th: "0 < g_zipf_theta C" "g_zipf_theta C < 1" and n: "3 \<le> unat n" and u: "0 \<le> u" "u < 1"
    and z: "the_n z = n" "denom z = zeta (unat n) (g_zipf_theta C)"
  shows "\<exists>k. zipf C z (zeta 2 (g_zipf_theta C)) n (g_zipf_theta C) u = Inr k \<and> 1 \<le> k \<and> k \<le> n"
proof -
  let ?t = "g_zipf_theta C" and ?N = "unat n"
  have n3: "3 \<le> n" using n by (simp add: word_le_nat_alt)
  show ?thesis
  proof (cases "u * zeta ?N ?t < 1 + (1 / 2) powr ?t")
    case True
    then show ?thesis using z n3 by (auto simp: zipf_def Let_def word_le_nat_alt)
  next
    case False
    then have ge: "zeta 2 ?t \<le> u * zeta ?N ?t" by (simp add: zeta_2)
    let ?eta = "(1 - (2 / real ?N) powr (1 - ?t)) / (1 - zeta 2 ?t / zeta ?N ?t)"
    let ?y = "real ?N * (?eta * u - ?eta + 1) powr (1 / (1 - ?t))"
    define m where "m = nat \<lfloor>?y\<rfloor>"
    have y: "2 \<le> ?y" "?y < real ?N" using zipf_tail [OF th n u(2) ge] by simp_all
    then have m: "2 \<le> m" "m < ?N" unfolding m_def by linarith+
    have "unat n < 2 ^ 64" using unsigned_less [where w = n] by simp
    then have "unat (1 + of_nat m :: u64) = Suc m"
      using m(2) by (simp add: unat_of_nat flip: of_nat_Suc)
    then have "1 \<le> (1 + of_nat m :: u64)" "1 + of_nat m \<le> n"
      using m by (simp_all add: word_le_nat_alt)
    moreover have "\<not> u * zeta ?N ?t < 1" using False powr_ge_zero [of "1 / 2" ?t] by linarith
    ultimately show ?thesis using False z by (simp add: zipf_def Let_def m_def)
  qed
qed

section \<open>The sort\<close>

lemma mset_bubble [simp]: "mset (bubble i qs) = mset qs"
  by (induction i qs rule: bubble.induct) auto

lemma mset_sort_requests [simp]: "mset (sort_requests i qs) = mset qs"
  by (induction i arbitrary: qs) auto

lemma set_bubble [simp]: "set (bubble i qs) = set qs"
  using mset_bubble mset_eq_setD by blast

lemma length_bubble [simp]: "length (bubble i qs) = length qs"
  using mset_bubble mset_eq_length by blast

lemma bubble_append: "length xs = Suc i \<Longrightarrow> bubble i (xs @ ys) = bubble i xs @ ys"
  by (induction i xs rule: bubble.induct) auto

lemma bubble_last:
  "length qs = Suc i \<Longrightarrow> \<exists>xs m. bubble i qs = xs @ [m] \<and> (\<forall>q \<in> set xs. rkey q \<le> rkey m)"
proof (induction i qs rule: bubble.induct)
  case (1 qs)
  then show ?case by (cases qs) auto
next
  case (2 i a b qs)
  show ?case
  proof (cases "rkey a > rkey b")
    case True
    then obtain xs m where xs: "bubble i (a # qs) = xs @ [m]" "\<forall>q \<in> set xs. rkey q \<le> rkey m"
      using 2 by auto
    have "a \<in> set (xs @ [m])" unfolding xs(1) [symmetric] by simp
    then have "rkey a \<le> rkey m" using xs(2) by auto
    then show ?thesis using True xs by (intro exI [of _ "b # xs"] exI [of _ m]) auto
  next
    case False
    then obtain xs m where xs: "bubble i (b # qs) = xs @ [m]" "\<forall>q \<in> set xs. rkey q \<le> rkey m"
      using 2 by auto
    have "b \<in> set (xs @ [m])" unfolding xs(1) [symmetric] by simp
    then have "rkey b \<le> rkey m" using xs(2) by auto
    then show ?thesis using False xs by (intro exI [of _ "a # xs"] exI [of _ m]) auto
  qed
qed auto

text \<open>The outer loop: behind position \<open>i\<close> everything is sorted and not below what is before it.\<close>

lemma sort_requests_sorted:
  "length xs = Suc i \<Longrightarrow> sorted (map rkey ys) \<Longrightarrow> \<forall>x \<in> set xs. \<forall>y \<in> set ys. rkey x \<le> rkey y \<Longrightarrow>
   sorted (map rkey (sort_requests i (xs @ ys)))"
proof (induction i arbitrary: xs ys)
  case 0
  then obtain x where "xs = [x]" by (cases xs) auto
  then show ?case using 0 by simp
next
  case (Suc i)
  obtain zs m where zs: "bubble (Suc i) xs = zs @ [m]" "\<forall>q \<in> set zs. rkey q \<le> rkey m"
    using bubble_last [OF Suc.prems(1)] by auto
  have set: "set (zs @ [m]) = set xs" unfolding zs(1) [symmetric] by simp
  have "length zs = Suc i" using arg_cong [OF zs(1), of length] Suc.prems(1) by simp
  moreover have "sorted (map rkey (m # ys))" using Suc.prems(2,3) set by auto
  moreover have "\<forall>x \<in> set zs. \<forall>y \<in> set (m # ys). rkey x \<le> rkey y" using Suc.prems(3) set zs(2) by auto
  ultimately show ?case
    using Suc.IH [of zs "m # ys"] bubble_append [OF Suc.prems(1), of ys] zs(1) by simp
qed

lemma sort_requests_strict:
  assumes "qs \<noteq> []" and "distinct (map rkey qs)"
  shows "sorted_wrt (<) (map rkey (sort_requests (length qs - 1) qs))"
proof -
  have "sorted (map rkey (sort_requests (length qs - 1) (qs @ [])))"
    by (rule sort_requests_sorted) (use assms(1) in \<open>auto simp: Suc_le_eq\<close>)
  moreover have "mset (map rkey (sort_requests (length qs - 1) qs)) = mset (map rkey qs)" by simp
  then have "distinct (map rkey (sort_requests (length qs - 1) qs))"
    using assms(2) mset_eq_imp_distinct_iff by blast
  ultimately show ?thesis by (simp add: strict_sorted_iff)
qed

lemma check_order_ok: "qs \<noteq> [] \<Longrightarrow> sorted_wrt (<) (map rkey qs) \<Longrightarrow> check_order qs = Inr ()"
  by (auto simp: check_order_def asserting_def sorted_wrt_iff_nth_less)

section \<open>The generated requests\<close>

text \<open>What \<open>config.h\<close> and \<open>global.cpp\<close> satisfy.\<close>

definition cfg_ok :: "query_cfg \<Rightarrow> bool" where
  "cfg_ok C \<longleftrightarrow> 0 < g_virtual_part_cnt C \<and> g_virtual_part_cnt C < 2 ^ 32 \<and> g_part_cnt C = g_virtual_part_cnt C \<and>
     0 < g_part_per_txn C \<and> g_part_per_txn C \<le> g_req_per_query C \<and>
     0 < g_zipf_theta C \<and> g_zipf_theta C < 1 \<and>
     4 \<le> unat (g_synth_table_size C) div g_virtual_part_cnt C"

lemma cfg_ok_default: "cfg_ok default_cfg"
  by (simp add: cfg_ok_def default_cfg_def)

definition gen_inv :: "query_cfg \<Rightarrow> gen_state \<Rightarrow> bool" where
  "gen_inv C s \<longleftrightarrow> distinct (map rkey (gs_reqs s)) \<and> rkey ` set (gs_reqs s) \<subseteq> gs_keys s \<and>
     (gs_reqs s = [] \<longrightarrow> gs_keys s = {}) \<and> (\<forall>q \<in> set (gs_reqs s). rkey q < g_synth_table_size C)"

lemma add_request_inv:
  assumes inv: "gen_inv C s" and pc: "g_part_cnt C = g_virtual_part_cnt C" and ty: "ty \<noteq> XP"
    and key: "row_id * of_nat (g_virtual_part_cnt C) + part_id < g_synth_table_size C"
  shows "gen_inv C (add_request C ty row_id part_id v s)"
    and "gs_reqs (add_request C ty row_id part_id v s) \<noteq> []"
    and "length (gs_reqs (add_request C ty row_id part_id v s)) \<le> Suc (length (gs_reqs s))"
proof -
  have scan: "row_id * of_nat (g_virtual_part_cnt C) + part_id \<in> scan_keys C row_id part_id SCAN_LEN"
    unfolding scan_keys_def by (rule image_eqI [of _ _ 0]) (simp_all add: pc SCAN_LEN_def)
  show "gen_inv C (add_request C ty row_id part_id v s)"
    using inv key scan ty by (cases ty) (auto simp: add_request_def gen_inv_def Let_def)
  show "gs_reqs (add_request C ty row_id part_id v s) \<noteq> []"
    using inv ty by (cases ty) (auto simp: add_request_def gen_inv_def Let_def)
  show "length (gs_reqs (add_request C ty row_id part_id v s)) \<le> Suc (length (gs_reqs s))"
    by (cases ty) (auto simp: add_request_def Let_def)
qed

text \<open>A row number below the table size and a partition number give a key of the table.\<close>

lemma key_in_table:
  assumes "cfg_ok C" and "table_size_of C = Inr ts" and "row_id < ts" and "unat p < g_virtual_part_cnt C"
  shows "row_id * of_nat (g_virtual_part_cnt C) + p < g_synth_table_size C"
proof -
  let ?v = "g_virtual_part_cnt C" and ?S = "g_synth_table_size C"
  have v: "0 < ?v" "?v < 2 ^ 64" using assms(1) by (simp_all add: cfg_ok_def)
  then have uv: "unat (of_nat ?v :: u64) = ?v" by (simp add: unat_of_nat)
  have "ts = ?S div of_nat ?v" using assms(2) v by (simp add: table_size_of_def)
  then have "unat ts = unat ?S div ?v" using uv by (simp add: unat_div)
  then have "Suc (unat row_id) \<le> unat ?S div ?v" using assms(3) by (simp add: word_less_nat_alt)
  then have "Suc (unat row_id) * ?v \<le> unat ?S"
    by (metis div_times_less_eq_dividend [of "unat ?S" ?v] le_trans mult_le_mono1)
  then have lt: "unat row_id * ?v + unat p < unat ?S" using assms(4) by simp
  moreover have "unat ?S < 2 ^ 64" using unsigned_less [where w = ?S] by simp
  ultimately have b: "unat row_id * ?v + unat p < 2 ^ 64" by linarith
  then have "unat (row_id * of_nat ?v) = unat row_id * ?v"
    using uv by (subst unat_mult_lem [THEN iffD1]) simp_all
  then have "unat (row_id * of_nat ?v + p) = unat row_id * ?v + unat p"
    using b by (subst unat_add_lem [THEN iffD1]) simp_all
  then show ?thesis using lt by (simp add: word_less_nat_alt)
qed

lemma fill_parts_ok:
  assumes "length parts + length is \<le> room" and "\<forall>p \<in> set parts. unat p < v" and "t < v" and "r < v" and "v < 2 ^ 32"
    and "parts \<noteq> [] \<or> is \<noteq> []"
  shows "\<exists>ps. fill_parts room t r is parts = Inr ps \<and> ps \<noteq> [] \<and> (\<forall>p \<in> set ps. unat p < v)"
  using assms
proof (induction "is" arbitrary: parts)
  case (Cons i "is")
  let ?p = "of_nat (if i = 0 then t else r) :: u64"
  let ?q = "if ?p \<in> set parts then parts else parts @ [?p]"
  have "unat ?p < v" using Cons.prems(3-5) by (simp add: unat_of_nat)
  then have "\<exists>ps. fill_parts room t r is ?q = Inr ps \<and> ps \<noteq> [] \<and> (\<forall>p \<in> set ps. unat p < v)"
    by (intro Cons.IH) (use Cons.prems in \<open>auto split: if_splits\<close>)
  then show ?case using Cons.prems(1) by (simp add: Let_def)
qed auto

lemma choose_parts_ok:
  assumes "cfg_ok C"
  shows "\<exists>ps. choose_parts C thd r rint = Inr ps \<and> ps \<noteq> [] \<and> (\<forall>p \<in> set ps. unat p < g_virtual_part_cnt C)"
proof (cases "r < g_perc_multi_part C")
  case True
  have "\<exists>ps. fill_parts (g_req_per_query C) (thd mod g_virtual_part_cnt C) (nat rint mod g_virtual_part_cnt C)
      [0..<g_part_per_txn C] [] = Inr ps \<and> ps \<noteq> [] \<and> (\<forall>p \<in> set ps. unat p < g_virtual_part_cnt C)"
    by (rule fill_parts_ok) (use assms in \<open>auto simp: cfg_ok_def\<close>)
  then show ?thesis using True assms by (simp add: choose_parts_def cfg_ok_def)
next
  case False
  have "thd mod g_virtual_part_cnt C < g_virtual_part_cnt C" "g_virtual_part_cnt C < 2 ^ 64"
    using assms by (simp_all add: cfg_ok_def)
  then have "unat (of_nat (thd mod g_virtual_part_cnt C) :: u64) < g_virtual_part_cnt C" by (simp add: unat_of_nat)
  then show ?thesis using False assms by (auto simp: choose_parts_def cfg_ok_def)
qed

lemma table_size_of_ok:
  assumes "cfg_ok C"
  obtains ts where "table_size_of C = Inr ts" and "4 \<le> unat ts"
proof -
  have "g_virtual_part_cnt C < 2 ^ 64" using assms by (simp add: cfg_ok_def)
  then show ?thesis using that assms by (simp add: table_size_of_def cfg_ok_def unat_div unat_of_nat)
qed

lemma pick_rtype_not_XP: "pick_rtype C r \<noteq> XP"
  by (simp add: pick_rtype_def)

lemma gen_one_ok:
  assumes R: "rng_ok R" and C: "cfg_ok C" and z: "calculateDenom C z0 = Inr z"
    and ps: "ps \<noteq> []" "\<forall>p \<in> set ps. unat p < g_virtual_part_cnt C" and t: "t < g_req_per_query C" and inv: "gen_inv C s"
  shows "\<exists>s' rs'. gen_one R C z (zeta 2 (g_zipf_theta C)) ps t s rs = Inr (s', rs') \<and> gen_inv C s' \<and>
    gs_reqs s' \<noteq> [] \<and> length (gs_reqs s') \<le> Suc (length (gs_reqs s))"
proof -
  obtain ts where ts: "table_size_of C = Inr ts" "4 \<le> unat ts" using table_size_of_ok [OF C] by blast
  have z': "the_n z = ts - 1" "denom z = zeta (unat (ts - 1)) (g_zipf_theta C)"
    using z ts(1) by (auto simp: calculateDenom_def asserting_Inr_iff)
  have tn: "unat (ts - 1) = unat ts - 1" using ts(2) by (simp add: unat_sub word_le_nat_alt)
  obtain r rs1 where r: "drand48 R rs = (r, rs1)" by fastforce
  obtain u rs2 where u: "drand48 R rs1 = (u, rs2)" by fastforce
  obtain v rs3 where v: "lrand48 R rs2 = (v, rs3)" by fastforce
  have u01: "0 \<le> u" "u < 1" using R u unfolding rng_ok_def by (metis fst_conv)+
  obtain k where k: "zipf C z (zeta 2 (g_zipf_theta C)) (ts - 1) (g_zipf_theta C) u = Inr k" "k \<le> ts - 1"
  proof -
    have "3 \<le> unat (ts - 1)" using tn ts(2) by linarith
    then show ?thesis using zipf_ok [of C "ts - 1" u z] C z' u01 that by (auto simp: cfg_ok_def)
  qed
  have kt: "k < ts" using k(2) tn ts(2) by (simp add: word_le_nat_alt word_less_nat_alt)
  have ith: "t * length ps div g_req_per_query C < length ps"
    using ps(1) t by (simp add: div_less_iff_less_mult)
  then have "unat (ps ! (t * length ps div g_req_per_query C)) < g_virtual_part_cnt C" using ps(2) by simp
  from add_request_inv [OF inv _ pick_rtype_not_XP key_in_table [OF C ts(1) kt this]]
  show ?thesis using C r u v ts(1) k(1) kt ith by (simp add: gen_one_def Let_def cfg_ok_def)
qed

lemma gen_loop_ok:
  assumes R: "rng_ok R" and C: "cfg_ok C" and z: "calculateDenom C z0 = Inr z"
    and ps: "ps \<noteq> []" "\<forall>p \<in> set ps. unat p < g_virtual_part_cnt C"
  shows "\<forall>t \<in> set ts. t < g_req_per_query C \<Longrightarrow> gen_inv C s \<Longrightarrow>
    \<exists>s' rs'. gen_loop R C z (zeta 2 (g_zipf_theta C)) ps ts s rs = Inr (s', rs') \<and> gen_inv C s' \<and>
      (ts \<noteq> [] \<longrightarrow> gs_reqs s' \<noteq> []) \<and> length (gs_reqs s') \<le> length ts + length (gs_reqs s)"
proof (induction ts arbitrary: s rs)
  case (Cons t ts)
  obtain s1 rs1 where 1: "gen_one R C z (zeta 2 (g_zipf_theta C)) ps t s rs = Inr (s1, rs1)" "gen_inv C s1"
    "gs_reqs s1 \<noteq> []" "length (gs_reqs s1) \<le> Suc (length (gs_reqs s))"
    using gen_one_ok [OF R C z ps _ Cons.prems(2), of t rs] Cons.prems(1) by auto
  obtain s' rs' where 2: "gen_loop R C z (zeta 2 (g_zipf_theta C)) ps ts s1 rs1 = Inr (s', rs')" "gen_inv C s'"
    "ts \<noteq> [] \<longrightarrow> gs_reqs s' \<noteq> []" "length (gs_reqs s') \<le> length ts + length (gs_reqs s1)"
    using Cons.IH [of s1 rs1] Cons.prems(1) 1(2) by auto
  then show ?case using 1 by (cases ts) auto
qed simp

section \<open>Property\<close>



end
