(* ===== verification/Write_Locks.thy ===== *)
theory Write_Locks
  imports Row_Handler Global_Lock Ycsb_Query
begin

text \<open>
  The first half of \<open>instance/txn/ycsb_txn.cpp\<close>: before a transaction starts, the pages it will
  write are made local. \<open>GetWritePageLock\<close> asks the coordinator for every page the instance does not
  own, installs the page it is sent, and registers the thread on all of them. The remote call is an
  argument. A spinning wait is \<open>Blocked\<close>.
\<close>

section \<open>The pages a query writes\<close>

text \<open>A key without index entry leaves the local \<open>IndexItem\<close> as it is; \<open>it0\<close> is what it holds.\<close>

definition GetQueryWritePageSet :: "index_item \<Rightarrow> ycsb_request list \<Rightarrow> index_map \<Rightarrow> u64 set" where
  "GetQueryWritePageSet it0 qs m =
     foldl (\<lambda>pages q.
        let it = snd (IndexGet (rkey q) it0 m) in
        if rtype q = WR then insert (item_page_id it) pages else pages) {} qs"

text \<open>The debugging query: four writes.\<close>

definition gen_test_query :: "ycsb_request list" where
  "gen_test_query =
     map (\<lambda>i. \<lparr>rtype = WR, rkey = of_nat (i * 203), rvalue = 0, scan_len = 0\<rparr>) [0..<4]"

section \<open>Obtaining the pages\<close>

text \<open>\<open>lock_table_[page_id]\<close> of a page without node is a null pointer.\<close>

definition node_at :: "u64 \<Rightarrow> lock_table \<Rightarrow> lock_node res" where
  "node_at pid t = (case t pid of None \<Rightarrow> Inl Bad_Deref | Some n \<Rightarrow> Inr n)"

fun has_invalid_req :: "u64 list \<Rightarrow> lock_table \<Rightarrow> bool res" where
  "has_invalid_req [] t = Inr False"
| "has_invalid_req (p # ps) t =
     rbind (node_at p t) (\<lambda>n. if invalid_req n then Inr True else has_invalid_req ps t)"

text \<open>The part before the remote call: the compare-and-swap on \<open>lock_remoting\<close> succeeds.\<close>

definition begin_remote :: "u64 \<Rightarrow> 'd inst_db \<Rightarrow> 'd inst_db res" where
  "begin_remote pid d =
     rbind (node_at pid (db_locks d)) (\<lambda>n.
     asserting (lock_mode n = LM_O \<and> \<not> lock_remoting n)
      (Inr (d\<lparr>db_locks := (db_locks d)(pid \<mapsto> n\<lparr>lock_remoting := True\<rparr>)\<rparr>)))"

text \<open>The part after it: the mode becomes \<open>P\<close>, then the received page is put into the buffer.\<close>

definition end_remote :: "'d disk_ops \<Rightarrow> u64 \<Rightarrow> RC \<Rightarrow> bytes \<Rightarrow> 'd inst_db \<Rightarrow> (RC \<times> 'd inst_db) res" where
  "end_remote D pid rc buf d =
     rbind (node_at pid (db_locks d)) (\<lambda>n.
     if Abort = rc \<or> TIME_OUT = rc
     then Inr (Abort, d\<lparr>db_locks := (db_locks d)(pid \<mapsto> n\<lparr>lock_remoting := False\<rparr>)\<rparr>)
     else asserting (rc = RCOK)
           (asserting (lock_mode n = LM_O)
             (rbind (BufferPut D pid buf MY_PAGE_SIZE (db_buffer d)) (\<lambda>b.
              Inr (RCOK, d\<lparr>db_buffer := b,
                           db_locks := (db_locks d)(pid \<mapsto> n\<lparr>lock_mode := LM_P, lock_remoting := False\<rparr>)\<rparr>)))))"

text \<open>
  One page: nothing to do if it is owned; a thread that loses the compare-and-swap waits for the
  winner. \<open>remote pid buf w\<close> is \<open>LockRemote\<close> for mode \<open>X\<close>, \<open>stk\<close> the local array.
\<close>

definition obtain_page ::
  "'d disk_ops \<Rightarrow> (u64 \<Rightarrow> bytes \<Rightarrow> 'w \<Rightarrow> (RC \<times> bytes \<times> 'w) res) \<Rightarrow> bytes \<Rightarrow> u64 \<Rightarrow> 'd inst_db \<Rightarrow> 'w
   \<Rightarrow> (RC \<times> 'd inst_db \<times> 'w) res" where
  "obtain_page D remote stk pid d w =
     rbind (node_at pid (db_locks d)) (\<lambda>n.
     if lock_mode n \<noteq> LM_O then Inr (RCOK, d, w)
     else if lock_remoting n then Inl Blocked
     else rbind (begin_remote pid d) (\<lambda>d1.
          rbind (remote pid stk w) (\<lambda>(rc, buf, w').
          rbind (end_remote D pid rc buf d1) (\<lambda>(rc', d2). Inr (rc', d2, w')))))"

fun obtain_pages ::
  "'d disk_ops \<Rightarrow> (u64 \<Rightarrow> bytes \<Rightarrow> 'w \<Rightarrow> (RC \<times> bytes \<times> 'w) res) \<Rightarrow> bytes \<Rightarrow> u64 list \<Rightarrow> 'd inst_db \<Rightarrow> 'w
   \<Rightarrow> (RC \<times> 'd inst_db \<times> 'w) res" where
  "obtain_pages D remote stk [] d w = Inr (RCOK, d, w)"
| "obtain_pages D remote stk (p # ps) d w =
     rbind (obtain_page D remote stk p d w) (\<lambda>(rc, d', w').
     if rc = Abort then Inr (Abort, d', w') else obtain_pages D remote stk ps d' w')"

definition register_page :: "u64 \<Rightarrow> u64 \<Rightarrow> 'd inst_db \<Rightarrow> 'd inst_db res" where
  "register_page thd pid d =
     rbind (node_at pid (db_locks d)) (\<lambda>n.
     asserting (lock_mode n \<noteq> LM_O)
      (rbind (LockTable_AddThread pid thd (db_locks d)) (\<lambda>(_, t). Inr (d\<lparr>db_locks := t\<rparr>))))"

fun register_pages :: "u64 \<Rightarrow> u64 list \<Rightarrow> 'd inst_db \<Rightarrow> 'd inst_db res" where
  "register_pages thd [] d = Inr d"
| "register_pages thd (p # ps) d = rbind (register_page thd p d) (register_pages thd ps)"

text \<open>The loops run over a \<open>std::set\<close>, in increasing order.\<close>

definition GetWritePageLock ::
  "'d disk_ops \<Rightarrow> (u64 \<Rightarrow> bytes \<Rightarrow> 'w \<Rightarrow> (RC \<times> bytes \<times> 'w) res) \<Rightarrow> bytes \<Rightarrow> u64 set \<Rightarrow> u64 \<Rightarrow> 'd inst_db \<Rightarrow> 'w
   \<Rightarrow> (RC \<times> 'd inst_db \<times> 'w) res" where
  "GetWritePageLock D remote stk pages thd d w =
     (let ps = sorted_list_of_set pages in
      rbind (has_invalid_req ps (db_locks d)) (\<lambda>b.
      if b then Inl Blocked
      else rbind (obtain_pages D remote stk ps d w) (\<lambda>(rc, d1, w1).
           if rc = Abort then Inr (Abort, d1, w1)
           else rbind (register_pages thd ps d1) (\<lambda>d2. Inr (RCOK, d2, w1)))))"

text \<open>The loop at the end of the transaction.\<close>

fun unregister_pages :: "u64 \<Rightarrow> u64 list \<Rightarrow> 'd inst_db \<Rightarrow> 'd inst_db res" where
  "unregister_pages thd [] d = Inr d"
| "unregister_pages thd (p # ps) d =
     rbind (LockTable_RemoveThread p thd (db_locks d)) (\<lambda>(_, t). unregister_pages thd ps (d\<lparr>db_locks := t\<rparr>))"

section \<open>Resident pages\<close>

text \<open>The page in the buffer, ignoring the store below.\<close>

definition cached :: "'d buffer \<Rightarrow> u64 \<Rightarrow> bytes option" where
  "cached s = bview (\<lambda>_ _. None) s"

lemma cached_Some_iff:
  "cached s i = Some c \<longleftrightarrow> (\<exists>a. lru_index s i = Some (Some a) \<and> c = page_buf (pg (nodes s) a))"
  by (auto simp: cached_def bview_def split: option.splits)

lemma cached_node:
  assumes inv: "buf_inv s ps fs" and c: "cached s i = Some c"
  obtains a nd where "a \<in> set ps" and "lru_index s i = Some (Some a)" and "nodes s a = Some nd"
    and "page_buf (node_page nd) = c" and "length c = MY_PAGE_SIZE"
proof -
  obtain a where a: "lru_index s i = Some (Some a)" "c = page_buf (pg (nodes s) a)" using c cached_Some_iff by metis
  have ix: "index_ok (nodes s) (lru_index s) ps" using inv by (simp add: buf_inv_def)
  have ps: "a \<in> set ps" using index_ok_Some [OF ix, of i "Some a"] a(1) by auto
  obtain nd where nd: "nodes s a = Some nd" using inv ps dll_dom by (fastforce simp: buf_inv_def)
  have "length c = MY_PAGE_SIZE" using inv ps a(2) by (auto simp: buf_inv_def)
  then show ?thesis using that [OF ps a(1) nd] nd a(2) by (simp add: pg_def)
qed

text \<open>A hit reads the page and changes nothing; a put on a resident page changes that page only.\<close>

lemma BufferGet_hit:
  assumes inv: "buf_inv s ps fs" and c: "cached s i = Some c" and len: "length buf = MY_PAGE_SIZE"
  shows "BufferGet D i buf MY_PAGE_SIZE s = Inr (c, s)"
proof -
  obtain a nd where a: "lru_index s i = Some (Some a)" "nodes s a = Some nd" "page_buf (node_page nd) = c"
    "length c = MY_PAGE_SIZE"
    using cached_node [OF inv c] by metis
  then show ?thesis
    using len buf_inv_sizes [OF inv] LruIndex_Get_inv [OF inv, of i]
    by (simp add: BufferGet_eq BufferGetWithLock_def LRU_Get_def read_at_def memcpy_at_full)
qed

lemma BufferPut_hit:
  assumes inv: "buf_inv s ps fs" and c: "cached s i = Some c" and len: "length buf = MY_PAGE_SIZE"
  obtains s' where "BufferPut D i buf MY_PAGE_SIZE s = Inr s'" and "buf_inv s' ps fs"
    and "cached s' = (cached s)(i \<mapsto> buf)" and "disk s' = disk s"
proof -
  obtain a nd where a: "a \<in> set ps" "lru_index s i = Some (Some a)" "nodes s a = Some nd" "page_buf (node_page nd) = c"
    "length c = MY_PAGE_SIZE"
    using cached_node [OF inv c] by metis
  let ?h = "(nodes s)(a \<mapsto> nd\<lparr>node_page := (node_page nd)\<lparr>page_buf := buf\<rparr>\<rparr>)"
  have ix: "index_ok (nodes s) (lru_index s) ps" using inv by (simp add: buf_inv_def)
  have pgh: "pg ?h = (pg (nodes s))(a := (pg (nodes s) a)\<lparr>page_buf := buf\<rparr>)" using a(3) by (auto simp: pg_def)
  have put: "BufferPut D i buf MY_PAGE_SIZE s = Inr (s\<lparr>nodes := ?h\<rparr>)"
    using a len buf_inv_sizes [OF inv] LruIndex_Get_inv [OF inv, of i]
    by (simp add: BufferPut_eq BufferPutWithLock_def LRU_Get_def set_page_buf_full)
  have "dll ?h l xs = dll (nodes s) l xs" for l xs using a(3) by (simp add: dll_def path_upd_other)
  moreover have "index_ok ?h (lru_index s) ps" by (rule iffD2 [OF index_ok_cong ix]) (simp add: pgh)
  ultimately have inv': "buf_inv (s\<lparr>nodes := ?h\<rparr>) ps fs" using inv len by (auto simp: buf_inv_def pgh)
  have "cached (s\<lparr>nodes := ?h\<rparr>) j = ((cached s)(i \<mapsto> buf)) j" for j
  proof -
    have "page_id (pg (nodes s) a) = i" using index_ok_Some [OF ix, of i "Some a"] a(2) by auto
    then have "b \<noteq> a" if "j \<noteq> i" "lru_index s j = Some (Some b)" for b
      using that index_ok_Some [OF ix, of j "Some b"] by auto
    then show ?thesis using a(2) by (cases "j = i") (auto simp: cached_def bview_def pgh split: option.splits)
  qed
  then have "cached (s\<lparr>nodes := ?h\<rparr>) = (cached s)(i \<mapsto> buf)" by blast
  from that [OF put inv' this] show ?thesis by simp
qed

end
