(* ===== verification/Cluster.thy ===== *)
theory Cluster
  imports Write_Locks
begin

text \<open>
  The instances and the coordinator together. A step is one of: the remote call of
  \<open>GetWritePageLock\<close> up to the arrival of its reply, the part after the reply, the registration and
  removal of a thread on a page, and \<open>WriteRow\<close> on an instance. The remote calls are the client and
  server halves of the service composed over a transport that delivers every message.
\<close>

section \<open>State and steps\<close>

text \<open>\<open>cl_reply c i p\<close> is the reply instance \<open>i\<close> has been sent for page \<open>p\<close> and not yet acted on.\<close>

record 'd cluster =
  cl_global :: "'d global_lock"
  cl_inst :: "nat \<Rightarrow> 'd inst_db"
  cl_reply :: "nat \<Rightarrow> u64 \<Rightarrow> (RC \<times> bytes) option"

text \<open>
  What the steps are given: the address book of the network, the page store, the contents of the
  uninitialised arrays and locals, and the size of a row.
\<close>

record 'd cenv =
  net :: "string \<Rightarrow> nat option"
  dops :: "'d disk_ops"
  arr :: bytes
  locs :: locals
  rowsz :: nat

text \<open>A call of \<open>Invalid\<close> over the network: the handler runs on the instance at the address.\<close>

definition invalid_stub :: "'d cenv \<Rightarrow> string \<Rightarrow> (invalid_request, invalid_reply, nat \<Rightarrow> 'd inst_db) stub" where
  "invalid_stub E host q I =
     (case net E host of
        None \<Rightarrow> Inr (None, I)
      | Some j \<Rightarrow>
          rbind (Impl_Invalid (BufferGet (dops E)) (arr E) q (db_locks (I j)) (db_buffer (I j))) (\<lambda>(r, t, b).
          Inr (Some r, I(j := (I j)\<lparr>db_locks := t, db_buffer := b\<rparr>))))"

definition glock_call ::
  "'d cenv \<Rightarrow> u64 \<Rightarrow> u64 \<Rightarrow> bytes \<Rightarrow> nat \<Rightarrow> 'd global_lock \<times> (nat \<Rightarrow> 'd inst_db)
   \<Rightarrow> (RC \<times> bytes \<times> 'd global_lock \<times> (nat \<Rightarrow> 'd inst_db)) res" where
  "glock_call E ins pid buf cnt gI =
     GlobalLock_LockRemote (dops E) (\<lambda>host. Client_Invalid (invalid_stub E host)) ins pid buf cnt (fst gI) (snd gI)"

definition lock_stub ::
  "'d cenv \<Rightarrow> (lock_remote_request, lock_remote_reply, 'd global_lock \<times> (nat \<Rightarrow> 'd inst_db)) stub" where
  "lock_stub E q gI = rbind (Impl_LockRemote (glock_call E) (arr E) q gI) (\<lambda>(r, gI'). Inr (Some r, gI'))"

definition request_page :: "'d cenv \<Rightarrow> nat \<Rightarrow> u64 \<Rightarrow> 'd cluster \<Rightarrow> 'd cluster res" where
  "request_page E i pid c =
     rbind (begin_remote pid (cl_inst c i)) (\<lambda>d.
     rbind (Client_LockRemote (lock_stub E) (int i) pid LM_X (arr E) MY_PAGE_SIZE (cl_global c, (cl_inst c)(i := d)))
       (\<lambda>(rc, buf, gI).
        Inr (c\<lparr>cl_global := fst gI, cl_inst := snd gI,
               cl_reply := (cl_reply c)(i := (cl_reply c i)(pid \<mapsto> (rc, buf)))\<rparr>)))"

definition set_inst :: "nat \<Rightarrow> 'd inst_db \<Rightarrow> 'd cluster \<Rightarrow> 'd cluster" where
  "set_inst i d c = c\<lparr>cl_inst := (cl_inst c)(i := d)\<rparr>"

definition install_page :: "'d cenv \<Rightarrow> nat \<Rightarrow> u64 \<Rightarrow> 'd cluster \<Rightarrow> 'd cluster res" where
  "install_page E i pid c =
     (case cl_reply c i pid of
        None \<Rightarrow> Inl Blocked
      | Some (rc, buf) \<Rightarrow>
          rbind (end_remote (dops E) pid rc buf (cl_inst c i)) (\<lambda>(_, d).
          Inr (set_inst i d (c\<lparr>cl_reply := (cl_reply c)(i := (cl_reply c i)(pid := None))\<rparr>))))"

datatype cevent =
  Request nat u64 | Install nat u64 | Enter nat u64 u64 | Leave nat u64 u64 | Write nat u64 bytes

fun cstep :: "'d cenv \<Rightarrow> cevent \<Rightarrow> 'd cluster \<Rightarrow> 'd cluster res" where
  "cstep E (Request i pid) c = request_page E i pid c"
| "cstep E (Install i pid) c = install_page E i pid c"
| "cstep E (Enter i thd pid) c =
     rbind (register_page thd pid (cl_inst c i)) (\<lambda>d. Inr (set_inst i d c))"
| "cstep E (Leave i thd pid) c =
     rbind (LockTable_RemoveThread pid thd (db_locks (cl_inst c i))) (\<lambda>(_, t).
     Inr (set_inst i ((cl_inst c i)\<lparr>db_locks := t\<rparr>) c))"
| "cstep E (Write i k row) c =
     rbind (WriteRow (dops E) (locs E) k row (cl_inst c i)) (\<lambda>d. Inr (set_inst i d c))"

section \<open>The invariant\<close>

abbreviation node :: "'d cluster \<Rightarrow> nat \<Rightarrow> u64 \<Rightarrow> lock_node" where
  "node c i p \<equiv> the (db_locks (cl_inst c i) p)"

abbreviation pages :: "'d cluster \<Rightarrow> u64 set" where
  "pages c \<equiv> dom (gl_table (cl_global c))"

text \<open>Every instance has every page in its buffer and a lock node for it that nobody holds.\<close>

definition inst_fit :: "index_map \<Rightarrow> u64 set \<Rightarrow> 'd inst_db \<Rightarrow> bool" where
  "inst_fit idx ps d \<longleftrightarrow> db_index d = idx \<and> (\<exists>xs fs. buf_inv (db_buffer d) xs fs) \<and>
     (\<forall>p \<in> ps. cached (db_buffer d) p \<noteq> None \<and>
        (\<exists>n. db_locks d p = Some n \<and> node_ok n \<and> (lock_mode n = LM_O \<or> lock_mode n = LM_P)))"

text \<open>The coordinator has every page too, and a client for every instance.\<close>

definition glob_fit :: "'d cenv \<Rightarrow> 'd global_lock \<Rightarrow> bool" where
  "glob_fit E g \<longleftrightarrow> length (gl_instances g) = PROCESS_CNT \<and>
     (\<forall>j < PROCESS_CNT. \<exists>h. info_client (gl_instances g ! j) = Some h \<and> net E h = Some j) \<and>
     (\<exists>xs fs. buf_inv (gl_buffer g) xs fs) \<and>
     (\<forall>p j. gl_table g p = Some j \<longrightarrow> j < int PROCESS_CNT \<and> cached (gl_buffer g) p \<noteq> None)"

text \<open>
  The recorded owner either holds the page or has its reply still to act on; nobody else does
  either.
\<close>

definition owner_ok :: "'d cluster \<Rightarrow> nat \<Rightarrow> u64 \<Rightarrow> bool" where
  "owner_ok c i p \<longleftrightarrow> cl_reply c i p = None \<and> lock_mode (node c i p) = LM_P \<or>
     (\<exists>b. cl_reply c i p = Some (RCOK, b) \<and> length b = MY_PAGE_SIZE \<and> lock_mode (node c i p) = LM_O)"

definition other_ok :: "'d cluster \<Rightarrow> nat \<Rightarrow> u64 \<Rightarrow> bool" where
  "other_ok c i p \<longleftrightarrow> cl_reply c i p = None \<and> lock_mode (node c i p) = LM_O"

definition holder_ok :: "'d cluster \<Rightarrow> u64 \<Rightarrow> bool" where
  "holder_ok c p \<longleftrightarrow> (\<forall>j. gl_table (cl_global c) p = Some j \<longrightarrow>
     (\<forall>i < PROCESS_CNT. if int i = j then owner_ok c i p else other_ok c i p))"

text \<open>The valid copy of a page: the owner's, or the one on its way to the owner.\<close>

definition cpage :: "'d cluster \<Rightarrow> u64 \<Rightarrow> bytes option" where
  "cpage c p =
     (case gl_table (cl_global c) p of
        None \<Rightarrow> None
      | Some j \<Rightarrow>
          if j < 0 then cached (gl_buffer (cl_global c)) p
          else (case cl_reply c (nat j) p of
                  Some (_, b) \<Rightarrow> Some b
                | None \<Rightarrow> cached (db_buffer (cl_inst c (nat j))) p))"

definition rows_ok :: "index_map \<Rightarrow> nat \<Rightarrow> (u64 \<Rightarrow> bytes option) \<Rightarrow> bool" where
  "rows_ok idx sz m \<longleftrightarrow> layout_ok sz idx \<and>
     (\<forall>k it. idx k = Some it \<longrightarrow> (\<exists>c. m (item_page_id it) = Some c \<and> page_ok (item_page_id it) c \<and>
        row_valid sz k (row_at sz it c)))"

definition cluster_inv :: "'d cenv \<Rightarrow> index_map \<Rightarrow> 'd cluster \<Rightarrow> bool" where
  "cluster_inv E idx c \<longleftrightarrow> glob_fit E (cl_global c) \<and>
     (\<forall>i < PROCESS_CNT. inst_fit idx (pages c) (cl_inst c i)) \<and> (\<forall>p. holder_ok c p) \<and>
     rows_ok idx (rowsz E) (cpage c)"

text \<open>
  When a step may be taken: as the code does it, and a page is requested only while no reply for
  it is under way.
\<close>

fun event_ok :: "'d cenv \<Rightarrow> index_map \<Rightarrow> cevent \<Rightarrow> 'd cluster \<Rightarrow> bool" where
  "event_ok E idx (Request i p) c \<longleftrightarrow> i < PROCESS_CNT \<and> p \<in> pages c \<and> lock_mode (node c i p) = LM_O \<and>
     \<not> lock_remoting (node c i p) \<and> (\<forall>j < PROCESS_CNT. cl_reply c j p = None)"
| "event_ok E idx (Install i p) c \<longleftrightarrow> i < PROCESS_CNT \<and> p \<in> pages c \<and> cl_reply c i p \<noteq> None"
| "event_ok E idx (Enter i thd p) c \<longleftrightarrow> i < PROCESS_CNT \<and> p \<in> pages c \<and> lock_mode (node c i p) \<noteq> LM_O"
| "event_ok E idx (Leave i thd p) c \<longleftrightarrow> i < PROCESS_CNT \<and> p \<in> pages c \<and> lock_mode (node c i p) \<noteq> LM_O"
| "event_ok E idx (Write i k row) c \<longleftrightarrow> i < PROCESS_CNT \<and> row_valid (rowsz E) k row \<and>
     (\<exists>it. idx k = Some it \<and> lock_mode (node c i (item_page_id it)) \<noteq> LM_O)"

inductive crun :: "'d cenv \<Rightarrow> index_map \<Rightarrow> 'd cluster \<Rightarrow> cevent list \<Rightarrow> 'd cluster \<Rightarrow> bool" for E idx where
  start: "crun E idx c [] c"
| step: "crun E idx c es c1 \<Longrightarrow> event_ok E idx e c1 \<Longrightarrow> cstep E e c1 = Inr c2 \<Longrightarrow> crun E idx c (es @ [e]) c2"

section \<open>What a step leaves alone\<close>

definition same_at :: "'d cluster \<Rightarrow> 'd cluster \<Rightarrow> u64 \<Rightarrow> bool" where
  "same_at c c' q \<longleftrightarrow> gl_table (cl_global c') q = gl_table (cl_global c) q \<and>
     cached (gl_buffer (cl_global c')) q = cached (gl_buffer (cl_global c)) q \<and>
     (\<forall>i. cl_reply c' i q = cl_reply c i q \<and> db_locks (cl_inst c' i) q = db_locks (cl_inst c i) q \<and>
          cached (db_buffer (cl_inst c' i)) q = cached (db_buffer (cl_inst c i)) q)"

lemma same_at_ok:
  assumes "same_at c c' q"
  shows "owner_ok c' i q = owner_ok c i q" and "other_ok c' i q = other_ok c i q"
    and "gl_table (cl_global c') q = gl_table (cl_global c) q"
  using assms by (simp_all add: same_at_def owner_ok_def other_ok_def)

lemma same_at_holder: "same_at c c' q \<Longrightarrow> holder_ok c q \<Longrightarrow> holder_ok c' q"
  unfolding holder_ok_def by (simp only: same_at_ok)

lemma same_at_cpage: "same_at c c' q \<Longrightarrow> cpage c' q = cpage c q"
  by (simp add: same_at_def cpage_def split: option.splits)

text \<open>A step that touches page \<open>p\<close> only and keeps the valid copies keeps the invariant.\<close>

lemma cluster_inv_step:
  assumes inv: "cluster_inv E idx c" and other: "\<And>q. q \<noteq> p \<Longrightarrow> same_at c c' q"
    and g: "glob_fit E (cl_global c')" and I: "\<And>i. i < PROCESS_CNT \<Longrightarrow> inst_fit idx (pages c') (cl_inst c' i)"
    and p: "holder_ok c' p" and rows: "rows_ok idx (rowsz E) (cpage c')"
  shows "cluster_inv E idx c'"
proof -
  have "holder_ok c' q" for q
    using inv p same_at_holder [OF other] by (cases "q = p") (auto simp: cluster_inv_def)
  then show ?thesis using g I rows by (simp add: cluster_inv_def)
qed

lemma cpage_step:
  assumes "\<And>q. q \<noteq> p \<Longrightarrow> same_at c c' q" and "cpage c' p = v"
  shows "cpage c' = (cpage c)(p := v)"
  using assms same_at_cpage by fastforce

section \<open>Requesting a page\<close>

lemma word_of_inst: "i < PROCESS_CNT \<Longrightarrow> signed_take_bit 31 (uint (of_int (int i) :: u64)) = int i"
proof -
  assume "i < PROCESS_CNT"
  then have "i = 0 \<or> i = 1" by (auto simp: PROCESS_CNT_def)
  then show ?thesis by auto
qed

lemma take_page_full: "length rb = MY_PAGE_SIZE \<Longrightarrow> length b = MY_PAGE_SIZE \<Longrightarrow>
    take_page MY_PAGE_SIZE MY_PAGE_SIZE rb b = Inr rb"
  by (simp add: take_page_def read_at_def memcpy_at_full)

text \<open>The remote part of a request, for a coordinator call that delivers a page.\<close>

lemma lock_call_ok:
  assumes "glock_call E (of_int (int i)) p (arr E) MY_PAGE_SIZE gI = Inr (RCOK, b, gI')"
    and "length (arr E) = MY_PAGE_SIZE" and "length b = MY_PAGE_SIZE"
  shows "Client_LockRemote (lock_stub E) (int i) p LM_X (arr E) MY_PAGE_SIZE gI = Inr (RCOK, b, gI')"
  using assms by (simp add: Client_LockRemote_def lock_stub_def Impl_LockRemote_def Let_def read_at_def take_page_full)

lemma lock_call_Blocked:
  assumes "glock_call E (of_int (int i)) p (arr E) MY_PAGE_SIZE gI = Inl Blocked"
  shows "Client_LockRemote (lock_stub E) (int i) p LM_X (arr E) MY_PAGE_SIZE gI = Inl Blocked"
  using assms by (simp add: Client_LockRemote_def lock_stub_def Impl_LockRemote_def Let_def)

text \<open>The invalidation of a page on an instance where nobody has it locked.\<close>

lemma LockInvalid_quiet:
  assumes "db_locks d p = Some n" and "node_ok n" and "lock_mode n = LM_O \<or> lock_mode n = LM_P"
    and "buf_inv (db_buffer d) xs fs" and "cached (db_buffer d) p = Some b" and "length a = MY_PAGE_SIZE"
  shows "Impl_Invalid (BufferGet D) a \<lparr>iq_page_id = p, iq_count = MY_PAGE_SIZE\<rparr> (db_locks d) (db_buffer d) =
    (if thread_count n \<noteq> 0 then Inl Blocked
     else Inr (\<lparr>ir_rc = Rpc_RCOK, ir_page_buf = b, ir_count = MY_PAGE_SIZE\<rparr>,
               (db_locks d)(p \<mapsto> n\<lparr>lock_mode := LM_O, invalid_req := False\<rparr>), db_buffer d))"
proof -
  have "length b = MY_PAGE_SIZE" using cached_node [OF assms(4,5)] by blast
  then show ?thesis
    using assms BufferGet_hit [OF assms(4,5,6), of D]
    by (simp add: Impl_Invalid_def LockTable_LockInvalid_def with_node_def LockInvalid_node_def
        LockInvalid_announce_def node_ok_def read_at_def Let_def) (auto simp: asserting_def)
qed

lemma invalid_call:
  assumes "net E h = Some j" and "db_locks (I j) p = Some n" and "node_ok n" and "lock_mode n = LM_O \<or> lock_mode n = LM_P"
    and "buf_inv (db_buffer (I j)) xs fs" and "cached (db_buffer (I j)) p = Some b" and "length (arr E) = MY_PAGE_SIZE"
  shows "Client_Invalid (invalid_stub E h) p (arr E) MY_PAGE_SIZE I =
    (if thread_count n \<noteq> 0 then Inl Blocked
     else Inr (RCOK, b, I(j := (I j)\<lparr>db_locks := (db_locks (I j))(p \<mapsto> n\<lparr>lock_mode := LM_O, invalid_req := False\<rparr>),
                                      db_buffer := db_buffer (I j)\<rparr>)))"
proof -
  have "length b = MY_PAGE_SIZE" using cached_node [OF assms(5,6)] by blast
  then show ?thesis
    using assms(1,7) LockInvalid_quiet [OF assms(2-7), of "dops E"]
    by (simp add: Client_Invalid_def invalid_stub_def take_page_full)
qed

lemma begin_remote_ok:
  assumes "db_locks d p = Some n" and "lock_mode n = LM_O" and "\<not> lock_remoting n"
  shows "begin_remote p d = Inr (d\<lparr>db_locks := (db_locks d)(p \<mapsto> n\<lparr>lock_remoting := True\<rparr>)\<rparr>)"
  using assms by (simp add: begin_remote_def node_at_def)

lemma node_ok_remoting [simp]: "node_ok (n\<lparr>lock_remoting := v\<rparr>) = node_ok n"
  by (simp add: node_ok_def)

lemma node_ok_invalidated: "node_ok n \<Longrightarrow> lock_mode n = LM_O \<or> lock_mode n = LM_P \<Longrightarrow> node_ok (n\<lparr>lock_mode := LM_O, invalid_req := False\<rparr>)"
  by (auto simp: node_ok_def)

text \<open>An instance keeps fitting when a node is replaced by another quiet one.\<close>

lemma inst_fit_node:
  assumes "inst_fit idx ps d" and "node_ok n" and "lock_mode n = LM_O \<or> lock_mode n = LM_P"
  shows "inst_fit idx ps (d\<lparr>db_locks := (db_locks d)(p \<mapsto> n)\<rparr>)"
  using assms by (auto simp: inst_fit_def)

lemma inst_fit_nodeD:
  assumes "inst_fit idx ps d" and "p \<in> ps"
  obtains n b xs fs where "db_locks d p = Some n" and "node_ok n" and "lock_mode n = LM_O \<or> lock_mode n = LM_P"
    and "cached (db_buffer d) p = Some b" and "buf_inv (db_buffer d) xs fs" and "length b = MY_PAGE_SIZE"
proof -
  obtain n xs fs b where *: "db_locks d p = Some n" "node_ok n" "lock_mode n = LM_O \<or> lock_mode n = LM_P"
    "buf_inv (db_buffer d) xs fs" "cached (db_buffer d) p = Some b"
    using assms unfolding inst_fit_def by blast
  moreover have "length b = MY_PAGE_SIZE" using cached_node [OF *(4,5)] by blast
  ultimately show ?thesis using that by blast
qed

lemma glob_fit_table:
  "glob_fit E g \<Longrightarrow> gl_table g p = Some j0 \<Longrightarrow> i < PROCESS_CNT \<Longrightarrow> glob_fit E (g\<lparr>gl_table := (gl_table g)(p \<mapsto> int i)\<rparr>)"
  by (auto simp: glob_fit_def)

lemma dom_upd_known: "p \<in> dom m \<Longrightarrow> dom (m(p \<mapsto> v)) = dom m"
  by auto

text \<open>The cluster after the coordinator gave page \<open>p\<close> with content \<open>b\<close> to \<open>i\<close>.\<close>

definition granted :: "nat \<Rightarrow> u64 \<Rightarrow> bytes \<Rightarrow> (nat \<Rightarrow> 'd inst_db) \<Rightarrow> 'd cluster \<Rightarrow> 'd cluster" where
  "granted i p b I c =
     c\<lparr>cl_global := (cl_global c)\<lparr>gl_table := (gl_table (cl_global c))(p \<mapsto> int i)\<rparr>, cl_inst := I,
       cl_reply := (cl_reply c)(i := (cl_reply c i)(p \<mapsto> (RCOK, b)))\<rparr>"

definition set_node :: "u64 \<Rightarrow> lock_node \<Rightarrow> 'd inst_db \<Rightarrow> 'd inst_db" where
  "set_node p n d = d\<lparr>db_locks := (db_locks d)(p \<mapsto> n)\<rparr>"

text \<open>A request for a page without owner, and one for a page that has an owner.\<close>

lemma request_fresh:
  assumes i: "i < PROCESS_CNT" and arr: "length (arr E) = MY_PAGE_SIZE"
    and n: "db_locks (cl_inst c i) p = Some n" "lock_mode n = LM_O" "\<not> lock_remoting n"
    and g: "gl_table (cl_global c) p = Some j0" "j0 < 0"
    and B: "buf_inv (gl_buffer (cl_global c)) xs fs" "cached (gl_buffer (cl_global c)) p = Some b"
  shows "cstep E (Request i p) c =
    Inr (granted i p b ((cl_inst c)(i := set_node p (n\<lparr>lock_remoting := True\<rparr>) (cl_inst c i))) c)"
proof -
  let ?g = "cl_global c" and ?I = "(cl_inst c)(i := set_node p (n\<lparr>lock_remoting := True\<rparr>) (cl_inst c i))"
  have lb: "length b = MY_PAGE_SIZE" using cached_node [OF B] by blast
  have "?g\<lparr>gl_table := t, gl_buffer := gl_buffer ?g\<rparr> = ?g\<lparr>gl_table := t\<rparr>" for t by simp
  then have "glock_call E (of_int (int i)) p (arr E) MY_PAGE_SIZE (?g, ?I) =
      Inr (RCOK, b, ?g\<lparr>gl_table := (gl_table ?g)(p \<mapsto> int i)\<rparr>, ?I)"
    using g BufferGet_hit [OF B arr, of "dops E"] word_of_inst [OF i]
    by (simp add: glock_call_def GlobalLock_LockRemote_def Let_def)
  from lock_call_ok [OF this arr lb] begin_remote_ok [OF n]
  show ?thesis by (simp add: request_page_def granted_def set_node_def)
qed

lemma request_taken:
  assumes i: "i < PROCESS_CNT" "i \<noteq> j" and arr: "length (arr E) = MY_PAGE_SIZE"
    and n: "db_locks (cl_inst c i) p = Some n" "lock_mode n = LM_O" "\<not> lock_remoting n"
    and g: "gl_table (cl_global c) p = Some (int j)" "j < length (gl_instances (cl_global c))"
      "info_client (gl_instances (cl_global c) ! j) = Some h" "net E h = Some j"
    and J: "db_locks (cl_inst c j) p = Some m" "node_ok m" "lock_mode m = LM_O \<or> lock_mode m = LM_P"
      "buf_inv (db_buffer (cl_inst c j)) xs fs" "cached (db_buffer (cl_inst c j)) p = Some b"
  shows "cstep E (Request i p) c =
    (if thread_count m \<noteq> 0 then Inl Blocked
     else Inr (granted i p b ((cl_inst c)(i := set_node p (n\<lparr>lock_remoting := True\<rparr>) (cl_inst c i),
            j := set_node p (m\<lparr>lock_mode := LM_O, invalid_req := False\<rparr>) (cl_inst c j))) c))"
proof -
  let ?g = "cl_global c" and ?I = "(cl_inst c)(i := set_node p (n\<lparr>lock_remoting := True\<rparr>) (cl_inst c i))"
  let ?I2 = "?I(j := set_node p (m\<lparr>lock_mode := LM_O, invalid_req := False\<rparr>) (cl_inst c j))"
  have lb: "length b = MY_PAGE_SIZE" using cached_node [OF J(4,5)] by blast
  have "(cl_inst c j)\<lparr>db_locks := t, db_buffer := db_buffer (cl_inst c j)\<rparr> = (cl_inst c j)\<lparr>db_locks := t\<rparr>" for t by simp
  then have call: "glock_call E (of_int (int i)) p (arr E) MY_PAGE_SIZE (?g, ?I) =
      (if thread_count m \<noteq> 0 then Inl Blocked
       else Inr (RCOK, b, ?g\<lparr>gl_table := (gl_table ?g)(p \<mapsto> int i)\<rparr>, ?I2))"
    using g i(2) invalid_call [of E h j ?I p m xs fs b] J arr word_of_inst [OF i(1)]
    by (simp add: glock_call_def GlobalLock_LockRemote_def Let_def set_node_def)
  show ?thesis
  proof (cases "thread_count m = 0")
    case False
    then show ?thesis
      using lock_call_Blocked [of E i p "(?g, ?I)"] call begin_remote_ok [OF n]
      by (simp add: request_page_def set_node_def)
  next
    case True
    from lock_call_ok [OF _ arr lb, of i p "(?g, ?I)"] call True begin_remote_ok [OF n]
    show ?thesis by (simp add: request_page_def granted_def set_node_def)
  qed
qed

lemma inst_fit_set_node:
  assumes "inst_fit idx ps d" and "node_ok n" and "lock_mode n = LM_O \<or> lock_mode n = LM_P"
  shows "inst_fit idx ps (set_node p n d)"
  using assms by (auto simp: inst_fit_def set_node_def)

lemma request_inv:
  fixes c :: "'d cluster"
  assumes inv: "cluster_inv E idx c" and p: "p \<in> pages c" and i: "i < PROCESS_CNT"
    and b: "cpage c p = Some b" "length b = MY_PAGE_SIZE" and none: "\<forall>k < PROCESS_CNT. cl_reply c k p = None"
    and fit: "\<And>k. k < PROCESS_CNT \<Longrightarrow> inst_fit idx (pages c) (I k)"
    and same: "\<And>k q. q \<noteq> p \<Longrightarrow> db_locks (I k) q = db_locks (cl_inst c k) q"
    and buf: "\<And>k. db_buffer (I k) = db_buffer (cl_inst c k)"
    and mode: "\<And>k. k < PROCESS_CNT \<Longrightarrow> lock_mode (the (db_locks (I k) p)) = LM_O"
  defines "c' \<equiv> granted i p b I c"
  shows "cluster_inv E idx c' \<and> cpage c' = cpage c"
proof -
  have other: "same_at c c' q" if "q \<noteq> p" for q
    using that same [OF that] buf by (simp add: same_at_def c'_def granted_def)
  have "cpage c' p = Some b" by (simp add: cpage_def c'_def granted_def)
  from cpage_step [OF other this] have pg: "cpage c' = cpage c" using b(1) by auto
  have "pages c' = pages c" using p by (auto simp: c'_def granted_def)
  then have F: "inst_fit idx (pages c') (cl_inst c' k)" if "k < PROCESS_CNT" for k
    using fit [OF that] by (simp add: c'_def granted_def)
  have "owner_ok c' i p" using mode [OF i] b(2) by (simp add: owner_ok_def c'_def granted_def)
  moreover have "other_ok c' k p" if "k < PROCESS_CNT" "k \<noteq> i" for k
    using mode [OF that(1)] none that by (simp add: other_ok_def c'_def granted_def)
  ultimately have "holder_ok c' p" by (auto simp: holder_ok_def c'_def granted_def)
  moreover have "glob_fit E (cl_global c')"
    using inv p i glob_fit_table by (auto simp: c'_def granted_def cluster_inv_def)
  ultimately have "cluster_inv E idx c'"
    using cluster_inv_step [OF inv other _ F] inv pg by (simp add: cluster_inv_def)
  then show ?thesis using pg ..
qed

text \<open>A request waits while the owner has threads registered on the page.\<close>

definition waits :: "'d cluster \<Rightarrow> cevent \<Rightarrow> bool" where
  "waits c e \<longleftrightarrow> (\<exists>i p j. e = Request i p \<and> j < PROCESS_CNT \<and> gl_table (cl_global c) p = Some (int j) \<and>
     thread_count (node c j p) \<noteq> 0)"

lemma request_ok:
  assumes inv: "cluster_inv E idx c" and arr: "length (arr E) = MY_PAGE_SIZE" and ev: "event_ok E idx (Request i p) c"
  shows "cstep E (Request i p) c = Inl Blocked \<and> waits c (Request i p) \<or>
    (\<exists>c'. cstep E (Request i p) c = Inr c' \<and> cluster_inv E idx c' \<and> cpage c' = cpage c)"
proof -
  let ?g = "cl_global c" and ?I = "cl_inst c"
  have i: "i < PROCESS_CNT" and p: "p \<in> pages c" and none: "\<forall>k < PROCESS_CNT. cl_reply c k p = None" using ev by auto
  have fit: "inst_fit idx (pages c) (?I k)" if "k < PROCESS_CNT" for k using inv that by (simp add: cluster_inv_def)
  have gf: "glob_fit E ?g" and hold: "holder_ok c p" using inv by (simp_all add: cluster_inv_def)
  obtain n where n: "db_locks (?I i) p = Some n" "node_ok n" using inst_fit_nodeD [OF fit [OF i] p] by metis
  then have m: "lock_mode n = LM_O" "\<not> lock_remoting n" using ev by auto
  let ?di = "set_node p (n\<lparr>lock_remoting := True\<rparr>) (?I i)"
  have fi: "inst_fit idx (pages c) ?di" by (rule inst_fit_set_node [OF fit [OF i]]) (use n m in simp_all)
  obtain j0 where j0: "gl_table ?g p = Some j0" using p by auto
  have modes: "lock_mode (node c k p) = LM_O" if "k < PROCESS_CNT" "int k \<noteq> j0" for k
    using hold j0 that by (auto simp: holder_ok_def other_ok_def)
  show ?thesis
  proof (cases "j0 < 0")
    case True
    obtain xs fs b where B: "buf_inv (gl_buffer ?g) xs fs" "cached (gl_buffer ?g) p = Some b"
      using gf j0 unfolding glob_fit_def by blast
    have lb: "length b = MY_PAGE_SIZE" using cached_node [OF B] by blast
    have "cpage c p = Some b" using True j0 B(2) by (simp add: cpage_def)
    from request_inv [OF inv p i this lb none, of "?I(i := ?di)"] fit fi modes m n True
    show ?thesis
      unfolding request_fresh [OF i arr n(1) m j0 True B] by (auto simp: set_node_def split: if_splits)
  next
    case False
    define j where "j = nat j0"
    have "j0 < int PROCESS_CNT" using gf j0 unfolding glob_fit_def by blast
    then have j: "j0 = int j" "j < PROCESS_CNT" using False by (simp_all add: j_def)
    have own: "lock_mode (node c j p) = LM_P" using hold j0 j none by (auto simp: holder_ok_def owner_ok_def)
    then have ij: "i \<noteq> j" using m(1) n(1) by auto
    obtain h where h: "j < length (gl_instances ?g)" "info_client (gl_instances ?g ! j) = Some h" "net E h = Some j"
      using gf j(2) by (auto simp: glob_fit_def)
    obtain nj b xs fs where J: "db_locks (?I j) p = Some nj" "node_ok nj" "lock_mode nj = LM_O \<or> lock_mode nj = LM_P"
      "cached (db_buffer (?I j)) p = Some b" "buf_inv (db_buffer (?I j)) xs fs" "length b = MY_PAGE_SIZE"
      by (rule inst_fit_nodeD [OF fit [OF j(2)] p])
    let ?dj = "set_node p (nj\<lparr>lock_mode := LM_O, invalid_req := False\<rparr>) (?I j)"
    note run = request_taken [OF i ij arr n(1) m j0 [unfolded j(1)] h J(1,2,3,5,4)]
    show ?thesis
    proof (cases "thread_count nj = 0")
      case False
      then have "waits c (Request i p)" using j j0 J(1) by (auto simp: waits_def)
      then show ?thesis unfolding run using False by simp
    next
      case True
      have "cpage c p = Some b" using j j0 J(4) none by (simp add: cpage_def)
      moreover have "inst_fit idx (pages c) ?dj"
        by (rule inst_fit_set_node [OF fit [OF j(2)] node_ok_invalidated [OF J(2,3)]]) simp
      ultimately have "cluster_inv E idx (granted i p b (?I(i := ?di, j := ?dj)) c) \<and>
          cpage (granted i p b (?I(i := ?di, j := ?dj)) c) = cpage c"
        by (intro request_inv [OF inv p i _ J(6) none])
           (use fit fi modes m n ij j in \<open>auto simp: set_node_def split: if_splits\<close>)
      then show ?thesis unfolding run using True by simp
    qed
  qed
qed

section \<open>Acting on the reply\<close>

text \<open>Who has a reply, or holds a page, is its recorded owner.\<close>

lemma owner_of:
  assumes inv: "cluster_inv E idx c" and i: "i < PROCESS_CNT" and p: "p \<in> pages c"
    and "cl_reply c i p \<noteq> None \<or> lock_mode (node c i p) \<noteq> LM_O"
  shows "gl_table (cl_global c) p = Some (int i)" and "owner_ok c i p"
proof -
  obtain j where j: "gl_table (cl_global c) p = Some j" using p by auto
  have "if int i = j then owner_ok c i p else other_ok c i p"
    using inv i j by (simp add: cluster_inv_def holder_ok_def)
  then show "gl_table (cl_global c) p = Some (int i)" "owner_ok c i p"
    using j assms(4) by (auto simp: other_ok_def split: if_splits)
qed

text \<open>A step of the owner that leaves it holding the page.\<close>

lemma owner_step:
  fixes c :: "'d cluster"
  assumes inv: "cluster_inv E idx c" and i: "i < PROCESS_CNT" and p: "p \<in> pages c"
    and own: "gl_table (cl_global c) p = Some (int i)"
    and fit: "inst_fit idx (pages c) d" and mode: "lock_mode (the (db_locks d p)) = LM_P"
    and same: "\<And>q. q \<noteq> p \<Longrightarrow> db_locks d q = db_locks (cl_inst c i) q"
      "\<And>q. q \<noteq> p \<Longrightarrow> cached (db_buffer d) q = cached (db_buffer (cl_inst c i)) q"
    and rows: "rows_ok idx (rowsz E) ((cpage c)(p := cached (db_buffer d) p))"
  defines "c' \<equiv> set_inst i d (c\<lparr>cl_reply := (cl_reply c)(i := (cl_reply c i)(p := None))\<rparr>)"
  shows "cluster_inv E idx c'" and "cpage c' = (cpage c)(p := cached (db_buffer d) p)"
proof -
  have other: "same_at c c' q" if "q \<noteq> p" for q
    using same that by (simp add: same_at_def c'_def set_inst_def)
  have "cpage c' p = cached (db_buffer d) p" using own by (simp add: cpage_def c'_def set_inst_def)
  from cpage_step [OF other this] show pg: "cpage c' = (cpage c)(p := cached (db_buffer d) p)" .
  have F: "inst_fit idx (pages c') (cl_inst c' k)" if "k < PROCESS_CNT" for k
    using inv fit that by (simp add: cluster_inv_def c'_def set_inst_def)
  have H: "if int k = int i then owner_ok c k p else other_ok c k p" if "k < PROCESS_CNT" for k
    using inv own that by (simp add: cluster_inv_def holder_ok_def)
  have "owner_ok c' i p" using mode by (simp add: owner_ok_def c'_def set_inst_def)
  moreover have "other_ok c' k p" if "k < PROCESS_CNT" "k \<noteq> i" for k
    using H [OF that(1)] that(2) by (simp add: other_ok_def c'_def set_inst_def)
  ultimately have "holder_ok c' p" using own by (auto simp: holder_ok_def c'_def set_inst_def)
  moreover have "glob_fit E (cl_global c')" using inv by (simp add: cluster_inv_def c'_def set_inst_def)
  ultimately show "cluster_inv E idx c'"
    using cluster_inv_step [OF inv other _ F] rows pg by simp
qed

lemma inst_fit_buffer:
  assumes "inst_fit idx ps d" and "buf_inv b xs fs" and "\<And>q. q \<in> ps \<Longrightarrow> cached b q \<noteq> None"
  shows "inst_fit idx ps (d\<lparr>db_buffer := b\<rparr>)"
  using assms unfolding inst_fit_def by auto

lemma install_run:
  assumes r: "cl_reply c i p = Some (RCOK, b)" "length b = MY_PAGE_SIZE"
    and n: "db_locks (cl_inst c i) p = Some n" "lock_mode n = LM_O"
    and B: "buf_inv (db_buffer (cl_inst c i)) xs fs" "cached (db_buffer (cl_inst c i)) p = Some b0"
  obtains s' where "cstep E (Install i p) c =
      Inr (set_inst i (set_node p (n\<lparr>lock_mode := LM_P, lock_remoting := False\<rparr>) ((cl_inst c i)\<lparr>db_buffer := s'\<rparr>))
        (c\<lparr>cl_reply := (cl_reply c)(i := (cl_reply c i)(p := None))\<rparr>))"
    and "buf_inv s' xs fs" and "cached s' = (cached (db_buffer (cl_inst c i)))(p \<mapsto> b)"
proof -
  obtain s' where s': "BufferPut (dops E) p b MY_PAGE_SIZE (db_buffer (cl_inst c i)) = Inr s'" "buf_inv s' xs fs"
    "cached s' = (cached (db_buffer (cl_inst c i)))(p \<mapsto> b)"
    using BufferPut_hit [OF B r(2)] by metis
  then show ?thesis using that r n by (simp add: install_page_def end_remote_def node_at_def set_node_def)
qed

lemma install_ok:
  assumes inv: "cluster_inv E idx c" and ev: "event_ok E idx (Install i p) c"
  shows "\<exists>c'. cstep E (Install i p) c = Inr c' \<and> cluster_inv E idx c' \<and> cpage c' = cpage c"
proof -
  let ?d = "cl_inst c i"
  have i: "i < PROCESS_CNT" and p: "p \<in> pages c" and r: "cl_reply c i p \<noteq> None" using ev by auto
  have own: "gl_table (cl_global c) p = Some (int i)" "owner_ok c i p" using owner_of [OF inv i p] r by blast+
  then obtain b where b: "cl_reply c i p = Some (RCOK, b)" "length b = MY_PAGE_SIZE" "lock_mode (node c i p) = LM_O"
    using r by (auto simp: owner_ok_def)
  have fit: "inst_fit idx (pages c) ?d" using inv i by (simp add: cluster_inv_def)
  obtain n b0 xs fs where n: "db_locks ?d p = Some n" "node_ok n" "cached (db_buffer ?d) p = Some b0"
    "buf_inv (db_buffer ?d) xs fs"
    using inst_fit_nodeD [OF fit p] by metis
  have mn: "lock_mode n = LM_O" using b(3) n(1) by simp
  obtain s' where s': "cstep E (Install i p) c =
      Inr (set_inst i (set_node p (n\<lparr>lock_mode := LM_P, lock_remoting := False\<rparr>) (?d\<lparr>db_buffer := s'\<rparr>))
        (c\<lparr>cl_reply := (cl_reply c)(i := (cl_reply c i)(p := None))\<rparr>))" "buf_inv s' xs fs"
    "cached s' = (cached (db_buffer ?d))(p \<mapsto> b)"
    by (rule install_run [OF b(1,2) n(1) mn n(4,3)])
  let ?d' = "set_node p (n\<lparr>lock_mode := LM_P, lock_remoting := False\<rparr>) (?d\<lparr>db_buffer := s'\<rparr>)"
  have "inst_fit idx (pages c) ?d'"
    by (rule inst_fit_set_node [OF inst_fit_buffer [OF fit s'(2)]]) (use fit s'(3) n mn in \<open>auto simp: inst_fit_def node_ok_def\<close>)
  moreover have "cpage c p = Some b" using own b by (simp add: cpage_def)
  moreover have "rows_ok idx (rowsz E) (cpage c)" using inv by (simp add: cluster_inv_def)
  ultimately show ?thesis
    using owner_step [OF inv i p own(1), of ?d'] s'(1,3) by (simp add: fun_upd_idem set_node_def del: cstep.simps)
qed

section \<open>Registering and removing threads\<close>

text \<open>Replacing the node of a held page by one in the same mode.\<close>

lemma node_step:
  assumes inv: "cluster_inv E idx c" and i: "i < PROCESS_CNT" and p: "p \<in> pages c"
    and mode: "lock_mode (node c i p) \<noteq> LM_O" and n: "node_ok n" "lock_mode n = lock_mode (node c i p)"
  shows "cluster_inv E idx (set_inst i ((cl_inst c i)\<lparr>db_locks := (db_locks (cl_inst c i))(p \<mapsto> n)\<rparr>) c) \<and>
    cpage (set_inst i ((cl_inst c i)\<lparr>db_locks := (db_locks (cl_inst c i))(p \<mapsto> n)\<rparr>) c) = cpage c"
proof -
  let ?d = "(cl_inst c i)\<lparr>db_locks := (db_locks (cl_inst c i))(p \<mapsto> n)\<rparr>"
  have own: "gl_table (cl_global c) p = Some (int i)" "cl_reply c i p = None" "lock_mode (node c i p) = LM_P"
    using owner_of [OF inv i p] mode by (auto simp: owner_ok_def)
  then have "(cl_reply c)(i := (cl_reply c i)(p := None)) = cl_reply c" by (simp add: fun_upd_idem)
  moreover have "inst_fit idx (pages c) ?d"
    by (rule inst_fit_node) (use inv i n own(3) in \<open>simp_all add: cluster_inv_def\<close>)
  moreover have "(cpage c)(p := cached (db_buffer ?d) p) = cpage c"
    using own by (simp add: cpage_def fun_upd_idem)
  moreover have "rows_ok idx (rowsz E) (cpage c)" using inv by (simp add: cluster_inv_def)
  ultimately show ?thesis
    using owner_step [OF inv i p own(1), of ?d] n(2) own(3) by simp
qed

lemma enter_ok:
  assumes inv: "cluster_inv E idx c" and ev: "event_ok E idx (Enter i thd p) c"
  shows "\<exists>c'. cstep E (Enter i thd p) c = Inr c' \<and> cluster_inv E idx c' \<and> cpage c' = cpage c"
proof -
  have i: "i < PROCESS_CNT" and p: "p \<in> pages c" and m: "lock_mode (node c i p) \<noteq> LM_O" using ev by auto
  have "inst_fit idx (pages c) (cl_inst c i)" using inv i by (simp add: cluster_inv_def)
  then obtain n where n: "db_locks (cl_inst c i) p = Some n" "node_ok n" using inst_fit_nodeD [OF _ p] by metis
  have "lock_mode (AddThread_node thd n) = lock_mode n" by (simp add: AddThread_node_def)
  then show ?thesis
    using node_step [OF inv i p m node_ok_AddThread [OF n(2), of thd]] m n(1)
    by (simp add: register_page_def node_at_def LockTable_AddThread_def with_node_def)
qed

lemma leave_ok:
  assumes inv: "cluster_inv E idx c" and ev: "event_ok E idx (Leave i thd p) c"
  shows "\<exists>c'. cstep E (Leave i thd p) c = Inr c' \<and> cluster_inv E idx c' \<and> cpage c' = cpage c"
proof -
  have i: "i < PROCESS_CNT" and p: "p \<in> pages c" and m: "lock_mode (node c i p) \<noteq> LM_O" using ev by auto
  have "inst_fit idx (pages c) (cl_inst c i)" using inv i by (simp add: cluster_inv_def)
  then obtain n where n: "db_locks (cl_inst c i) p = Some n" "node_ok n" using inst_fit_nodeD [OF _ p] by metis
  have "thd \<in> thread_set n \<Longrightarrow> 0 < thread_count n" using n(2) by (auto simp: node_ok_def card_gt_0_iff)
  then obtain n' where n': "RemoveThread_node thd n = Inr n'" using m n(1) by (cases "thd \<in> thread_set n") (auto simp: RemoveThread_node_def)
  then have "lock_mode n' = lock_mode n" by (auto simp: RemoveThread_node_def asserting_Inr_iff split: if_splits)
  then show ?thesis
    using node_step [OF inv i p m node_ok_RemoveThread [OF n(2) n']] n(1) n'
    by (simp add: LockTable_RemoveThread_def with_node_def)
qed

section \<open>Writing a row\<close>

definition crow :: "index_map \<Rightarrow> nat \<Rightarrow> (u64 \<Rightarrow> bytes option) \<Rightarrow> u64 \<Rightarrow> bytes option" where
  "crow idx sz m k =
     (case idx k of None \<Rightarrow> None | Some it \<Rightarrow> map_option (row_at sz it) (m (item_page_id it)))"

lemma rows_okD:
  assumes "rows_ok idx sz m" and "idx k = Some it"
  obtains c where "m (item_page_id it) = Some c" and "page_ok (item_page_id it) c" and "row_valid sz k (row_at sz it c)"
    and "32 \<le> unat (item_location it)" and "unat (item_location it) + sz \<le> length c"
  using assms unfolding rows_ok_def layout_ok_def page_ok_def by metis

text \<open>On the map of pages a written row replaces that row and no other.\<close>

lemma rows_put:
  assumes ok: "rows_ok idx sz m" and it: "idx k = Some it" and c: "m (item_page_id it) = Some c"
    and w: "memcpy_at c (unat (item_location it)) b = Inr c'" and b: "row_valid sz k b"
  shows "rows_ok idx sz (m(item_page_id it \<mapsto> c'))" and "crow idx sz (m(item_page_id it \<mapsto> c')) = (crow idx sz m)(k \<mapsto> b)"
proof -
  let ?p = "item_page_id it" and ?m = "m(item_page_id it \<mapsto> c')"
  have lb: "length b = sz" and lay: "layout_ok sz idx" using b ok by (simp_all add: row_valid_def rows_ok_def)
  have cok: "page_ok ?p c" "32 \<le> unat (item_location it)" using rows_okD [OF ok it] c by (metis option.inject)+
  have "take 8 c' = take 8 c" using w cok(2) by (auto simp: mem_simps)
  then have c'ok: "page_ok ?p c'" using cok(1) memcpy_at_length [OF w] by (simp add: page_ok_def)
  have new: "row_at sz it c' = b" by (rule row_at_written [OF w lb])
  have old: "row_at sz it2 c' = row_at sz it2 c" if "idx k2 = Some it2" "k2 \<noteq> k" "item_page_id it2 = ?p" for k2 it2
  proof (rule row_at_other [OF w lb])
    show "unat (item_location it) + sz \<le> unat (item_location it2) \<or> unat (item_location it2) + sz \<le> unat (item_location it)"
      using lay it that unfolding layout_ok_def by metis
    show "unat (item_location it2) + sz \<le> length c" using rows_okD [OF ok that(1)] c that(3) by (metis option.inject)
  qed
  have row: "\<exists>x. ?m (item_page_id it2) = Some x \<and> page_ok (item_page_id it2) x \<and>
      row_at sz it2 x = (if k2 = k then b else the (crow idx sz m k2)) \<and> row_valid sz k2 (row_at sz it2 x)"
    if k2: "idx k2 = Some it2" for k2 it2
  proof (cases "k2 = k")
    case True
    then show ?thesis using k2 it c'ok new b by simp
  next
    case False
    obtain x where x: "m (item_page_id it2) = Some x" "page_ok (item_page_id it2) x" "row_valid sz k2 (row_at sz it2 x)"
      using rows_okD [OF ok k2] by metis
    then show ?thesis
      using False k2 c'ok old [OF k2 False] c by (cases "item_page_id it2 = ?p") (auto simp: crow_def)
  qed
  then show "rows_ok idx sz ?m" using lay unfolding rows_ok_def by blast
  show "crow idx sz ?m = (crow idx sz m)(k \<mapsto> b)"
  proof
    fix k2
    show "crow idx sz ?m k2 = ((crow idx sz m)(k \<mapsto> b)) k2"
    proof (cases "idx k2")
      case (Some it2)
      then show ?thesis using row [OF Some] rows_okD [OF ok Some] by (fastforce simp: crow_def)
    qed (use it in \<open>auto simp: crow_def\<close>)
  qed
qed

text \<open>\<open>WriteRow\<close> and \<open>SnapShotReadRow\<close> on an instance that has the page in its buffer.\<close>

lemma fetch_hit:
  assumes "buf_inv (db_buffer d) xs fs" and "cached (db_buffer d) p = Some c" and "page_ok p c" and "length (l_buf L) = MY_PAGE_SIZE"
  obtains pg where "fetch_page D L p d = Inr (pg, d)" and "page_id pg = p" and "page_buf pg = c"
    and "Deserialize (Page_new (l_version L) c) = Inr pg"
proof -
  obtain pg where pg: "Deserialize (Page_new (l_version L) c) = Inr pg" "page_id pg = p" "page_buf pg = c"
    using Deserialize_page_ok [OF assms(3)] by blast
  then have "fetch_page D L p d = Inr (pg, d)"
    using BufferGet_hit [OF assms(1,2,4)] by (simp add: fetch_page_def)
  then show ?thesis using that pg by blast
qed

lemma SnapShotReadRow_hit:
  assumes "buf_inv (db_buffer d) xs fs" and "cached (db_buffer d) (item_page_id it) = Some c" and "page_ok (item_page_id it) c"
    and "length (l_buf L) = MY_PAGE_SIZE" and "db_index d k = Some it" and "layout_ok sz (db_index d)"
    and "row_valid sz k (row_at sz it c)"
  shows "SnapShotReadRow D L k sz d = Inr (row_at sz it c, d)"
proof -
  obtain pg where pg: "fetch_page D L (item_page_id it) d = Inr (pg, d)" "page_id pg = item_page_id it" "page_buf pg = c"
    using fetch_hit [OF assms(1-4)] by metis
  have "row_of_page pg it k sz = Inr (row_at sz it c)"
    using row_of_page_ok [OF assms(6,5) pg(3) _ assms(7)] assms(3) by (simp add: page_ok_def)
  then show ?thesis using pg assms(5) by (simp add: SnapShotReadRow_def Let_def)
qed

lemma WriteRow_hit:
  assumes inv: "buf_inv (db_buffer d) xs fs" and c: "cached (db_buffer d) (item_page_id it) = Some c" "page_ok (item_page_id it) c"
    and L: "length (l_buf L) = MY_PAGE_SIZE" and it: "db_index d k = Some it" and loc: "32 \<le> unat (item_location it)"
    and n: "db_locks d (item_page_id it) = Some n" "node_ok n" "lock_mode n = LM_P"
    and w: "memcpy_at c (unat (item_location it)) b = Inr c'"
  obtains s' where "WriteRow D L k b d = Inr (d\<lparr>db_buffer := s'\<rparr>)" and "buf_inv s' xs fs"
    and "cached s' = (cached (db_buffer d))(item_page_id it \<mapsto> c')"
proof -
  let ?p = "item_page_id it"
  let ?d1 = "d\<lparr>db_locks := (db_locks d)(?p \<mapsto> n\<lparr>lock_mode := LM_X, lock_count := 1\<rparr>)\<rparr>"
  obtain pg where pg: "fetch_page D L ?p ?d1 = Inr (pg, ?d1)" "page_buf pg = c" "Deserialize (Page_new (l_version L) c) = Inr pg"
    using fetch_hit [of ?d1 xs fs ?p c L D] inv c L by auto
  have lc: "length c' = MY_PAGE_SIZE" using memcpy_at_length [OF w] c(2) by (simp add: page_ok_def)
  have "take 32 c' = take 32 c" using w loc by (auto simp: mem_simps)
  moreover have "32 \<le> length c'" using lc by (simp add: MY_PAGE_SIZE_def)
  ultimately have ser: "Serialize (pg\<lparr>page_buf := c'\<rparr>) = Inr (pg\<lparr>page_buf := c'\<rparr>)"
    using Serialize_after_Deserialize [OF pg(3), of c'] by (simp add: Page_new_def)
  obtain s' where s': "BufferPut D ?p c' MY_PAGE_SIZE (db_buffer d) = Inr s'" "buf_inv s' xs fs"
    "cached s' = (cached (db_buffer d))(?p \<mapsto> c')"
    using BufferPut_hit [OF inv c(1) lc] by metis
  have "WriteRow D L k b d = Inr (d\<lparr>db_buffer := s'\<rparr>)"
    using it n pg w ser s'(1) lock_unlock_page [OF n]
    by (simp add: WriteRow_def Let_def mode_of_def)
  then show ?thesis using that s' by blast
qed

lemma write_ok:
  assumes inv: "cluster_inv E idx c" and L: "length (l_buf (locs E)) = MY_PAGE_SIZE" and ev: "event_ok E idx (Write i k row) c"
  shows "\<exists>c'. cstep E (Write i k row) c = Inr c' \<and> cluster_inv E idx c' \<and>
    crow idx (rowsz E) (cpage c') = (crow idx (rowsz E) (cpage c))(k \<mapsto> row)"
proof -
  let ?d = "cl_inst c i" and ?sz = "rowsz E"
  obtain it where i: "i < PROCESS_CNT" and b: "row_valid ?sz k row" and it: "idx k = Some it"
    and m: "lock_mode (node c i (item_page_id it)) \<noteq> LM_O"
    using ev by auto
  let ?p = "item_page_id it" and ?l = "unat (item_location it)"
  have rows: "rows_ok idx ?sz (cpage c)" and fit: "inst_fit idx (pages c) ?d" using inv i by (simp_all add: cluster_inv_def)
  obtain x where x: "cpage c ?p = Some x" "page_ok ?p x" "32 \<le> ?l" "?l + ?sz \<le> length x"
    using rows_okD [OF rows it] by metis
  have p: "?p \<in> pages c" using x(1) by (auto simp: cpage_def split: option.splits)
  have own: "gl_table (cl_global c) ?p = Some (int i)" "cl_reply c i ?p = None" "lock_mode (node c i ?p) = LM_P"
    using owner_of [OF inv i p] m by (auto simp: owner_ok_def)
  obtain n xs fs where n: "db_locks ?d ?p = Some n" "node_ok n" "buf_inv (db_buffer ?d) xs fs"
    using inst_fit_nodeD [OF fit p] by metis
  have cx: "cached (db_buffer ?d) ?p = Some x" using x(1) own by (simp add: cpage_def)
  obtain x' where w: "memcpy_at x ?l row = Inr x'"
    using memcpy_at_ok [of ?l row x] x(4) b by (auto simp: row_valid_def)
  have ix: "db_index ?d = idx" and mn: "lock_mode n = LM_P" using fit own(3) n(1) by (simp_all add: inst_fit_def)
  obtain s' where s': "WriteRow (dops E) (locs E) k row ?d = Inr (?d\<lparr>db_buffer := s'\<rparr>)" "buf_inv s' xs fs"
    "cached s' = (cached (db_buffer ?d))(?p \<mapsto> x')"
    using WriteRow_hit [OF n(3) cx x(2) L _ x(3) n(1,2) mn w] ix it by metis
  let ?d' = "?d\<lparr>db_buffer := s'\<rparr>"
  have "inst_fit idx (pages c) ?d'"
    by (rule inst_fit_buffer [OF fit s'(2)]) (use fit s'(3) in \<open>auto simp: inst_fit_def\<close>)
  moreover have "(cl_reply c)(i := (cl_reply c i)(?p := None)) = cl_reply c" using own(2) by (simp add: fun_upd_idem)
  ultimately have "cluster_inv E idx (set_inst i ?d' c)" "cpage (set_inst i ?d' c) = (cpage c)(?p \<mapsto> x')"
    using owner_step [OF inv i p own(1), of ?d'] own(3) s'(3) rows_put(1) [OF rows it x(1) w b] by simp_all
  then show ?thesis using s'(1) rows_put(2) [OF rows it x(1) w b] by simp
qed

section \<open>Runs\<close>

definition replay :: "cevent list \<Rightarrow> (u64 \<Rightarrow> bytes option) \<Rightarrow> (u64 \<Rightarrow> bytes option)" where
  "replay es m = foldl (\<lambda>m e. case e of Write i k row \<Rightarrow> m(k \<mapsto> row) | _ \<Rightarrow> m) m es"

lemma replay_append: "replay (es @ fs) m = replay fs (replay es m)"
  by (simp add: replay_def)

lemma replay_one [simp]:
  "replay [] m = m" "replay [Request i p] m = m" "replay [Install i p] m = m" "replay [Enter i t p] m = m"
  "replay [Leave i t p] m = m" "replay [Write i k row] m = m(k \<mapsto> row)"
  by (simp_all add: replay_def)

text \<open>Every step that may be taken succeeds or waits; it keeps the invariant and the rows.\<close>

lemma cstep_ok:
  assumes inv: "cluster_inv E idx c" and len: "length (arr E) = MY_PAGE_SIZE" "length (l_buf (locs E)) = MY_PAGE_SIZE"
    and ev: "event_ok E idx e c"
  shows "cstep E e c = Inl Blocked \<and> waits c e \<or> (\<exists>c'. cstep E e c = Inr c' \<and> cluster_inv E idx c' \<and>
    crow idx (rowsz E) (cpage c') = replay [e] (crow idx (rowsz E) (cpage c)))"
proof (cases e)
  case (Request i p)
  then show ?thesis using request_ok [OF inv len(1) ev [unfolded Request]] by (auto simp del: cstep.simps)
next
  case (Install i p)
  then show ?thesis using install_ok [OF inv ev [unfolded Install]] by (auto simp del: cstep.simps)
next
  case (Enter i thd p)
  then show ?thesis using enter_ok [OF inv ev [unfolded Enter]] by (auto simp del: cstep.simps)
next
  case (Leave i thd p)
  then show ?thesis using leave_ok [OF inv ev [unfolded Leave]] by (auto simp del: cstep.simps)
next
  case (Write i k row)
  then show ?thesis using write_ok [OF inv len(2) ev [unfolded Write]] by (auto simp del: cstep.simps)
qed

lemma crun_ok:
  assumes "crun E idx c0 es c" and "cluster_inv E idx c0" and "length (arr E) = MY_PAGE_SIZE" "length (l_buf (locs E)) = MY_PAGE_SIZE"
  shows "cluster_inv E idx c \<and> crow idx (rowsz E) (cpage c) = replay es (crow idx (rowsz E) (cpage c0))"
  using assms
proof (induction rule: crun.induct)
  case (step c es c1 e c2)
  then have "cluster_inv E idx c1" "crow idx (rowsz E) (cpage c1) = replay es (crow idx (rowsz E) (cpage c))" by simp_all
  then show ?case using cstep_ok [of E idx c1 e] step by (auto simp: replay_append)
qed simp

text \<open>The owner reads the valid copy.\<close>

lemma owner_reads:
  assumes inv: "cluster_inv E idx c" and L: "length (l_buf (locs E)) = MY_PAGE_SIZE" and i: "i < PROCESS_CNT"
    and it: "idx k = Some it" and m: "lock_mode (node c i (item_page_id it)) \<noteq> LM_O"
  shows "SnapShotReadRow (dops E) (locs E) k (rowsz E) (cl_inst c i) =
    Inr (the (crow idx (rowsz E) (cpage c) k), cl_inst c i)"
proof -
  let ?p = "item_page_id it" and ?d = "cl_inst c i"
  have rows: "rows_ok idx (rowsz E) (cpage c)" and fit: "inst_fit idx (pages c) ?d" using inv i by (simp_all add: cluster_inv_def)
  obtain x where x: "cpage c ?p = Some x" "page_ok ?p x" "row_valid (rowsz E) k (row_at (rowsz E) it x)"
    using rows_okD [OF rows it] by metis
  have p: "?p \<in> pages c" using x(1) by (auto simp: cpage_def split: option.splits)
  have "gl_table (cl_global c) ?p = Some (int i)" "cl_reply c i ?p = None"
    using owner_of [OF inv i p] m by (auto simp: owner_ok_def)
  then have cx: "cached (db_buffer ?d) ?p = Some x" using x(1) by (simp add: cpage_def)
  obtain xs fs where B: "buf_inv (db_buffer ?d) xs fs" and ix: "db_index ?d = idx" using fit by (auto simp: inst_fit_def)
  have "layout_ok (rowsz E) (db_index ?d)" using rows ix by (simp add: rows_ok_def)
  from SnapShotReadRow_hit [OF B cx x(2) L _ this x(3)] ix it x(1)
  show ?thesis by (simp add: crow_def)
qed

end
