(* ===== verification/Manager.thy ===== *)
theory Manager
  imports Write_Locks
begin

text \<open>
  \<open>instance/manager_instance.cpp\<close>: the parts of an instance and their initialisation, the timestamp
  counter and the table of active timestamps. The files of the table space and the index are read
  beforehand (their readers are modelled in \<open>Table_Space\<close> and \<open>Record_Index\<close>); what they hold is
  an argument.
\<close>

section \<open>State\<close>

definition SYNTH_TABLE_SIZE :: nat where
  "SYNTH_TABLE_SIZE = 20889600"

text \<open>
  \<open>mi_mvccs\<close> are the version histories of the rows, their own fields only: the transactions, active
  timestamps and the database they act on are the instance's. \<open>mi_txns\<close> are the transaction objects,
  as far as the histories use them.
\<close>

record 'db manager =
  mi_instance_id :: int
  mi_init_done :: bool
  mi_timestamp :: u64
  mi_all_ts :: "u64 list"
  mi_txn_man :: "nat option list"
  mi_queries :: "query_thd list"
  mi_mvccs :: "unit mvcc list"
  mi_txns :: "nat \<Rightarrow> mtxn"
  mi_db :: 'db

section \<open>Initialisation\<close>

text \<open>
  \<open>mvcc_array_\<close> has a fixed size; \<open>pts\<close> and \<open>pid\<close> are the uninitialised fields of a history, \<open>jk\<close> the
  contents of its row objects when they are allocated.
\<close>

definition InitMvccs ::
  "(nat \<Rightarrow> u64) \<Rightarrow> (nat \<Rightarrow> nat) \<Rightarrow> (nat \<Rightarrow> nat \<Rightarrow> bytes) \<Rightarrow> (nat \<Rightarrow> mtxn) \<Rightarrow> nat \<Rightarrow> u64 \<Rightarrow> unit mvcc list res" where
  "InitMvccs pts pid jk tx tuple_size table_size =
     (if unat table_size \<le> SYNTH_TABLE_SIZE
      then Inr (map (\<lambda>key. mvcc_init (of_nat key) tuple_size (pts key) (pid key) (jk key) tx [] ())
                 [0..<unat table_size])
      else Inl Out_Of_Bounds)"

text \<open>The storage of an instance: the buffer over the shared disk, the lock table, the warm-up.\<close>

definition load_db ::
  "'d disk_ops \<Rightarrow> (nat \<Rightarrow> u64) \<Rightarrow> (u64 \<Rightarrow> bytes) \<Rightarrow> table_space \<Rightarrow> index_map \<Rightarrow> int \<Rightarrow> 'd \<Rightarrow> 'd inst_db res" where
  "load_db D vs stk ts idx inst d =
     rbind (Buffer_new vs FILE_SIZE (of_nat MY_PAGE_SIZE) d) (\<lambda>buf.
     let start = 0; stop = GetLastPageId ts + 1 in
     rbind (warm_buffer D stk (page_numbers start stop) buf) (\<lambda>buf'.
     Inr \<lparr>db_index = idx, db_buffer = buf', db_locks = LockTable_Init start stop inst Map.empty\<rparr>))"

definition Manager_Init ::
  "'r rng \<Rightarrow> query_cfg \<Rightarrow> (nat \<Rightarrow> 'r) \<Rightarrow> zipf_static \<Rightarrow> nat \<Rightarrow> (nat \<Rightarrow> u64) \<Rightarrow> (nat \<Rightarrow> nat) \<Rightarrow> (nat \<Rightarrow> nat \<Rightarrow> bytes)
   \<Rightarrow> (nat \<Rightarrow> mtxn) \<Rightarrow> nat \<Rightarrow> 'd disk_ops \<Rightarrow> (nat \<Rightarrow> u64) \<Rightarrow> (u64 \<Rightarrow> bytes) \<Rightarrow> table_space \<Rightarrow> index_map \<Rightarrow> int \<Rightarrow> 'd
   \<Rightarrow> 'd inst_db manager res" where
  "Manager_Init R C seed z thread_cnt pts pid jk tx tuple_size D vs stk ts idx inst d =
     rbind (Query_queue_init R C seed thread_cnt z) (\<lambda>(qs, _).
     rbind (InitMvccs pts pid jk tx tuple_size (g_synth_table_size C)) (\<lambda>ms.
     rbind (load_db D vs stk ts idx inst d) (\<lambda>db.
     Inr \<lparr>mi_instance_id = inst, mi_init_done = False, mi_timestamp = 1,
          mi_all_ts = replicate thread_cnt UINT64_MAX, mi_txn_man = replicate thread_cnt None,
          mi_queries = qs, mi_mvccs = ms, mi_txns = tx, mi_db = db\<rparr>)))"

section \<open>Timestamps and transactions\<close>

definition Manager_GetNextTs :: "u64 \<Rightarrow> 'db manager \<Rightarrow> u64 \<times> 'db manager" where
  "Manager_GetNextTs thread_id m = (mi_timestamp m, m\<lparr>mi_timestamp := mi_timestamp m + 1\<rparr>)"

definition SetTxnMan :: "nat \<Rightarrow> nat option \<Rightarrow> 'db manager \<Rightarrow> 'db manager res" where
  "SetTxnMan thd txn m =
     (if thd < length (mi_txn_man m) then Inr (m\<lparr>mi_txn_man := (mi_txn_man m)[thd := txn]\<rparr>) else Inl Out_Of_Bounds)"

definition AddTs :: "nat \<Rightarrow> u64 \<Rightarrow> 'db manager \<Rightarrow> 'db manager res" where
  "AddTs thd ts m =
     (if thd < length (mi_all_ts m) then Inr (m\<lparr>mi_all_ts := (mi_all_ts m)[thd := ts]\<rparr>) else Inl Out_Of_Bounds)"

section \<open>Warming a buffer\<close>

lemma cached_None_iff: "buf_inv s ps fs \<Longrightarrow> cached s i = None \<longleftrightarrow> lru_index s i = None"
proof (cases "lru_index s i")
  case (Some p)
  assume "buf_inv s ps fs"
  then have "index_ok (nodes s) (lru_index s) ps" by (simp add: buf_inv_def)
  then obtain a where "p = Some a" using Some index_ok_Some by blast
  then show ?thesis using Some by (simp add: cached_def bview_def)
qed (simp add: cached_def bview_def)

context page_disk
begin

text \<open>A miss while there is a free node: the page is read and becomes resident.\<close>

lemma BufferGet_free:
  assumes inv: "buf_inv s ps fs" and dk: "dinv (disk s)" and fs: "fs \<noteq> []" and new: "cached s i = None"
    and c: "dpage (disk s) i = Some c" and len: "length buf = MY_PAGE_SIZE"
  obtains s' where "BufferGet D i buf MY_PAGE_SIZE s = Inr (c, s')" and "buf_inv s' (last fs # ps) (butlast fs)"
    and "dinv (disk s')" and "dpage (disk s') = dpage (disk s)" and "cached s' = (cached s)(i \<mapsto> c)"
proof -
  have ni: "lru_index s i = None" using new cached_None_iff [OF inv] by simp
  obtain b d1 where R: "ReadPage D i buf (disk s) = Inr (b, d1)" "length b = MY_PAGE_SIZE" "dinv d1"
    "dpage d1 = dpage (disk s)" "b = c"
    using read_page [OF dk len, of i] c by auto
  let ?s = "s\<lparr>disk := d1\<rparr>"
  have inv1: "buf_inv ?s ps fs" using inv by (simp add: buf_inv_def)
  obtain s' where s': "FreeListToPageList i c MY_PAGE_SIZE ?s = Inr s'" "buf_inv s' (last fs # ps) (butlast fs)"
    "disk s' = d1" "bview (\<lambda>_ _. None) s' = (bview (\<lambda>_ _. None) ?s)(i \<mapsto> c)"
    using FreeListToPageList_ok [OF inv1 fs, of i c] ni R(2,5) by auto
  have "bview (\<lambda>_ _. None) ?s = cached s" by (simp add: cached_def bview_def fun_eq_iff split: option.splits)
  then have "cached s' = (cached s)(i \<mapsto> c)" using s'(4) by (simp add: cached_def)
  moreover have "\<not> lru_size (free_list s) \<le> 0" using buf_inv_sizes [OF inv] fs by (cases fs) auto
  then have "BufferGet D i buf MY_PAGE_SIZE s = Inr (c, s')"
    using R(1,5) ni s'(1) buf_inv_sizes [OF inv] LruIndex_Get_inv [OF inv, of i]
    by (simp add: BufferGet_eq BufferGetWithLock_def take_in_def)
  ultimately show ?thesis using that s' R(3,4) by blast
qed

lemma warm_buffer_ok:
  assumes "buf_inv s ps fs" and "dinv (disk s)" and "distinct is" and "length is \<le> length fs"
    and "\<forall>i \<in> set is. cached s i = None" and "\<forall>i \<in> set is. dpage (disk s) i \<noteq> None" and "\<And>i. length (stk i) = MY_PAGE_SIZE"
  shows "\<exists>s' ps' fs'. warm_buffer D stk is s = Inr s' \<and> buf_inv s' ps' fs' \<and> dinv (disk s') \<and>
    (\<forall>i \<in> set is. cached s' i = dpage (disk s) i) \<and> (\<forall>i. i \<notin> set is \<longrightarrow> cached s' i = cached s i)"
  using assms
proof (induction "is" arbitrary: s ps fs)
  case (Cons i "is")
  then obtain c where c: "dpage (disk s) i = Some c" by auto
  have fs: "fs \<noteq> []" using Cons.prems(4) by auto
  obtain s1 where s1: "BufferGet D i (stk i) MY_PAGE_SIZE s = Inr (c, s1)" "buf_inv s1 (last fs # ps) (butlast fs)"
    "dinv (disk s1)" "dpage (disk s1) = dpage (disk s)" "cached s1 = (cached s)(i \<mapsto> c)"
    using BufferGet_free [OF Cons.prems(1,2) fs _ c Cons.prems(7)] Cons.prems(5) by (metis list.set_intros(1))
  have "\<exists>s' ps' fs'. warm_buffer D stk is s1 = Inr s' \<and> buf_inv s' ps' fs' \<and> dinv (disk s') \<and>
    (\<forall>j \<in> set is. cached s' j = dpage (disk s1) j) \<and> (\<forall>j. j \<notin> set is \<longrightarrow> cached s' j = cached s1 j)"
    by (rule Cons.IH [OF s1(2,3)]) (use Cons.prems s1(4,5) in auto)
  then obtain s' ps' fs' where s': "warm_buffer D stk is s1 = Inr s'" "buf_inv s' ps' fs'" "dinv (disk s')"
    "\<forall>j \<in> set is. cached s' j = dpage (disk s) j" "\<forall>j. j \<notin> set is \<longrightarrow> cached s' j = cached s1 j"
    unfolding s1(4) by blast
  then have "cached s' i = dpage (disk s) i" using s1(5) c Cons.prems(3) by simp
  then show ?case
    using s1(1,5) s' by (intro exI [of _ s'] exI [of _ ps'] exI [of _ fs']) auto
qed auto

end

section \<open>A loaded instance\<close>

lemma page_numbers_set: "set (page_numbers 0 b) = {p. p < b}"
proof -
  have "of_nat ` {0..<unat b} = {p. p < b}"
  proof (intro set_eqI iffI)
    fix p :: u64
    assume "p \<in> of_nat ` {0..<unat b}"
    then obtain i where "p = of_nat i" "i < unat b" by auto
    moreover have "unat b < 2 ^ 64" using unsigned_less [where w = b] by simp
    ultimately show "p \<in> {p. p < b}" by (simp add: word_less_nat_alt unat_of_nat)
  next
    fix p :: u64
    assume "p \<in> {p. p < b}"
    then show "p \<in> of_nat ` {0..<unat b}" by (intro image_eqI [of _ _ "unat p"]) (simp_all add: word_less_nat_alt)
  qed
  then show ?thesis by (simp add: page_numbers_def)
qed

lemma page_numbers_distinct: "distinct (page_numbers 0 b)" "length (page_numbers 0 b) = unat b"
proof -
  have "unat b < 2 ^ 64" using unsigned_less [where w = b] by simp
  then have "inj_on (of_nat :: nat \<Rightarrow> u64) {0..<unat b}"
    by (intro inj_on_inverseI [where g = unat]) (simp add: unat_of_nat)
  then show "distinct (page_numbers 0 b)" "length (page_numbers 0 b) = unat b"
    by (simp_all add: page_numbers_def distinct_map)
qed

lemma LockTable_Init_node:
  assumes "p < b"
  shows "LockTable_Init 0 b inst Map.empty p = Some (LockNode_new inst)"
proof -
  have *: "fold (\<lambda>i t. if t (of_nat i) = None then t(of_nat i \<mapsto> LockNode_new inst) else t) is t0 q =
      (if q \<in> of_nat ` set is \<and> t0 q = None then Some (LockNode_new inst) else t0 q)" for "is" t0 and q :: u64
    by (induction "is" arbitrary: t0) auto
  have "p \<in> of_nat ` {0..<unat b}" using assms page_numbers_set [of b] by (auto simp: page_numbers_def)
  then show ?thesis by (simp add: LockTable_Init_def *)
qed

text \<open>The pool of \<open>FILE_SIZE\<close> bytes has 102400 nodes.\<close>

lemma pool_nodes: "unat (FILE_SIZE div of_nat MY_PAGE_SIZE) = 102400" "unat (of_nat MY_PAGE_SIZE :: u64) = MY_PAGE_SIZE"
  by (simp_all add: FILE_SIZE_def MY_PAGE_SIZE_def)

context page_disk
begin

lemma new_buffer_warm:
  assumes "dinv d" and "unat b \<le> 102400" and "\<forall>p < b. dpage d p \<noteq> None" and "\<And>i. length (stk i) = MY_PAGE_SIZE"
  obtains s s' ps fs where "Buffer_new vs FILE_SIZE (of_nat MY_PAGE_SIZE) d = Inr s"
    and "warm_buffer D stk (page_numbers 0 b) s = Inr s'" and "buf_inv s' ps fs" and "\<forall>p < b. cached s' p = dpage d p"
proof -
  obtain s where s: "Buffer_new vs FILE_SIZE (of_nat MY_PAGE_SIZE) d = Inr s" "buf_inv s [] (rev [0..<102400])" "disk s = d"
    using Buffer_new_ok [of "of_nat MY_PAGE_SIZE" FILE_SIZE vs d] by (auto simp: pool_nodes)
  have "lru_index s i = None" for i using s(2) index_ok_None [of "nodes s" "lru_index s" "[]" i] by (simp add: buf_inv_def)
  then have none: "\<forall>i \<in> set (page_numbers 0 b). cached s i = None" by (simp add: cached_def bview_def)
  have "\<exists>s' ps fs. warm_buffer D stk (page_numbers 0 b) s = Inr s' \<and> buf_inv s' ps fs \<and> dinv (disk s') \<and>
      (\<forall>i \<in> set (page_numbers 0 b). cached s' i = dpage (disk s) i) \<and>
      (\<forall>i. i \<notin> set (page_numbers 0 b) \<longrightarrow> cached s' i = cached s i)"
    by (rule warm_buffer_ok [OF s(2) _ page_numbers_distinct(1) _ none])
       (use assms s(3) in \<open>auto simp: page_numbers_distinct page_numbers_set\<close>)
  then show ?thesis using that [OF s(1)] s(3) by (auto simp: page_numbers_set)
qed

text \<open>
  With at most 102400 pages, all of them in the store, loading an instance succeeds: every page is
  resident, and the instance owns none.
\<close>

lemma load_db_ok:
  assumes "dinv d" and "unat (GetLastPageId ts + 1) \<le> 102400" and "\<forall>p < GetLastPageId ts + 1. dpage d p \<noteq> None"
    and "\<And>i. length (stk i) = MY_PAGE_SIZE"
  obtains db ps fs where "load_db D vs stk ts idx inst d = Inr db" and "buf_inv (db_buffer db) ps fs" and "db_index db = idx"
    and "\<forall>p < GetLastPageId ts + 1. cached (db_buffer db) p = dpage d p \<and> db_locks db p = Some (LockNode_new inst)"
proof -
  obtain s s' ps fs where s: "Buffer_new vs FILE_SIZE (of_nat MY_PAGE_SIZE) d = Inr s"
    "warm_buffer D stk (page_numbers 0 (GetLastPageId ts + 1)) s = Inr s'" "buf_inv s' ps fs"
    "\<forall>p < GetLastPageId ts + 1. cached s' p = dpage d p"
    by (rule new_buffer_warm [OF assms, of vs])
  then show ?thesis
    using that [of "\<lparr>db_index = idx, db_buffer = s', db_locks = LockTable_Init 0 (GetLastPageId ts + 1) inst Map.empty\<rparr>"]
      LockTable_Init_node by (auto simp: load_db_def Let_def)
qed

end

end
