(* ===== verification/Cluster_Props.thy ===== *)
theory Cluster_Props
  imports Cluster Manager
begin

text \<open>
  The cluster from its start: the coordinator and the instances load their pages from the shared
  store, every instance announces itself, and then the steps of \<open>Cluster\<close> are taken.
\<close>

section \<open>Starting a cluster\<close>

text \<open>
  \<open>GlobalLock::GlobalLock\<close>, the storage part of \<open>ManagerInstance::Init\<close> for the two instances, and
  their \<open>InstanceInitDone\<close> calls. No later step writes the store, so every buffer has its own copy.
\<close>

definition boot ::
  "'d cenv \<Rightarrow> (string \<Rightarrow> int) \<Rightarrow> (int \<Rightarrow> string option) \<Rightarrow> (nat \<Rightarrow> u64) \<Rightarrow> table_space \<Rightarrow> index_map \<Rightarrow> 'd
   \<Rightarrow> 'd cluster res" where
  "boot E channel_init hosts vs ts idx d =
     rbind (GlobalLock_new (dops E) vs (\<lambda>_. arr E) ts hosts d) (\<lambda>g0.
     rbind (load_db (dops E) vs (\<lambda>_. arr E) ts idx 0 d) (\<lambda>d0.
     rbind (load_db (dops E) vs (\<lambda>_. arr E) ts idx 1 d) (\<lambda>d1.
     rbind (Impl_InstanceInitDone channel_init (\<lambda>_ _ w. Inr (Some (), w)) 0 g0 ()) (\<lambda>(_, g1, _).
     rbind (Impl_InstanceInitDone channel_init (\<lambda>_ _ w. Inr (Some (), w)) 1 g1 ()) (\<lambda>(_, g2, _).
     Inr \<lparr>cl_global = g2, cl_inst = (\<lambda>i. if i = 0 then d0 else d1), cl_reply = (\<lambda>_ _. None)\<rparr>)))))"

text \<open>The addresses of the instances are known and can be reached.\<close>

definition hosts_ok :: "'d cenv \<Rightarrow> (string \<Rightarrow> int) \<Rightarrow> (int \<Rightarrow> string option) \<Rightarrow> bool" where
  "hosts_ok E channel_init hosts \<longleftrightarrow>
     (\<forall>i < PROCESS_CNT. \<exists>h. hosts (int i) = Some h \<and> channel_init h = 0 \<and> net E h = Some i)"

text \<open>The pages of a table space as the store holds them.\<close>

definition table_pages :: "('d \<Rightarrow> u64 \<Rightarrow> bytes option) \<Rightarrow> table_space \<Rightarrow> 'd \<Rightarrow> u64 \<Rightarrow> bytes option" where
  "table_pages dpage ts d p = (if p < GetLastPageId ts + 1 then dpage d p else None)"

lemma LockNode_new_mode: "lock_mode (LockNode_new k) = LM_O" "\<not> lock_remoting (LockNode_new k)" "thread_count (LockNode_new k) = 0"
  by (simp_all add: LockNode_new_def)

lemma announce_ok:
  assumes "hosts_ok E ci hosts" and "gl_hosts g = hosts" and "i < PROCESS_CNT" and "\<not> info_init_done (gl_instances g ! i)"
  obtains h where "Impl_InstanceInitDone ci (\<lambda>_ _ w. Inr (Some (), w)) (int i) g () =
      Inr ((), g\<lparr>gl_instances := (gl_instances g)[i :=
        \<lparr>info_instance_id = int i, info_host = h, info_init_done = True, info_client = Some h\<rparr>]\<rparr>, ())"
    and "net E h = Some i"
proof -
  obtain h where h: "hosts (int i) = Some h" "ci h = 0" "net E h = Some i" using assms(1,3) by (auto simp: hosts_ok_def)
  have "g\<lparr>gl_hosts := hosts\<rparr> = g" using assms(2) by auto
  then show ?thesis
    using that [of h] h assms
    by (simp add: Impl_InstanceInitDone_def set_instance_i_def host_at_def Client_new_def Client_Test_def)
qed

context page_disk
begin

lemma GlobalLock_new_ok:
  assumes "dinv d" and "unat (GetLastPageId ts + 1) \<le> 102400" and "\<forall>p < GetLastPageId ts + 1. dpage d p \<noteq> None"
    and "\<And>i. length (stk i) = MY_PAGE_SIZE"
  obtains g ps fs where "GlobalLock_new D vs stk ts hosts d = Inr g" and "buf_inv (gl_buffer g) ps fs" and "gl_hosts g = hosts"
    and "gl_instances g = replicate PROCESS_CNT
      \<lparr>info_instance_id = - 1, info_host = [], info_init_done = False, info_client = None\<rparr>"
    and "gl_table g = (\<lambda>p. if p < GetLastPageId ts + 1 then Some (- 1) else None)"
    and "\<forall>p < GetLastPageId ts + 1. cached (gl_buffer g) p = dpage d p"
proof -
  obtain s s' ps fs where s: "Buffer_new vs FILE_SIZE (of_nat MY_PAGE_SIZE) d = Inr s"
    "warm_buffer D stk (page_numbers 0 (GetLastPageId ts + 1)) s = Inr s'" "buf_inv s' ps fs"
    "\<forall>p < GetLastPageId ts + 1. cached s' p = dpage d p"
    by (rule new_buffer_warm [OF assms, of vs])
  have "map_of (map (\<lambda>i. (i, GLockNode_new)) (page_numbers 0 b)) = (\<lambda>p. if p < b then Some (- 1) else None)" for b
    by (rule ext) (simp add: map_of_map_restrict restrict_map_def page_numbers_set GLockNode_new_def)
  then show ?thesis using that s by (simp add: GlobalLock_new_def Let_def)
qed

lemma boot_ok:
  assumes D: "dops E = D" and d: "dinv d" and n: "unat (GetLastPageId ts + 1) \<le> 102400"
    and pages: "\<forall>p < GetLastPageId ts + 1. dpage d p \<noteq> None" and len: "length (arr E) = MY_PAGE_SIZE"
    and hosts: "hosts_ok E ci hosts" and rows: "rows_ok idx (rowsz E) (table_pages dpage ts d)"
  obtains c where "boot E ci hosts vs ts idx d = Inr c" and "cluster_inv E idx c" and "cpage c = table_pages dpage ts d"
    and "\<forall>i p. p < GetLastPageId ts + 1 \<longrightarrow> gl_table (cl_global c) p = Some (- 1) \<and> cl_reply c i p = None \<and>
      (\<exists>k. db_locks (cl_inst c i) p = Some (LockNode_new k)) \<and> cached (db_buffer (cl_inst c i)) p = dpage d p"
proof -
  let ?n = "GetLastPageId ts + 1"
  have len': "\<And>i. length ((\<lambda>_. arr E) i) = MY_PAGE_SIZE" using len by simp
  obtain g xs fs where g: "GlobalLock_new D vs (\<lambda>_. arr E) ts hosts d = Inr g" "buf_inv (gl_buffer g) xs fs" "gl_hosts g = hosts"
    "gl_instances g = replicate PROCESS_CNT
      \<lparr>info_instance_id = - 1, info_host = [], info_init_done = False, info_client = None\<rparr>"
    "gl_table g = (\<lambda>p. if p < ?n then Some (- 1) else None)" "\<forall>p < ?n. cached (gl_buffer g) p = dpage d p"
    by (rule GlobalLock_new_ok [OF d n pages len'])
  obtain d0 xs0 fs0 where d0: "load_db D vs (\<lambda>_. arr E) ts idx 0 d = Inr d0" "buf_inv (db_buffer d0) xs0 fs0" "db_index d0 = idx"
    "\<forall>p < ?n. cached (db_buffer d0) p = dpage d p \<and> db_locks d0 p = Some (LockNode_new 0)"
    by (rule load_db_ok [OF d n pages len'])
  obtain d1 xs1 fs1 where d1: "load_db D vs (\<lambda>_. arr E) ts idx 1 d = Inr d1" "buf_inv (db_buffer d1) xs1 fs1" "db_index d1 = idx"
    "\<forall>p < ?n. cached (db_buffer d1) p = dpage d p \<and> db_locks d1 p = Some (LockNode_new 1)"
    by (rule load_db_ok [OF d n pages len'])
  have P: "PROCESS_CNT = 2" by (simp add: PROCESS_CNT_def)
  obtain h0 where h0: "Impl_InstanceInitDone ci (\<lambda>_ _ w. Inr (Some (), w)) (int 0) g () =
      Inr ((), g\<lparr>gl_instances := (gl_instances g)[0 :=
        \<lparr>info_instance_id = int 0, info_host = h0, info_init_done = True, info_client = Some h0\<rparr>]\<rparr>, ())" "net E h0 = Some 0"
    by (rule announce_ok [OF hosts g(3), of 0]) (simp_all add: g(4) P)
  let ?g1 = "g\<lparr>gl_instances := (gl_instances g)[0 :=
        \<lparr>info_instance_id = int 0, info_host = h0, info_init_done = True, info_client = Some h0\<rparr>]\<rparr>"
  obtain h1 where h1: "Impl_InstanceInitDone ci (\<lambda>_ _ w. Inr (Some (), w)) (int 1) ?g1 () =
      Inr ((), ?g1\<lparr>gl_instances := (gl_instances ?g1)[1 :=
        \<lparr>info_instance_id = int 1, info_host = h1, info_init_done = True, info_client = Some h1\<rparr>]\<rparr>, ())" "net E h1 = Some 1"
    by (rule announce_ok [OF hosts, of ?g1 1]) (simp_all add: g(3,4) P)
  let ?g2 = "?g1\<lparr>gl_instances := (gl_instances ?g1)[1 :=
        \<lparr>info_instance_id = int 1, info_host = h1, info_init_done = True, info_client = Some h1\<rparr>]\<rparr>"
  let ?c = "\<lparr>cl_global = ?g2, cl_inst = (\<lambda>i. if i = 0 then d0 else d1), cl_reply = (\<lambda>_ _. None)\<rparr>"
  have run: "boot E ci hosts vs ts idx d = Inr ?c" using g(1) d0(1) d1(1) h0(1) h1(1) by (simp add: boot_def D)
  have gf: "glob_fit E ?g2"
    using g(2,4,5,6) h0(2) h1(2) pages by (auto simp: glob_fit_def P less_2_cases_iff nth_list_update split: if_splits)
  have cp: "cpage ?c = table_pages dpage ts d"
    using g(5,6) by (auto simp: cpage_def table_pages_def fun_eq_iff)
  have dom: "pages ?c = {p. p < ?n}" using g(5) by (auto split: if_splits)
  have fit: "inst_fit idx (pages ?c) (cl_inst ?c i)" for i
    using d0 d1 pages unfolding dom inst_fit_def by (auto simp: node_ok_new LockNode_new_mode)
  have hold: "holder_ok ?c p" for p
    using g(5) d0(4) d1(4) by (auto simp: holder_ok_def other_ok_def LockNode_new_mode split: if_splits)
  have inv: "cluster_inv E idx ?c" using gf fit hold rows cp by (simp add: cluster_inv_def)
  show ?thesis by (rule that [OF run inv cp]) (use g(5) d0(4) d1(4) in auto)
qed

end

section \<open>A small cluster\<close>

text \<open>One page with the row of key 7, two instances at the addresses \<open>a\<close> and \<open>b\<close>.\<close>

definition demo_env :: "mem_world file_io cenv" where
  "demo_env = \<lparr>net = [''a'' \<mapsto> 0, ''b'' \<mapsto> 1], dops = file_disk mem_posix, arr = replicate MY_PAGE_SIZE 0,
     locs = zero_locals, rowsz = 16\<rparr>"

definition demo_hosts :: "int \<Rightarrow> string option" where
  "demo_hosts = [0 \<mapsto> ''a'', 1 \<mapsto> ''b'']"

definition demo_ts :: table_space where
  "demo_ts = (TableSpace_new ''t'')\<lparr>ts_last_page_id := 0\<rparr>"

definition demo_idx :: index_map where
  "demo_idx = [7 \<mapsto> \<lparr>item_page_id = 0, item_location = 32\<rparr>]"

definition demo_page :: bytes where
  "demo_page = enc64 0 @ replicate 24 0 @ enc64 7 @ enc64 0 @ replicate (MY_PAGE_SIZE - 48) 0"

abbreviation demo_boot :: "mem_world file_io \<Rightarrow> mem_world file_io cluster res" where
  "demo_boot \<equiv> boot demo_env (\<lambda>_. 0) demo_hosts (\<lambda>_. 0) demo_ts demo_idx"

lemma demo_env_simps [simp]:
  "dops demo_env = file_disk mem_posix" "length (arr demo_env) = MY_PAGE_SIZE" "length (l_buf (locs demo_env)) = MY_PAGE_SIZE"
  "rowsz demo_env = 16" "locs demo_env = zero_locals"
  by (simp_all add: demo_env_def)

lemma demo_ts_pages [simp]: "GetLastPageId demo_ts + 1 = 1"
  by (simp add: demo_ts_def GetLastPageId_def)

lemma demo_hosts_ok: "hosts_ok demo_env (\<lambda>_. 0) demo_hosts"
  by (auto simp: hosts_ok_def demo_env_def demo_hosts_def PROCESS_CNT_def less_2_cases_iff)

lemma demo_page_facts:
  "length demo_page = MY_PAGE_SIZE" "page_ok 0 demo_page" "take 16 (drop 32 demo_page) = enc64 7 @ enc64 0"
  "take 8 (drop 32 demo_page) = enc64 7"
  by (simp_all add: demo_page_def page_ok_def MY_PAGE_SIZE_def)

lemma word_less_1 [simp]: "p < (1 :: u64) \<longleftrightarrow> p = 0"
  by (simp add: word_less_nat_alt unat_eq_zero)

lemma demo_disk:
  obtains d where "file_inv mem_fdpath d" and "file_page mem_files d 0 = Some demo_page"
proof -
  obtain d where "file_inv mem_fdpath d" "(file_page mem_files mem_world0)(0 \<mapsto> demo_page) \<subseteq>\<^sub>m file_page mem_files d"
    using page_disk.write_page [OF file_page_disk [OF mem_posix_laws] mem_world0_inv demo_page_facts(1), of 0] by auto
  then show ?thesis using that by (auto simp: map_le_def)
qed

lemma demo_rows:
  assumes "file_page mem_files d 0 = Some demo_page"
  shows "rows_ok demo_idx 16 (table_pages (file_page mem_files) demo_ts d)"
    and "crow demo_idx 16 (table_pages (file_page mem_files) demo_ts d) 7 = Some (enc64 7 @ enc64 0)"
  using assms demo_page_facts
  by (auto simp: rows_ok_def layout_ok_def demo_idx_def table_pages_def crow_def row_at_def row_valid_def MY_PAGE_SIZE_def)

definition demo_fresh :: "'d cluster \<Rightarrow> bool" where
  "demo_fresh c \<longleftrightarrow> gl_table (cl_global c) 0 = Some (- 1) \<and> cached (gl_buffer (cl_global c)) 0 = Some demo_page \<and>
     (\<forall>i. cl_reply c i 0 = None \<and> (\<exists>k. db_locks (cl_inst c i) 0 = Some (LockNode_new k)) \<and>
        cached (db_buffer (cl_inst c i)) 0 = Some demo_page)"

lemma demo_node:
  assumes "demo_fresh c"
  obtains k where "db_locks (cl_inst c i) 0 = Some (LockNode_new k)"
  using assms by (auto simp: demo_fresh_def)

lemma demo_start:
  assumes "file_inv mem_fdpath d" and "file_page mem_files d 0 = Some demo_page"
  obtains c where "demo_boot d = Inr c" and "cluster_inv demo_env demo_idx c" and "demo_fresh c"
proof -
  have pg: "\<forall>p < GetLastPageId demo_ts + 1. file_page mem_files d p \<noteq> None" using assms(2) by simp
  have rows: "rows_ok demo_idx (rowsz demo_env) (table_pages (file_page mem_files) demo_ts d)" using demo_rows [OF assms(2)] by simp
  obtain c where c: "demo_boot d = Inr c" "cluster_inv demo_env demo_idx c" "cpage c = table_pages (file_page mem_files) demo_ts d"
    "\<forall>i p. p < GetLastPageId demo_ts + 1 \<longrightarrow> gl_table (cl_global c) p = Some (- 1) \<and> cl_reply c i p = None \<and>
      (\<exists>k. db_locks (cl_inst c i) p = Some (LockNode_new k)) \<and> cached (db_buffer (cl_inst c i)) p = file_page mem_files d p"
    by (rule page_disk.boot_ok [OF file_page_disk [OF mem_posix_laws] demo_env_simps(1) assms(1) _ pg demo_env_simps(2) demo_hosts_ok rows,
      where vs = "\<lambda>_. 0"]) simp_all
  have "cpage c 0 = Some demo_page" using c(3) assms(2) by (simp add: table_pages_def)
  then have "demo_fresh c" using c(4) assms(2) by (simp add: demo_fresh_def cpage_def)
  then show ?thesis using that c(1,2) by blast
qed

text \<open>The first request for the page, and the installation of the reply.\<close>

lemma demo_first:
  assumes inv: "cluster_inv demo_env demo_idx c0" and fr: "demo_fresh c0"
  obtains c where "crun demo_env demo_idx c0 [Request 0 0, Install 0 0] c" and "lock_mode (node c 0 0) \<noteq> LM_O"
proof -
  obtain k where k: "db_locks (cl_inst c0 0) 0 = Some (LockNode_new k)" using demo_node [OF fr] by blast
  have e1: "event_ok demo_env demo_idx (Request 0 0) c0"
    using fr k by (auto simp: demo_fresh_def PROCESS_CNT_def LockNode_new_mode)
  have "\<not> waits c0 (Request 0 0)" using fr by (auto simp: waits_def demo_fresh_def)
  then obtain c1 where c1: "cstep demo_env (Request 0 0) c0 = Inr c1" "cluster_inv demo_env demo_idx c1" "cpage c1 = cpage c0"
    using request_ok [OF inv demo_env_simps(2) e1] by blast
  have "cpage c1 0 \<noteq> None" using fr c1(3) by (simp add: demo_fresh_def cpage_def [of c0])
  then have p1: "0 \<in> pages c1" by (auto simp: cpage_def split: option.splits)
  have r1: "cl_reply c1 0 0 \<noteq> None" using c1(1) by (auto simp: request_page_def rbind_Inr_iff)
  have e2: "event_ok demo_env demo_idx (Install 0 0) c1" using p1 r1 by (auto simp: PROCESS_CNT_def)
  then obtain c2 where c2: "cstep demo_env (Install 0 0) c1 = Inr c2" "cluster_inv demo_env demo_idx c2" 
    using install_ok [OF c1(2) e2] by blast
  have "cl_reply c2 0 0 = None" "cl_global c2 = cl_global c1"
    using c2(1) by (auto simp: install_page_def set_inst_def rbind_Inr_iff split: option.splits)
  moreover have "gl_table (cl_global c1) 0 = Some (int 0)" by (rule owner_of(1) [OF c1(2)]) (use p1 r1 in \<open>auto simp: PROCESS_CNT_def\<close>)
  ultimately have "owner_ok c2 0 0" using c2(2) by (auto simp: cluster_inv_def holder_ok_def PROCESS_CNT_def)
  then have "lock_mode (node c2 0 0) \<noteq> LM_O" using \<open>cl_reply c2 0 0 = None\<close> by (simp add: owner_ok_def)
  moreover have "crun demo_env demo_idx c0 [Request 0 0, Install 0 0] c2"
    using crun.step [OF crun.step [OF crun.start e1 c1(1)] e2 c2(1)] by simp
  ultimately show ?thesis using that by blast
qed

text \<open>
  A second request that overtakes the installation of the first reply: it finds the node of the
  first instance still in mode \<open>LM_O\<close>, so nothing revokes the page that is on its way there.
\<close>

definition csteps :: "'d cenv \<Rightarrow> cevent list \<Rightarrow> 'd cluster \<Rightarrow> 'd cluster res" where
  "csteps E es c = foldl (\<lambda>r e. rbind r (cstep E e)) (Inr c) es"

lemma csteps_snoc: "csteps E es c = Inr c1 \<Longrightarrow> cstep E e c1 = r \<Longrightarrow> csteps E (es @ [e]) c = r"
  by (simp add: csteps_def)

lemma demo_both_requested:
  assumes inv: "cluster_inv demo_env demo_idx c0" and fr: "demo_fresh c0"
  obtains c where "csteps demo_env [Request 0 0, Request 1 0] c0 = Inr c"
    and "\<forall>i < PROCESS_CNT. cl_reply c i 0 = Some (RCOK, demo_page) \<and> lock_mode (node c i 0) = LM_O \<and> inst_fit demo_idx {0} (cl_inst c i)"
proof -
  obtain k0 k1 where n: "db_locks (cl_inst c0 0) 0 = Some (LockNode_new k0)" "db_locks (cl_inst c0 1) 0 = Some (LockNode_new k1)"
    using demo_node [OF fr] by metis
  obtain xs fs where B: "buf_inv (gl_buffer (cl_global c0)) xs fs" using inv by (auto simp: cluster_inv_def glob_fit_def)
  have P: "PROCESS_CNT = 2" by (simp add: PROCESS_CNT_def)
  have fit: "inst_fit demo_idx {0} (cl_inst c0 i)" if "i < 2" for i
    using inv fr that by (auto simp: cluster_inv_def P inst_fit_def demo_fresh_def)
  let ?n0 = "(LockNode_new k0)\<lparr>lock_remoting := True\<rparr>" and ?n1 = "(LockNode_new k1)\<lparr>lock_remoting := True\<rparr>"
  let ?c1 = "granted 0 0 demo_page ((cl_inst c0)(0 := set_node 0 ?n0 (cl_inst c0 0))) c0"
  have s1: "cstep demo_env (Request 0 0) c0 = Inr ?c1"
    using fr by (intro request_fresh [OF _ _ n(1) _ _ _ _ B]) (auto simp: P LockNode_new_mode demo_fresh_def)
  obtain h where h: "info_client (gl_instances (cl_global c0) ! 0) = Some h" "net demo_env h = Some 0" "length (gl_instances (cl_global c0)) = 2"
    using inv unfolding cluster_inv_def glob_fit_def P by (metis zero_less_numeral)
  obtain xs0 fs0 where B0: "buf_inv (db_buffer (cl_inst c0 0)) xs0 fs0" using fit [of 0] by (auto simp: inst_fit_def)
  let ?m = "?n0\<lparr>lock_mode := LM_O, invalid_req := False\<rparr>"
  let ?c2 = "granted 1 0 demo_page ((cl_inst ?c1)(1 := set_node 0 ?n1 (cl_inst ?c1 1), 0 := set_node 0 ?m (cl_inst ?c1 0))) ?c1"
  have s2: "cstep demo_env (Request 1 0) ?c1 = Inr ?c2"
    using request_taken [of 1 0 demo_env ?c1 0 "LockNode_new k1" h ?n0 xs0 fs0 demo_page] fr n h B0
    by (simp add: P LockNode_new_mode demo_fresh_def granted_def set_node_def node_ok_new)
  have "inst_fit demo_idx {0} (set_node 0 ?n1 (cl_inst c0 1))" "inst_fit demo_idx {0} (set_node 0 ?m (set_node 0 ?n0 (cl_inst c0 0)))"
    by (intro inst_fit_set_node fit; simp add: LockNode_new_mode node_ok_new node_ok_invalidated)+
  moreover have "csteps demo_env [Request 0 0, Request 1 0] c0 = Inr ?c2" using s1 s2 by (simp add: csteps_def del: cstep.simps)
  ultimately show ?thesis
    by (intro that [of ?c2]) (simp_all add: P less_2_cases_iff granted_def set_node_def LockNode_new_mode)
qed

definition demo_item :: index_item where
  "demo_item = \<lparr>item_page_id = 0, item_location = 32\<rparr>"

definition demo_holds :: "bytes \<Rightarrow> 'd inst_db \<Rightarrow> bool" where
  "demo_holds b d \<longleftrightarrow> inst_fit demo_idx {0} d \<and> lock_mode (the (db_locks d 0)) = LM_P \<and> cached (db_buffer d) 0 = Some b"

lemma demo_install:
  assumes "cl_reply c i 0 = Some (RCOK, demo_page)" and "lock_mode (node c i 0) = LM_O" and "inst_fit demo_idx {0} (cl_inst c i)"
  obtains d where "cstep demo_env (Install i 0) c =
      Inr (set_inst i d (c\<lparr>cl_reply := (cl_reply c)(i := (cl_reply c i)(0 := None))\<rparr>))" and "demo_holds demo_page d"
proof -
  obtain n b xs fs where n: "db_locks (cl_inst c i) 0 = Some n" "node_ok n" "cached (db_buffer (cl_inst c i)) 0 = Some b"
    "buf_inv (db_buffer (cl_inst c i)) xs fs"
    by (rule inst_fit_nodeD [OF assms(3), of 0]) auto
  have m: "lock_mode n = LM_O" using n(1) assms(2) by simp
  obtain s' where s': "cstep demo_env (Install i 0) c =
      Inr (set_inst i (set_node 0 (n\<lparr>lock_mode := LM_P, lock_remoting := False\<rparr>) ((cl_inst c i)\<lparr>db_buffer := s'\<rparr>))
        (c\<lparr>cl_reply := (cl_reply c)(i := (cl_reply c i)(0 := None))\<rparr>))"
    "buf_inv s' xs fs" "cached s' = (cached (db_buffer (cl_inst c i)))(0 \<mapsto> demo_page)"
    by (rule install_run [OF assms(1) demo_page_facts(1) n(1) m n(4,3)])
  have "node_ok (n\<lparr>lock_mode := LM_P, lock_remoting := False\<rparr>)" using n(2) m by (auto simp: node_ok_def)
  then have "demo_holds demo_page (set_node 0 (n\<lparr>lock_mode := LM_P, lock_remoting := False\<rparr>) ((cl_inst c i)\<lparr>db_buffer := s'\<rparr>))"
    using assms(3) s'(2,3) by (auto simp: demo_holds_def inst_fit_def set_node_def)
  then show ?thesis using that s'(1) by blast
qed

lemma demo_read:
  assumes "demo_holds b d" and "page_ok 0 b" and "row_valid 16 7 (take 16 (drop 32 b))"
  shows "SnapShotReadRow (dops demo_env) (locs demo_env) 7 16 d = Inr (take 16 (drop 32 b), d)"
proof -
  obtain xs fs where "buf_inv (db_buffer d) xs fs" "db_index d = demo_idx" using assms(1) by (auto simp: demo_holds_def inst_fit_def)
  moreover have "layout_ok 16 demo_idx" by (auto simp: layout_ok_def demo_idx_def MY_PAGE_SIZE_def)
  ultimately show ?thesis
    using SnapShotReadRow_hit [of d xs fs demo_item b zero_locals 7 16 "dops demo_env"] assms
    by (simp add: demo_holds_def demo_item_def demo_idx_def row_at_def)
qed

lemma demo_write:
  assumes "demo_holds b (cl_inst c i)" and "page_ok 0 b" and "length v = 8"
  obtains d b' where "cstep demo_env (Write i 7 (enc64 7 @ v)) c = Inr (set_inst i d c)" and "demo_holds b' d"
    and "page_ok 0 b'" and "take 16 (drop 32 b') = enc64 7 @ v"
proof -
  let ?d = "cl_inst c i"
  have fit: "inst_fit demo_idx {0} ?d" and h: "cached (db_buffer ?d) 0 = Some b" "lock_mode (the (db_locks ?d 0)) = LM_P"
    "db_index ?d = demo_idx"
    using assms(1) by (simp_all add: demo_holds_def inst_fit_def)
  obtain n xs fs where n: "db_locks ?d 0 = Some n" "node_ok n" "buf_inv (db_buffer ?d) xs fs"
    by (rule inst_fit_nodeD [OF fit, of 0]) auto
  let ?b = "take 32 b @ (enc64 7 @ v) @ drop 48 b"
  have len: "length b = MY_PAGE_SIZE" using assms(2) by (simp add: page_ok_def)
  have w: "memcpy_at b 32 (enc64 7 @ v) = Inr ?b" using assms(3) len by (simp add: mem_simps MY_PAGE_SIZE_def)
  obtain s' where s': "WriteRow (dops demo_env) zero_locals 7 (enc64 7 @ v) ?d = Inr (?d\<lparr>db_buffer := s'\<rparr>)" "buf_inv s' xs fs"
    "cached s' = (cached (db_buffer ?d))(0 \<mapsto> ?b)"
    using WriteRow_hit [of ?d xs fs demo_item b zero_locals 7 n "enc64 7 @ v" ?b "dops demo_env"] n h assms(2) w
    by (auto simp: demo_item_def demo_idx_def)
  have "demo_holds ?b (?d\<lparr>db_buffer := s'\<rparr>)"
    using h s'(3) inst_fit_buffer [OF fit s'(2)] by (simp add: demo_holds_def)
  moreover have "page_ok 0 ?b" "take 16 (drop 32 ?b) = enc64 7 @ v"
    using assms(2,3) len by (simp_all add: page_ok_def MY_PAGE_SIZE_def)
  ultimately show ?thesis using that s'(1) by simp
qed

section \<open>Properties\<close>



text \<open>
  C29: the condition on requests in the coherence theorem cannot be dropped, because the code does
  not ensure it. \<open>GetWritePageLock\<close> sets the mode of its node only after the coordinator's reply
  has come back, and the coordinator records the new owner before. When the second instance requests
  the page in between, the invalidation finds the first instance's node still in mode \<open>LM_O\<close>, answers
  with the old page and is forgotten; then both instances install the page, both hold it, and the
  row one of them writes is not what the other one reads.
\<close>

theorem overtaken_reply_loses_write:
  "\<exists>d c0 c. demo_boot d = Inr c0 \<and>
     csteps demo_env [Request 0 0, Request 1 0, Install 0 0, Write 0 7 (enc64 7 @ enc64 1), Install 1 0] c0 = Inr c \<and>
     lock_mode (node c 0 0) = LM_P \<and> lock_mode (node c 1 0) = LM_P \<and>
     SnapShotReadRow (dops demo_env) (locs demo_env) 7 16 (cl_inst c 0) = Inr (enc64 7 @ enc64 1, cl_inst c 0) \<and>
     SnapShotReadRow (dops demo_env) (locs demo_env) 7 16 (cl_inst c 1) = Inr (enc64 7 @ enc64 0, cl_inst c 1)"
proof -
  obtain d where d: "file_inv mem_fdpath d" "file_page mem_files d 0 = Some demo_page" using demo_disk by blast
  obtain c0 where c0: "demo_boot d = Inr c0" "cluster_inv demo_env demo_idx c0" "demo_fresh c0" using demo_start [OF d] by blast
  obtain c2 where c2: "csteps demo_env [Request 0 0, Request 1 0] c0 = Inr c2"
    "\<forall>i < 2. cl_reply c2 i 0 = Some (RCOK, demo_page) \<and> lock_mode (node c2 i 0) = LM_O \<and> inst_fit demo_idx {0} (cl_inst c2 i)"
    using demo_both_requested [OF c0(2,3)] by (metis PROCESS_CNT_def)
  obtain d3 where d3: "cstep demo_env (Install 0 0) c2 = Inr (set_inst 0 d3 (c2\<lparr>cl_reply := (cl_reply c2)(0 := (cl_reply c2 0)(0 := None))\<rparr>))"
    "demo_holds demo_page d3"
    using demo_install [of c2 0] c2(2) by auto
  let ?c3 = "set_inst 0 d3 (c2\<lparr>cl_reply := (cl_reply c2)(0 := (cl_reply c2 0)(0 := None))\<rparr>)"
  obtain d4 b where d4: "cstep demo_env (Write 0 7 (enc64 7 @ enc64 1)) ?c3 = Inr (set_inst 0 d4 ?c3)" "demo_holds b d4"
    "page_ok 0 b" "take 16 (drop 32 b) = enc64 7 @ enc64 1"
    using demo_write [of demo_page ?c3 0 "enc64 1"] d3(2) demo_page_facts(2) by (auto simp: set_inst_def)
  let ?c4 = "set_inst 0 d4 ?c3"
  have "cl_reply ?c4 1 0 = Some (RCOK, demo_page)" "lock_mode (node ?c4 1 0) = LM_O" "inst_fit demo_idx {0} (cl_inst ?c4 1)"
    using c2(2) by (simp_all add: set_inst_def)
  then obtain d5 where d5: "cstep demo_env (Install 1 0) ?c4 =
      Inr (set_inst 1 d5 (?c4\<lparr>cl_reply := (cl_reply ?c4)(1 := (cl_reply ?c4 1)(0 := None))\<rparr>))" "demo_holds demo_page d5"
    using demo_install by blast
  let ?c = "set_inst 1 d5 (?c4\<lparr>cl_reply := (cl_reply ?c4)(1 := (cl_reply ?c4 1)(0 := None))\<rparr>)"
  have "csteps demo_env [Request 0 0, Request 1 0, Install 0 0, Write 0 7 (enc64 7 @ enc64 1), Install 1 0] c0 = Inr ?c"
    using c2(1) d3(1) d4(1) d5(1) by (simp add: csteps_def del: cstep.simps)
  moreover have "cl_inst ?c 0 = d4" "cl_inst ?c 1 = d5" by (simp_all add: set_inst_def)
  moreover have "lock_mode (the (db_locks d4 0)) = LM_P" "lock_mode (the (db_locks d5 0)) = LM_P" using d4(2) d5(2) by (simp_all add: demo_holds_def)
  moreover have "SnapShotReadRow (dops demo_env) (locs demo_env) 7 16 d4 = Inr (enc64 7 @ enc64 1, d4)"
    using demo_read [OF d4(2,3)] d4(4) by (simp add: row_valid_def)
  moreover have "SnapShotReadRow (dops demo_env) (locs demo_env) 7 16 d5 = Inr (enc64 7 @ enc64 0, d5)"
    using demo_read [OF d5(2) demo_page_facts(2)] demo_page_facts(3) by (simp add: row_valid_def)
  ultimately show ?thesis using c0(1) by metis
qed

end
