(* ===== verification/Txn.thy ===== *)
theory Txn
  imports Manager
begin

text \<open>
  \<open>instance/txn/txn.cpp\<close> and the second half of \<open>instance/txn/ycsb_txn.cpp\<close>: a transaction collects
  its row accesses and, at its end, gives every row back, committing or undoing its writes.
\<close>

section \<open>State\<close>

definition MAX_ROW_PER_TXN :: nat where
  "MAX_ROW_PER_TXN = 64"

text \<open>
  A row object is named by the history it belongs to and its place among that history's objects.
\<close>

type_synonym row_ptr = "nat \<times> nat"

record access =
  acc_type :: access_t
  acc_data :: "row_ptr option"

text \<open>
  \<open>tm_me\<close> is the place of the object in \<open>mi_txns\<close>, where its timestamp, \<open>cur_row\<close> and \<open>ts_ready\<close> are.
  \<open>ycsb_txn_man\<close> has a \<open>row_cnt\<close> of its own.
\<close>

record txn_man =
  tm_me :: nat
  tm_thd :: nat
  txn_id :: u64
  row_cnt :: nat
  wr_cnt :: nat
  accesses :: "access option list"
  num_accesses_alloc :: nat
  abort_cnt :: u64
  ycsb_row_cnt :: u64

text \<open>The constructor leaves most fields as they are in \<open>tm\<close>.\<close>

definition txn_init :: "nat \<Rightarrow> txn_man \<Rightarrow> txn_man" where
  "txn_init thd tm = tm\<lparr>tm_thd := thd, row_cnt := 0, wr_cnt := 0, accesses := replicate MAX_ROW_PER_TXN None,
     num_accesses_alloc := 0\<rparr>"

definition set_txn_id :: "u64 \<Rightarrow> txn_man \<Rightarrow> txn_man" where
  "set_txn_id i tm = tm\<lparr>txn_id := i\<rparr>"

definition set_ts :: "u64 \<Rightarrow> txn_man \<Rightarrow> 'db manager \<Rightarrow> 'db manager" where
  "set_ts t tm m = m\<lparr>mi_txns := (mi_txns m)(tm_me tm := (mi_txns m (tm_me tm))\<lparr>txn_ts := t\<rparr>)\<rparr>"

definition get_ts :: "txn_man \<Rightarrow> 'db manager \<Rightarrow> u64" where
  "get_ts tm m = txn_ts (mi_txns m (tm_me tm))"

section \<open>A call on one row\<close>

text \<open>A history of the instance together with what it shares with the others.\<close>

definition attach :: "(nat \<Rightarrow> mtxn) \<Rightarrow> u64 list \<Rightarrow> 'b \<Rightarrow> 'a mvcc \<Rightarrow> 'b mvcc" where
  "attach T A d s =
     \<lparr>m_key = m_key s, m_size = m_size s, base_row = base_row s, latest_row = latest_row s,
      latest_wts = latest_wts s, oldest_wts = oldest_wts s, write_history = write_history s,
      exists_prewrite = exists_prewrite s, prewrite_ts = prewrite_ts s, prewrite_his_id = prewrite_his_id s,
      max_served_rts = max_served_rts s, requests = requests s, num_versions = num_versions s,
      rows = rows s, next_row = next_row s, junk = junk s, txns = T, all_ts = A, mdb = d\<rparr>"

definition row_st :: "'db manager \<Rightarrow> nat \<Rightarrow> 'db mvcc" where
  "row_st m k = attach (mi_txns m) (mi_all_ts m) (mi_db m) (mi_mvccs m ! k)"

definition put_st :: "nat \<Rightarrow> 'db mvcc \<Rightarrow> 'db manager \<Rightarrow> 'db manager" where
  "put_st k s m =
     m\<lparr>mi_mvccs := (mi_mvccs m)[k := attach (txns s) (all_ts s) () s], mi_txns := txns s, mi_db := mdb s\<rparr>"

definition at_row :: "u64 \<Rightarrow> ('db mvcc \<Rightarrow> ('a \<times> 'db mvcc) res) \<Rightarrow> 'db manager \<Rightarrow> ('a \<times> 'db manager) res" where
  "at_row key f m =
     (if unat key < length (mi_mvccs m)
      then rbind (f (row_st m (unat key))) (\<lambda>(x, s). Inr (x, put_st (unat key) s m))
      else Inl Out_Of_Bounds)"

text \<open>\<open>RowHandler::GetRow\<close> to its end: a caller that has to wait spins until it is answered.\<close>

definition GetRow_call :: "'db row_store \<Rightarrow> access_t \<Rightarrow> nat \<Rightarrow> 'db mvcc \<Rightarrow> ((RC \<times> nat option) \<times> 'db mvcc) res" where
  "GetRow_call S ty txn s =
     rbind (GetRow S ty txn s) (\<lambda>(rc, row, s1).
     if rc = WAIT then rbind (GetRow_resume txn s1) (\<lambda>(row', s2). Inr ((rc, row'), s2))
     else Inr ((rc, row), s1))"

definition row_obj :: "row_ptr \<Rightarrow> 'db manager \<Rightarrow> row_item res" where
  "row_obj p m =
     (case rows (mi_mvccs m ! fst p) (snd p) of None \<Rightarrow> Inl Bad_Deref | Some r \<Rightarrow> Inr r)"

definition set_row_bytes :: "row_ptr \<Rightarrow> bytes \<Rightarrow> 'db manager \<Rightarrow> 'db manager" where
  "set_row_bytes p b m =
     (let s = row_st m (fst p) in
      put_st (fst p) (s\<lparr>rows := (rows s)(snd p := map_option (row_bytes_update (\<lambda>_. b)) (rows s (snd p)))\<rparr>) m)"

section \<open>get_row\<close>

text \<open>The slot for the next access, allocated at its first use.\<close>

definition access_slot :: "txn_man \<Rightarrow> (access \<times> txn_man) res" where
  "access_slot tm =
     (if row_cnt tm < length (accesses tm)
      then (case accesses tm ! row_cnt tm of
              Some a \<Rightarrow> Inr (a, tm)
            | None \<Rightarrow>
                let a = \<lparr>acc_type = RD, acc_data = None\<rparr> in
                Inr (a, tm\<lparr>accesses := (accesses tm)[row_cnt tm := Some a],
                           num_accesses_alloc := num_accesses_alloc tm + 1\<rparr>))
      else Inl Out_Of_Bounds)"

definition txn_get_row ::
  "'db row_store \<Rightarrow> nat \<Rightarrow> u64 \<Rightarrow> access_t \<Rightarrow> txn_man \<Rightarrow> 'db manager \<Rightarrow> (row_ptr option \<times> txn_man \<times> 'db manager) res" where
  "txn_get_row S tuple_size key ty tm m =
     rbind (access_slot tm) (\<lambda>(a, tm1).
     rbind (at_row key (GetRow_call S ty (tm_me tm)) m) (\<lambda>((rc, row), m1).
     if rc = Abort then Inr (None, tm1, m1)
     else
       (let data = map_option (Pair (unat key)) row in
        asserting (row = cur_row (mi_txns m1 (tm_me tm)))
         (case data of
            None \<Rightarrow> Inl Bad_Deref
          | Some p \<Rightarrow>
              rbind (row_obj p m1) (\<lambda>r.
              asserting (row_key r = key)
               (asserting (row_size r = tuple_size)
                 (Inr (Some p,
                   tm1\<lparr>accesses := (accesses tm1)[row_cnt tm := Some \<lparr>acc_type = ty, acc_data = Some p\<rparr>],
                       row_cnt := row_cnt tm + 1,
                       wr_cnt := (if ty = WR then wr_cnt tm + 1 else wr_cnt tm)\<rparr>, m1))))))))"

section \<open>cleanup and finish\<close>

definition return_row :: "'db row_store \<Rightarrow> RC \<Rightarrow> txn_man \<Rightarrow> nat \<Rightarrow> 'db manager \<Rightarrow> 'db manager res" where
  "return_row S rc tm rid m =
     (case accesses tm ! rid of
        None \<Rightarrow> Inl Bad_Deref
      | Some a \<Rightarrow>
          (let ty = (if acc_type a = WR \<and> rc = Abort then XP else acc_type a) in
           case acc_data a of
             None \<Rightarrow> Inl Bad_Deref
           | Some p \<Rightarrow>
               rbind (row_obj p m) (\<lambda>r.
               rbind (at_row (row_key r)
                        (\<lambda>s. rbind (ReturnRow S ty (tm_me tm) (Some (snd p)) s) (\<lambda>s'. Inr ((), s'))) m) (\<lambda>(_, m').
               Inr m'))))"

text \<open>The rows are given back from the last to the first.\<close>

fun cleanup_rows :: "'db row_store \<Rightarrow> RC \<Rightarrow> txn_man \<Rightarrow> nat \<Rightarrow> 'db manager \<Rightarrow> 'db manager res" where
  "cleanup_rows S rc tm 0 m = Inr m"
| "cleanup_rows S rc tm (Suc n) m = rbind (return_row S rc tm n m) (cleanup_rows S rc tm n)"

definition cleanup :: "'db row_store \<Rightarrow> RC \<Rightarrow> txn_man \<Rightarrow> 'db manager \<Rightarrow> (txn_man \<times> 'db manager) res" where
  "cleanup S rc tm m =
     rbind (cleanup_rows S rc tm (row_cnt tm) m) (\<lambda>m'. Inr (tm\<lparr>row_cnt := 0, wr_cnt := 0\<rparr>, m'))"

definition finish :: "'db row_store \<Rightarrow> RC \<Rightarrow> txn_man \<Rightarrow> 'db manager \<Rightarrow> (RC \<times> txn_man \<times> 'db manager) res" where
  "finish S rc tm m = rbind (cleanup S rc tm m) (\<lambda>(tm', m'). Inr (rc, tm', m'))"

section \<open>run_txn\<close>

text \<open>
  The computation on a row, done only in a query of several requests: a read of the first eight
  bytes, or the timestamp written into the last eight.
\<close>

definition compute :: "nat \<Rightarrow> nat \<Rightarrow> access_t \<Rightarrow> row_ptr \<Rightarrow> u64 \<Rightarrow> 'db manager \<Rightarrow> 'db manager res" where
  "compute tuple_size n ty p ts m =
     (if n > 1
      then rbind (row_obj p m) (\<lambda>r.
           if ty = RD \<or> ty = SCAN then rbind (read_at (row_bytes r) 0 8) (\<lambda>_. Inr m)
           else asserting (ty = WR)
                 (if tuple_size < 8 then Inl Out_Of_Bounds
                  else rbind (memcpy_at (row_bytes r) (tuple_size - 8) (enc64 ts)) (\<lambda>b.
                       Inr (set_row_bytes p b m))))
      else Inr m)"

text \<open>How often the loop over one request runs; the 32-bit counter wraps around.\<close>

definition access_times :: "ycsb_request \<Rightarrow> nat" where
  "access_times q =
     (if rtype q = RD \<or> rtype q = WR then 1 else if scan_len q = 0 then 2 ^ 32 else scan_len q)"

fun run_request ::
  "'db row_store \<Rightarrow> nat \<Rightarrow> nat \<Rightarrow> ycsb_request \<Rightarrow> nat \<Rightarrow> txn_man \<Rightarrow> 'db manager \<Rightarrow> (bool \<times> txn_man \<times> 'db manager) res" where
  "run_request S tuple_size n q 0 tm m = Inr (True, tm, m)"
| "run_request S tuple_size n q (Suc i) tm m =
     rbind (txn_get_row S tuple_size (rkey q) (rtype q) tm m) (\<lambda>(p, tm1, m1).
     case p of
       None \<Rightarrow> Inr (False, tm1, m1)
     | Some r \<Rightarrow>
         rbind (row_obj r m1) (\<lambda>row.
         asserting (row_size row = tuple_size)
          (rbind (compute tuple_size n (rtype q) r (get_ts tm1 m1) m1) (run_request S tuple_size n q i tm1))))"

fun run_requests ::
  "'db row_store \<Rightarrow> nat \<Rightarrow> nat \<Rightarrow> ycsb_request list \<Rightarrow> txn_man \<Rightarrow> 'db manager \<Rightarrow> (bool \<times> txn_man \<times> 'db manager) res" where
  "run_requests S tuple_size n [] tm m = Inr (True, tm, m)"
| "run_requests S tuple_size n (q # qs) tm m =
     rbind (run_request S tuple_size n q (access_times q) tm m) (\<lambda>(ok, tm1, m1).
     if ok then run_requests S tuple_size n qs tm1 m1 else Inr (False, tm1, m1))"

text \<open>The rows of a query are accessed and given back.\<close>

definition run_accesses ::
  "'db row_store \<Rightarrow> nat \<Rightarrow> ycsb_request list \<Rightarrow> txn_man \<Rightarrow> 'db manager \<Rightarrow> (RC \<times> txn_man \<times> 'db manager) res" where
  "run_accesses S tuple_size qs tm m =
     rbind (run_requests S tuple_size (length qs) qs (tm\<lparr>ycsb_row_cnt := 0\<rparr>) m) (\<lambda>(ok, tm1, m1).
     finish S (if ok then RCOK else Abort) tm1 m1)"

definition run_txn ::
  "'d disk_ops \<Rightarrow> locals \<Rightarrow> (u64 \<Rightarrow> bytes \<Rightarrow> 'w \<Rightarrow> (RC \<times> bytes \<times> 'w) res) \<Rightarrow> bytes \<Rightarrow> nat \<Rightarrow> ycsb_request list \<Rightarrow> txn_man
   \<Rightarrow> 'd inst_db manager \<Rightarrow> 'w \<Rightarrow> (RC \<times> txn_man \<times> 'd inst_db manager \<times> 'w) res" where
  "run_txn D L remote stk tuple_size qs tm m w =
     (let pages = GetQueryWritePageSet (l_item L) qs (db_index (mi_db m)) in
      rbind (GetWritePageLock D remote stk pages (of_nat (tm_thd tm)) (mi_db m) w) (\<lambda>(rc, d1, w1).
      if rc = Abort then Inr (rc, tm, m\<lparr>mi_db := d1\<rparr>, w1)
      else rbind (run_accesses (handler_store D L) tuple_size qs tm (m\<lparr>mi_db := d1\<rparr>)) (\<lambda>(rc1, tm1, m1).
           rbind (unregister_pages (of_nat (tm_thd tm)) (sorted_list_of_set pages) (mi_db m1)) (\<lambda>d2.
           Inr (rc1, tm1, m1\<lparr>mi_db := d2\<rparr>, w1)))))"

end
