(* ===== verification/Txn_Rows.thy ===== *)
theory Txn_Rows
  imports Txn
begin

text \<open>
  What a transaction that runs alone finds and leaves behind on one row: nobody waits for the row,
  and its reservation, if there is one, is the transaction's own.
\<close>

section \<open>Rows nobody waits for\<close>

definition idle :: "'db mvcc \<Rightarrow> bool" where
  "idle s \<longleftrightarrow> (\<forall>i < length (requests s). \<not> req_valid (requests s ! i))"

lemma idle_free: "mvcc_inv s \<Longrightarrow> \<not> exists_prewrite s \<Longrightarrow> idle s"
  by (simp add: mvcc_inv_def pend_ok_def idle_def)

lemma serve_requests_idle:
  "(\<And>i. i \<in> set is \<Longrightarrow> \<not> req_valid (requests s ! i)) \<Longrightarrow> serve_requests S ts npt is s = Inr s"
  by (induction "is") (simp_all add: serve_request_def Let_def)

lemma update_buffer_idle: "idle s \<Longrightarrow> update_buffer S ts s = Inr s"
  unfolding update_buffer_def by (rule serve_requests_idle) (simp add: idle_def)

lemma row_ok_set_cur [simp]: "row_ok (set_cur txn p s) q = row_ok s q"
  by (simp add: row_ok_def set_cur_def)

text \<open>Every version and every served reader of \<open>t\<close> is one of \<open>s\<close>, or has the timestamp \<open>ts\<close>.\<close>

definition aged :: "u64 \<Rightarrow> 'a mvcc \<Rightarrow> 'b mvcc \<Rightarrow> bool" where
  "aged ts s t \<longleftrightarrow> latest_wts t \<in> {latest_wts s, ts} \<and> max_served_rts t \<in> {max_served_rts s, ts}"

text \<open>A call by \<open>txn\<close> changes only what \<open>txn\<close> sees of its own object, and adds only its timestamp.\<close>

definition own_txn :: "nat \<Rightarrow> 'db mvcc \<Rightarrow> 'db mvcc \<Rightarrow> bool" where
  "own_txn txn s t \<longleftrightarrow> all_ts t = all_ts s \<and> m_key t = m_key s \<and> m_size t = m_size s \<and>
     (\<forall>x. txn_ts (txns t x) = txn_ts (txns s x)) \<and> aged (txn_ts (txns s txn)) s t"

context row_storage
begin

lemma read_alone:
  assumes inv: "mvcc_inv s" and val: "val_ok dinv drow c s" and free: "\<not> exists_prewrite s"
    and ts: "txn_ts (txns s txn) < UINT64_MAX"
  obtains rc s' where "access_read S txn s = Inr (rc, s')" and "mvcc_inv s'" and "val_ok dinv drow c s'"
    and "\<not> exists_prewrite s'" and "drow (mdb s') = drow (mdb s)" and "own_txn txn s s'"
    and "rc = Abort \<and> s' = s \<or> rc = RCOK \<and> (\<exists>p. cur_row (txns s' txn) = Some p \<and> row_ok s' p)"
    and "latest_wts s < txn_ts (txns s txn) \<Longrightarrow> rc = RCOK"
proof -
  let ?ts = "txn_ts (txns s txn)" and ?i = "snd (scan_version trunc32 (txn_ts (txns s txn)) (write_history s))"
  have call: "call_ok rvalid txn R_REQ None s"
    using idle_free [OF inv free] ts by (simp add: call_ok_def fresh_ts_def idle_def)
  obtain rc s' where r: "access_read S txn s = Inr (rc, s')" "access_post dinv drow c s s'"
    using access_read_ok [OF inv val call] by metis
  have core: "core_inv s" using inv by (simp add: mvcc_inv_def)
  obtain s1 q where e: "ensure_latest S s = Inr s1" "latest_row s1 = Some q" "same_env s s1" "same_his s s1"
    "drow (mdb s1) = drow (mdb s)" "core_inv s1"
    using ensure_latest_ok [OF core val] by metis
  have q: "row_ok s1 q" by (rule latest_row_ok [OF e(6,2)])
  have ow: "oldest_wts s \<le> latest_wts s" using core by (simp add: core_inv_def hist_ok_def)
  have at_his: "his_row (write_history s ! ?i) = Some p \<Longrightarrow> ?i < length (write_history s) \<Longrightarrow> row_ok s p" for p
    using core by (simp add: core_inv_def heap_ok_def)
  consider (abort) "?ts < oldest_wts s" | (latest) "latest_wts s < ?ts"
    | (none) "oldest_wts s \<le> ?ts" "?ts \<le> latest_wts s" "?i = length (write_history s)"
    | (found) "oldest_wts s \<le> ?ts" "?ts \<le> latest_wts s" "?i \<in> versions (write_history s)"
    using scan_version_index [of trunc32 ?ts "write_history s"] by (meson not_less)
  then have "\<not> exists_prewrite s' \<and> drow (mdb s') = drow (mdb s) \<and> own_txn txn s s' \<and>
    (rc = Abort \<and> s' = s \<or> rc = RCOK \<and> (\<exists>p. cur_row (txns s' txn) = Some p \<and> row_ok s' p)) \<and>
    (latest_wts s < txn_ts (txns s txn) \<longrightarrow> rc = RCOK)"
  proof cases
    case abort
    then have "rc = Abort" "s' = s" using r(1) by (auto simp: access_read_def Let_def)
    then show ?thesis using abort ow free by (auto simp: own_txn_def aged_def)
  next
    case latest
    then have "access_read S txn s = Inr (RCOK, (set_cur txn (Some q) s1)\<lparr>max_served_rts :=
        (if ?ts > max_served_rts s1 then ?ts else max_served_rts s1)\<rparr>)"
      using ow free e(1,2) by (auto simp: access_read_def Let_def)
    then have "rc = RCOK" "s' = (set_cur txn (Some q) s1)\<lparr>max_served_rts :=
        (if ?ts > max_served_rts s1 then ?ts else max_served_rts s1)\<rparr>"
      using r(1) by simp_all
    then show ?thesis using e(3-5) q free by (auto simp: set_cur_def own_txn_def aged_def same_env_def same_his_def row_ok_def)
  next
    case none
    then have "access_read S txn s = Inr (RCOK, set_cur txn (Some q) s1)"
      using e(1,2) by (auto simp: access_read_def Let_def split: prod.splits)
    then have "rc = RCOK" "s' = set_cur txn (Some q) s1" using r(1) by simp_all
    then show ?thesis using none e(3-5) q free by (auto simp: set_cur_def own_txn_def aged_def same_env_def same_his_def row_ok_def)
  next
    case found
    have i: "?i < length (write_history s)" by (rule versions_less [OF found(3)])
    have "his_row (write_history s ! ?i) \<noteq> None" using core found(3) by (simp add: core_inv_def hist_ok_def)
    then obtain p where p: "his_row (write_history s ! ?i) = Some p" by blast
    have "access_read S txn s = Inr (RCOK, set_cur txn (Some p) s)"
      using found p i by (auto simp: access_read_def Let_def split: prod.splits)
    then have "rc = RCOK" "s' = set_cur txn (Some p) s" using r(1) by simp_all
    then show ?thesis using found(2) at_his [OF p i] free by (auto simp: set_cur_def own_txn_def aged_def row_ok_def)
  qed
  then show ?thesis using that [OF r(1)] r(2) by (simp add: access_post_def)
qed

lemma prewrite_alone:
  assumes inv: "mvcc_inv s" and val: "val_ok dinv drow c s" and free: "\<not> exists_prewrite s"
    and ts: "txn_ts (txns s txn) < UINT64_MAX" "txn_ts (txns s txn) \<noteq> latest_wts s"
  obtains rc s' where "access_prewrite S txn s = Inr (rc, s')" and "mvcc_inv s'" and "val_ok dinv drow c s'"
    and "idle s'" and "drow (mdb s') = drow (mdb s)" and "own_txn txn s s'"
    and "rc = Abort \<and> s' = s \<or> rc = RCOK \<and> (\<exists>p r. cur_row (txns s' txn) = Some p \<and> row_ok s' p \<and>
      holds_reservation txn (Some p) s' \<and> rows s' p = Some r \<and> row_bytes r = c)"
    and "latest_wts s < txn_ts (txns s txn) \<Longrightarrow> max_served_rts s \<le> txn_ts (txns s txn) \<Longrightarrow> rc = RCOK"
proof (cases "latest_wts s < txn_ts (txns s txn) \<and> max_served_rts s \<le> txn_ts (txns s txn)")
  case False
  then have "access_prewrite S txn s = Inr (Abort, s)" using ts(2) by (auto simp: access_prewrite_def Let_def)
  then show ?thesis by (rule that) (use inv val idle_free [OF inv free] False in \<open>auto simp: own_txn_def aged_def\<close>)
next
  case True
  let ?ts = "txn_ts (txns s txn)"
  have core: "core_inv s" and lw: "latest_wts s < ?ts" and ms: "max_served_rts s \<le> ?ts" using inv True by (simp_all add: mvcc_inv_def)
  obtain p s1 s2 s3 where g: "reserveRow ?ts s = Inr (Some p, s1)" "ensure_latest S s1 = Inr s2"
    "copy_row (Some p) (latest_row s2) s2 = Inr s3" "core_inv s3" "val_ok dinv drow c s3"
    "exists_prewrite s3" "prewrite_ts s3 = ?ts" "reserved_row s3 = Some p" "same_env s s3"
    "drow (mdb s3) = drow (mdb s)" "\<exists>r. rows s3 p = Some r \<and> row_bytes r = c"
    using grant_ok [OF core val free lw ts(1) ms] by metis
  let ?t = "set_cur txn (Some p) s3"
  have run: "access_prewrite S txn s = Inr (RCOK, ?t)"
    using lw ms free g(1,2,3) by (auto simp: access_prewrite_def Let_def)
  have id: "idle ?t" using idle_free [OF inv free] g(9) by (simp add: idle_def set_cur_def same_env_def)
  have ne: "requests s \<noteq> []" using inv by (simp add: mvcc_inv_def pend_ok_def pending_after_def)
  have inv': "mvcc_inv ?t"
    using g(4,6,9) id ne by (simp add: mvcc_inv_def pend_ok_def pending_after_def idle_def set_cur_def same_env_def)
  have res: "holds_reservation txn (Some p) ?t"
    using g(6,7,8,9) by (simp add: holds_reservation_def set_cur_def same_env_def)
  have "row_ok s3 p" using g(4,6,8) by (auto simp: core_inv_def heap_ok_def reserve_ok_def Let_def)
  then show ?thesis
    using that [OF run inv' _ id] g(5,9,10,11) res by (auto simp: set_cur_def own_txn_def aged_def same_env_def row_ok_def)
qed

lemma write_alone:
  assumes inv: "mvcc_inv s" and val: "val_ok dinv drow c s" and id: "idle s"
    and res: "holds_reservation txn (Some p) s" and r: "rows s p = Some r" "rvalid (m_key s) (row_bytes r)"
  obtains s' where "access_write S txn (Some p) s = Inr (RCOK, s')" and "mvcc_inv s'" and "val_ok dinv drow (row_bytes r) s'"
    and "\<not> exists_prewrite s'" and "drow (mdb s') = (drow (mdb s))(m_key s \<mapsto> row_bytes r)" and "own_txn txn s s'"
    and "txns s' = txns s"
proof -
  obtain s' where a: "access_write S txn (Some p) s = Inr (RCOK, s')"
    "access_post dinv drow (content_after W_REQ (Some p) c s) s s'"
    using access_write_ok [OF inv val res] r by (metis option.inject)
  let ?k = "prewrite_his_id s"
  have core: "core_inv s" using inv by (simp add: mvcc_inv_def)
  obtain x where ro: "row_ok s p" "?k < length (write_history s)" "reserved_row s = Some p" "latest_wts s < prewrite_ts s"
    using reservationD [OF core res] by (metis option.inject)
  have db: "dinv (mdb s)" "drow (mdb s) (m_key s) = Some c" "length c = m_size s" using val by (simp_all add: val_ok_def)
  have kr: "row_key r = m_key s" "length (row_bytes r) = length c" using ro(1) r(1) db(3) by (auto simp: row_ok_def)
  obtain d where d: "write_row S (m_key s) (row_bytes r) (mdb s) = Inr d" "drow d = (drow (mdb s))(m_key s \<mapsto> row_bytes r)"
    using write_law [OF db(1,2) kr(2) r(2)] by blast
  have ts: "txn_ts (txns s txn) = prewrite_ts s" using res by (simp add: holds_reservation_def)
  have "\<not> exists_prewrite s' \<and> mdb s' = d \<and> own_txn txn s s' \<and> txns s' = txns s"
    using a(1) ro(2,3,4) r(1) kr(1) d(1) ts id
    by (cases "base_row s") (auto simp: access_write_def Let_def update_buffer_idle idle_def own_txn_def aged_def)
  then show ?thesis using that [OF a(1)] a(2) r(1) d(2) by (simp add: access_post_def content_after_def)
qed

lemma abort_alone:
  assumes inv: "mvcc_inv s" and val: "val_ok dinv drow c s" and id: "idle s" and res: "holds_reservation txn (Some p) s"
  obtains s' where "access_abort S txn (Some p) s = Inr (RCOK, s')" and "mvcc_inv s'" and "val_ok dinv drow c s'"
    and "\<not> exists_prewrite s'" and "mdb s' = mdb s" and "own_txn txn s s'" and "txns s' = txns s"
proof -
  obtain s' where a: "access_abort S txn (Some p) s = Inr (RCOK, s')" "access_post dinv drow c s s'"
    using access_abort_ok [OF inv val res] by metis
  have "\<not> exists_prewrite s' \<and> mdb s' = mdb s \<and> own_txn txn s s' \<and> txns s' = txns s"
    using a(1) id by (auto simp: access_abort_def Let_def update_buffer_idle idle_def own_txn_def aged_def asserting_Inr_iff split: if_splits)
  then show ?thesis using that [OF a(1)] a(2) by (simp add: access_post_def)
qed

text \<open>The two kinds of \<open>GetRow\<close>.\<close>

lemma GetRow_alone:
  assumes inv: "mvcc_inv s" and val: "val_ok dinv drow c s" and free: "\<not> exists_prewrite s"
    and ts: "txn_ts (txns s txn) < UINT64_MAX" "txn_ts (txns s txn) \<noteq> latest_wts s" and ty: "ty = RD \<or> ty = WR"
  obtains rc row s' where "GetRow_call S ty txn s = Inr ((rc, row), s')" and "mvcc_inv s'" and "val_ok dinv drow c s'"
    and "idle s'" and "drow (mdb s') = drow (mdb s)" and "own_txn txn s s'"
    and "rc = Abort \<and> s' = s \<or> rc = RCOK \<and> (\<exists>p. row = Some p \<and> cur_row (txns s' txn) = Some p \<and> row_ok s' p \<and>
      (if ty = WR then holds_reservation txn (Some p) s' \<and> row_bytes (the (rows s' p)) = c else \<not> exists_prewrite s'))"
    and "latest_wts s < txn_ts (txns s txn) \<Longrightarrow> max_served_rts s \<le> txn_ts (txns s txn) \<Longrightarrow> rc = RCOK"
proof (cases "ty = RD")
  case True
  obtain rc s' where r: "access_read S txn s = Inr (rc, s')" "mvcc_inv s'" "val_ok dinv drow c s'"
    "\<not> exists_prewrite s'" "drow (mdb s') = drow (mdb s)" "own_txn txn s s'"
    "rc = Abort \<and> s' = s \<or> rc = RCOK \<and> (\<exists>p. cur_row (txns s' txn) = Some p \<and> row_ok s' p)"
    "latest_wts s < txn_ts (txns s txn) \<longrightarrow> rc = RCOK"
    using read_alone [OF inv val free ts(1)] by metis
  have "GetRow_call S ty txn s = Inr ((rc, if rc = RCOK then cur_row (txns s' txn) else None), s')"
    using r(1,7) True by (auto simp: GetRow_call_def GetRow_def mvcc_access_def)
  then show ?thesis by (rule that) (use r idle_free [OF r(2,4)] True in auto)
next
  case False
  then have wr: "ty = WR" using ty by simp
  obtain rc s' where r: "access_prewrite S txn s = Inr (rc, s')" "mvcc_inv s'" "val_ok dinv drow c s'"
    "idle s'" "drow (mdb s') = drow (mdb s)" "own_txn txn s s'"
    "rc = Abort \<and> s' = s \<or> rc = RCOK \<and> (\<exists>p r. cur_row (txns s' txn) = Some p \<and> row_ok s' p \<and>
      holds_reservation txn (Some p) s' \<and> rows s' p = Some r \<and> row_bytes r = c)"
    "latest_wts s < txn_ts (txns s txn) \<and> max_served_rts s \<le> txn_ts (txns s txn) \<longrightarrow> rc = RCOK"
    using prewrite_alone [OF inv val free ts] by metis
  have "GetRow_call S ty txn s = Inr ((rc, if rc = RCOK then cur_row (txns s' txn) else None), s')"
    using r(1,7) wr by (auto simp: GetRow_call_def GetRow_def mvcc_access_def)
  then show ?thesis by (rule that) (use r wr in auto)
qed

text \<open>\<open>ReturnRow\<close> of a written row: committed, or undone.\<close>

lemma ReturnRow_alone:
  assumes inv: "mvcc_inv s" and val: "val_ok dinv drow c s" and id: "idle s"
    and res: "holds_reservation txn (Some p) s" and r: "rows s p = Some r" "rvalid (m_key s) (row_bytes r)"
    and ty: "ty = WR \<or> ty = XP"
  obtains s' where "ReturnRow S ty txn (Some p) s = Inr s'" and "mvcc_inv s'"
    and "val_ok dinv drow (if ty = WR then row_bytes r else c) s'" and "\<not> exists_prewrite s'"
    and "drow (mdb s') = (if ty = WR then (drow (mdb s))(m_key s \<mapsto> row_bytes r) else drow (mdb s))"
    and "own_txn txn s s'" and "txns s' = txns s"
proof (cases "ty = WR")
  case True
  obtain s' where "access_write S txn (Some p) s = Inr (RCOK, s')" "mvcc_inv s'" "val_ok dinv drow (row_bytes r) s'"
    "\<not> exists_prewrite s'" "drow (mdb s') = (drow (mdb s))(m_key s \<mapsto> row_bytes r)" "own_txn txn s s'" "txns s' = txns s"
    by (rule write_alone [OF inv val id res r])
  then show ?thesis using that True by (simp add: ReturnRow_def mvcc_access_def)
next
  case False
  then have xp: "ty = XP" using ty by simp
  obtain s' where "access_abort S txn (Some p) s = Inr (RCOK, s')" "mvcc_inv s'" "val_ok dinv drow c s'"
    "\<not> exists_prewrite s'" "mdb s' = mdb s" "own_txn txn s s'" "txns s' = txns s"
    by (rule abort_alone [OF inv val id res])
  then show ?thesis using that xp by (simp add: ReturnRow_def mvcc_access_def)
qed

text \<open>
  A scan asks for the same row again and again, and every time for a reservation (only \<open>RD\<close> maps to
  a read): the second time it waits for its own reservation.
\<close>

lemma scan_waits_for_itself:
  assumes inv: "mvcc_inv s" and val: "val_ok dinv drow c s" and free: "\<not> exists_prewrite s"
    and ts: "txn_ts (txns s txn) < UINT64_MAX" "latest_wts s < txn_ts (txns s txn)" "max_served_rts s \<le> txn_ts (txns s txn)"
  shows "\<exists>row s1. GetRow_call S SCAN txn s = Inr ((RCOK, row), s1) \<and> GetRow_call S SCAN txn s1 = Inl Blocked"
proof -
  have ne: "txn_ts (txns s txn) \<noteq> latest_wts s" using ts(2) by auto
  obtain rc s1 where a: "access_prewrite S txn s = Inr (rc, s1)" "mvcc_inv s1"
    "rc = Abort \<and> s1 = s \<or> rc = RCOK \<and> (\<exists>p r. cur_row (txns s1 txn) = Some p \<and> row_ok s1 p \<and>
      holds_reservation txn (Some p) s1 \<and> rows s1 p = Some r \<and> row_bytes r = c)" "rc = RCOK"
    by (rule prewrite_alone [OF inv val free ts(1) ne]) (use ts(2,3) in simp)
  then obtain p where r: "access_prewrite S txn s = Inr (RCOK, s1)" "mvcc_inv s1" "holds_reservation txn (Some p) s1" by auto
  have core: "core_inv s1" and nonempty: "requests s1 \<noteq> []" using r(2) by (simp_all add: mvcc_inv_def pend_ok_def pending_after_def)
  have p: "latest_wts s1 < prewrite_ts s1" "max_served_rts s1 \<le> prewrite_ts s1" using reservationD [OF core r(3)] by metis+
  obtain k rs where "buffer_req P_REQ txn s1 = Inr (s1\<lparr>requests := rs[k :=
      \<lparr>req_valid = True, req_type = P_REQ, req_ts = txn_ts (txns s1 txn), req_txn = txn\<rparr>]\<rparr>)"
    using buffer_req_ok [OF nonempty] by metis
  then have "GetRow_call S SCAN txn s1 = Inl Blocked"
    using r(3) p by (auto simp: GetRow_call_def GetRow_def mvcc_access_def access_prewrite_def holds_reservation_def Let_def
        GetRow_resume_def set_wait_def)
  moreover have "\<exists>row. GetRow_call S SCAN txn s = Inr ((RCOK, row), s1)" using r(1) by (simp add: GetRow_call_def GetRow_def mvcc_access_def)
  ultimately show ?thesis by blast
qed

end

end
