(* ===== verification/Txn_Serial.thy ===== *)
theory Txn_Serial
  imports Txn_Rows Row_Mvcc_Runs
begin

text \<open>
  A transaction that runs alone on an instance that owns its pages takes effect completely or not at
  all: the accesses and the clean-up of \<open>Txn\<close> over the rows of one instance.
\<close>

section \<open>Rows of an instance\<close>

definition row_good :: "('db \<Rightarrow> bool) \<Rightarrow> ('db \<Rightarrow> u64 \<Rightarrow> bytes option) \<Rightarrow> nat \<Rightarrow> nat \<Rightarrow> 'db mvcc \<Rightarrow> bool" where
  "row_good dinv drow sz k s \<longleftrightarrow> mvcc_inv s \<and> idle s \<and> m_key s = of_nat k \<and> m_size s = sz \<and> (\<exists>c. val_ok dinv drow c s)"

definition rows_good :: "('db \<Rightarrow> bool) \<Rightarrow> ('db \<Rightarrow> u64 \<Rightarrow> bytes option) \<Rightarrow> nat \<Rightarrow> 'db manager \<Rightarrow> bool" where
  "rows_good dinv drow sz m \<longleftrightarrow> length (mi_mvccs m) < 2 ^ 64 \<and> dinv (mi_db m) \<and>
     (\<forall>k < length (mi_mvccs m). row_good dinv drow sz k (row_st m k))"

lemma attach_simps [simp]:
  "m_key (attach T A d s) = m_key s" "m_size (attach T A d s) = m_size s" "rows (attach T A d s) = rows s"
  "txns (attach T A d s) = T" "all_ts (attach T A d s) = A" "mdb (attach T A d s) = d"
  "exists_prewrite (attach T A d s) = exists_prewrite s"
  by (simp_all add: attach_def)

lemma put_st_simps [simp]:
  "length (mi_mvccs (put_st k s m)) = length (mi_mvccs m)" "mi_txns (put_st k s m) = txns s"
  "mi_db (put_st k s m) = mdb s" "mi_all_ts (put_st k s m) = mi_all_ts m"
  by (simp_all add: put_st_def)

lemma row_st_simps [simp]: "txns (row_st m k) = mi_txns m" "mdb (row_st m k) = mi_db m" "all_ts (row_st m k) = mi_all_ts m"
  "rows (row_st m k) = rows (mi_mvccs m ! k)"
  by (simp_all add: row_st_def)

lemma row_st_put_same [simp]:
  "k < length (mi_mvccs m) \<Longrightarrow> all_ts s = mi_all_ts m \<Longrightarrow> row_st (put_st k s m) k = s"
  by (simp add: row_st_def put_st_def attach_def)

lemma row_st_put_other [simp]:
  "k' \<noteq> k \<Longrightarrow> row_st (put_st k s m) k' = (row_st m k')\<lparr>txns := txns s, mdb := mdb s\<rparr>"
  by (simp add: row_st_def put_st_def attach_def)

lemma mvcc_inv_idle: "idle s \<Longrightarrow> mvcc_inv (s\<lparr>txns := T, mdb := d\<rparr>) = mvcc_inv s"
  by (auto simp: mvcc_inv_def pend_ok_def pending_after_def idle_def)

lemma row_good_env:
  assumes "row_good dinv drow sz k s" and "dinv d" and "drow d (of_nat k) = drow (mdb s) (of_nat k)"
  shows "row_good dinv drow sz k (s\<lparr>txns := T, mdb := d\<rparr>)"
  using assms mvcc_inv_idle [where s = s and T = T and d = d] by (auto simp: row_good_def val_ok_def idle_def)

lemma unat_of_nat_table [simp]: "i < n \<Longrightarrow> n < 2 ^ 64 \<Longrightarrow> unat (of_nat i :: u64) = i"
  by (simp add: unat_of_nat)

lemma of_nat_inj_table: "i < n \<Longrightarrow> j < n \<Longrightarrow> n < 2 ^ 64 \<Longrightarrow> (of_nat i :: u64) = of_nat j \<longleftrightarrow> i = j"
  by (metis unat_of_nat_table)

text \<open>A call on row \<open>k\<close> that leaves that row well formed keeps all of them well formed.\<close>

lemma rows_good_put:
  assumes "rows_good dinv drow sz m" and "k < length (mi_mvccs m)" and "row_good dinv drow sz k s"
    and "all_ts s = mi_all_ts m" and "\<And>x. x \<noteq> of_nat k \<Longrightarrow> drow (mdb s) x = drow (mi_db m) x"
  shows "rows_good dinv drow sz (put_st k s m)"
proof -
  have d: "dinv (mdb s)" using assms(3) by (auto simp: row_good_def val_ok_def)
  have "row_good dinv drow sz j (row_st (put_st k s m) j)" if j: "j < length (mi_mvccs m)" for j
  proof (cases "j = k")
    case False
    then have "(of_nat j :: u64) \<noteq> of_nat k" using j assms(1,2) of_nat_inj_table by (metis rows_good_def)
    then show ?thesis using row_good_env [of dinv drow sz j "row_st m j" "mdb s"] assms(1,5) j d False by (simp add: rows_good_def)
  qed (use assms(2,3,4) in simp)
  then show ?thesis using assms(1) d by (simp add: rows_good_def)
qed

section \<open>The accesses of a transaction\<close>

text \<open>An access: its type, the row, the row object it was given.\<close>

type_synonym acc = "access_t \<times> nat \<times> nat"

definition acc_ok :: "nat \<Rightarrow> acc \<Rightarrow> 'db manager \<Rightarrow> bool" where
  "acc_ok me a m \<longleftrightarrow> (case a of (ty, k, p) \<Rightarrow> (ty = RD \<or> ty = WR) \<and> k < length (mi_mvccs m) \<and> row_ok (row_st m k) p \<and>
     (if ty = WR then holds_reservation me (Some p) (row_st m k) else \<not> exists_prewrite (row_st m k)))"

definition txn_at :: "nat \<Rightarrow> acc list \<Rightarrow> 'db manager \<Rightarrow> bool" where
  "txn_at me as m \<longleftrightarrow> distinct (map (fst \<circ> snd) as) \<and> (\<forall>a \<in> set as. acc_ok me a m) \<and>
     (\<forall>k < length (mi_mvccs m). k \<notin> (fst \<circ> snd) ` set as \<longrightarrow> \<not> exists_prewrite (row_st m k))"

definition tm_at :: "acc list \<Rightarrow> txn_man \<Rightarrow> bool" where
  "tm_at as tm \<longleftrightarrow> row_cnt tm = length as \<and> length (accesses tm) = MAX_ROW_PER_TXN \<and> length as \<le> MAX_ROW_PER_TXN \<and>
     (\<forall>i < length as. accesses tm ! i = Some \<lparr>acc_type = fst (as ! i), acc_data = Some (snd (as ! i))\<rparr>)"

text \<open>The content a row object has now.\<close>

definition new_val :: "'db manager \<Rightarrow> nat \<times> nat \<Rightarrow> bytes" where
  "new_val m p = row_bytes (the (rows (mi_mvccs m ! fst p) (snd p)))"

definition writes :: "'db manager \<Rightarrow> acc list \<Rightarrow> (u64 \<times> bytes) list" where
  "writes m as = map (\<lambda>a. (of_nat (fst (snd a)), new_val m (snd a))) (filter (\<lambda>a. fst a = WR) as)"

text \<open>A call on another row does not touch an access.\<close>

lemma row_ok_env [simp]: "row_ok (s\<lparr>txns := T, mdb := d\<rparr>) p = row_ok s p"
  by (simp add: row_ok_def)

lemma acc_ok_put:
  assumes "acc_ok me a m" and "fst (snd a) \<noteq> k" and "txn_ts (txns s me) = txn_ts (mi_txns m me)"
  shows "acc_ok me a (put_st k s m)" and "new_val (put_st k s m) (snd a) = new_val m (snd a)"
proof -
  show "acc_ok me a (put_st k s m)" using assms by (auto simp: acc_ok_def holds_reservation_def split: if_splits)
  show "new_val (put_st k s m) (snd a) = new_val m (snd a)" using assms(2) by (simp add: new_val_def put_st_def)
qed

text \<open>Calls with timestamp \<open>ts\<close> add no other timestamp to any row.\<close>

definition aged_rows :: "u64 \<Rightarrow> 'a manager \<Rightarrow> 'b manager \<Rightarrow> bool" where
  "aged_rows ts m m' \<longleftrightarrow> length (mi_mvccs m') = length (mi_mvccs m) \<and>
     (\<forall>j < length (mi_mvccs m). aged ts (row_st m j) (row_st m' j))"

lemma aged_refl [simp]: "aged ts s s"
  by (simp add: aged_def)

lemma aged_rows_refl [simp]: "aged_rows ts m m"
  by (simp add: aged_rows_def)

lemma aged_rows_trans: "aged_rows ts m m1 \<Longrightarrow> aged_rows ts m1 m2 \<Longrightarrow> aged_rows ts m m2"
  by (fastforce simp: aged_rows_def aged_def)

lemma aged_attach [simp]: "aged ts s (attach T A d t) = aged ts s t" "aged ts (attach T A d s) t = aged ts s t"
  by (simp_all add: aged_def attach_def)

lemma aged_rows_put: "aged ts (row_st m k) s \<Longrightarrow> aged_rows ts m (put_st k s m)"
  by (cases "k < length (mi_mvccs m)") (auto simp: aged_rows_def row_st_def put_st_def nth_list_update)

lemma aged_rows_db [simp]:
  "aged_rows ts (m\<lparr>mi_db := d\<rparr>) m' = aged_rows ts m m'" "aged_rows ts m (m'\<lparr>mi_db := d\<rparr>) = aged_rows ts m m'"
  by (simp_all add: aged_rows_def row_st_def)

text \<open>What a call on row \<open>k\<close> leaves alone.\<close>

definition kept :: "nat \<Rightarrow> nat \<Rightarrow> 'db manager \<Rightarrow> 'db manager \<Rightarrow> bool" where
  "kept me k m m' \<longleftrightarrow> length (mi_mvccs m') = length (mi_mvccs m) \<and> txn_ts (mi_txns m' me) = txn_ts (mi_txns m me) \<and>
     (\<forall>j. j \<noteq> k \<longrightarrow> latest_wts (row_st m' j) = latest_wts (row_st m j) \<and>
        max_served_rts (row_st m' j) = max_served_rts (row_st m j)) \<and>
     aged_rows (txn_ts (mi_txns m me)) m m'"

lemma kept_put:
  assumes "txn_ts (txns s me) = txn_ts (mi_txns m me)" and "aged (txn_ts (mi_txns m me)) (row_st m k) s"
  shows "kept me k m (put_st k s m)"
  using assms aged_rows_put [OF assms(2)] by (simp add: kept_def)

text \<open>The same, whatever the state of row \<open>k\<close>.\<close>

definition txn_but :: "nat \<Rightarrow> nat \<Rightarrow> acc list \<Rightarrow> 'db manager \<Rightarrow> bool" where
  "txn_but k me as m \<longleftrightarrow> distinct (map (fst \<circ> snd) as) \<and> (\<forall>a \<in> set as. acc_ok me a m) \<and>
     (\<forall>j < length (mi_mvccs m). j \<notin> (fst \<circ> snd) ` set as \<and> j \<noteq> k \<longrightarrow> \<not> exists_prewrite (row_st m j))"

lemma txn_at_but: "txn_at me as m \<Longrightarrow> txn_but k me as m"
  by (simp add: txn_at_def txn_but_def)

lemma txn_at_snoc:
  assumes "txn_at me (as @ [(ty, k, q)]) m"
  shows "txn_but k me as m" and "k \<notin> (fst \<circ> snd) ` set as" and "acc_ok me (ty, k, q) m"
  using assms by (auto simp: txn_at_def txn_but_def)

text \<open>A row given to a transaction.\<close>

lemma txn_at_put:
  assumes at: "txn_but k me as m" and k: "k < length (mi_mvccs m)" "k \<notin> (fst \<circ> snd) ` set as"
    and s: "all_ts s = mi_all_ts m" "txn_ts (txns s me) = txn_ts (mi_txns m me)"
  shows "\<not> exists_prewrite s \<Longrightarrow> txn_at me as (put_st k s m)"
    and "acc_ok me (ty, k, p) (put_st k s m) \<Longrightarrow> txn_at me (as @ [(ty, k, p)]) (put_st k s m)"
    and "a \<in> set as \<Longrightarrow> new_val (put_st k s m) (snd a) = new_val m (snd a)"
proof -
  have old: "acc_ok me a (put_st k s m)" "new_val (put_st k s m) (snd a) = new_val m (snd a)" if "a \<in> set as" for a
    using acc_ok_put [of me a m k s] at k(2) s(2) that by (auto simp: txn_but_def)
  have free: "\<not> exists_prewrite (row_st (put_st k s m) j)" if "j < length (mi_mvccs m)" "j \<notin> (fst \<circ> snd) ` set as" "j \<noteq> k" for j
    using at that by (auto simp: txn_but_def)
  show "txn_at me as (put_st k s m)" if "\<not> exists_prewrite s"
    unfolding txn_at_def
  proof (intro conjI allI impI ballI)
    show "\<not> exists_prewrite (row_st (put_st k s m) j)" if "j < length (mi_mvccs (put_st k s m))" "j \<notin> (fst \<circ> snd) ` set as" for j
      using free [of j] that \<open>\<not> exists_prewrite s\<close> k(1) s(1) by (cases "j = k") simp_all
  qed (use at old(1) in \<open>simp_all add: txn_but_def\<close>)
  show "txn_at me (as @ [(ty, k, p)]) (put_st k s m)" if "acc_ok me (ty, k, p) (put_st k s m)"
    unfolding txn_at_def
  proof (intro conjI allI impI ballI)
    show "\<not> exists_prewrite (row_st (put_st k s m) j)"
      if "j < length (mi_mvccs (put_st k s m))" "j \<notin> (fst \<circ> snd) ` set (as @ [(ty, k, p)])" for j
      using free [of j] that by simp
  qed (use at old(1) that k(2) in \<open>auto simp: txn_but_def\<close>)
  show "new_val (put_st k s m) (snd a) = new_val m (snd a)" if "a \<in> set as" by (rule old(2) [OF that])
qed

lemma tm_at_slot:
  assumes "tm_at as tm" and "length as < MAX_ROW_PER_TXN"
  obtains a tm1 where "access_slot tm = Inr (a, tm1)" and "tm_at as tm1" and "tm_me tm1 = tm_me tm" and "tm_thd tm1 = tm_thd tm"
    and "\<And>ty q n. tm_at (as @ [(ty, q)]) (tm1\<lparr>accesses := (accesses tm1)[row_cnt tm := Some \<lparr>acc_type = ty, acc_data = Some q\<rparr>],
      row_cnt := row_cnt tm + 1, wr_cnt := n\<rparr>)"
  using assms by (cases "accesses tm ! row_cnt tm") (auto simp: access_slot_def tm_at_def nth_append nth_list_update Let_def)

context row_storage
begin

lemma get_row_alone:
  assumes G: "rows_good dinv drow sz m" and at: "txn_at me as m" and tm: "tm_at as tm" "tm_me tm = me" "length as < MAX_ROW_PER_TXN"
    and k: "k < length (mi_mvccs m)" "k \<notin> (fst \<circ> snd) ` set as" and ty: "ty = RD \<or> ty = WR"
    and ts: "txn_ts (mi_txns m me) < UINT64_MAX" "txn_ts (mi_txns m me) \<noteq> latest_wts (row_st m k)"
  obtains p tm' m' where "txn_get_row S sz (of_nat k) ty tm m = Inr (p, tm', m')" and "rows_good dinv drow sz m'"
    and "drow (mi_db m') = drow (mi_db m)" and "kept me k m m'" and "tm_me tm' = me" and "tm_thd tm' = tm_thd tm"
    and "\<forall>a \<in> set as. new_val m' (snd a) = new_val m (snd a)"
    and "p = None \<and> txn_at me as m' \<and> tm_at as tm' \<or>
      (\<exists>q. p = Some (k, q) \<and> txn_at me (as @ [(ty, k, q)]) m' \<and> tm_at (as @ [(ty, k, q)]) tm' \<and>
        (ty = WR \<longrightarrow> Some (new_val m' (k, q)) = drow (mi_db m) (of_nat k)))"
    and "latest_wts (row_st m k) < txn_ts (mi_txns m me) \<and> max_served_rts (row_st m k) \<le> txn_ts (mi_txns m me) \<longrightarrow> p \<noteq> None"
proof -
  let ?s = "row_st m k"
  have good: "row_good dinv drow sz k ?s" and len: "length (mi_mvccs m) < 2 ^ 64" using G k(1) by (simp_all add: rows_good_def)
  obtain c where inv: "mvcc_inv ?s" and val: "val_ok dinv drow c ?s" and key: "m_key ?s = of_nat k" "m_size ?s = sz"
    using good by (auto simp: row_good_def)
  have free: "\<not> exists_prewrite ?s" using at k by (simp add: txn_at_def)
  have u: "unat (of_nat k :: u64) = k" using k(1) len by simp
  obtain rc row s' where g: "GetRow_call S ty me ?s = Inr ((rc, row), s')" "mvcc_inv s'" "val_ok dinv drow c s'"
    "idle s'" "drow (mdb s') = drow (mdb ?s)" "own_txn me ?s s'"
    "rc = Abort \<and> s' = ?s \<or> rc = RCOK \<and> (\<exists>p. row = Some p \<and> cur_row (txns s' me) = Some p \<and> row_ok s' p \<and>
      (if ty = WR then holds_reservation me (Some p) s' \<and> row_bytes (the (rows s' p)) = c else \<not> exists_prewrite s'))"
    "latest_wts ?s < txn_ts (txns ?s me) \<Longrightarrow> max_served_rts ?s \<le> txn_ts (txns ?s me) \<Longrightarrow> rc = RCOK"
    using GetRow_alone [OF inv val free _ _ ty, of me] ts by (metis row_st_simps(1))
  let ?m = "put_st k s' m"
  have own: "all_ts s' = mi_all_ts m" "txn_ts (txns s' me) = txn_ts (mi_txns m me)" "m_key s' = of_nat k" "m_size s' = sz"
    using g(6) key by (simp_all add: own_txn_def)
  have ag: "aged (txn_ts (mi_txns m me)) ?s s'" using g(6) by (simp add: own_txn_def)
  have good': "row_good dinv drow sz k s'" using g(2,3,4) own by (auto simp: row_good_def)
  have G': "rows_good dinv drow sz ?m" by (rule rows_good_put [OF G k(1) good' own(1)]) (use g(5) in simp)
  note put = txn_at_put [OF txn_at_but [OF at] k own(1,2)]
  obtain a tm1 where sl: "access_slot tm = Inr (a, tm1)" "tm_at as tm1" "tm_me tm1 = tm_me tm" "tm_thd tm1 = tm_thd tm"
    "\<And>ty q n. tm_at (as @ [(ty, q)]) (tm1\<lparr>accesses := (accesses tm1)[row_cnt tm := Some \<lparr>acc_type = ty, acc_data = Some q\<rparr>],
      row_cnt := row_cnt tm + 1, wr_cnt := n\<rparr>)"
    using tm_at_slot [OF tm(1,3)] by metis
  have row: "at_row (of_nat k) (GetRow_call S ty (tm_me tm)) m = Inr ((rc, row), ?m)"
    using k(1) u g(1) tm(2) by (simp add: at_row_def)
  have db: "drow (mi_db ?m) = drow (mi_db m)" using g(5) by simp
  show ?thesis
  proof (cases "rc = Abort")
    case True
    then have s': "s' = ?s" using g(7) by auto
    have "txn_get_row S sz (of_nat k) ty tm m = Inr (None, tm1, ?m)" using sl(1) row True by (simp add: txn_get_row_def)
    then show ?thesis
      by (rule that [OF _ G' db kept_put [OF own(2) ag]]) (use sl tm(2) put(1,3) free s' g(8) True in auto)
  next
    case False
    then obtain p where p: "rc = RCOK" "row = Some p" "cur_row (txns s' me) = Some p" "row_ok s' p"
      "if ty = WR then holds_reservation me (Some p) s' \<and> row_bytes (the (rows s' p)) = c else \<not> exists_prewrite s'"
      using g(7) by auto
    obtain r where r: "rows s' p = Some r" "row_key r = of_nat k" "row_size r = sz" using p(4) own(3,4) by (auto simp: row_ok_def)
    have obj: "row_obj (k, p) ?m = Inr r" using r(1) k(1) by (simp add: row_obj_def put_st_def)
    let ?tm = "tm1\<lparr>accesses := (accesses tm1)[row_cnt tm := Some \<lparr>acc_type = ty, acc_data = Some (k, p)\<rparr>],
      row_cnt := row_cnt tm + 1, wr_cnt := (if ty = WR then wr_cnt tm + 1 else wr_cnt tm)\<rparr>"
    have run: "txn_get_row S sz (of_nat k) ty tm m = Inr (Some (k, p), ?tm, ?m)"
      using sl(1) row p(1,2,3) obj r(2,3) tm(2) u by (simp add: txn_get_row_def Let_def)
    have "acc_ok me (ty, k, p) ?m" using p(4,5) ty k(1) own(1) by (auto simp: acc_ok_def split: if_splits)
    then have at': "txn_at me (as @ [(ty, k, p)]) ?m" by (rule put(2))
    have "ty = WR \<longrightarrow> Some (new_val ?m (k, p)) = drow (mi_db m) (of_nat k)"
      using p(5) val key(1) k(1) by (simp add: new_val_def put_st_def val_ok_def)
    then show ?thesis
      by (intro that [OF run G' db kept_put [OF own(2) ag]]) (use sl tm(2) put(3) at' in auto)
  qed
qed

end

text \<open>The bytes a write puts into a row; a query of one request changes nothing.\<close>

definition stamp :: "nat \<Rightarrow> nat \<Rightarrow> u64 \<Rightarrow> bytes \<Rightarrow> bytes" where
  "stamp n sz ts b = (if n > 1 then take (sz - 8) b @ enc64 ts else b)"

lemma core_inv_set_bytes:
  assumes "core_inv s" and "rows s q = Some r" and "length b = length (row_bytes r)"
  shows "core_inv (s\<lparr>rows := (rows s)(q \<mapsto> r\<lparr>row_bytes := b\<rparr>)\<rparr>)"
  by (rule core_inv_rows [OF assms(1)]) (use assms(2,3) in \<open>auto simp: row_ok_def\<close>)

text \<open>The holder of a reservation fills in its row object.\<close>

lemma row_good_set_bytes:
  assumes good: "row_good dinv drow sz k s" and res: "holds_reservation me (Some q) s" and r: "rows s q = Some r"
    and b: "length b = sz"
  shows "row_good dinv drow sz k (s\<lparr>rows := (rows s)(q \<mapsto> r\<lparr>row_bytes := b\<rparr>)\<rparr>)" (is "row_good _ _ _ _ ?t")
proof -
  obtain c where inv: "mvcc_inv s" and id: "idle s" and key: "m_key s = of_nat k" "m_size s = sz" and val: "val_ok dinv drow c s"
    using good by (auto simp: row_good_def)
  have core: "core_inv s" using inv by (simp add: mvcc_inv_def)
  have "row_ok s q" using reservationD [OF core res] by (metis option.inject)
  then have "length (row_bytes r) = sz" using r key(2) by (simp add: row_ok_def)
  then have "core_inv ?t" using core_inv_set_bytes [OF core r] b by simp
  moreover have "pend_ok ?t" using inv by (simp add: mvcc_inv_def pend_ok_def pending_after_def)
  moreover have "latest_row s \<noteq> Some q"
    using latest_not_reserved [OF core, of q] res by (auto simp: holds_reservation_def)
  ultimately show ?thesis
    using id key val by (auto simp: row_good_def mvcc_inv_def idle_def val_ok_def)
qed

lemma compute_alone:
  assumes G: "rows_good dinv drow sz m" and at: "txn_at me (as @ [(ty, k, q)]) m" and sz: "16 \<le> sz"
  obtains m' where "compute sz n ty (k, q) ts m = Inr m'" and "rows_good dinv drow sz m'"
    and "txn_at me (as @ [(ty, k, q)]) m'" and "mi_db m' = mi_db m" and "kept me k m m'" and "mi_txns m' = mi_txns m"
    and "\<forall>a \<in> set as. new_val m' (snd a) = new_val m (snd a)"
    and "ty = WR \<longrightarrow> new_val m' (k, q) = stamp n sz ts (new_val m (k, q))"
proof -
  let ?s = "row_st m k"
  have a: "acc_ok me (ty, k, q) m" by (rule txn_at_snoc(3) [OF at])
  then have k: "k < length (mi_mvccs m)" "ty = RD \<or> ty = WR" by (auto simp: acc_ok_def)
  have good: "row_good dinv drow sz k ?s" using G k(1) by (simp add: rows_good_def)
  obtain r where r: "rows ?s q = Some r" "length (row_bytes r) = sz" "row_key r = of_nat k"
    using a good by (auto simp: acc_ok_def row_ok_def row_good_def)
  have obj: "row_obj (k, q) m = Inr r" using r(1) by (simp add: row_obj_def)
  show ?thesis
  proof (cases "ty = WR \<and> n > 1")
    case False
    then have "compute sz n ty (k, q) ts m = Inr m"
      using k(2) obj r(2) sz by (auto simp: compute_def read_at_def)
    then show ?thesis by (rule that) (use G at False in \<open>auto simp: kept_def stamp_def\<close>)
  next
    case True
    let ?b = "take (sz - 8) (row_bytes r) @ enc64 ts"
    let ?t = "?s\<lparr>rows := (rows ?s)(q \<mapsto> r\<lparr>row_bytes := ?b\<rparr>)\<rparr>"
    have lb: "length ?b = sz" using r(2) sz by simp
    have "memcpy_at (row_bytes r) (sz - 8) (enc64 ts) = Inr ?b" using r(2) sz by (simp add: mem_simps)
    then have run: "compute sz n ty (k, q) ts m = Inr (put_st k ?t m)"
      using True obj sz r(1) by (simp add: compute_def set_row_bytes_def Let_def)
    have res: "holds_reservation me (Some q) ?s" using a True by (simp add: acc_ok_def)
    have good': "row_good dinv drow sz k ?t" by (rule row_good_set_bytes [OF good res r(1) lb])
    have G': "rows_good dinv drow sz (put_st k ?t m)" by (rule rows_good_put [OF G k(1) good']) simp_all
    have "row_ok ?t q" using a lb r by (auto simp: acc_ok_def row_ok_def)
    then have "acc_ok me (ty, k, q) (put_st k ?t m)"
      using res True k(1) by (simp add: acc_ok_def holds_reservation_def)
    then have "txn_at me (as @ [(ty, k, q)]) (put_st k ?t m)"
      "\<And>a. a \<in> set as \<Longrightarrow> new_val (put_st k ?t m) (snd a) = new_val m (snd a)"
      using txn_at_put(2,3) [OF txn_at_snoc(1) [OF at] k(1) txn_at_snoc(2) [OF at], of ?t] by simp_all
    moreover have "new_val (put_st k ?t m) (k, q) = stamp n sz ts (new_val m (k, q))"
      using r(1) True k(1) by (simp add: new_val_def put_st_def stamp_def)
    ultimately show ?thesis using that [OF run G'] kept_put [of ?t me m k] by (simp add: aged_def)
  qed
qed

section \<open>The requests of a query\<close>

abbreviation keys_of :: "acc list \<Rightarrow> nat set" where
  "keys_of as \<equiv> (fst \<circ> snd) ` set as"

definition txn_inv ::
  "('db \<Rightarrow> bool) \<Rightarrow> ('db \<Rightarrow> u64 \<Rightarrow> bytes option) \<Rightarrow> nat \<Rightarrow> nat \<Rightarrow> u64 \<Rightarrow> nat \<Rightarrow> acc list \<Rightarrow> 'db manager \<Rightarrow> bool" where
  "txn_inv dinv drow sz n ts me as m \<longleftrightarrow> rows_good dinv drow sz m \<and> txn_at me as m \<and> txn_ts (mi_txns m me) = ts \<and>
     (\<forall>a \<in> set as. fst a = WR \<longrightarrow>
        Some (new_val m (snd a)) = map_option (stamp n sz ts) (drow (mi_db m) (of_nat (fst (snd a)))))"

text \<open>The rows not accessed so far have no version with this timestamp; or only older ones, and older readers.\<close>

definition unused :: "u64 \<Rightarrow> nat set \<Rightarrow> 'db manager \<Rightarrow> bool" where
  "unused ts K m \<longleftrightarrow> (\<forall>k < length (mi_mvccs m). k \<notin> K \<longrightarrow> ts \<noteq> latest_wts (row_st m k))"

definition newest :: "u64 \<Rightarrow> nat set \<Rightarrow> 'db manager \<Rightarrow> bool" where
  "newest ts K m \<longleftrightarrow> (\<forall>k < length (mi_mvccs m). k \<notin> K \<longrightarrow>
     latest_wts (row_st m k) < ts \<and> max_served_rts (row_st m k) \<le> ts)"

lemma kept_trans: "kept me k m1 m2 \<Longrightarrow> kept me k m2 m3 \<Longrightarrow> kept me k m1 m3"
  by (auto simp: kept_def intro: aged_rows_trans)

lemma kept_rows:
  assumes "kept me k m m'"
  shows "unused ts K m \<Longrightarrow> unused ts (insert k K) m'" and "newest ts K m \<Longrightarrow> newest ts (insert k K) m'"
  using assms by (auto simp: kept_def unused_def newest_def)

definition req_fits :: "'db manager \<Rightarrow> ycsb_request \<Rightarrow> bool" where
  "req_fits m q \<longleftrightarrow> (rtype q = RD \<or> rtype q = WR) \<and> unat (rkey q) < length (mi_mvccs m)"

context row_storage
begin

lemma run_request_alone:
  assumes I: "txn_inv dinv drow sz n ts me as m" and sz: "16 \<le> sz" and tm: "tm_at as tm" "tm_me tm = me" "length as < MAX_ROW_PER_TXN"
    and q: "req_fits m q" "unat (rkey q) \<notin> keys_of as" and ts: "ts < UINT64_MAX" "unused ts (keys_of as) m"
  obtains ok tm' m' as' where "run_request S sz n q (access_times q) tm m = Inr (ok, tm', m')"
    and "txn_inv dinv drow sz n ts me as' m'" and "drow (mi_db m') = drow (mi_db m)" and "kept me (unat (rkey q)) m m'"
    and "tm_at as' tm'" and "tm_me tm' = me" and "tm_thd tm' = tm_thd tm"
    and "if ok then (\<exists>p. as' = as @ [(rtype q, unat (rkey q), p)]) else as' = as"
    and "newest ts (keys_of as) m \<longrightarrow> ok"
proof -
  let ?k = "unat (rkey q)"
  have G: "rows_good dinv drow sz m" and at: "txn_at me as m" and my: "txn_ts (mi_txns m me) = ts"
    and vals: "\<forall>a \<in> set as. fst a = WR \<longrightarrow>
        Some (new_val m (snd a)) = map_option (stamp n sz ts) (drow (mi_db m) (of_nat (fst (snd a))))"
    using I by (simp_all add: txn_inv_def)
  have k: "?k < length (mi_mvccs m)" "rtype q = RD \<or> rtype q = WR" and key: "of_nat ?k = rkey q" using q(1) by (simp_all add: req_fits_def)
  have t: "txn_ts (mi_txns m me) < UINT64_MAX" "txn_ts (mi_txns m me) \<noteq> latest_wts (row_st m ?k)"
    using my ts k(1) q(2) by (auto simp: unused_def)
  obtain p tm1 m1 where g: "txn_get_row S sz (rkey q) (rtype q) tm m = Inr (p, tm1, m1)" "rows_good dinv drow sz m1"
    "drow (mi_db m1) = drow (mi_db m)" "kept me ?k m m1" "tm_me tm1 = me" "tm_thd tm1 = tm_thd tm"
    "\<forall>a \<in> set as. new_val m1 (snd a) = new_val m (snd a)"
    "p = None \<and> txn_at me as m1 \<and> tm_at as tm1 \<or>
      (\<exists>r. p = Some (?k, r) \<and> txn_at me (as @ [(rtype q, ?k, r)]) m1 \<and> tm_at (as @ [(rtype q, ?k, r)]) tm1 \<and>
        (rtype q = WR \<longrightarrow> Some (new_val m1 (?k, r)) = drow (mi_db m) (rkey q)))"
    "latest_wts (row_st m ?k) < txn_ts (mi_txns m me) \<and> max_served_rts (row_st m ?k) \<le> txn_ts (mi_txns m me) \<longrightarrow> p \<noteq> None"
    by (rule get_row_alone [OF G at tm k(1) q(2) k(2) t, unfolded key])
  have one: "access_times q = Suc 0" using k(2) by (auto simp: access_times_def)
  have my1: "txn_ts (mi_txns m1 me) = ts" using g(4) my by (simp add: kept_def)
  show ?thesis
  proof (cases p)
    case None
    then have "run_request S sz n q (access_times q) tm m = Inr (False, tm1, m1)" using g(1) one by simp
    then show ?thesis
      by (rule that [OF _ _ g(3,4)]) (use None g my1 vals my k(1) q(2) in \<open>auto simp: txn_inv_def newest_def\<close>)
  next
    case (Some pk)
    then obtain r where r: "p = Some (?k, r)" "txn_at me (as @ [(rtype q, ?k, r)]) m1" "tm_at (as @ [(rtype q, ?k, r)]) tm1"
      "rtype q = WR \<longrightarrow> Some (new_val m1 (?k, r)) = drow (mi_db m) (rkey q)"
      using g(8) by auto
    have "acc_ok me (rtype q, ?k, r) m1" by (rule txn_at_snoc(3) [OF r(2)])
    moreover have "m_size (row_st m1 ?k) = sz" using g(2,4) k(1) by (simp add: rows_good_def row_good_def kept_def)
    ultimately obtain x where x: "row_obj (?k, r) m1 = Inr x" "row_size x = sz"
      by (auto simp: acc_ok_def row_ok_def row_obj_def)
    obtain m2 where c: "compute sz n (rtype q) (?k, r) ts m1 = Inr m2" "rows_good dinv drow sz m2"
      "txn_at me (as @ [(rtype q, ?k, r)]) m2" "mi_db m2 = mi_db m1" "kept me ?k m1 m2" "mi_txns m2 = mi_txns m1"
      "\<forall>a \<in> set as. new_val m2 (snd a) = new_val m1 (snd a)"
      "rtype q = WR \<longrightarrow> new_val m2 (?k, r) = stamp n sz ts (new_val m1 (?k, r))"
      by (rule compute_alone [OF g(2) r(2) sz])
    have "run_request S sz n q (access_times q) tm m = Inr (True, tm1, m2)"
      using g(1,5) r(1) one x c(1) my1 by (simp add: get_ts_def)
    moreover have "txn_inv dinv drow sz n ts me (as @ [(rtype q, ?k, r)]) m2"
      using c g(3,7) r(4) my1 vals by (auto simp: txn_inv_def key simp flip: r(4))
    ultimately show ?thesis
      by (rule that [OF _ _ _ kept_trans [OF g(4) c(5)] r(3) g(5,6)]) (use c(4) g(3) in auto)
  qed
qed

lemma run_requests_alone:
  assumes "txn_inv dinv drow sz n ts me as m" and sz: "16 \<le> sz" and "tm_at as tm" and "tm_me tm = me"
    and "length as + length qs \<le> MAX_ROW_PER_TXN" and "\<forall>q \<in> set qs. req_fits m q" and "distinct (map (unat \<circ> rkey) qs)"
    and "(unat \<circ> rkey) ` set qs \<inter> keys_of as = {}" and ts: "ts < UINT64_MAX" and "unused ts (keys_of as) m"
  shows "\<exists>ok tm' m' as'. run_requests S sz n qs tm m = Inr (ok, tm', m') \<and> txn_inv dinv drow sz n ts me as' m' \<and>
    drow (mi_db m') = drow (mi_db m) \<and> tm_at as' tm' \<and> tm_me tm' = me \<and> tm_thd tm' = tm_thd tm \<and>
    aged_rows ts m m' \<and>
    (ok \<longrightarrow> map (\<lambda>(ty, k, p). (ty, k)) as' = map (\<lambda>(ty, k, p). (ty, k)) as @ map (\<lambda>q. (rtype q, unat (rkey q))) qs) \<and>
    (newest ts (keys_of as) m \<longrightarrow> ok)"
  using assms(1,3-8,10)
proof (induction qs arbitrary: as tm m)
  case Nil
  then show ?case by auto
next
  case (Cons q qs)
  have q: "length as < MAX_ROW_PER_TXN" "req_fits m q" "unat (rkey q) \<notin> keys_of as" using Cons.prems(4,5,7) by auto
  obtain ok tm1 m1 as1 where r: "run_request S sz n q (access_times q) tm m = Inr (ok, tm1, m1)"
    "txn_inv dinv drow sz n ts me as1 m1" "drow (mi_db m1) = drow (mi_db m)" "kept me (unat (rkey q)) m m1"
    "tm_at as1 tm1" "tm_me tm1 = me" "tm_thd tm1 = tm_thd tm"
    "if ok then (\<exists>p. as1 = as @ [(rtype q, unat (rkey q), p)]) else as1 = as" "newest ts (keys_of as) m \<longrightarrow> ok"
    by (rule run_request_alone [OF Cons.prems(1) sz Cons.prems(2,3) q ts Cons.prems(8)])
  have ag: "aged_rows ts m m1" using r(4) Cons.prems(1) by (simp add: kept_def txn_inv_def)
  show ?case
  proof (cases ok)
    case False
    then show ?thesis using r ag by auto
  next
    case True
    then obtain p where p: "as1 = as @ [(rtype q, unat (rkey q), p)]" using r(8) by auto
    then have K: "keys_of as1 = insert (unat (rkey q)) (keys_of as)" by auto
    have fits: "\<forall>x \<in> set qs. req_fits m1 x" using Cons.prems(5) r(4) by (simp add: req_fits_def kept_def)
    have dis: "(unat \<circ> rkey) ` set qs \<inter> keys_of as1 = {}" using Cons.prems(6,7) unfolding K by auto
    have len: "length as1 + length qs \<le> MAX_ROW_PER_TXN" "distinct (map (unat \<circ> rkey) qs)" using Cons.prems(4,6) p by (simp_all add: comp_def)
    have un: "unused ts (keys_of as1) m1" unfolding K by (rule kept_rows(1) [OF r(4) Cons.prems(8)])
    obtain ok' tm' m' as' where i: "run_requests S sz n qs tm1 m1 = Inr (ok', tm', m')" "txn_inv dinv drow sz n ts me as' m'"
      "drow (mi_db m') = drow (mi_db m1)" "tm_at as' tm'" "tm_me tm' = me" "tm_thd tm' = tm_thd tm1"
      "aged_rows ts m1 m'"
      "ok' \<longrightarrow> map (\<lambda>(ty, k, p). (ty, k)) as' = map (\<lambda>(ty, k, p). (ty, k)) as1 @ map (\<lambda>q. (rtype q, unat (rkey q))) qs"
      "newest ts (keys_of as1) m1 \<longrightarrow> ok'"
      using Cons.IH [OF r(2,5,6) len(1) fits len(2) dis un] by blast
    have "newest ts (keys_of as) m \<longrightarrow> ok'" using i(9) kept_rows(2) [OF r(4)] unfolding K by blast
    then show ?thesis using True r(1,3,7) i p aged_rows_trans [OF ag i(7)] by auto
  qed
qed

end

section \<open>Giving the rows back\<close>

context row_storage
begin

lemma return_row_alone:
  assumes G: "rows_good dinv drow sz m" and at: "txn_at me (as @ [(ty, k, p)]) m" and tm: "tm_me tm = me"
    and acc: "accesses tm ! rid = Some \<lparr>acc_type = ty, acc_data = Some (k, p)\<rparr>"
    and v: "ty = WR \<longrightarrow> rvalid (of_nat k) (new_val m (k, p))" and rc: "rc = RCOK \<or> rc = Abort"
  obtains m' where "return_row S rc tm rid m = Inr m'" and "rows_good dinv drow sz m'" and "txn_at me as m'"
    and "drow (mi_db m') = (if ty = WR \<and> rc = RCOK then (drow (mi_db m))(of_nat k \<mapsto> new_val m (k, p)) else drow (mi_db m))"
    and "\<forall>a \<in> set as. new_val m' (snd a) = new_val m (snd a)" and "mi_txns m' = mi_txns m"
    and "aged_rows (txn_ts (mi_txns m me)) m m'"
proof -
  let ?s = "row_st m k" and ?ty = "if ty = WR \<and> rc = Abort then XP else ty"
  have a: "acc_ok me (ty, k, p) m" by (rule txn_at_snoc(3) [OF at])
  then have k: "k < length (mi_mvccs m)" and t: "ty = RD \<or> ty = WR" by (auto simp: acc_ok_def)
  have good: "row_good dinv drow sz k ?s" and len: "length (mi_mvccs m) < 2 ^ 64" using G k by (simp_all add: rows_good_def)
  obtain c where inv: "mvcc_inv ?s" "idle ?s" and val: "val_ok dinv drow c ?s" and key: "m_key ?s = of_nat k" "m_size ?s = sz"
    using good by (auto simp: row_good_def)
  have u: "unat (of_nat k :: u64) = k" using k len by simp
  obtain r where r: "rows ?s p = Some r" "row_key r = of_nat k" using a key(1) by (auto simp: acc_ok_def row_ok_def)
  have nv: "new_val m (k, p) = row_bytes r" using r(1) by (simp add: new_val_def)
  have obj: "row_obj (k, p) m = Inr r" using r(1) by (simp add: row_obj_def)
  have "\<exists>s'. ReturnRow S ?ty me (Some p) ?s = Inr s' \<and> row_good dinv drow sz k s' \<and> \<not> exists_prewrite s' \<and>
    drow (mdb s') = (if ty = WR \<and> rc = RCOK then (drow (mi_db m))(of_nat k \<mapsto> row_bytes r) else drow (mi_db m)) \<and>
    all_ts s' = mi_all_ts m \<and> txns s' = mi_txns m \<and> aged (txn_ts (mi_txns m me)) ?s s'"
  proof (cases "ty = WR")
    case True
    have res: "holds_reservation me (Some p) ?s" and rv: "rvalid (m_key ?s) (row_bytes r)"
      using a v True nv key(1) by (auto simp: acc_ok_def)
    obtain s' where s': "ReturnRow S ?ty me (Some p) ?s = Inr s'" "mvcc_inv s'"
      "val_ok dinv drow (if ?ty = WR then row_bytes r else c) s'" "\<not> exists_prewrite s'"
      "drow (mdb s') = (if ?ty = WR then (drow (mdb ?s))(m_key ?s \<mapsto> row_bytes r) else drow (mdb ?s))"
      "own_txn me ?s s'" "txns s' = txns ?s"
      by (rule ReturnRow_alone [OF inv(1) val inv(2) res r(1) rv, of ?ty]) (use True in auto)
    then show ?thesis
      using True rc key idle_free [OF s'(2,4)] by (auto simp: row_good_def own_txn_def split: if_splits)
  next
    case False
    then show ?thesis using good a t by (auto simp: ReturnRow_def acc_ok_def)
  qed
  then obtain s' where s': "ReturnRow S ?ty me (Some p) ?s = Inr s'" "row_good dinv drow sz k s'" "\<not> exists_prewrite s'"
    "drow (mdb s') = (if ty = WR \<and> rc = RCOK then (drow (mi_db m))(of_nat k \<mapsto> row_bytes r) else drow (mi_db m))"
    "all_ts s' = mi_all_ts m" "txns s' = mi_txns m" "aged (txn_ts (mi_txns m me)) ?s s'"
    by blast
  let ?m = "put_st k s' m"
  have run: "return_row S rc tm rid m = Inr ?m"
    using acc obj r(2) k u s'(1) tm by (auto simp: return_row_def Let_def at_row_def split: if_splits)
  have G': "rows_good dinv drow sz ?m" by (rule rows_good_put [OF G k s'(2,5)]) (use s'(4) in auto)
  note put = txn_at_put [OF txn_at_snoc(1) [OF at] k txn_at_snoc(2) [OF at] s'(5)]
  show ?thesis by (rule that [OF run G']) (use put(1,3) s'(3,4,6) nv aged_rows_put [OF s'(7)] in auto)
qed

lemma cleanup_alone:
  assumes "rows_good dinv drow sz m" and "txn_at me as m" and "tm_me tm = me" and "length as \<le> length (accesses tm)"
    and "\<forall>i < length as. accesses tm ! i = Some \<lparr>acc_type = fst (as ! i), acc_data = Some (snd (as ! i))\<rparr>"
    and "\<forall>a \<in> set as. fst a = WR \<longrightarrow> rvalid (of_nat (fst (snd a))) (new_val m (snd a))" and rc: "rc = RCOK \<or> rc = Abort"
  shows "\<exists>m'. cleanup_rows S rc tm (length as) m = Inr m' \<and> rows_good dinv drow sz m' \<and> txn_at me [] m' \<and>
    drow (mi_db m') = (if rc = RCOK then drow (mi_db m) ++ map_of (writes m as) else drow (mi_db m)) \<and>
    mi_txns m' = mi_txns m \<and> aged_rows (txn_ts (mi_txns m me)) m m'"
  using assms(1-6)
proof (induction as arbitrary: m rule: rev_induct)
  case Nil
  then show ?case by (simp add: writes_def)
next
  case (snoc a as)
  obtain ty k p where a: "a = (ty, k, p)" by (cases a)
  have acc: "accesses tm ! length as = Some \<lparr>acc_type = ty, acc_data = Some (k, p)\<rparr>"
    using snoc.prems(5) a by (auto dest: spec [of _ "length as"])
  have v: "ty = WR \<longrightarrow> rvalid (of_nat k) (new_val m (k, p))" using snoc.prems(6) a by auto
  obtain m1 where r: "return_row S rc tm (length as) m = Inr m1" "rows_good dinv drow sz m1" "txn_at me as m1"
    "drow (mi_db m1) = (if ty = WR \<and> rc = RCOK then (drow (mi_db m))(of_nat k \<mapsto> new_val m (k, p)) else drow (mi_db m))"
    "\<forall>a \<in> set as. new_val m1 (snd a) = new_val m (snd a)" "mi_txns m1 = mi_txns m" "aged_rows (txn_ts (mi_txns m me)) m m1"
    by (rule return_row_alone [OF snoc.prems(1) snoc.prems(2) [unfolded a] snoc.prems(3) acc v rc])
  have pre: "\<forall>i < length as. accesses tm ! i = Some \<lparr>acc_type = fst (as ! i), acc_data = Some (snd (as ! i))\<rparr>"
    using snoc.prems(5) by (auto simp: nth_append dest: spec)
  obtain m' where m': "cleanup_rows S rc tm (length as) m1 = Inr m'" "rows_good dinv drow sz m'" "txn_at me [] m'"
    "drow (mi_db m') = (if rc = RCOK then drow (mi_db m1) ++ map_of (writes m1 as) else drow (mi_db m1))"
    "mi_txns m' = mi_txns m1" "aged_rows (txn_ts (mi_txns m me)) m1 m'"
    using snoc.IH [OF r(2,3) snoc.prems(3) _ pre] snoc.prems(4,6) r(5,6) by auto
  have "writes m1 as = writes m as" using r(5) by (auto simp: writes_def)
  moreover have "writes m (as @ [a]) = writes m as @ (if ty = WR then [(of_nat k, new_val m (k, p))] else [])"
    by (simp add: writes_def a)
  ultimately have "drow (mi_db m') = (if rc = RCOK then drow (mi_db m) ++ map_of (writes m (as @ [a])) else drow (mi_db m))"
    using m'(4) r(4) by simp
  then show ?case using r(1,6) m' aged_rows_trans [OF r(7) m'(6)] by simp
qed

end

end
