(* ===== verification/Txn_Props.thy ===== *)
theory Txn_Props
  imports Txn_Serial
begin

text \<open>Atomicity of a transaction: the rows, then the page locks around them.\<close>

section \<open>All rows of a query\<close>

definition apply_query :: "nat \<Rightarrow> u64 \<Rightarrow> ycsb_request list \<Rightarrow> (u64 \<Rightarrow> bytes option) \<Rightarrow> (u64 \<Rightarrow> bytes option)" where
  "apply_query sz ts qs R =
     R ++ map_of (map (\<lambda>q. (rkey q, stamp (length qs) sz ts (the (R (rkey q))))) (filter (\<lambda>q. rtype q = WR) qs))"

text \<open>No transaction is active: no reservation on any row.\<close>

definition no_txn :: "'db manager \<Rightarrow> bool" where
  "no_txn m \<longleftrightarrow> (\<forall>k < length (mi_mvccs m). \<not> exists_prewrite (row_st m k))"

definition tm_ready :: "txn_man \<Rightarrow> bool" where
  "tm_ready tm \<longleftrightarrow> row_cnt tm = 0 \<and> length (accesses tm) = MAX_ROW_PER_TXN"

definition query_fits :: "ycsb_request list \<Rightarrow> 'db manager \<Rightarrow> bool" where
  "query_fits qs m \<longleftrightarrow> length qs \<le> MAX_ROW_PER_TXN \<and> distinct (map rkey qs) \<and> (\<forall>q \<in> set qs. req_fits m q)"

lemma writes_of_requests:
  assumes "map (\<lambda>(ty, k, p). (ty, k)) as = map (\<lambda>q. (rtype q, unat (rkey q))) qs"
    and "\<forall>a \<in> set as. fst a = WR \<longrightarrow> Some (new_val m (snd a)) = map_option f (R (of_nat (fst (snd a))))"
  shows "writes m as = map (\<lambda>q. (rkey q, f (the (R (rkey q))))) (filter (\<lambda>q. rtype q = WR) qs)"
  using assms
proof (induction as arbitrary: qs)
  case (Cons a as)
  obtain ty k p where a: "a = (ty, k, p)" by (cases a)
  obtain q qs' where q: "qs = q # qs'" "rtype q = ty" "unat (rkey q) = k" using Cons.prems(1) a by (cases qs) auto
  have "rkey q = of_nat k" using q(3) by auto
  then show ?case using Cons q a by (cases "R (of_nat k)") (auto simp: writes_def)
qed (simp add: writes_def)

context row_storage
begin

lemma run_accesses_alone:
  assumes G: "rows_good dinv drow sz m" and free: "no_txn m" and tm: "tm_ready tm" and sz: "16 \<le> sz"
    and qs: "query_fits qs m" and ts: "get_ts tm m < UINT64_MAX" "unused (get_ts tm m) {} m"
    and V: "\<And>k c. drow (mi_db m) k = Some c \<Longrightarrow> rvalid k (stamp (length qs) sz (get_ts tm m) c)"
  obtains rc tm' m' where "run_accesses S sz qs tm m = Inr (rc, tm', m')" and "rc = RCOK \<or> rc = Abort"
    and "rows_good dinv drow sz m'" and "no_txn m'" and "tm_ready tm'" and "tm_thd tm' = tm_thd tm" and "tm_me tm' = tm_me tm"
    and "drow (mi_db m') = (if rc = RCOK then apply_query sz (get_ts tm m) qs (drow (mi_db m)) else drow (mi_db m))"
    and "newest (get_ts tm m) {} m \<longrightarrow> rc = RCOK" and "get_ts tm' m' = get_ts tm m" and "aged_rows (get_ts tm m) m m'"
proof -
  let ?ts = "get_ts tm m" and ?me = "tm_me tm" and ?n = "length qs" and ?tm = "tm\<lparr>ycsb_row_cnt := 0\<rparr>"
  have I: "txn_inv dinv drow sz ?n ?ts ?me [] m" using G free by (simp add: txn_inv_def txn_at_def no_txn_def get_ts_def)
  have t0: "tm_at [] ?tm" "tm_me ?tm = ?me" using tm by (simp_all add: tm_at_def tm_ready_def)
  have q: "length ([] :: acc list) + length qs \<le> MAX_ROW_PER_TXN" "\<forall>q \<in> set qs. req_fits m q" "distinct (map (unat \<circ> rkey) qs)"
    using qs by (auto simp: query_fits_def distinct_map inj_on_def dest: unsigned_word_eqI)
  have dis: "(unat \<circ> rkey) ` set qs \<inter> keys_of [] = {}" and un: "unused ?ts (keys_of []) m" using ts(2) by simp_all
  obtain ok tm1 m1 as where r: "run_requests S sz ?n qs ?tm m = Inr (ok, tm1, m1)" "txn_inv dinv drow sz ?n ?ts ?me as m1"
    "drow (mi_db m1) = drow (mi_db m)" "tm_at as tm1" "tm_me tm1 = ?me" "tm_thd tm1 = tm_thd ?tm"
    "aged_rows ?ts m m1"
    "ok \<longrightarrow> map (\<lambda>(ty, k, p). (ty, k)) as = map (\<lambda>(ty, k, p). (ty, k)) ([] :: acc list) @ map (\<lambda>q. (rtype q, unat (rkey q))) qs"
    "newest ?ts (keys_of []) m \<longrightarrow> ok"
    using run_requests_alone [OF I sz t0 q dis ts(1) un] by blast
  have vals: "\<forall>a \<in> set as. fst a = WR \<longrightarrow>
      Some (new_val m1 (snd a)) = map_option (stamp ?n sz ?ts) (drow (mi_db m) (of_nat (fst (snd a))))"
    and at: "rows_good dinv drow sz m1" "txn_at ?me as m1" "txn_ts (mi_txns m1 ?me) = ?ts"
    using r(2,3) by (simp_all add: txn_inv_def)
  have v: "\<forall>a \<in> set as. fst a = WR \<longrightarrow> rvalid (of_nat (fst (snd a))) (new_val m1 (snd a))"
  proof (intro ballI impI)
    fix a assume "a \<in> set as" "fst a = WR"
    then obtain c where "drow (mi_db m) (of_nat (fst (snd a))) = Some c" "new_val m1 (snd a) = stamp ?n sz ?ts c"
      using vals by (metis (no_types, lifting) map_option_eq_Some)
    then show "rvalid (of_nat (fst (snd a))) (new_val m1 (snd a))" using V by simp
  qed
  let ?rc = "if ok then RCOK else Abort"
  have acc: "length as \<le> length (accesses tm1)" "row_cnt tm1 = length as" "length (accesses tm1) = MAX_ROW_PER_TXN"
    "\<forall>i < length as. accesses tm1 ! i = Some \<lparr>acc_type = fst (as ! i), acc_data = Some (snd (as ! i))\<rparr>"
    using r(4) by (auto simp: tm_at_def)
  obtain m2 where c: "cleanup_rows S ?rc tm1 (length as) m1 = Inr m2" "rows_good dinv drow sz m2" "txn_at ?me [] m2"
    "drow (mi_db m2) = (if ?rc = RCOK then drow (mi_db m1) ++ map_of (writes m1 as) else drow (mi_db m1))"
    "mi_txns m2 = mi_txns m1" "aged_rows ?ts m1 m2"
    using cleanup_alone [OF at(1,2) r(5) acc(1,4) v, of ?rc] at(3) by (cases ok) auto
  have run: "run_accesses S sz qs tm m = Inr (?rc, tm1\<lparr>row_cnt := 0, wr_cnt := 0\<rparr>, m2)"
    using r(1) c(1) acc(2) by (simp add: run_accesses_def finish_def cleanup_def)
  have "drow (mi_db m2) = (if ?rc = RCOK then apply_query sz ?ts qs (drow (mi_db m)) else drow (mi_db m))"
    using c(4) r(3,8) writes_of_requests [OF _ vals, of qs] by (auto simp: apply_query_def)
  then show ?thesis
    by (intro that [OF run])
      (use c r acc(3) at(3) aged_rows_trans [OF r(7) c(6)] in \<open>auto simp: no_txn_def txn_at_def tm_ready_def get_ts_def\<close>)
qed

end

section \<open>The page locks around a transaction\<close>

definition locks_quiet :: "u64 \<Rightarrow> lock_table \<Rightarrow> bool" where
  "locks_quiet thd t \<longleftrightarrow> (\<forall>p n. t p = Some n \<longrightarrow> \<not> invalid_req n \<and> thd \<notin> thread_set n)"

definition registered :: "u64 \<Rightarrow> u64 set \<Rightarrow> lock_table \<Rightarrow> lock_table" where
  "registered thd ps t = (\<lambda>p. if p \<in> ps then map_option (AddThread_node thd) (t p) else t p)"

definition owned :: "u64 set \<Rightarrow> lock_table \<Rightarrow> bool" where
  "owned ps t \<longleftrightarrow> (\<forall>p \<in> ps. \<exists>n. t p = Some n \<and> node_ok n \<and> lock_mode n = LM_P)"

lemma AddThread_mode [simp]: "lock_mode (AddThread_node thd n) = lock_mode n"
  by (simp add: AddThread_node_def)

lemma registered_insert: "registered thd (insert p ps) t = registered thd ps (registered thd {p} t)" if "p \<notin> ps"
  using that by (auto simp: registered_def fun_eq_iff option.map_comp)

lemma has_invalid_req_quiet: "owned (set ps) t \<Longrightarrow> locks_quiet thd t \<Longrightarrow> has_invalid_req ps t = Inr False"
  by (induction ps) (auto simp: owned_def locks_quiet_def node_at_def)

lemma obtain_pages_owned: "owned (set ps) (db_locks d) \<Longrightarrow> obtain_pages D remote stk ps d w = Inr (RCOK, d, w)"
  by (induction ps) (auto simp: owned_def obtain_page_def node_at_def)

lemma register_pages_ok:
  "owned (set ps) (db_locks d) \<Longrightarrow> distinct ps \<Longrightarrow>
   register_pages thd ps d = Inr (d\<lparr>db_locks := registered thd (set ps) (db_locks d)\<rparr>)"
proof (induction ps arbitrary: d)
  case (Cons p ps)
  obtain n where n: "db_locks d p = Some n" "node_ok n" "lock_mode n = LM_P" using Cons.prems(1) by (auto simp: owned_def)
  let ?d = "d\<lparr>db_locks := registered thd {p} (db_locks d)\<rparr>"
  have "(db_locks d)(p \<mapsto> AddThread_node thd n) = registered thd {p} (db_locks d)" using n(1) by (auto simp: registered_def)
  then have "register_page thd p d = Inr ?d"
    using n by (simp add: register_page_def node_at_def LockTable_AddThread_def with_node_def)
  moreover have "owned (set ps) (db_locks ?d)" using Cons.prems by (auto simp: owned_def registered_def)
  ultimately show ?case using Cons registered_insert [of p "set ps" thd] by simp
qed (simp add: registered_def)

lemma Remove_Add:
  assumes "node_ok n" and "lock_mode n = LM_P" and "thd \<notin> thread_set n"
  shows "RemoveThread_node thd (AddThread_node thd n) = Inr n"
proof -
  have "thread_count n \<ge> 0" using assms(1) by (simp add: node_ok_def)
  then show ?thesis using assms by (simp add: RemoveThread_node_def AddThread_node_def asserting_def)
qed

lemma unregister_pages_ok:
  "owned (set ps) t \<Longrightarrow> locks_quiet thd t \<Longrightarrow> distinct ps \<Longrightarrow> db_locks d = registered thd (set ps) t \<Longrightarrow>
   unregister_pages thd ps d = Inr (d\<lparr>db_locks := t\<rparr>)"
proof (induction ps arbitrary: d)
  case (Cons p ps)
  obtain n where n: "t p = Some n" "node_ok n" "lock_mode n = LM_P" using Cons.prems(1) by (auto simp: owned_def)
  have np: "db_locks d p = Some (AddThread_node thd n)" using Cons.prems(4) n(1) by (simp add: registered_def)
  have "(db_locks d)(p \<mapsto> n) = registered thd (set ps) t" using Cons.prems(3,4) n(1) by (auto simp: registered_def)
  moreover have "RemoveThread_node thd (AddThread_node thd n) = Inr n"
    by (rule Remove_Add [OF n(2,3)]) (use Cons.prems(2) n(1) in \<open>simp add: locks_quiet_def\<close>)
  ultimately have "LockTable_RemoveThread p thd (db_locks d) = Inr (True, registered thd (set ps) t)"
    using np by (simp add: LockTable_RemoveThread_def with_node_def)
  then show ?case using Cons by (auto simp: owned_def)
qed (auto simp: registered_def)

lemma GetQueryWritePageSet_image:
  "GetQueryWritePageSet it0 qs idx = (\<lambda>q. item_page_id (snd (IndexGet (rkey q) it0 idx))) ` {q \<in> set qs. rtype q = WR}"
proof -
  have "foldl (\<lambda>pages q. let it = snd (IndexGet (rkey q) it0 idx) in if rtype q = WR then insert (item_page_id it) pages else pages) A qs =
    A \<union> (\<lambda>q. item_page_id (snd (IndexGet (rkey q) it0 idx))) ` {q \<in> set qs. rtype q = WR}" for A
    by (induction qs arbitrary: A) (auto simp: Let_def)
  then show ?thesis by (simp add: GetQueryWritePageSet_def)
qed

lemma inst_ok_registered:
  "inst_ok dinv dpage sz d \<Longrightarrow> inst_ok dinv dpage sz (d\<lparr>db_locks := registered thd ps (db_locks d)\<rparr>)"
  by (fastforce simp: inst_ok_def registered_def node_ok_AddThread)

text \<open>Other locks on the same pages leave the rows and their histories as they are.\<close>

lemma rows_good_db:
  assumes "rows_good (inst_at dinv dpage sz t idx) (drow_of dpage sz) sz m" and "inst_at dinv dpage sz t' idx d"
    and "drow_of dpage sz d = drow_of dpage sz (mi_db m)"
  shows "rows_good (inst_at dinv dpage sz t' idx) (drow_of dpage sz) sz (m\<lparr>mi_db := d\<rparr>)"
proof -
  have "row_st (m\<lparr>mi_db := d\<rparr>) k = (row_st m k)\<lparr>mdb := d\<rparr>" for k by (simp add: row_st_def attach_def)
  then show ?thesis
    using assms by (auto simp: rows_good_def row_good_def val_ok_def mvcc_inv_def pend_ok_def pending_after_def idle_def)
qed

lemma row_st_db [simp]:
  "exists_prewrite (row_st (m\<lparr>mi_db := d\<rparr>) k) = exists_prewrite (row_st m k)"
  "latest_wts (row_st (m\<lparr>mi_db := d\<rparr>) k) = latest_wts (row_st m k)"
  "max_served_rts (row_st (m\<lparr>mi_db := d\<rparr>) k) = max_served_rts (row_st m k)"
  by (simp_all add: row_st_def attach_def)

lemma stamp_valid: "row_valid sz k c \<Longrightarrow> 16 \<le> sz \<Longrightarrow> row_valid sz k (stamp n sz ts c)"
  by (auto simp: row_valid_def stamp_def)

lemma drow_valid:
  assumes "inst_ok dinv dpage sz d" and "drow_of dpage sz d k = Some c"
  shows "row_valid sz k c"
proof -
  obtain it where it: "db_index d k = Some it" using assms(2) by (auto simp: drow_of_def split: option.splits)
  then obtain b where "bview dpage (db_buffer d) (item_page_id it) = Some b" "row_valid sz k (row_at sz it b)"
    using assms(1) by (auto simp: inst_ok_def)
  then show ?thesis using assms(2) it by (simp add: drow_of_def)
qed

section \<open>Property\<close>

text \<open>An instance without active transactions, its page locks and index being \<open>t\<close> and \<open>idx\<close>.\<close>

definition at_rest ::
  "('d \<Rightarrow> bool) \<Rightarrow> ('d \<Rightarrow> u64 \<Rightarrow> bytes option) \<Rightarrow> nat \<Rightarrow> lock_table \<Rightarrow> index_map \<Rightarrow> txn_man \<Rightarrow> 'd inst_db manager \<Rightarrow> bool" where
  "at_rest dinv dpage sz t idx tm m \<longleftrightarrow>
     rows_good (inst_at dinv dpage sz t idx) (drow_of dpage sz) sz m \<and> no_txn m \<and> tm_ready tm \<and> locks_quiet (of_nat (tm_thd tm)) t"

context page_disk
begin

lemma run_txn_alone:
  assumes rest: "at_rest dinv dpage sz t idx tm m" and L: "length (l_buf L) = MY_PAGE_SIZE" and sz: "16 \<le> sz"
    and qs: "query_fits qs m" and ts: "get_ts tm m < UINT64_MAX" "unused (get_ts tm m) {} m"
  obtains rc tm' m' where "run_txn D L remote stk sz qs tm m w = Inr (rc, tm', m', w)" and "rc = RCOK \<or> rc = Abort"
    and "at_rest dinv dpage sz t idx tm' m'"
    and "drow_of dpage sz (mi_db m') =
      (if rc = RCOK then apply_query sz (get_ts tm m) qs (drow_of dpage sz (mi_db m)) else drow_of dpage sz (mi_db m))"
    and "newest (get_ts tm m) {} m \<longrightarrow> rc = RCOK" and "aged_rows (get_ts tm m) m m'"
    and "tm_thd tm' = tm_thd tm" and "tm_me tm' = tm_me tm"
proof -
  let ?d = "mi_db m" and ?thd = "of_nat (tm_thd tm) :: u64"
  let ?ps = "GetQueryWritePageSet (l_item L) qs (db_index (mi_db m))"
  let ?l = "sorted_list_of_set ?ps" and ?t = "registered (of_nat (tm_thd tm)) (GetQueryWritePageSet (l_item L) qs (db_index (mi_db m))) t"
  have G: "rows_good (inst_at dinv dpage sz t idx) (drow_of dpage sz) sz m" and free: "no_txn m" and tm: "tm_ready tm"
    and quiet: "locks_quiet ?thd t" using rest by (simp_all add: at_rest_def)
  have ia: "inst_at dinv dpage sz t idx ?d" using G by (simp add: rows_good_def)
  then have ok: "inst_ok dinv dpage sz ?d" and lk: "db_locks ?d = t" "db_index ?d = idx" by (simp_all add: inst_at_def)
  have "idx (rkey q) \<noteq> None" if "q \<in> set qs" for q
  proof -
    have "row_good (inst_at dinv dpage sz t idx) (drow_of dpage sz) sz (unat (rkey q)) (row_st m (unat (rkey q)))"
      using G qs that by (auto simp: rows_good_def query_fits_def req_fits_def)
    then show ?thesis using lk(2) by (auto simp: row_good_def val_ok_def drow_of_def split: option.splits)
  qed
  then have own: "owned ?ps t"
    using ok lk unfolding owned_def GetQueryWritePageSet_image inst_ok_def by (fastforce simp: IndexGet_Some)
  have fin: "finite ?ps" by (simp add: GetQueryWritePageSet_image)
  have set: "set ?l = ?ps" "distinct ?l" using fin by simp_all
  let ?d1 = "?d\<lparr>db_locks := ?t\<rparr>"
  have lock: "GetWritePageLock D remote stk ?ps ?thd ?d w = Inr (RCOK, ?d1, w)"
    using has_invalid_req_quiet [of ?l t ?thd] obtain_pages_owned [of ?l ?d D remote stk w] register_pages_ok [of ?l ?d ?thd] own quiet lk(1) set
    by (simp add: GetWritePageLock_def Let_def)
  have i1: "inst_at dinv dpage sz ?t idx ?d1" using inst_ok_registered [OF ok] lk by (simp add: inst_at_def)
  have r1: "drow_of dpage sz ?d1 = drow_of dpage sz ?d" by (simp add: drow_of_def fun_eq_iff split: option.splits)
  let ?m1 = "m\<lparr>mi_db := ?d1\<rparr>"
  have pre: "rows_good (inst_at dinv dpage sz ?t idx) (drow_of dpage sz) sz ?m1" "no_txn ?m1" "query_fits qs ?m1"
    "get_ts tm ?m1 < UINT64_MAX" "unused (get_ts tm ?m1) {} ?m1"
    using rows_good_db [OF G i1 r1] free qs ts by (simp_all add: no_txn_def query_fits_def req_fits_def get_ts_def unused_def)
  have V: "row_valid sz k (stamp (length qs) sz (get_ts tm ?m1) c)" if "drow_of dpage sz (mi_db ?m1) k = Some c" for k c
    using stamp_valid [OF drow_valid [OF ok] sz] that r1 by simp
  obtain rc tm' m2 where a: "run_accesses (handler_store D L) sz qs tm ?m1 = Inr (rc, tm', m2)" "rc = RCOK \<or> rc = Abort"
    "rows_good (inst_at dinv dpage sz ?t idx) (drow_of dpage sz) sz m2" "no_txn m2" "tm_ready tm'" "tm_thd tm' = tm_thd tm" "tm_me tm' = tm_me tm"
    "drow_of dpage sz (mi_db m2) = (if rc = RCOK then apply_query sz (get_ts tm ?m1) qs (drow_of dpage sz (mi_db ?m1)) else drow_of dpage sz (mi_db ?m1))"
    "newest (get_ts tm ?m1) {} ?m1 \<longrightarrow> rc = RCOK" "get_ts tm' m2 = get_ts tm ?m1" "aged_rows (get_ts tm ?m1) ?m1 m2"
    using row_storage.run_accesses_alone [OF handler_row_storage [OF L] pre(1,2) tm sz pre(3,4,5) V] by metis
  have i2: "inst_at dinv dpage sz ?t idx (mi_db m2)" using a(3) by (simp add: rows_good_def)
  let ?d3 = "(mi_db m2)\<lparr>db_locks := t\<rparr>"
  have un: "unregister_pages ?thd ?l (mi_db m2) = Inr ?d3"
    using unregister_pages_ok [of ?l t ?thd "mi_db m2"] own quiet set i2 by (simp add: inst_at_def)
  have run: "run_txn D L remote stk sz qs tm m w = Inr (rc, tm', m2\<lparr>mi_db := ?d3\<rparr>, w)"
    using lock a(1) un by (simp add: run_txn_def Let_def)
  have i3: "inst_at dinv dpage sz t idx ?d3"
    using i2 ok lk by (fastforce simp: inst_at_def inst_ok_def)
  have r3: "drow_of dpage sz ?d3 = drow_of dpage sz (mi_db m2)" by (simp add: drow_of_def fun_eq_iff split: option.splits)
  have "at_rest dinv dpage sz t idx tm' (m2\<lparr>mi_db := ?d3\<rparr>)"
    using rows_good_db [OF a(3) i3 r3] a(4,5,6) quiet by (simp add: at_rest_def no_txn_def)
  then show ?thesis
    by (rule that [OF run a(2)]) (use a(6,7,8,9,11) r1 r3 in \<open>auto simp: get_ts_def newest_def\<close>)
qed

end

text \<open>An instance is at rest after \<open>InitMvccs\<close>.\<close>

lemma init_at_rest:
  assumes "InitMvccs pts pid jk tx sz n = Inr (mi_mvccs m)" and "\<And>k j. length (jk k j) = sz"
    and "inst_at dinv dpage sz t idx (mi_db m)" and "\<forall>k < unat n. \<exists>c. drow_of dpage sz (mi_db m) (of_nat k) = Some c"
    and "tm_ready tm" and "locks_quiet (of_nat (tm_thd tm)) t"
  shows "at_rest dinv dpage sz t idx tm m" and "length (mi_mvccs m) = unat n"
    and "k < unat n \<Longrightarrow> latest_wts (row_st m k) = 0 \<and> max_served_rts (row_st m k) = 0"
proof -
  have ms: "mi_mvccs m = map (\<lambda>k. mvcc_init (of_nat k) sz (pts k) (pid k) (jk k) tx [] ()) [0..<unat n]"
    and n: "unat n \<le> SYNTH_TABLE_SIZE" using assms(1) by (auto simp: InitMvccs_def split: if_splits)
  have st: "row_st m k = mvcc_init (of_nat k) sz (pts k) (pid k) (jk k) (mi_txns m) (mi_all_ts m) (mi_db m)" if "k < unat n" for k
    using that by (simp add: row_st_def ms attach_def mvcc_init_def)
  have good: "row_good (inst_at dinv dpage sz t idx) (drow_of dpage sz) sz k (row_st m k) \<and> \<not> exists_prewrite (row_st m k)"
    if k: "k < unat n" for k
  proof -
    obtain c where c: "drow_of dpage sz (mi_db m) (of_nat k) = Some c" using assms(4) k by blast
    have "length c = sz" using drow_valid [OF _ c, of dinv] assms(3) by (simp add: inst_at_def row_valid_def)
    moreover have "mvcc_inv (row_st m k)" unfolding st [OF k] by (rule mvcc_inv_init) (simp add: assms(2))
    ultimately show ?thesis
      using c assms(3) k by (auto simp: row_good_def st val_ok_def mvcc_init_def idle_def req_empty_def)
  qed
  then show "at_rest dinv dpage sz t idx tm m"
    using assms(3,5,6) n by (simp add: at_rest_def rows_good_def no_txn_def ms SYNTH_TABLE_SIZE_def)
  show "length (mi_mvccs m) = unat n" by (simp add: ms)
  show "latest_wts (row_st m k) = 0 \<and> max_served_rts (row_st m k) = 0" if "k < unat n"
    using that by (simp add: st mvcc_init_def)
qed

text \<open>
  C3: transactions are atomic. An instance over \<open>FileIO\<close> that owns its pages and has no other
  transaction active runs a query of reads and writes of different rows: \<open>run_txn\<close> returns, with
  \<open>RCOK\<close> or \<open>Abort\<close>. After \<open>RCOK\<close> every written row has the transaction's timestamp in its last
  eight bytes (rows of a query with a single request are left as they are) and no other row has
  changed; after \<open>Abort\<close> no row has changed. In both cases the page locks are as before, no
  reservation is left and the histories are well formed, so the next transaction can run. With a
  timestamp newer than every version and reader the result is \<open>RCOK\<close>.
\<close>

theorem run_txn_atomic:
  assumes "posix_laws P content fdpath" and "at_rest (file_inv fdpath) (file_page content) sz t idx tm m"
    and "length (l_buf L) = MY_PAGE_SIZE" and "16 \<le> sz" and "query_fits qs m"
    and "get_ts tm m < UINT64_MAX" and "unused (get_ts tm m) {} m"
  shows "\<exists>rc tm' m'. run_txn (file_disk P) L remote stk sz qs tm m w = Inr (rc, tm', m', w) \<and>
    (rc = RCOK \<or> rc = Abort) \<and> at_rest (file_inv fdpath) (file_page content) sz t idx tm' m' \<and>
    drow_of (file_page content) sz (mi_db m') =
      (if rc = RCOK then apply_query sz (get_ts tm m) qs (drow_of (file_page content) sz (mi_db m))
       else drow_of (file_page content) sz (mi_db m)) \<and>
    (newest (get_ts tm m) {} m \<longrightarrow> rc = RCOK)"
  using page_disk.run_txn_alone [OF file_page_disk [OF assms(1)] assms(2-7)] by metis

text \<open>Two rows on one page; a transaction with timestamp 9 that reads the one and writes the other.\<close>

definition demo2_page :: bytes where
  "demo2_page = enc64 0 @ replicate 24 0 @ (enc64 0 @ enc64 5) @ (enc64 1 @ enc64 6) @ replicate (MY_PAGE_SIZE - 64) 0"

definition demo2_idx :: index_map where
  "demo2_idx = [0 \<mapsto> \<lparr>item_page_id = 0, item_location = 32\<rparr>, 1 \<mapsto> \<lparr>item_page_id = 0, item_location = 48\<rparr>]"

definition demo2_query :: "ycsb_request list" where
  "demo2_query = [\<lparr>rtype = RD, rkey = 0, rvalue = 0, scan_len = 0\<rparr>, \<lparr>rtype = WR, rkey = 1, rvalue = 0, scan_len = 0\<rparr>]"

lemma demo2_rows:
  "page_ok 0 demo2_page" "layout_ok 16 demo2_idx"
  "row_at 16 \<lparr>item_page_id = 0, item_location = 32\<rparr> demo2_page = enc64 0 @ enc64 5"
  "row_at 16 \<lparr>item_page_id = 0, item_location = 48\<rparr> demo2_page = enc64 1 @ enc64 6"
  by (auto simp: demo2_page_def page_ok_def row_at_def demo2_idx_def layout_ok_def MY_PAGE_SIZE_def split: if_splits)

theorem run_txn_atomic_witness:
  "\<exists>tm m tm' m'. run_txn (file_disk mem_posix) zero_locals (\<lambda>_ _ _. Inl Blocked) [] 16 demo2_query tm m () = Inr (RCOK, tm', m', ()) \<and>
     drow_of (file_page mem_files) 16 (mi_db m') 0 = Some (enc64 0 @ enc64 5) \<and>
     drow_of (file_page mem_files) 16 (mi_db m') 1 = Some (enc64 1 @ enc64 9)"
proof -
  let ?inv = "file_inv mem_fdpath" and ?page = "file_page mem_files"
  have rows: "\<forall>k it. demo2_idx k = Some it \<longrightarrow> item_page_id it = 0 \<and> row_valid 16 k (row_at 16 it demo2_page)"
    using demo2_rows by (auto simp: demo2_idx_def row_valid_def split: if_splits)
  obtain d where d: "inst_ok ?inv ?page 16 d" "\<And>k it. demo2_idx k = Some it \<Longrightarrow> drow_of ?page 16 d k = Some (row_at 16 it demo2_page)"
    "db_index d = demo2_idx" "db_locks d = [0 \<mapsto> (LockNode_new 0)\<lparr>lock_mode := LM_P\<rparr>]"
    by (rule page_disk.inst_example [OF file_page_disk [OF mem_posix_laws] mem_world0_inv demo2_rows(1,2) rows]) blast
  have r: "drow_of ?page 16 d 0 = Some (enc64 0 @ enc64 5)" "drow_of ?page 16 d 1 = Some (enc64 1 @ enc64 6)"
    using d(2) [of 0] d(2) [of 1] demo2_rows(3,4) by (simp_all add: demo2_idx_def)
  let ?tx = "\<lambda>_. \<lparr>txn_ts = 9, cur_row = None, ts_ready = False\<rparr>"
  let ?ms = "map (\<lambda>k. mvcc_init (of_nat k) 16 0 0 (\<lambda>_. replicate 16 0) ?tx [] ()) [0..<2]"
  let ?m = "\<lparr>mi_instance_id = 0, mi_init_done = False, mi_timestamp = 1, mi_all_ts = [], mi_txn_man = [], mi_queries = [],
    mi_mvccs = ?ms, mi_txns = ?tx, mi_db = d\<rparr>"
  let ?tm = "txn_init 0 \<lparr>tm_me = 0, tm_thd = 0, txn_id = 0, row_cnt = 0, wr_cnt = 0, accesses = [], num_accesses_alloc = 0,
    abort_cnt = 0, ycsb_row_cnt = 0\<rparr>"
  have init: "InitMvccs (\<lambda>_. 0) (\<lambda>_. 0) (\<lambda>_ _. replicate 16 0) ?tx 16 2 = Inr (mi_mvccs ?m)"
    by (simp add: InitMvccs_def SYNTH_TABLE_SIZE_def)
  have pre: "inst_at ?inv ?page 16 (db_locks d) demo2_idx (mi_db ?m)"
    "\<forall>k < unat (2 :: u64). \<exists>c. drow_of ?page 16 (mi_db ?m) (of_nat k) = Some c" "tm_ready ?tm" "locks_quiet (of_nat (tm_thd ?tm)) (db_locks d)"
    using d r by (auto simp: inst_at_def less_2_cases_iff tm_ready_def txn_init_def locks_quiet_def LockNode_new_def)
  note rest = init_at_rest [OF init _ pre]
  have fits: "query_fits demo2_query ?m" by (simp add: query_fits_def demo2_query_def req_fits_def MAX_ROW_PER_TXN_def)
  have ts: "get_ts ?tm ?m = 9" "unused 9 {} ?m" "newest 9 {} ?m"
    using rest(3) by (auto simp: get_ts_def unused_def newest_def)
  obtain tm' m' where "run_txn (file_disk mem_posix) zero_locals (\<lambda>_ _ _. Inl Blocked) [] 16 demo2_query ?tm ?m () = Inr (RCOK, tm', m', ())"
    "drow_of ?page 16 (mi_db m') = apply_query 16 9 demo2_query (drow_of ?page 16 d)"
    using run_txn_atomic [OF mem_posix_laws rest(1) zero_locals_buf _ fits, where remote = "\<lambda>_ _ _. Inl Blocked" and stk = "[]" and w = "()"] ts
    by auto
  then show ?thesis using r by (fastforce simp: apply_query_def demo2_query_def stamp_def)
qed

end
