(* ===== verification/Thread.thy ===== *)
theory Thread
  imports Txn
begin

text \<open>
  \<open>instance/thread.cpp\<close>: the loop of a worker thread. It takes queries from its queue, runs them as
  transactions, and keeps aborted ones in a buffer to run them again later, until it has committed
  \<open>MAX_TXN_PER_PART\<close> of them. The clock, \<open>usleep\<close>, the random numbers, the queue and the
  transactions act on a state of type \<open>'s\<close>.
\<close>

section \<open>State\<close>

record 'q abort_entry =
  ready_time :: u64
  ab_query :: "'q option"

record 'q thread =
  thd_id :: nat
  host_cid :: u64
  cur_cid :: u64
  abort_buffer :: "'q abort_entry list"
  abort_buffer_empty_slots :: int
  abort_buffer_enable :: bool

definition ABORT_PENALTY :: nat where
  "ABORT_PENALTY = 100000"

text \<open>\<open>init\<close>; the memory is zeroed when it is allocated, \<open>en\<close> is the command line parameter.\<close>

definition thread_init :: "nat \<Rightarrow> bool \<Rightarrow> 'q thread \<Rightarrow> 'q thread" where
  "thread_init i en t = t\<lparr>thd_id := i, abort_buffer := replicate ABORT_BUFFER_SIZE \<lparr>ready_time = 0, ab_query = None\<rparr>,
     abort_buffer_empty_slots := int ABORT_BUFFER_SIZE, abort_buffer_enable := en\<rparr>"

definition set_host_cid :: "u64 \<Rightarrow> 'q thread \<Rightarrow> 'q thread" where
  "set_host_cid c t = t\<lparr>host_cid := c\<rparr>"

definition set_cur_cid :: "u64 \<Rightarrow> 'q thread \<Rightarrow> 'q thread" where
  "set_cur_cid c t = t\<lparr>cur_cid := c\<rparr>"

text \<open>
  What the loop calls: \<open>begin_txn id\<close> is the part between the choice of a query and its execution
  (identifier, timestamp), \<open>exec\<close> is \<open>run_txn\<close>.
\<close>

record ('q, 's) thread_ops =
  clock :: "'s \<Rightarrow> u64 \<times> 's"
  usleep :: "u64 \<Rightarrow> 's \<Rightarrow> 's"
  rand :: "'s \<Rightarrow> real \<times> 's"
  next_query :: "'s \<Rightarrow> ('q \<times> 's) res"
  begin_txn :: "u64 \<Rightarrow> 's \<Rightarrow> 's res"
  exec :: "'q \<Rightarrow> 's \<Rightarrow> (RC \<times> 's) res"

section \<open>Choosing a query\<close>

text \<open>
  The search in the abort buffer: the first query whose time has come, and the earliest time among
  the entries before it, which is kept only if the buffer is full.
\<close>

fun scan_aborted :: "u64 \<Rightarrow> bool \<Rightarrow> 'q abort_entry list \<Rightarrow> nat \<Rightarrow> u64 \<Rightarrow> (nat \<times> 'q) option \<times> u64" where
  "scan_aborted now full [] i mn = (None, mn)"
| "scan_aborted now full (e # es) i mn =
     (case ab_query e of
        Some q \<Rightarrow>
          if now > ready_time e then (Some (i, q), mn)
          else scan_aborted now full es (Suc i) (if full \<and> ready_time e < mn then ready_time e else mn)
      | None \<Rightarrow> scan_aborted now full es (Suc i) (if full \<and> ready_time e < mn then ready_time e else mn))"

text \<open>The inner loop; it ends when a query is found.\<close>

partial_function (option) choose_query ::
  "('q, 's) thread_ops \<Rightarrow> 'q thread \<Rightarrow> 's \<Rightarrow> ('q \<times> 'q thread \<times> 's) res option" where
  "choose_query ops t s =
     (case clock ops s of (now, s1) \<Rightarrow>
      case (if abort_buffer_empty_slots t < int ABORT_BUFFER_SIZE
            then scan_aborted now (abort_buffer_empty_slots t = 0) (abort_buffer t) 0 UINT64_MAX
            else (None, UINT64_MAX)) of (found, mn) \<Rightarrow>
      (case found of
         Some (i, q) \<Rightarrow>
           Some (Inr (q, t\<lparr>abort_buffer := (abort_buffer t)[i := (abort_buffer t ! i)\<lparr>ab_query := None\<rparr>],
                           abort_buffer_empty_slots := abort_buffer_empty_slots t + 1\<rparr>, s1))
       | None \<Rightarrow>
           if abort_buffer_empty_slots t = 0
           then if mn \<ge> now then choose_query ops t (usleep ops ((mn - now) div 1000) s1)
                else Some (Inl Assert_Fail)
           else Some (rbind (next_query ops s1) (\<lambda>(q, s2). Inr (q, t, s2)))))"

section \<open>One round\<close>

record 'q loop_state =
  l_rc :: RC
  l_query :: "'q option"
  thd_txn_id :: u64
  txn_cnt :: nat

text \<open>The choice of the query, with and without the abort buffer.\<close>

definition pick_query ::
  "('q, 's) thread_ops \<Rightarrow> 'q loop_state \<Rightarrow> 'q thread \<Rightarrow> 's \<Rightarrow> ('q option \<times> 'q thread \<times> 's) res option" where
  "pick_query ops l t s =
     (if abort_buffer_enable t
      then map_option (\<lambda>r. rbind r (\<lambda>(q, t1, s1). Inr (Some q, t1, s1))) (choose_query ops t s)
      else if l_rc l = RCOK
      then Some (rbind (next_query ops s) (\<lambda>(q, s1). Inr (Some q, t, s1)))
      else Some (Inr (l_query l, t, s)))"

text \<open>The first empty slot of the abort buffer.\<close>

fun empty_slot :: "'q abort_entry list \<Rightarrow> nat \<Rightarrow> nat option" where
  "empty_slot [] i = None"
| "empty_slot (e # es) i = (if ab_query e = None then Some i else empty_slot es (Suc i))"

definition put_aborted ::
  "('q, 's) thread_ops \<Rightarrow> 'q \<Rightarrow> 'q thread \<Rightarrow> 's \<Rightarrow> ('q thread \<times> 's) res" where
  "put_aborted ops q t s =
     (case rand ops s of (r, s1) \<Rightarrow>
      let penalty = of_nat (nat \<lfloor>r * real ABORT_PENALTY\<rfloor>) :: u64 in
      if \<not> abort_buffer_enable t then Inr (t, usleep ops (penalty div 1000) s1)
      else asserting (abort_buffer_empty_slots t > 0)
            (case empty_slot (abort_buffer t) 0 of
               None \<Rightarrow> Inr (t, s1)
             | Some i \<Rightarrow>
                 (case clock ops s1 of (now, s2) \<Rightarrow>
                  Inr (t\<lparr>abort_buffer := (abort_buffer t)[i := \<lparr>ready_time = now + penalty, ab_query = Some q\<rparr>],
                         abort_buffer_empty_slots := abort_buffer_empty_slots t - 1\<rparr>, s2))))"

text \<open>A round from the chosen query on; \<open>True\<close> if the thread returns \<open>FINISH\<close>.\<close>

definition run_query ::
  "('q, 's) thread_ops \<Rightarrow> nat \<Rightarrow> bool \<Rightarrow> 'q \<Rightarrow> 'q loop_state \<Rightarrow> 'q thread \<Rightarrow> 's
   \<Rightarrow> (bool \<times> 'q loop_state \<times> 'q thread \<times> 's) res" where
  "run_query ops thread_cnt warmup_finish q l t s =
     rbind (begin_txn ops (of_nat (thd_id t) + thd_txn_id l * of_nat thread_cnt) s) (\<lambda>s1.
     rbind (exec ops q s1) (\<lambda>(rc, s2).
     rbind (if rc = Abort then put_aborted ops q t s2 else Inr (t, s2)) (\<lambda>(t1, s3).
     let cnt = (if rc = RCOK then txn_cnt l + 1 else txn_cnt l);
         l1 = \<lparr>l_rc = rc, l_query = Some q, thd_txn_id = thd_txn_id l + 1, txn_cnt = cnt\<rparr> in
     if warmup_finish \<and> cnt \<ge> MAX_TXN_PER_PART
     then asserting (cnt = MAX_TXN_PER_PART) (Inr (True, l1, t1, s3))
     else Inr (False, l1, t1, s3))))"

text \<open>Without an abort buffer the first round could find no query (it never does: \<open>rc\<close> starts as \<open>RCOK\<close>).\<close>

definition thread_round ::
  "('q, 's) thread_ops \<Rightarrow> nat \<Rightarrow> bool \<Rightarrow> 'q loop_state \<times> 'q thread \<times> 's
   \<Rightarrow> (bool \<times> 'q loop_state \<times> 'q thread \<times> 's) res option" where
  "thread_round ops thread_cnt warm x =
     (case x of (l, t, s) \<Rightarrow>
      map_option (\<lambda>r. rbind r (\<lambda>(q, t1, s1).
        case q of
          None \<Rightarrow> Inl Bad_Deref
        | Some q' \<Rightarrow> run_query ops thread_cnt warm q' (l\<lparr>l_query := q\<rparr>) t1 s1)) (pick_query ops l t s))"

section \<open>The loop\<close>

partial_function (option) thread_loop ::
  "('q, 's) thread_ops \<Rightarrow> nat \<Rightarrow> bool \<Rightarrow> 'q loop_state \<times> 'q thread \<times> 's \<Rightarrow> (RC \<times> 'q loop_state \<times> 'q thread \<times> 's) res option" where
  "thread_loop ops thread_cnt warm x =
     (case thread_round ops thread_cnt warm x of
        None \<Rightarrow> None
      | Some (Inl e) \<Rightarrow> Some (Inl e)
      | Some (Inr (fin, y)) \<Rightarrow> if fin then Some (Inr (FINISH, y)) else thread_loop ops thread_cnt warm y)"

definition loop_start :: "'q loop_state" where
  "loop_start = \<lparr>l_rc = RCOK, l_query = None, thd_txn_id = 0, txn_cnt = 0\<rparr>"

section \<open>The operations of an instance\<close>

text \<open>\<open>get_next_ts\<close> takes two timestamps and uses the second.\<close>

definition get_next_ts :: "nat \<Rightarrow> 'db manager \<Rightarrow> u64 \<times> 'db manager" where
  "get_next_ts thd m =
     (case Manager_GetNextTs (of_nat thd) m of (_, m1) \<Rightarrow> Manager_GetNextTs (of_nat thd) m1)"

text \<open>The state of a run: the instance, the thread's transaction object, the outside world.\<close>

definition inst_begin :: "u64 \<Rightarrow> 'db manager \<times> txn_man \<times> 'w \<Rightarrow> ('db manager \<times> txn_man \<times> 'w) res" where
  "inst_begin i x =
     (case x of (m, tm, w) \<Rightarrow>
      let tm1 = set_txn_id i (tm\<lparr>abort_cnt := 0\<rparr>) in
      case get_next_ts (tm_thd tm) m of (ts, m1) \<Rightarrow>
      let m2 = set_ts ts tm1 m1 in
      rbind (AddTs (tm_thd tm) (get_ts tm1 m2) m2) (\<lambda>m3. Inr (m3, tm1, w)))"

definition inst_next :: "nat \<Rightarrow> 'db manager \<times> txn_man \<times> 'w \<Rightarrow> (ycsb_request list \<times> 'db manager \<times> txn_man \<times> 'w) res" where
  "inst_next thd x =
     (case x of (m, tm, w) \<Rightarrow>
      rbind (Query_queue_get_next_query thd (mi_queries m)) (\<lambda>(q, qs). Inr (q, m\<lparr>mi_queries := qs\<rparr>, tm, w)))"

text \<open>After an abort the transaction object counts it.\<close>

definition inst_exec ::
  "'d disk_ops \<Rightarrow> locals \<Rightarrow> (u64 \<Rightarrow> bytes \<Rightarrow> 'w \<Rightarrow> (RC \<times> bytes \<times> 'w) res) \<Rightarrow> bytes \<Rightarrow> nat \<Rightarrow> ycsb_request list
   \<Rightarrow> 'd inst_db manager \<times> txn_man \<times> 'w \<Rightarrow> (RC \<times> 'd inst_db manager \<times> txn_man \<times> 'w) res" where
  "inst_exec D L remote stk sz q x =
     (case x of (m, tm, w) \<Rightarrow>
      rbind (run_txn D L remote stk sz q tm m w) (\<lambda>(rc, tm1, m1, w1).
      Inr (rc, m1, (if rc = Abort then tm1\<lparr>abort_cnt := abort_cnt tm1 + 1\<rparr> else tm1), w1)))"

definition inst_ops ::
  "('w \<Rightarrow> u64 \<times> 'w) \<Rightarrow> (u64 \<Rightarrow> 'w \<Rightarrow> 'w) \<Rightarrow> ('w \<Rightarrow> real \<times> 'w) \<Rightarrow> 'd disk_ops \<Rightarrow> locals
   \<Rightarrow> (u64 \<Rightarrow> bytes \<Rightarrow> 'w \<Rightarrow> (RC \<times> bytes \<times> 'w) res) \<Rightarrow> bytes \<Rightarrow> nat \<Rightarrow> nat
   \<Rightarrow> (ycsb_request list, 'd inst_db manager \<times> txn_man \<times> 'w) thread_ops" where
  "inst_ops clk slp rnd D L remote stk sz thd =
     \<lparr>clock = (\<lambda>(m, tm, w). case clk w of (t, w') \<Rightarrow> (t, m, tm, w')), usleep = (\<lambda>u (m, tm, w). (m, tm, slp u w)),
      rand = (\<lambda>(m, tm, w). case rnd w of (r, w') \<Rightarrow> (r, m, tm, w')), next_query = inst_next thd,
      begin_txn = inst_begin, exec = inst_exec D L remote stk sz\<rparr>"

text \<open>\<open>thread_t::run\<close>: the transaction object \<open>tm0\<close> is new, its place is \<open>tm_me tm0\<close>.\<close>

definition thread_run ::
  "('w \<Rightarrow> u64 \<times> 'w) \<Rightarrow> (u64 \<Rightarrow> 'w \<Rightarrow> 'w) \<Rightarrow> ('w \<Rightarrow> real \<times> 'w) \<Rightarrow> 'd disk_ops \<Rightarrow> locals
   \<Rightarrow> (u64 \<Rightarrow> bytes \<Rightarrow> 'w \<Rightarrow> (RC \<times> bytes \<times> 'w) res) \<Rightarrow> bytes \<Rightarrow> nat \<Rightarrow> nat \<Rightarrow> bool
   \<Rightarrow> ycsb_request list thread \<Rightarrow> txn_man \<Rightarrow> 'd inst_db manager \<Rightarrow> 'w
   \<Rightarrow> (RC \<times> ycsb_request list loop_state \<times> ycsb_request list thread \<times> 'd inst_db manager \<times> txn_man \<times> 'w) res option" where
  "thread_run clk slp rnd D L remote stk sz thread_cnt warm t tm0 m w =
     (case SetTxnMan (thd_id t) (Some (tm_me tm0)) m of
        Inl e \<Rightarrow> Some (Inl e)
      | Inr m1 \<Rightarrow>
          thread_loop (inst_ops clk slp rnd D L remote stk sz (thd_id t)) thread_cnt warm
            (loop_start, t, m1, txn_init (thd_id t) tm0, w))"

end
