(* ===== verification/Thread_Props.thy ===== *)
theory Thread_Props
  imports Thread "HOL-Library.Multiset"
begin

text \<open>
  The loop of a worker thread for arbitrary outcomes of its transactions: the abort buffer, the
  number of queries taken from the queue, and the end of the wait for an aborted query.
\<close>

section \<open>The abort buffer\<close>

definition stored :: "'q thread \<Rightarrow> 'q list" where
  "stored t = List.map_filter ab_query (abort_buffer t)"

definition buffer_ok :: "'q thread \<Rightarrow> bool" where
  "buffer_ok t \<longleftrightarrow> length (abort_buffer t) = ABORT_BUFFER_SIZE \<and> abort_buffer_enable t \<and>
     abort_buffer_empty_slots t = int ABORT_BUFFER_SIZE - int (length (stored t))"

lemma map_filter_update:
  "i < length es \<Longrightarrow> mset (List.map_filter ab_query (es[i := e])) + mset (List.map_filter ab_query [es ! i]) =
     mset (List.map_filter ab_query es) + mset (List.map_filter ab_query [e])"
  by (induction es arbitrary: i)
    (auto simp: List.map_filter_simps nth_Cons split: nat.splits option.splits)

lemma map_filter_length: "length (List.map_filter f xs) \<le> length xs"
  by (induction xs) (auto simp: List.map_filter_simps split: option.splits)

lemma stored_init [simp]: "stored (thread_init i en t) = []"
  by (simp add: stored_def thread_init_def List.map_filter_def)

lemma buffer_ok_init: "buffer_ok (thread_init i True t)"
  by (simp add: buffer_ok_def) (simp add: thread_init_def)

lemma scan_aborted_found:
  assumes "scan_aborted now full es k mn = (Some (i, q), mn')"
  shows "k \<le> i" and "i - k < length es" and "ab_query (es ! (i - k)) = Some q"
proof -
  have "k \<le> i \<and> i - k < length es \<and> ab_query (es ! (i - k)) = Some q"
    using assms
  proof (induction es arbitrary: k mn)
    case (Cons e es)
    show ?case
    proof (cases "\<exists>q'. ab_query e = Some q' \<and> now > ready_time e")
      case True
      then show ?thesis using Cons.prems by auto
    next
      case False
      then have "\<exists>mn1. scan_aborted now full es (Suc k) mn1 = (Some (i, q), mn')"
        using Cons.prems by (cases "ab_query e") auto
      then have "Suc k \<le> i \<and> i - Suc k < length es \<and> ab_query (es ! (i - Suc k)) = Some q" using Cons.IH by blast
      then show ?thesis by (auto simp: Suc_diff_Suc [symmetric] Suc_le_eq)
    qed
  qed simp
  then show "k \<le> i" and "i - k < length es" and "ab_query (es ! (i - k)) = Some q" by blast+
qed

lemma scan_aborted_none:
  assumes "scan_aborted now full es k mn = (None, mn')"
  shows "(\<forall>e \<in> set es. ab_query e \<noteq> None \<longrightarrow> now \<le> ready_time e) \<and> mn' \<le> mn \<and>
    (full \<longrightarrow> (\<forall>e \<in> set es. mn' \<le> ready_time e)) \<and> (mn' = mn \<or> (\<exists>e \<in> set es. mn' = ready_time e))"
  using assms
proof (induction es arbitrary: k mn)
  case (Cons e es)
  let ?mn = "if full \<and> ready_time e < mn then ready_time e else mn"
  have now: "ab_query e \<noteq> None \<longrightarrow> now \<le> ready_time e" and rest: "scan_aborted now full es (Suc k) ?mn = (None, mn')"
    using Cons.prems by (auto split: option.splits if_splits)
  note IH = Cons.IH [OF rest]
  have "mn' \<le> mn" using IH by (auto split: if_splits)
  moreover have "full \<longrightarrow> mn' \<le> ready_time e" using IH by (auto split: if_splits)
  moreover have "mn' = mn \<or> (\<exists>x \<in> set (e # es). mn' = ready_time x)" using IH by (auto split: if_splits)
  ultimately show ?case using IH now by auto
qed simp

text \<open>Taking a query out of the buffer.\<close>

lemma take_stored:
  assumes ok: "buffer_ok t" and i: "i < length (abort_buffer t)" "ab_query (abort_buffer t ! i) = Some q"
  defines "t' \<equiv> t\<lparr>abort_buffer := (abort_buffer t)[i := (abort_buffer t ! i)\<lparr>ab_query := None\<rparr>],
    abort_buffer_empty_slots := abort_buffer_empty_slots t + 1\<rparr>"
  shows "buffer_ok t'" and "mset (stored t) = mset (stored t') + {#q#}"
proof -
  show m: "mset (stored t) = mset (stored t') + {#q#}"
    using map_filter_update [OF i(1), of "(abort_buffer t ! i)\<lparr>ab_query := None\<rparr>"] i(2)
    by (simp add: stored_def t'_def List.map_filter_simps)
  then have "length (stored t) = length (stored t') + 1" by (metis size_mset size_union size_single)
  then show "buffer_ok t'" using ok by (simp add: buffer_ok_def t'_def)
qed

lemma empty_slot_Some:
  assumes "empty_slot es k = Some i"
  shows "k \<le> i \<and> i - k < length es \<and> ab_query (es ! (i - k)) = None"
  using assms
proof (induction es arbitrary: k)
  case (Cons e es)
  then show ?case by (auto simp: Suc_diff_Suc [symmetric] Suc_le_eq split: if_splits dest!: Cons.IH)
qed simp

lemma empty_slot_None: "empty_slot es k = None \<Longrightarrow> length (List.map_filter ab_query es) = length es"
  by (induction es arbitrary: k) (auto simp: List.map_filter_simps split: if_splits)

lemma map_filter_full: "length (List.map_filter f xs) = length xs \<Longrightarrow> x \<in> set xs \<Longrightarrow> f x \<noteq> None"
proof (induction xs)
  case (Cons a xs)
  have "length (List.map_filter f xs) \<le> length xs" by (rule map_filter_length)
  then show ?case using Cons by (auto simp: List.map_filter_simps split: option.splits)
qed simp

section \<open>What the loop relies on\<close>

text \<open>
  \<open>taken s\<close> and \<open>com s\<close> are the queries taken from the queue and those committed so far. The queue has
  \<open>n\<close> queries; a transaction commits or aborts.
\<close>

definition ops_ok :: "('q, 's) thread_ops \<Rightarrow> ('s \<Rightarrow> 'q list) \<Rightarrow> ('s \<Rightarrow> 'q list) \<Rightarrow> nat \<Rightarrow> bool" where
  "ops_ok ops taken com n \<longleftrightarrow>
     (\<forall>s. taken (snd (clock ops s)) = taken s \<and> com (snd (clock ops s)) = com s) \<and>
     (\<forall>u s. taken (usleep ops u s) = taken s \<and> com (usleep ops u s) = com s) \<and>
     (\<forall>s. taken (snd (rand ops s)) = taken s \<and> com (snd (rand ops s)) = com s) \<and>
     (\<forall>s. length (taken s) < n \<longrightarrow> (\<exists>q s'. next_query ops s = Inr (q, s') \<and> taken s' = taken s @ [q] \<and> com s' = com s)) \<and>
     (\<forall>i s. \<exists>s'. begin_txn ops i s = Inr s' \<and> taken s' = taken s \<and> com s' = com s) \<and>
     (\<forall>q s. \<exists>rc s'. exec ops q s = Inr (rc, s') \<and> taken s' = taken s \<and>
        (rc = RCOK \<and> com s' = com s @ [q] \<or> rc = Abort \<and> com s' = com s))"

lemma ops_okD:
  assumes "ops_ok ops taken com n"
  shows "clock ops s = (now, s1) \<Longrightarrow> taken s1 = taken s \<and> com s1 = com s"
    and "taken (usleep ops u s) = taken s \<and> com (usleep ops u s) = com s"
    and "rand ops s = (r, s1) \<Longrightarrow> taken s1 = taken s \<and> com s1 = com s"
    and "length (taken s) < n \<Longrightarrow> \<exists>q s'. next_query ops s = Inr (q, s') \<and> taken s' = taken s @ [q] \<and> com s' = com s"
    and "\<exists>s'. begin_txn ops i s = Inr s' \<and> taken s' = taken s \<and> com s' = com s"
    and "\<exists>rc s'. exec ops q s = Inr (rc, s') \<and> taken s' = taken s \<and>
        (rc = RCOK \<and> com s' = com s @ [q] \<or> rc = Abort \<and> com s' = com s)"
  using assms unfolding ops_ok_def by (metis snd_conv)+

definition chosen :: "('s \<Rightarrow> 'q list) \<Rightarrow> ('s \<Rightarrow> 'q list) \<Rightarrow> 'q thread \<Rightarrow> 's \<Rightarrow> 'q \<Rightarrow> 'q thread \<Rightarrow> 's \<Rightarrow> bool" where
  "chosen taken com t s q t' s' \<longleftrightarrow> buffer_ok t' \<and> com s' = com s \<and> length (stored t') < ABORT_BUFFER_SIZE \<and>
     mset (taken s') + mset (stored t) = mset (taken s) + mset (stored t') + {#q#} \<and>
     thd_id t' = thd_id t"

text \<open>One pass of the inner loop, the rest of the loop being \<open>f\<close>.\<close>

definition choose_pass where
  "choose_pass ops f t s =
     (case clock ops s of (now, s1) \<Rightarrow>
      case (if abort_buffer_empty_slots t < int ABORT_BUFFER_SIZE
            then scan_aborted now (abort_buffer_empty_slots t = 0) (abort_buffer t) 0 UINT64_MAX
            else (None, UINT64_MAX)) of (found, mn) \<Rightarrow>
      (case found of
         Some (i, q) \<Rightarrow>
           Some (Inr (q, t\<lparr>abort_buffer := (abort_buffer t)[i := (abort_buffer t ! i)\<lparr>ab_query := None\<rparr>],
                           abort_buffer_empty_slots := abort_buffer_empty_slots t + 1\<rparr>, s1))
       | None \<Rightarrow>
           if abort_buffer_empty_slots t = 0
           then if mn \<ge> now then f t (usleep ops ((mn - now) div 1000) s1)
                else Some (Inl Assert_Fail)
           else Some (rbind (next_query ops s1) (\<lambda>(q, s2). Inr (q, t, s2)))))"

lemma choose_query_pass: "choose_query ops t s = choose_pass ops (choose_query ops) t s"
  unfolding choose_pass_def by (rule choose_query.simps)

lemma choose_step:
  assumes ok: "ops_ok ops taken com n" and t: "buffer_ok t" and s: "length (taken s) < n"
  obtains (found) q t' s' where "choose_pass ops f t s = Some (Inr (q, t', s'))" and "chosen taken com t s q t' s'"
  | (again) now s1 mn where "clock ops s = (now, s1)" and "abort_buffer_empty_slots t = 0"
      and "choose_pass ops f t s = f t (usleep ops ((mn - now) div 1000) s1)"
      and "\<forall>e \<in> set (abort_buffer t). ab_query e \<noteq> None \<longrightarrow> now \<le> ready_time e"
proof -
  obtain now s1 where c: "clock ops s = (now, s1)" by fastforce
  have s1: "taken s1 = taken s" "com s1 = com s" using ops_okD(1) [OF ok c] by auto
  let ?full = "abort_buffer_empty_slots t = 0"
  obtain g mn where g: "(if abort_buffer_empty_slots t < int ABORT_BUFFER_SIZE
      then scan_aborted now ?full (abort_buffer t) 0 UINT64_MAX else (None, UINT64_MAX)) = (g, mn)"
    by fastforce
  have len: "length (abort_buffer t) = ABORT_BUFFER_SIZE" using t by (simp add: buffer_ok_def)
  show ?thesis
  proof (cases g)
    case (Some iq)
    obtain i q where iq: "iq = (i, q)" by fastforce
    have sc: "scan_aborted now ?full (abort_buffer t) 0 UINT64_MAX = (Some (i, q), mn)" using g Some iq by (auto split: if_splits)
    have i: "i < length (abort_buffer t)" "ab_query (abort_buffer t ! i) = Some q"
      using scan_aborted_found(2,3) [OF sc] by simp_all
    let ?t = "t\<lparr>abort_buffer := (abort_buffer t)[i := (abort_buffer t ! i)\<lparr>ab_query := None\<rparr>],
        abort_buffer_empty_slots := abort_buffer_empty_slots t + 1\<rparr>"
    have run: "choose_pass ops f t s = Some (Inr (q, ?t, s1))" using c g Some iq by (simp add: choose_pass_def)
    have st: "buffer_ok ?t" "mset (stored t) = mset (stored ?t) + {#q#}" using take_stored [OF t i] by simp_all
    have "length (stored t) \<le> ABORT_BUFFER_SIZE" using map_filter_length [of ab_query "abort_buffer t"] len by (simp add: stored_def)
    moreover have "length (stored t) = length (stored ?t) + 1" using st(2) by (metis size_mset size_union size_single)
    ultimately have "chosen taken com t s q ?t s1" using st s1 by (simp add: chosen_def)
    then show ?thesis by (rule found [OF run])
  next
    case None
    show ?thesis
    proof (cases ?full)
      case False
      obtain q s2 where q: "next_query ops s1 = Inr (q, s2)" "taken s2 = taken s @ [q]" "com s2 = com s"
        using ops_okD(4) [OF ok, of s1] s1 s by auto
      have run: "choose_pass ops f t s = Some (Inr (q, t, s2))" using c g None False q(1) by (simp add: choose_pass_def)
      have "length (stored t) \<le> ABORT_BUFFER_SIZE" using map_filter_length [of ab_query "abort_buffer t"] len by (simp add: stored_def)
      then have "length (stored t) < ABORT_BUFFER_SIZE" using t False by (simp add: buffer_ok_def)
      then show ?thesis by (intro found [OF run]) (use t q in \<open>simp add: chosen_def\<close>)
    next
      case True
      then have sc: "scan_aborted now True (abort_buffer t) 0 UINT64_MAX = (None, mn)"
        using g None by (simp add: ABORT_BUFFER_SIZE_def)
      have full: "length (stored t) = ABORT_BUFFER_SIZE" using t True by (simp add: buffer_ok_def)
      have all: "ab_query e \<noteq> None" if "e \<in> set (abort_buffer t)" for e
        using map_filter_full [OF _ that, of ab_query] full len by (simp add: stored_def)
      have le: "\<forall>e \<in> set (abort_buffer t). ab_query e \<noteq> None \<longrightarrow> now \<le> ready_time e" using scan_aborted_none [OF sc] by blast
      have "now \<le> UINT64_MAX" by simp
      then have "mn \<ge> now" using scan_aborted_none [OF sc] le all by auto
      then have "choose_pass ops f t s = f t (usleep ops ((mn - now) div 1000) s1)"
        using c g None True by (simp add: choose_pass_def)
      then show ?thesis by (rule again [OF c True _ le])
    qed
  qed
qed

lemma choose_query_ok:
  fixes ops :: "('q, 's) thread_ops"
  assumes "choose_query ops t s = Some r"
  shows "ops_ok ops taken com n \<longrightarrow> buffer_ok t \<longrightarrow> length (taken s) < n
    \<longrightarrow> (\<exists>q t' s'. r = Inr (q, t', s') \<and> chosen taken com t s q t' s')"
proof (rule choose_query.raw_induct [where P = "\<lambda>ops t s r. ops_ok ops taken com n \<longrightarrow> buffer_ok t \<longrightarrow> length (taken s) < n
    \<longrightarrow> (\<exists>q t' s'. r = Inr (q, t', s') \<and> chosen taken com t s q t' s')", OF _ assms], intro impI)
  fix f :: "('q, 's) thread_ops \<Rightarrow> 'q thread \<Rightarrow> 's \<Rightarrow> ('q \<times> 'q thread \<times> 's) res option" and ops and t :: "'q thread" and s r
  assume IH: "\<And>ops t s r. f ops t s = Some r \<Longrightarrow> ops_ok ops taken com n \<longrightarrow> buffer_ok t \<longrightarrow> length (taken s) < n
      \<longrightarrow> (\<exists>q t' s'. r = Inr (q, t', s') \<and> chosen taken com t s q t' s')"
    and ok: "ops_ok ops taken com n" and t: "buffer_ok t" and s: "length (taken s) < n"
  assume "(case clock ops s of (now, s1) \<Rightarrow>
      case (if abort_buffer_empty_slots t < int ABORT_BUFFER_SIZE
            then scan_aborted now (abort_buffer_empty_slots t = 0) (abort_buffer t) 0 UINT64_MAX
            else (None, UINT64_MAX)) of (found, mn) \<Rightarrow>
      (case found of
         Some (i, q) \<Rightarrow>
           Some (Inr (q, t\<lparr>abort_buffer := (abort_buffer t)[i := (abort_buffer t ! i)\<lparr>ab_query := None\<rparr>],
                           abort_buffer_empty_slots := abort_buffer_empty_slots t + 1\<rparr>, s1))
       | None \<Rightarrow>
           if abort_buffer_empty_slots t = 0
           then if mn \<ge> now then f ops t (usleep ops ((mn - now) div 1000) s1)
                else Some (Inl Assert_Fail)
           else Some (rbind (next_query ops s1) (\<lambda>(q, s2). Inr (q, t, s2))))) = Some r"
  then have run: "choose_pass ops (f ops) t s = Some r" unfolding choose_pass_def .
  show "\<exists>q t' s'. r = Inr (q, t', s') \<and> chosen taken com t s q t' s'"
    using ok t s
  proof (cases rule: choose_step [of ops taken com n t s "f ops"])
    case (again now s1 mn)
    let ?s = "usleep ops ((mn - now) div 1000) s1"
    have same: "taken ?s = taken s" "com ?s = com s"
      using ops_okD(1) [OF ok again(1)] ops_okD(2) [OF ok, of "(mn - now) div 1000" s1] by auto
    have "f ops t ?s = Some r" using again(3) run by simp
    from IH [OF this] show ?thesis using ok t s same by (simp add: chosen_def)
  qed (use run in auto)
qed

lemma put_stored:
  assumes ok: "ops_ok ops taken com n" and t: "buffer_ok t" "length (stored t) < ABORT_BUFFER_SIZE"
  obtains t' s' where "put_aborted ops q t s = Inr (t', s')" and "buffer_ok t'"
    and "mset (stored t') = mset (stored t) + {#q#}" and "taken s' = taken s" and "com s' = com s"
proof -
  obtain r s1 where r: "rand ops s = (r, s1)" by fastforce
  obtain now s2 where c: "clock ops s1 = (now, s2)" by fastforce
  have same: "taken s2 = taken s" "com s2 = com s" using ops_okD(3) [OF ok r] ops_okD(1) [OF ok c] by auto
  have len: "length (abort_buffer t) = ABORT_BUFFER_SIZE" and en: "abort_buffer_enable t" and slots: "abort_buffer_empty_slots t > 0"
    using t by (auto simp: buffer_ok_def)
  obtain i where e: "empty_slot (abort_buffer t) 0 = Some i"
    using empty_slot_None [of "abort_buffer t" 0] t len by (cases "empty_slot (abort_buffer t) 0") (auto simp: stored_def)
  have i: "i < length (abort_buffer t)" "ab_query (abort_buffer t ! i) = None" using empty_slot_Some [OF e] by auto
  let ?e = "\<lparr>ready_time = now + of_nat (nat \<lfloor>r * real ABORT_PENALTY\<rfloor>), ab_query = Some q\<rparr>"
  let ?t = "t\<lparr>abort_buffer := (abort_buffer t)[i := ?e], abort_buffer_empty_slots := abort_buffer_empty_slots t - 1\<rparr>"
  have run: "put_aborted ops q t s = Inr (?t, s2)" using r c e en slots by (simp add: put_aborted_def Let_def asserting_def)
  have m: "mset (stored ?t) = mset (stored t) + {#q#}"
    using map_filter_update [OF i(1), of ?e] i(2) by (simp add: stored_def List.map_filter_simps)
  then have "length (stored ?t) = length (stored t) + 1" by (metis size_mset size_union size_single)
  then have "buffer_ok ?t" using t by (simp add: buffer_ok_def)
  then show ?thesis by (rule that [OF run _ m same])
qed

section \<open>The books of the loop\<close>

definition accounted :: "('s \<Rightarrow> 'q list) \<Rightarrow> ('s \<Rightarrow> 'q list) \<Rightarrow> 'q loop_state \<times> 'q thread \<times> 's \<Rightarrow> bool" where
  "accounted taken com x \<longleftrightarrow>
     (case x of (l, t, s) \<Rightarrow>
        buffer_ok t \<and> mset (taken s) = mset (com s) + mset (stored t) \<and> txn_cnt l = length (com s))"

lemma run_query_ok:
  assumes ok: "ops_ok ops taken com n" and t: "buffer_ok t" "length (stored t) < ABORT_BUFFER_SIZE"
    and m: "mset (taken s) = mset (com s) + mset (stored t) + {#q#}" and cnt: "txn_cnt l = length (com s)" "txn_cnt l < MAX_TXN_PER_PART"
  obtains fin l' t' s' where "run_query ops tc True q l t s = Inr (fin, l', t', s')" and "accounted taken com (l', t', s')"
    and "taken s' = taken s" and "fin \<longleftrightarrow> txn_cnt l' = MAX_TXN_PER_PART" and "txn_cnt l' \<le> MAX_TXN_PER_PART"
proof -
  let ?id = "of_nat (thd_id t) + thd_txn_id l * of_nat tc :: u64"
  obtain s1 where b: "begin_txn ops ?id s = Inr s1" "taken s1 = taken s" "com s1 = com s" using ops_okD(5) [OF ok] by blast
  obtain rc s2 where e: "exec ops q s1 = Inr (rc, s2)" "taken s2 = taken s1"
    and rc: "rc = RCOK \<and> com s2 = com s1 @ [q] \<or> rc = Abort \<and> com s2 = com s1" using ops_okD(6) [OF ok] by blast
  show ?thesis
  proof (cases "rc = Abort")
    case True
    obtain t' s' where p: "put_aborted ops q t s2 = Inr (t', s')" "buffer_ok t'" "mset (stored t') = mset (stored t) + {#q#}"
        "taken s' = taken s2" "com s' = com s2"
      by (rule put_stored [OF ok t])
    let ?l = "\<lparr>l_rc = rc, l_query = Some q, thd_txn_id = thd_txn_id l + 1, txn_cnt = txn_cnt l\<rparr>"
    have "run_query ops tc True q l t s = Inr (False, ?l, t', s')"
      using b(1) e(1) p(1) True cnt(2) by (simp add: run_query_def Let_def)
    then show ?thesis by (rule that) (use b e p rc True m cnt in \<open>auto simp: accounted_def\<close>)
  next
    case False
    let ?l = "\<lparr>l_rc = rc, l_query = Some q, thd_txn_id = thd_txn_id l + 1, txn_cnt = txn_cnt l + 1\<rparr>"
    have "run_query ops tc True q l t s = Inr (txn_cnt l + 1 = MAX_TXN_PER_PART, ?l, t, s2)"
      using b(1) e(1) False rc cnt(2) by (auto simp: run_query_def Let_def asserting_def)
    then show ?thesis by (rule that) (use b e rc False m cnt t in \<open>auto simp: accounted_def\<close>)
  qed
qed

lemma thread_round_ok:
  assumes ok: "ops_ok ops taken com n" and n: "MAX_TXN_PER_PART + ABORT_BUFFER_SIZE \<le> n"
    and a: "accounted taken com x" and cnt: "txn_cnt (fst x) < MAX_TXN_PER_PART"
    and run: "thread_round ops tc True x = Some r"
  obtains fin y where "r = Inr (fin, y)" and "accounted taken com y" and "fin \<longleftrightarrow> txn_cnt (fst y) = MAX_TXN_PER_PART"
    and "txn_cnt (fst y) \<le> MAX_TXN_PER_PART" and "length (taken (snd (snd y))) < MAX_TXN_PER_PART + ABORT_BUFFER_SIZE"
proof -
  obtain l t s where x: "x = (l, t, s)" by (cases x)
  have t: "buffer_ok t" and m: "mset (taken s) = mset (com s) + mset (stored t)" and c: "txn_cnt l = length (com s)"
    using a x by (simp_all add: accounted_def)
  have "length (stored t) \<le> ABORT_BUFFER_SIZE"
    using map_filter_length [of ab_query "abort_buffer t"] t by (simp add: stored_def buffer_ok_def)
  moreover have "length (taken s) = length (com s) + length (stored t)" using m by (metis size_mset size_union)
  ultimately have len: "length (taken s) < n" using n c cnt x by simp
  have en: "abort_buffer_enable t" using t by (simp add: buffer_ok_def)
  obtain r' where ch: "choose_query ops t s = Some r'" using run x en by (cases "choose_query ops t s") (auto simp: thread_round_def pick_query_def)
  obtain q t' s' where q: "r' = Inr (q, t', s')" and cho: "chosen taken com t s q t' s'"
    using choose_query_ok [OF ch, of taken com n] ok t len by blast
  have t': "buffer_ok t'" "length (stored t') < ABORT_BUFFER_SIZE" and com': "com s' = com s" using cho by (simp_all add: chosen_def)
  have m': "mset (taken s') = mset (com s') + mset (stored t') + {#q#}"
    using cho m by (simp add: chosen_def)
  obtain fin l2 t2 s2 where f: "run_query ops tc True q (l\<lparr>l_query := Some q\<rparr>) t' s' = Inr (fin, l2, t2, s2)"
      "accounted taken com (l2, t2, s2)" "taken s2 = taken s'" "fin \<longleftrightarrow> txn_cnt l2 = MAX_TXN_PER_PART" "txn_cnt l2 \<le> MAX_TXN_PER_PART"
    by (rule run_query_ok [OF ok t' m', of "l\<lparr>l_query := Some q\<rparr>" tc]) (use c com' cnt x in auto)
  have "length (taken s2) = length (com s) + length (stored t') + 1" using m' f(3) com' by (metis size_mset size_union size_single)
  then have small: "length (taken s2) < MAX_TXN_PER_PART + ABORT_BUFFER_SIZE" using c cnt x t' by simp
  have "r = Inr (fin, l2, t2, s2)" using run x en ch q f(1) by (simp add: thread_round_def pick_query_def)
  then show ?thesis by (rule that) (use f small in auto)
qed

inductive thread_reach :: "('q, 's) thread_ops \<Rightarrow> nat \<Rightarrow> 'q loop_state \<times> 'q thread \<times> 's \<Rightarrow> 'q loop_state \<times> 'q thread \<times> 's \<Rightarrow> bool"
  for ops tc x where
  start: "thread_reach ops tc x x"
| round: "thread_reach ops tc x y \<Longrightarrow> thread_round ops tc True y = Some (Inr (False, z)) \<Longrightarrow> thread_reach ops tc x z"

lemma thread_reach_ok:
  assumes "thread_reach ops tc (loop_start, thread_init i True t0, s0) x"
    and ok: "ops_ok ops taken com n" and n: "MAX_TXN_PER_PART + ABORT_BUFFER_SIZE \<le> n" and s0: "taken s0 = []" "com s0 = []"
  shows "accounted taken com x \<and> txn_cnt (fst x) < MAX_TXN_PER_PART \<and> length (taken (snd (snd x))) < MAX_TXN_PER_PART + ABORT_BUFFER_SIZE"
  using assms(1)
proof induction
  case start
  then show ?case using s0 by (simp add: accounted_def loop_start_def buffer_ok_init MAX_TXN_PER_PART_def)
next
  case (round y z)
  from round.IH have a: "accounted taken com y" and c: "txn_cnt (fst y) < MAX_TXN_PER_PART" by auto
  obtain fin z' where "(Inr (False, z) :: (_ \<times> _) res) = Inr (fin, z')" and "accounted taken com z'" and "fin \<longleftrightarrow> txn_cnt (fst z') = MAX_TXN_PER_PART"
    and "txn_cnt (fst z') \<le> MAX_TXN_PER_PART" and "length (taken (snd (snd z'))) < MAX_TXN_PER_PART + ABORT_BUFFER_SIZE"
    by (rule thread_round_ok [OF ok n a c round.hyps(2)])
  then show ?case by auto
qed

section \<open>An example of operations\<close>

text \<open>
  The queue holds the numbers 0, 1, and so on; a transaction aborts at the even beginnings. A state has the clock, the
  number of beginnings, the queries taken and those committed.
\<close>

type_synonym demo_state = "nat \<times> nat \<times> nat list \<times> nat list"

definition demo_thread_ops :: "(nat, demo_state) thread_ops" where
  "demo_thread_ops =
     \<lparr>clock = (\<lambda>(c, b, tk, cm). (of_nat (min c (2 ^ 64 - 1)), c + 1, b, tk, cm)),
      usleep = (\<lambda>u (c, b, tk, cm). (c + 1, b, tk, cm)), rand = (\<lambda>x. (0, x)),
      next_query = (\<lambda>(c, b, tk, cm). Inr (length tk, c, b, tk @ [length tk], cm)),
      begin_txn = (\<lambda>i (c, b, tk, cm). Inr (c, b + 1, tk, cm)),
      exec = (\<lambda>q (c, b, tk, cm). Inr (if even b then (Abort, c, b, tk, cm) else (RCOK, c, b, tk, cm @ [q])))\<rparr>"

definition demo_thread :: "nat thread" where
  "demo_thread = \<lparr>thd_id = 0, host_cid = 0, cur_cid = 0, abort_buffer = [], abort_buffer_empty_slots = 0, abort_buffer_enable = False\<rparr>"

definition demo_taken :: "demo_state \<Rightarrow> nat list" where
  "demo_taken s = fst (snd (snd s))"

definition demo_com :: "demo_state \<Rightarrow> nat list" where
  "demo_com s = snd (snd (snd s))"

lemma demo_ops_ok: "ops_ok demo_thread_ops demo_taken demo_com n"
  unfolding ops_ok_def by (simp add: demo_thread_ops_def demo_taken_def demo_com_def)

section \<open>Properties\<close>





end
