(* ===== verification/Thread_Serial.thy ===== *)
theory Thread_Serial
  imports Txn_Props Thread
begin

text \<open>
  A worker thread that has its instance to itself works through its queue: every round takes the next query and commits
  it with a newer timestamp than any before, and the thread ends after the number of commits it has to make.
\<close>

section \<open>What a transaction leaves alone\<close>

definition outside :: "'a manager \<Rightarrow> 'b manager \<Rightarrow> bool" where
  "outside m m' \<longleftrightarrow> mi_timestamp m' = mi_timestamp m \<and> mi_all_ts m' = mi_all_ts m \<and> mi_txn_man m' = mi_txn_man m \<and>
     mi_queries m' = mi_queries m"

lemma outside_refl [simp]: "outside m m"
  by (simp add: outside_def)

lemma outside_trans: "outside m m1 \<Longrightarrow> outside m1 m2 \<Longrightarrow> outside m m2"
  by (simp add: outside_def)

lemma outside_put [simp]: "outside m (put_st k s m)"
  by (simp add: outside_def put_st_def)

lemma outside_db [simp]: "outside (m\<lparr>mi_db := d\<rparr>) m' = outside m m'" "outside m (m'\<lparr>mi_db := d\<rparr>) = outside m m'"
  by (simp_all add: outside_def)

lemma at_row_outside: "at_row key f m = Inr (x, m') \<Longrightarrow> outside m m'"
  by (auto simp: at_row_def res_simps split: if_splits)

lemma txn_get_row_outside: "txn_get_row S sz key ty tm m = Inr (p, tm', m') \<Longrightarrow> outside m m'"
  by (auto simp: txn_get_row_def Let_def res_simps dest: at_row_outside split: if_splits option.splits)

lemma compute_outside: "compute sz n ty p ts m = Inr m' \<Longrightarrow> outside m m'"
  by (auto simp: compute_def set_row_bytes_def Let_def res_simps split: if_splits)

lemma run_request_outside: "run_request S sz n q i tm m = Inr (ok, tm', m') \<Longrightarrow> outside m m'"
proof (induction i arbitrary: tm m)
  case (Suc i)
  then show ?case
    by (auto simp: res_simps split: option.splits dest!: txn_get_row_outside compute_outside Suc.IH)
      (blast intro: outside_trans)+
qed simp

lemma run_requests_outside: "run_requests S sz n qs tm m = Inr (ok, tm', m') \<Longrightarrow> outside m m'"
proof (induction qs arbitrary: tm m)
  case (Cons q qs)
  then show ?case by (auto simp: res_simps split: if_splits dest!: run_request_outside intro: outside_trans)
qed simp

lemma return_row_outside: "return_row S rc tm rid m = Inr m' \<Longrightarrow> outside m m'"
  by (auto simp: return_row_def Let_def res_simps split: option.splits dest: at_row_outside)

lemma cleanup_rows_outside: "cleanup_rows S rc tm n m = Inr m' \<Longrightarrow> outside m m'"
proof (induction n arbitrary: m)
  case (Suc n)
  then show ?case by (auto simp: res_simps dest!: return_row_outside intro: outside_trans)
qed simp

lemma run_accesses_outside: "run_accesses S sz qs tm m = Inr (rc, tm', m') \<Longrightarrow> outside m m'"
  by (auto simp: run_accesses_def finish_def cleanup_def res_simps dest!: run_requests_outside cleanup_rows_outside
      intro: outside_trans)

lemma run_txn_outside: "run_txn D L remote stk sz qs tm m w = Inr (rc, tm', m', w') \<Longrightarrow> outside m m'"
  unfolding run_txn_def Let_def rbind_Inr_iff
  by (fastforce simp: res_simps split: if_splits dest!: run_accesses_outside)

section \<open>An instance between two rounds\<close>

text \<open>No version and no served reader is newer than \<open>B\<close>.\<close>

definition stamps_upto :: "u64 \<Rightarrow> 'db manager \<Rightarrow> bool" where
  "stamps_upto B m \<longleftrightarrow> (\<forall>k < length (mi_mvccs m). latest_wts (row_st m k) \<le> B \<and> max_served_rts (row_st m k) \<le> B)"

lemma stamps_aged: "stamps_upto B m \<Longrightarrow> aged_rows ts m m' \<Longrightarrow> B \<le> ts \<Longrightarrow> stamps_upto ts m'"
  by (fastforce simp: stamps_upto_def aged_rows_def aged_def)

lemma stamps_mono: "stamps_upto B m \<Longrightarrow> B \<le> C \<Longrightarrow> stamps_upto C m"
  by (fastforce simp: stamps_upto_def)

lemma stamps_newest: "stamps_upto B m \<Longrightarrow> B < ts \<Longrightarrow> newest ts {} m \<and> unused ts {} m"
  by (fastforce simp: stamps_upto_def newest_def unused_def)

text \<open>Timestamps of transactions and the table of active timestamps do not matter to rows nobody waits for.\<close>

lemma row_good_txns:
  assumes "row_good dinv drow sz k s"
  shows "row_good dinv drow sz k (s\<lparr>txns := T, all_ts := A\<rparr>)"
proof -
  have "core_inv (s\<lparr>txns := T, all_ts := A\<rparr>) = core_inv s"
    by (simp add: core_inv_def latest_ok_def reserve_ok_def heap_ok_def row_ok_def)
  then show ?thesis
    using assms by (auto simp: row_good_def mvcc_inv_def pend_ok_def pending_after_def idle_def val_ok_def)
qed

lemma at_rest_begin:
  assumes "at_rest dinv dpage sz t idx tm m" and "mi_mvccs m' = mi_mvccs m" and "mi_db m' = mi_db m"
    and "tm_ready tm'" and "tm_thd tm' = tm_thd tm"
  shows "at_rest dinv dpage sz t idx tm' m'"
proof -
  have st: "row_st m' k = (row_st m k)\<lparr>txns := mi_txns m', all_ts := mi_all_ts m'\<rparr>" for k
    using assms(2,3) by (simp add: row_st_def attach_def)
  show ?thesis
    using assms by (auto simp: at_rest_def rows_good_def no_txn_def st intro!: row_good_txns)
qed

lemma stamps_begin: "mi_mvccs m' = mi_mvccs m \<Longrightarrow> stamps_upto B m' = stamps_upto B m"
  by (simp add: stamps_upto_def row_st_def attach_def)

section \<open>One round\<close>

text \<open>The queries of a thread that are still to come.\<close>

definition to_come :: "nat \<Rightarrow> 'db manager \<Rightarrow> ycsb_request list list" where
  "to_come thd m = drop (q_idx (mi_queries m ! thd)) (queries (mi_queries m ! thd))"

definition thread_ready ::
  "('d \<Rightarrow> bool) \<Rightarrow> ('d \<Rightarrow> u64 \<Rightarrow> bytes option) \<Rightarrow> nat \<Rightarrow> lock_table \<Rightarrow> index_map \<Rightarrow> nat \<Rightarrow> txn_man \<Rightarrow> 'd inst_db manager \<Rightarrow> bool" where
  "thread_ready dinv dpage sz lt idx thd tm m \<longleftrightarrow> at_rest dinv dpage sz lt idx tm m \<and> tm_thd tm = thd \<and>
     thd < length (mi_queries m) \<and> thd < length (mi_all_ts m) \<and> stamps_upto (mi_timestamp m) m"

lemma inst_next_ok:
  assumes "thd < length (mi_queries m)" and "to_come thd m = q # qs"
  obtains m' where "inst_next thd (m, tm, w) = Inr (q, m', tm, w)" and "to_come thd m' = qs"
    and "mi_mvccs m' = mi_mvccs m" and "mi_db m' = mi_db m" and "mi_timestamp m' = mi_timestamp m"
    and "mi_all_ts m' = mi_all_ts m" and "length (mi_queries m') = length (mi_queries m)"
proof -
  let ?t = "mi_queries m ! thd"
  have i: "q_idx ?t < length (queries ?t)" using assms(2) by (metis to_come_def drop_eq_Nil list.distinct(1) not_less)
  then have q: "queries ?t ! q_idx ?t = q" "drop (Suc (q_idx ?t)) (queries ?t) = qs"
    using assms(2) by (simp_all add: to_come_def flip: Cons_nth_drop_Suc)
  let ?m = "m\<lparr>mi_queries := (mi_queries m)[thd := ?t\<lparr>q_idx := Suc (q_idx ?t)\<rparr>]\<rparr>"
  have "inst_next thd (m, tm, w) = Inr (q, ?m, tm, w)"
    using assms(1) i q(1) by (simp add: inst_next_def Query_queue_get_next_query_def get_next_query_def)
  then show ?thesis by (rule that) (use assms(1) q(2) in \<open>simp_all add: to_come_def\<close>)
qed

lemma inst_next_world:
  "inst_next thd (m, tm, w) = Inr (q, m', tm', w1) \<Longrightarrow> inst_next thd (m, tm, w2) = Inr (q, m', tm', w2)"
  by (auto simp: inst_next_def res_simps)

lemma inst_begin_ok:
  assumes "thread_ready dinv dpage sz lt idx thd tm m"
  obtains tm1 m1 where "inst_begin i (m, tm, w) = Inr (m1, tm1, w)" and "at_rest dinv dpage sz lt idx tm1 m1"
    and "tm_thd tm1 = thd" and "get_ts tm1 m1 = mi_timestamp m + 1" and "mi_timestamp m1 = mi_timestamp m + 2"
    and "mi_queries m1 = mi_queries m" and "mi_mvccs m1 = mi_mvccs m" and "mi_db m1 = mi_db m"
    and "length (mi_all_ts m1) = length (mi_all_ts m)"
proof -
  let ?ts = "mi_timestamp m + 1" and ?tm = "set_txn_id i (tm\<lparr>abort_cnt := 0\<rparr>)"
  let ?m = "m\<lparr>mi_timestamp := mi_timestamp m + 2, mi_txns := (mi_txns m)(tm_me tm := (mi_txns m (tm_me tm))\<lparr>txn_ts := ?ts\<rparr>),
      mi_all_ts := (mi_all_ts m)[thd := ?ts]\<rparr>"
  have r: "at_rest dinv dpage sz lt idx tm m" "tm_thd tm = thd" "thd < length (mi_all_ts m)" using assms by (simp_all add: thread_ready_def)
  have run: "inst_begin i (m, tm, w) = Inr (?m, ?tm, w)"
    using r(2,3) by (simp add: inst_begin_def get_next_ts_def Manager_GetNextTs_def set_ts_def get_ts_def AddTs_def set_txn_id_def Let_def
        add.assoc)
  have "tm_ready ?tm" using r(1) by (simp add: at_rest_def tm_ready_def set_txn_id_def)
  then have "at_rest dinv dpage sz lt idx ?tm ?m" by (intro at_rest_begin [OF r(1)]) (simp_all add: set_txn_id_def)
  then show ?thesis by (rule that [OF run]) (use r(2) in \<open>simp_all add: get_ts_def set_txn_id_def\<close>)
qed

text \<open>A thread without parked queries.\<close>

definition unparked :: "'q thread \<Rightarrow> bool" where
  "unparked t \<longleftrightarrow> abort_buffer_empty_slots t = int ABORT_BUFFER_SIZE"

context page_disk
begin

lemma run_query_alone:
  assumes R: "thread_ready dinv dpage sz lt idx thd tm m" and L: "length (l_buf L) = MY_PAGE_SIZE" and sz: "16 \<le> sz"
    and qs: "query_fits q m" and ts: "unat (mi_timestamp m) + 2 < 2 ^ 64 - 1" and cnt: "txn_cnt l < MAX_TXN_PER_PART"
  obtains l' tm' m' where "run_query (inst_ops clk slp rnd D L remote stk sz thd) n warm q l t (m, tm, w) =
      Inr (warm \<and> Suc (txn_cnt l) = MAX_TXN_PER_PART, l', t, m', tm', w)"
    and "thread_ready dinv dpage sz lt idx thd tm' m'" and "l_rc l' = RCOK" and "txn_cnt l' = Suc (txn_cnt l)"
    and "drow_of dpage sz (mi_db m') = apply_query sz (mi_timestamp m + 1) q (drow_of dpage sz (mi_db m))"
    and "mi_timestamp m' = mi_timestamp m + 2" and "mi_queries m' = mi_queries m" and "length (mi_mvccs m') = length (mi_mvccs m)"
proof -
  let ?ops = "inst_ops clk slp rnd D L remote stk sz thd" and ?ts = "mi_timestamp m + 1"
  let ?i = "of_nat (thd_id t) + thd_txn_id l * of_nat n"
  obtain tm1 m1 where b: "inst_begin ?i (m, tm, w) = Inr (m1, tm1, w)" "at_rest dinv dpage sz lt idx tm1 m1"
    "tm_thd tm1 = thd" "get_ts tm1 m1 = ?ts" "mi_timestamp m1 = mi_timestamp m + 2" "mi_queries m1 = mi_queries m"
    "mi_mvccs m1 = mi_mvccs m" "mi_db m1 = mi_db m" "length (mi_all_ts m1) = length (mi_all_ts m)"
    by (rule inst_begin_ok [OF R])
  have u: "unat ?ts = unat (mi_timestamp m) + 1" "unat (mi_timestamp m + 2) = unat (mi_timestamp m) + 2"
    using ts by (simp_all add: unat_word_ariths)
  have lt: "?ts < UINT64_MAX" "mi_timestamp m < ?ts" "?ts \<le> mi_timestamp m + 2"
    using ts u by (simp_all add: word_less_nat_alt word_le_nat_alt unsigned_minus_1_eq_mask mask_eq_exp_minus_1)
  have up: "stamps_upto (mi_timestamp m) m1" using R b(7) stamps_begin [of m1 m] by (simp add: thread_ready_def)
  have new: "newest (get_ts tm1 m1) {} m1" "unused (get_ts tm1 m1) {} m1" "get_ts tm1 m1 < UINT64_MAX"
    using stamps_newest [OF up lt(2)] b(4) lt(1) by simp_all
  have fits: "query_fits q m1" using qs b(7) by (simp add: query_fits_def req_fits_def)
  obtain rc tm2 m2 where x: "run_txn D L remote stk sz q tm1 m1 w = Inr (rc, tm2, m2, w)"
    "at_rest dinv dpage sz lt idx tm2 m2"
    "drow_of dpage sz (mi_db m2) =
      (if rc = RCOK then apply_query sz (get_ts tm1 m1) q (drow_of dpage sz (mi_db m1)) else drow_of dpage sz (mi_db m1))"
    "newest (get_ts tm1 m1) {} m1 \<longrightarrow> rc = RCOK" "aged_rows (get_ts tm1 m1) m1 m2" "tm_thd tm2 = tm_thd tm1"
    by (rule run_txn_alone [OF b(2) L sz fits new(3,2), where remote = remote and stk = stk and w = w])
  have ok: "rc = RCOK" using x(4) new(1) by simp
  have out: "outside m1 m2" by (rule run_txn_outside [OF x(1)])
  have "stamps_upto (mi_timestamp m2) m2"
    using stamps_mono [OF stamps_aged [OF up x(5) [unfolded b(4)]] lt(3)] lt(2) b(5) out by (simp add: outside_def)
  then have R': "thread_ready dinv dpage sz lt idx thd tm2 m2"
    using R x(2,6) b(3,6,9) out by (simp add: thread_ready_def outside_def)
  let ?l = "\<lparr>l_rc = RCOK, l_query = Some q, thd_txn_id = thd_txn_id l + 1, txn_cnt = Suc (txn_cnt l)\<rparr>"
  have "run_query ?ops n warm q l t (m, tm, w) = Inr (warm \<and> Suc (txn_cnt l) = MAX_TXN_PER_PART, ?l, t, m2, tm2, w)"
    using b(1) x(1) ok cnt by (auto simp: run_query_def inst_ops_def inst_exec_def Let_def)
  then show ?thesis
    by (rule that [OF _ R']) (use x(3,5) ok b out in \<open>auto simp: outside_def aged_rows_def\<close>)
qed

lemma ready_next:
  "thread_ready dinv dpage sz lt idx thd tm m \<Longrightarrow> mi_mvccs m' = mi_mvccs m \<Longrightarrow> mi_db m' = mi_db m \<Longrightarrow>
   mi_timestamp m' = mi_timestamp m \<Longrightarrow> mi_all_ts m' = mi_all_ts m \<Longrightarrow> length (mi_queries m') = length (mi_queries m) \<Longrightarrow>
   thread_ready dinv dpage sz lt idx thd tm m'"
  using at_rest_begin [of dinv dpage sz lt idx tm m m' tm] stamps_begin [of m' m] by (auto simp: thread_ready_def at_rest_def)

lemma pick_query_next:
  fixes clk :: "'w \<Rightarrow> u64 \<times> 'w"
  assumes "unparked t" and "l_rc l = RCOK" and "\<And>w :: 'w. inst_next thd (m, tm, w) = Inr (q, m', tm, w)"
  shows "\<exists>w'. pick_query (inst_ops clk slp rnd D L remote stk sz thd) l t (m, tm, w) = Some (Inr (Some q, t, m', tm, w'))"
proof (cases "abort_buffer_enable t")
  case True
  obtain now w' where c: "clk w = (now, w')" by (cases "clk w")
  have "choose_query (inst_ops clk slp rnd D L remote stk sz thd) t (m, tm, w) = Some (Inr (q, t, m', tm, w'))"
    using assms(1) assms(3) [of w'] c by (subst choose_query.simps) (simp add: inst_ops_def unparked_def ABORT_BUFFER_SIZE_def)
  then show ?thesis using True by (simp add: pick_query_def)
qed (use assms(2) assms(3) [of w] in \<open>simp add: pick_query_def inst_ops_def\<close>)

lemma thread_round_alone:
  assumes R: "thread_ready dinv dpage sz lt idx thd tm m" and L: "length (l_buf L) = MY_PAGE_SIZE" and sz: "16 \<le> sz"
    and q: "to_come thd m = q # qs" "query_fits q m" and ts: "unat (mi_timestamp m) + 2 < 2 ^ 64 - 1"
    and l: "txn_cnt l < MAX_TXN_PER_PART" "l_rc l = RCOK" and t: "unparked t"
  shows "\<exists>l' tm' m' w'. thread_round (inst_ops clk slp rnd D L remote stk sz thd) n warm (l, t, m, tm, w) =
      Some (Inr (warm \<and> Suc (txn_cnt l) = MAX_TXN_PER_PART, l', t, m', tm', w')) \<and>
    thread_ready dinv dpage sz lt idx thd tm' m' \<and> l_rc l' = RCOK \<and> txn_cnt l' = Suc (txn_cnt l) \<and>
    drow_of dpage sz (mi_db m') = apply_query sz (mi_timestamp m + 1) q (drow_of dpage sz (mi_db m)) \<and>
    mi_timestamp m' = mi_timestamp m + 2 \<and> to_come thd m' = qs \<and> length (mi_mvccs m') = length (mi_mvccs m)"
proof -
  have "thd < length (mi_queries m)" using R by (simp add: thread_ready_def)
  then obtain m1 where n: "inst_next thd (m, tm, w) = Inr (q, m1, tm, w)" "to_come thd m1 = qs" "mi_mvccs m1 = mi_mvccs m"
    "mi_db m1 = mi_db m" "mi_timestamp m1 = mi_timestamp m" "mi_all_ts m1 = mi_all_ts m" "length (mi_queries m1) = length (mi_queries m)"
    by (rule inst_next_ok [OF _ q(1)])
  obtain w1 where p: "pick_query (inst_ops clk slp rnd D L remote stk sz thd) l t (m, tm, w) = Some (Inr (Some q, t, m1, tm, w1))"
    using pick_query_next [OF t l(2) inst_next_world [OF n(1)], where clk = clk and slp = slp and rnd = rnd and L = L and w = w
        and remote = remote and stk = stk and sz = sz] by blast
  have R1: "thread_ready dinv dpage sz lt idx thd tm m1" by (rule ready_next [OF R n(3-7)])
  have pre: "query_fits q m1" "unat (mi_timestamp m1) + 2 < 2 ^ 64 - 1" "txn_cnt (l\<lparr>l_query := Some q\<rparr>) < MAX_TXN_PER_PART"
    using q(2) ts l(1) n(3,5) by (simp_all add: query_fits_def req_fits_def)
  obtain l' tm' m' where r: "run_query (inst_ops clk slp rnd D L remote stk sz thd) n warm q (l\<lparr>l_query := Some q\<rparr>) t (m1, tm, w1) =
      Inr (warm \<and> Suc (txn_cnt (l\<lparr>l_query := Some q\<rparr>)) = MAX_TXN_PER_PART, l', t, m', tm', w1)"
    "thread_ready dinv dpage sz lt idx thd tm' m'" "l_rc l' = RCOK" "txn_cnt l' = Suc (txn_cnt (l\<lparr>l_query := Some q\<rparr>))"
    "drow_of dpage sz (mi_db m') = apply_query sz (mi_timestamp m1 + 1) q (drow_of dpage sz (mi_db m1))"
    "mi_timestamp m' = mi_timestamp m1 + 2" "mi_queries m' = mi_queries m1" "length (mi_mvccs m') = length (mi_mvccs m1)"
    by (rule run_query_alone [OF R1 L sz pre])
  have "thread_round (inst_ops clk slp rnd D L remote stk sz thd) n warm (l, t, m, tm, w) =
      Some (Inr (warm \<and> Suc (txn_cnt l) = MAX_TXN_PER_PART, l', t, m', tm', w1))"
    using p r(1) by (simp add: thread_round_def)
  moreover have "to_come thd m' = qs" using r(7) n(2) by (simp add: to_come_def)
  ultimately show ?thesis using r(2-8) n(3-5) by (intro exI [of _ l'] exI [of _ tm'] exI [of _ m'] exI [of _ w1]) simp
qed

end

section \<open>The whole run\<close>

text \<open>The queries one after the other; the second of the two timestamps a round draws is the one of its transaction.\<close>

fun run_queue :: "nat \<Rightarrow> u64 \<Rightarrow> ycsb_request list list \<Rightarrow> (u64 \<Rightarrow> bytes option) \<Rightarrow> (u64 \<Rightarrow> bytes option)" where
  "run_queue sz ts [] R = R"
| "run_queue sz ts (q # qs) R = run_queue sz (ts + 2) qs (apply_query sz (ts + 1) q R)"

lemma unat_plus_2: "unat (a :: u64) + 2 < 2 ^ 64 \<Longrightarrow> unat (a + 2) = unat a + 2"
  by (simp add: unat_word_ariths)

context page_disk
begin

lemma thread_loop_alone:
  assumes "thread_ready dinv dpage sz lt idx thd tm m" and L: "length (l_buf L) = MY_PAGE_SIZE" and sz: "16 \<le> sz"
    and "\<forall>q \<in> set (take k (to_come thd m)). query_fits q m" and "k \<le> length (to_come thd m)"
    and "unat (mi_timestamp m) + 2 * k < 2 ^ 64 - 1" and "txn_cnt l + k = MAX_TXN_PER_PART" and "0 < k"
    and "l_rc l = RCOK" and t: "unparked t"
  shows "\<exists>l' tm' m' w'. thread_loop (inst_ops clk slp rnd D L remote stk sz thd) n True (l, t, m, tm, w) =
      Some (Inr (FINISH, l', t, m', tm', w')) \<and> txn_cnt l' = MAX_TXN_PER_PART \<and> thread_ready dinv dpage sz lt idx thd tm' m' \<and>
    drow_of dpage sz (mi_db m') = run_queue sz (mi_timestamp m) (take k (to_come thd m)) (drow_of dpage sz (mi_db m)) \<and>
    to_come thd m' = drop k (to_come thd m)"
  using assms(1,4-9)
proof (induction k arbitrary: l tm m w)
  case (Suc k)
  obtain q qs where q: "to_come thd m = q # qs" using Suc.prems(3) by (cases "to_come thd m") auto
  have pre: "query_fits q m" "unat (mi_timestamp m) + 2 < 2 ^ 64 - 1" "txn_cnt l < MAX_TXN_PER_PART"
    using Suc.prems(2,4,5) q by simp_all
  obtain l1 tm1 m1 w1 where r: "thread_round (inst_ops clk slp rnd D L remote stk sz thd) n True (l, t, m, tm, w) =
      Some (Inr (Suc (txn_cnt l) = MAX_TXN_PER_PART, l1, t, m1, tm1, w1))"
    "thread_ready dinv dpage sz lt idx thd tm1 m1" "l_rc l1 = RCOK" "txn_cnt l1 = Suc (txn_cnt l)"
    "drow_of dpage sz (mi_db m1) = apply_query sz (mi_timestamp m + 1) q (drow_of dpage sz (mi_db m))"
    "mi_timestamp m1 = mi_timestamp m + 2" "to_come thd m1 = qs" "length (mi_mvccs m1) = length (mi_mvccs m)"
    using thread_round_alone [OF Suc.prems(1) L sz q pre(1,2,3) Suc.prems(7) t, where warm = True and clk = clk and slp = slp
        and rnd = rnd and remote = remote and stk = stk and n = n and w = w] by (simp only: simp_thms) blast
  show ?case
  proof (cases k)
    case 0
    then have "thread_loop (inst_ops clk slp rnd D L remote stk sz thd) n True (l, t, m, tm, w) = Some (Inr (FINISH, l1, t, m1, tm1, w1))"
      using r(1) Suc.prems(5) by (subst thread_loop.simps) simp
    then show ?thesis using r q 0 Suc.prems(5) by auto
  next
    case (Suc j)
    have step: "thread_loop (inst_ops clk slp rnd D L remote stk sz thd) n True (l, t, m, tm, w) =
        thread_loop (inst_ops clk slp rnd D L remote stk sz thd) n True (l1, t, m1, tm1, w1)"
      using r(1) Suc.prems(5) Suc by (subst thread_loop.simps) simp
    have "unat (mi_timestamp m1) + 2 * k < 2 ^ 64 - 1"
      using Suc.prems(4) unat_plus_2 [of "mi_timestamp m"] r(6) by simp
    moreover have "\<forall>q \<in> set (take k (to_come thd m1)). query_fits q m1"
      using Suc.prems(2) q r(7,8) by (simp add: query_fits_def req_fits_def)
    ultimately show ?thesis
      using Suc.IH [OF r(2), where l = l1 and w = w1] r(3-7) Suc.prems(3,5) Suc q step by simp
  qed
qed simp

end

text \<open>
  C4: a worker thread finishes. On an instance over \<open>FileIO\<close> that owns its pages and is otherwise idle, with no version
  newer than the timestamp counter and a counter far enough from its end, \<open>thread_t::run\<close> of a new thread whose next
  \<open>MAX_TXN_PER_PART\<close> queries read and write different rows returns \<open>FINISH\<close> after exactly that many commits, with or
  without an abort buffer and whatever the clock shows. The rows then are those obtained from the initial ones by
  applying the queries in the order of the queue, with timestamps that grow by two; these queries are taken off the queue
  and no others, and the instance is ready for the next thread.
\<close>

theorem thread_runs_queue:
  assumes "posix_laws P content fdpath" and "at_rest (file_inv fdpath) (file_page content) sz lt idx (txn_init thd tm0) m"
    and "length (l_buf L) = MY_PAGE_SIZE" and "16 \<le> sz"
    and "thd < length (mi_queries m)" and "thd < length (mi_all_ts m)" and "thd < length (mi_txn_man m)"
    and "MAX_TXN_PER_PART \<le> length (to_come thd m)" and "\<forall>q \<in> set (take MAX_TXN_PER_PART (to_come thd m)). query_fits q m"
    and "stamps_upto (mi_timestamp m) m" and "unat (mi_timestamp m) + 2 * MAX_TXN_PER_PART < 2 ^ 64 - 1"
  shows "\<exists>l tm' m' w'. thread_run clk slp rnd (file_disk P) L remote stk sz n True (thread_init thd en t) tm0 m w =
      Some (Inr (FINISH, l, thread_init thd en t, m', tm', w')) \<and> txn_cnt l = MAX_TXN_PER_PART \<and>
    at_rest (file_inv fdpath) (file_page content) sz lt idx tm' m' \<and>
    drow_of (file_page content) sz (mi_db m') =
      run_queue sz (mi_timestamp m) (take MAX_TXN_PER_PART (to_come thd m)) (drow_of (file_page content) sz (mi_db m)) \<and>
    to_come thd m' = drop MAX_TXN_PER_PART (to_come thd m)"
proof -
  let ?t = "thread_init thd en t" and ?m = "m\<lparr>mi_txn_man := (mi_txn_man m)[thd := Some (tm_me tm0)]\<rparr>" and ?tm = "txn_init thd tm0"
  have "at_rest (file_inv fdpath) (file_page content) sz lt idx ?tm ?m"
    by (rule at_rest_begin [OF assms(2)]) (use assms(2) in \<open>simp_all add: at_rest_def\<close>)
  then have R: "thread_ready (file_inv fdpath) (file_page content) sz lt idx thd ?tm ?m"
    using assms(5,6,10) stamps_begin [of ?m m] by (simp add: thread_ready_def txn_init_def)
  have T: "to_come thd ?m = to_come thd m" "query_fits q ?m = query_fits q m" for q
    by (simp_all add: to_come_def query_fits_def req_fits_def)
  have pre: "\<forall>q \<in> set (take MAX_TXN_PER_PART (to_come thd ?m)). query_fits q ?m" "MAX_TXN_PER_PART \<le> length (to_come thd ?m)"
    "unat (mi_timestamp ?m) + 2 * MAX_TXN_PER_PART < 2 ^ 64 - 1" "txn_cnt loop_start + MAX_TXN_PER_PART = MAX_TXN_PER_PART"
    "0 < MAX_TXN_PER_PART" "l_rc loop_start = RCOK" "unparked ?t"
    using assms(8,9,11) by (simp_all add: T loop_start_def MAX_TXN_PER_PART_def unparked_def thread_init_def)
  obtain l' tm' m' w' where "thread_loop (inst_ops clk slp rnd (file_disk P) L remote stk sz thd) n True (loop_start, ?t, ?m, ?tm, w) =
      Some (Inr (FINISH, l', ?t, m', tm', w'))" "txn_cnt l' = MAX_TXN_PER_PART"
    "thread_ready (file_inv fdpath) (file_page content) sz lt idx thd tm' m'"
    "drow_of (file_page content) sz (mi_db m') =
      run_queue sz (mi_timestamp ?m) (take MAX_TXN_PER_PART (to_come thd ?m)) (drow_of (file_page content) sz (mi_db ?m))"
    "to_come thd m' = drop MAX_TXN_PER_PART (to_come thd ?m)"
    using page_disk.thread_loop_alone [OF file_page_disk [OF assms(1)] R assms(3,4) pre, where clk = clk and slp = slp
        and rnd = rnd and remote = remote and stk = stk and n = n and w = w] by blast
  then show ?thesis
    using assms(7) T(1) by (intro exI [of _ l'] exI [of _ tm'] exI [of _ m'] exI [of _ w'])
      (simp add: thread_run_def SetTxnMan_def thread_init_def thread_ready_def)
qed

text \<open>A thread whose queue holds the same query many times: the row it writes ends with the timestamp of the last commit.\<close>

lemma run_queue_demo2:
  "R 1 = Some (enc64 1 @ enc64 x) \<Longrightarrow>
   run_queue 16 ts (replicate (Suc j) demo2_query) R 1 = Some (enc64 1 @ enc64 (ts + 2 * of_nat j + 1))"
proof (induction j arbitrary: ts x R)
  case 0
  then show ?case by (simp add: apply_query_def demo2_query_def stamp_def)
next
  case (Suc j)
  have "apply_query 16 (ts + 1) demo2_query R 1 = Some (enc64 1 @ enc64 (ts + 1))"
    using Suc.prems by (simp add: apply_query_def demo2_query_def stamp_def)
  from Suc.IH [of "apply_query 16 (ts + 1) demo2_query R" "ts + 1" "ts + 2", OF this] show ?case by (simp add: algebra_simps)
qed

theorem thread_runs_queue_witness:
  "\<exists>m l tm' m' t. thread_run (\<lambda>w. (0, w)) (\<lambda>_ w. w) (\<lambda>w. (0, w)) (file_disk mem_posix) zero_locals (\<lambda>_ _ _. Inl Blocked) [] 16 1 True
      (thread_init 0 True \<lparr>thd_id = 0, host_cid = 0, cur_cid = 0, abort_buffer = [], abort_buffer_empty_slots = 0, abort_buffer_enable = False\<rparr>)
      \<lparr>tm_me = 0, tm_thd = 0, txn_id = 0, row_cnt = 0, wr_cnt = 0, accesses = [], num_accesses_alloc = 0, abort_cnt = 0, ycsb_row_cnt = 0\<rparr>
      m () = Some (Inr (FINISH, l, t, m', tm', ())) \<and>
     drow_of (file_page mem_files) 16 (mi_db m) 1 = Some (enc64 1 @ enc64 6) \<and>
     drow_of (file_page mem_files) 16 (mi_db m') 1 = Some (enc64 1 @ enc64 2000)"
proof -
  let ?inv = "file_inv mem_fdpath" and ?page = "file_page mem_files"
  have rows: "\<forall>k it. demo2_idx k = Some it \<longrightarrow> item_page_id it = 0 \<and> row_valid 16 k (row_at 16 it demo2_page)"
    using demo2_rows by (auto simp: demo2_idx_def row_valid_def split: if_splits)
  obtain d where d: "inst_ok ?inv ?page 16 d" "\<And>k it. demo2_idx k = Some it \<Longrightarrow> drow_of ?page 16 d k = Some (row_at 16 it demo2_page)"
    "db_index d = demo2_idx" "db_locks d = [0 \<mapsto> (LockNode_new 0)\<lparr>lock_mode := LM_P\<rparr>]"
    by (rule page_disk.inst_example [OF file_page_disk [OF mem_posix_laws] mem_world0_inv demo2_rows(1,2) rows]) blast
  have r: "drow_of ?page 16 d 0 = Some (enc64 0 @ enc64 5)" "drow_of ?page 16 d 1 = Some (enc64 1 @ enc64 6)"
    using d(2) [of 0] d(2) [of 1] demo2_rows(3,4) by (simp_all add: demo2_idx_def)
  let ?tx = "\<lambda>_. \<lparr>txn_ts = 0, cur_row = None, ts_ready = False\<rparr>"
  let ?ms = "map (\<lambda>k. mvcc_init (of_nat k) 16 0 0 (\<lambda>_. replicate 16 0) ?tx [] ()) [0..<2]"
  let ?m = "\<lparr>mi_instance_id = 0, mi_init_done = False, mi_timestamp = 1, mi_all_ts = [UINT64_MAX], mi_txn_man = [None],
    mi_queries = [\<lparr>q_idx = 0, queries = replicate 1000 demo2_query\<rparr>], mi_mvccs = ?ms, mi_txns = ?tx, mi_db = d\<rparr>"
  let ?new = "\<lparr>tm_me = 0, tm_thd = 0, txn_id = 0, row_cnt = 0, wr_cnt = 0, accesses = [], num_accesses_alloc = 0, abort_cnt = 0, ycsb_row_cnt = 0\<rparr>"
  let ?tm = "txn_init 0 ?new"
  have init: "InitMvccs (\<lambda>_. 0) (\<lambda>_. 0) (\<lambda>_ _. replicate 16 0) ?tx 16 2 = Inr (mi_mvccs ?m)"
    by (simp add: InitMvccs_def SYNTH_TABLE_SIZE_def)
  have pre: "inst_at ?inv ?page 16 (db_locks d) demo2_idx (mi_db ?m)"
    "\<forall>k < unat (2 :: u64). \<exists>c. drow_of ?page 16 (mi_db ?m) (of_nat k) = Some c" "tm_ready ?tm" "locks_quiet (of_nat (tm_thd ?tm)) (db_locks d)"
    using d r by (auto simp: inst_at_def less_2_cases_iff tm_ready_def txn_init_def locks_quiet_def LockNode_new_def)
  note rest = init_at_rest [OF init length_replicate pre]
  have c: "to_come 0 ?m = replicate 1000 demo2_query" by (simp add: to_come_def)
  have fits: "query_fits demo2_query ?m" by (simp add: query_fits_def demo2_query_def req_fits_def MAX_ROW_PER_TXN_def)
  have up: "stamps_upto (mi_timestamp ?m) ?m" using rest(3) by (auto simp: stamps_upto_def)
  have q: "MAX_TXN_PER_PART \<le> length (to_come 0 ?m)" "\<forall>q \<in> set (take MAX_TXN_PER_PART (to_come 0 ?m)). query_fits q ?m"
    "unat (mi_timestamp ?m) + 2 * MAX_TXN_PER_PART < 2 ^ 64 - 1" "take MAX_TXN_PER_PART (to_come 0 ?m) = replicate (Suc 999) demo2_query"
    using fits by (simp_all only: c) (simp_all add: MAX_TXN_PER_PART_def in_set_replicate del: replicate.simps)
  have h: "16 \<le> (16 :: nat)" "0 < length (mi_queries ?m)" "0 < length (mi_all_ts ?m)" "0 < length (mi_txn_man ?m)" by simp_all
  let ?t = "\<lparr>thd_id = 0, host_cid = 0, cur_cid = 0, abort_buffer = [], abort_buffer_empty_slots = 0, abort_buffer_enable = False\<rparr>"
  obtain l tm' m' w' where "thread_run (\<lambda>w. (0, w)) (\<lambda>_ w. w) (\<lambda>w. (0, w)) (file_disk mem_posix) zero_locals (\<lambda>_ _ _. Inl Blocked) [] 16 1 True
      (thread_init 0 True ?t) ?new ?m () = Some (Inr (FINISH, l, thread_init 0 True ?t, m', tm', w'))"
    "drow_of ?page 16 (mi_db m') = run_queue 16 (mi_timestamp ?m) (take MAX_TXN_PER_PART (to_come 0 ?m)) (drow_of ?page 16 (mi_db ?m))"
    using thread_runs_queue [OF mem_posix_laws rest(1) zero_locals_buf h q(1,2) up q(3), where clk = "\<lambda>w. (0, w)" and slp = "\<lambda>_ w. w"
        and rnd = "\<lambda>w. (0, w)" and remote = "\<lambda>_ _ _. Inl Blocked" and stk = "[]" and n = 1 and w = "()" and en = True and t = ?t]
    by (elim exE conjE) (rule that; assumption)
  moreover have "run_queue 16 1 (replicate (Suc 999) demo2_query) (drow_of ?page 16 d) 1 = Some (enc64 1 @ enc64 2000)"
    using run_queue_demo2 [of "drow_of ?page 16 d" 6 1 999] r(2) by simp
  ultimately show ?thesis using r(2) q(4) by (intro exI [of _ ?m] exI [of _ l] exI [of _ tm'] exI [of _ m'] exI [of _ "thread_init 0 True ?t"]) simp
qed

end
