(* ===== verification/Schema.thy ===== *)
theory Schema
  imports Record_Index "HOL-Library.Sublist"
begin

text \<open>
  \<open>common/storage/catalog.cpp\<close>, \<open>table.cpp\<close>, the columns of \<open>tablespace/row_item.cpp\<close> and \<open>workload::init_schema\<close>
  (\<open>common/workload/wl.cpp\<close>): the description of the tables' columns, read from a text file. Pointers to
  \<open>Catalog\<close> objects are positions in a list of objects.
\<close>

section \<open>Catalog\<close>

record column =
  col_id :: u64
  col_size :: u32
  col_index :: u32
  col_type :: string
  col_name :: string

record catalog =
  field_cnt :: u32
  cat_table_name :: string
  columns :: "column list"
  tuple_size :: u32

text \<open>\<open>jc\<close> are the uninitialised columns of the new array.\<close>

definition Catalog_init :: "(nat \<Rightarrow> column) \<Rightarrow> string \<Rightarrow> nat \<Rightarrow> catalog \<Rightarrow> catalog" where
  "Catalog_init jc name n c = c\<lparr>cat_table_name := name, field_cnt := 0, columns := map jc [0..<n], tuple_size := 0\<rparr>"

definition add_col :: "string \<Rightarrow> u64 \<Rightarrow> string \<Rightarrow> catalog \<Rightarrow> catalog res" where
  "add_col name sz ty c =
     (if unat (field_cnt c) < length (columns c)
      then Inr (c\<lparr>columns := (columns c)[unat (field_cnt c) :=
                    \<lparr>col_id = ucast (field_cnt c), col_size = ucast sz, col_index = tuple_size c, col_type = ty, col_name = name\<rparr>],
                  tuple_size := ucast (ucast (tuple_size c) + sz), field_cnt := field_cnt c + 1\<rparr>)
      else Inl Out_Of_Bounds)"

definition column_at :: "nat \<Rightarrow> catalog \<Rightarrow> column res" where
  "column_at i c = (if i < length (columns c) then Inr (columns c ! i) else Inl Out_Of_Bounds)"

definition get_tuple_size :: "catalog \<Rightarrow> u32" where
  "get_tuple_size c = tuple_size c"

definition get_field_cnt :: "catalog \<Rightarrow> u64" where
  "get_field_cnt c = ucast (field_cnt c)"

definition get_field_size :: "nat \<Rightarrow> catalog \<Rightarrow> u64 res" where
  "get_field_size i c = rbind (column_at i c) (\<lambda>x. Inr (ucast (col_size x)))"

definition get_field_index :: "nat \<Rightarrow> catalog \<Rightarrow> u64 res" where
  "get_field_index i c = rbind (column_at i c) (\<lambda>x. Inr (ucast (col_index x)))"

definition get_field_type :: "nat \<Rightarrow> catalog \<Rightarrow> string res" where
  "get_field_type i c = rbind (column_at i c) (\<lambda>x. Inr (col_type x))"

definition get_field_name :: "nat \<Rightarrow> catalog \<Rightarrow> string res" where
  "get_field_name i c = rbind (column_at i c) (\<lambda>x. Inr (col_name x))"

text \<open>The comparison is \<open>find\<close>: the column's name contains the wanted one.\<close>

fun find_column :: "string \<Rightarrow> nat \<Rightarrow> nat \<Rightarrow> catalog \<Rightarrow> nat res" where
  "find_column name 0 i c = Inr i"
| "find_column name (Suc n) i c =
     rbind (column_at i c) (\<lambda>x. if sublist name (col_name x) then Inr i else find_column name n (Suc i) c)"

definition get_field_id :: "string \<Rightarrow> catalog \<Rightarrow> nat res" where
  "get_field_id name c =
     rbind (find_column name (unat (field_cnt c)) 0 c) (\<lambda>i. asserting (i < unat (field_cnt c)) (Inr i))"

definition get_field_type_by_name :: "string \<Rightarrow> catalog \<Rightarrow> string res" where
  "get_field_type_by_name name c = rbind (get_field_id name c) (\<lambda>i. get_field_type i c)"

definition get_field_index_by_name :: "string \<Rightarrow> catalog \<Rightarrow> u64 res" where
  "get_field_index_by_name name c = rbind (get_field_id name c) (\<lambda>i. get_field_index i c)"

section \<open>Values of a row\<close>

text \<open>\<open>RowItem::set_value\<close> and \<open>get_value\<close>, on the bytes \<open>data\<close> points to and the catalog of the row's table.\<close>

definition set_value_sized :: "nat \<Rightarrow> bytes \<Rightarrow> nat \<Rightarrow> catalog \<Rightarrow> bytes \<Rightarrow> bytes res" where
  "set_value_sized i src n c data =
     rbind (get_field_index i c) (\<lambda>pos. rbind (read_at src 0 n) (\<lambda>b. memcpy_at data (unat pos) b))"

definition set_value :: "nat \<Rightarrow> bytes \<Rightarrow> catalog \<Rightarrow> bytes \<Rightarrow> bytes res" where
  "set_value i src c data = rbind (get_field_size i c) (\<lambda>n. set_value_sized i src (unat n) c data)"

definition set_value_by_name :: "string \<Rightarrow> bytes \<Rightarrow> catalog \<Rightarrow> bytes \<Rightarrow> bytes res" where
  "set_value_by_name name src c data = rbind (get_field_id name c) (\<lambda>i. set_value i src c data)"

text \<open>\<open>get_value\<close> returns a pointer: the bytes from the column on.\<close>

definition get_value :: "nat \<Rightarrow> catalog \<Rightarrow> bytes \<Rightarrow> bytes res" where
  "get_value i c data = rbind (get_field_index i c) (\<lambda>pos. Inr (drop (unat pos) data))"

definition get_value_by_name :: "string \<Rightarrow> catalog \<Rightarrow> bytes \<Rightarrow> bytes res" where
  "get_value_by_name name c data = rbind (get_field_index_by_name name c) (\<lambda>pos. Inr (drop (unat pos) data))"

section \<open>Reading the description\<close>

text \<open>
  An input file: \<open>getline\<close> on a stream that is no longer good leaves its string argument as it is; at the end of
  the text it clears it; a last line without line feed is delivered, and the stream is at its end.
\<close>

record ifstream =
  text_left :: string
  is_good :: bool

definition getline :: "ifstream \<Rightarrow> string \<Rightarrow> bool \<times> string \<times> ifstream" where
  "getline f line =
     (if \<not> is_good f then (False, line, f)
      else if text_left f = [] then (False, [], f\<lparr>is_good := False\<rparr>)
      else let l = takeWhile (\<lambda>c. c \<noteq> CHR 0x0A) (text_left f); r = dropWhile (\<lambda>c. c \<noteq> CHR 0x0A) (text_left f) in
        (True, l, \<lparr>text_left = tl r, is_good = (r \<noteq> [])\<rparr>))"

text \<open>\<open>atoi\<close>; a value that is no \<open>int\<close> is undefined behaviour.\<close>

definition atoi :: "string \<Rightarrow> int res" where
  "atoi s =
     (let t = dropWhile is_space s;
          u = (if t = [] then [] else skip_sign t);
          v = int (dec_value (takeWhile is_digit u));
          n = (if t \<noteq> [] \<and> hd t = CHR ''-'' then - v else v) in
      if - (2 ^ 31) \<le> n \<and> n < 2 ^ 31 then Inr n else Inl Out_Of_Bounds)"

text \<open>The tokens of a line; there is no empty token at its end.\<close>

function tokens :: "string \<Rightarrow> string list" where
  "tokens [] = []"
| "tokens (c # s) = takeWhile (\<lambda>x. x \<noteq> CHR '','') (c # s) # tokens (tl (dropWhile (\<lambda>x. x \<noteq> CHR '','') (c # s)))"
  by pat_completeness auto
termination
proof (relation "measure length")
  show "(tl (dropWhile (\<lambda>x. x \<noteq> CHR '','') (c # s)), c # s) \<in> measure length" for c s
    using length_dropWhile_le [of "\<lambda>x. x \<noteq> CHR '',''" s] by (auto simp: length_tl)
qed simp

text \<open>The first token is converted before the number of tokens is known.\<close>

definition parse_column :: "string \<Rightarrow> (string \<times> u64 \<times> string) res" where
  "parse_column line =
     (case tokens line of
        [] \<Rightarrow> Inl Assert_Fail
      | a # ts \<Rightarrow> rbind (atoi a) (\<lambda>n.
          case ts of [ty, name] \<Rightarrow> Inr (name, of_int n, ty) | _ \<Rightarrow> Inl Assert_Fail))"

fun add_columns :: "string list \<Rightarrow> catalog \<Rightarrow> catalog res" where
  "add_columns [] c = Inr c"
| "add_columns (l # ls) c = rbind (parse_column l) (\<lambda>(name, sz, ty). rbind (add_col name sz ty c) (add_columns ls))"

partial_function (option) read_fields :: "string \<Rightarrow> ifstream \<Rightarrow> string list \<Rightarrow> (string list \<times> string \<times> ifstream) option" where
  "read_fields line f acc =
     (if length line > 1
      then (case getline f line of (_, line', f') \<Rightarrow> read_fields line' f' (acc @ [line]))
      else Some (acc, line, f))"

text \<open>A table knows its name and its catalog; the tables of a workload by name.\<close>

record table =
  table_name :: string
  table_schema :: nat

record wl_state =
  catalogs :: "catalog list"
  tables :: "string \<Rightarrow> table option"

definition table_init :: "nat \<Rightarrow> catalog \<Rightarrow> table" where
  "table_init p c = \<lparr>table_name = cat_table_name c, table_schema = p\<rparr>"

text \<open>One table of the description: the one catalog \<open>p\<close> of the call is filled again.\<close>

definition add_table :: "(nat \<Rightarrow> column) \<Rightarrow> nat \<Rightarrow> string \<Rightarrow> string list \<Rightarrow> wl_state \<Rightarrow> wl_state res" where
  "add_table jc p tname ls w =
     rbind (add_columns ls (Catalog_init jc tname (length ls) (catalogs w ! p))) (\<lambda>c.
     Inr (w\<lparr>catalogs := (catalogs w)[p := c], tables := (tables w)(tname \<mapsto> table_init p c)\<rparr>))"

partial_function (option) schema_loop :: "(nat \<Rightarrow> column) \<Rightarrow> nat \<Rightarrow> ifstream \<Rightarrow> string \<Rightarrow> wl_state \<Rightarrow> wl_state res option" where
  "schema_loop jc p f line w =
     (case getline f line of (ok, l1, f1) \<Rightarrow>
      if \<not> ok then Some (Inr w)
      else if take 6 l1 = ''TABLE=''
      then (case getline f1 l1 of (_, l2, f2) \<Rightarrow>
            case read_fields l2 f2 [] of
              None \<Rightarrow> None
            | Some (ls, l3, f3) \<Rightarrow>
                (case add_table jc p (drop 6 l1) ls w of
                   Inl e \<Rightarrow> Some (Inl e)
                 | Inr w1 \<Rightarrow> schema_loop jc p f3 l3 w1))
      else schema_loop jc p f1 l1 w)"

text \<open>A file that cannot be opened is a stream that is not good. The fields of the new catalog are not read before they are set.\<close>

definition init_schema :: "(nat \<Rightarrow> column) \<Rightarrow> string option \<Rightarrow> wl_state \<Rightarrow> wl_state res option" where
  "init_schema jc file w =
     schema_loop jc (length (catalogs w))
       (case file of None \<Rightarrow> \<lparr>text_left = [], is_good = False\<rparr> | Some text \<Rightarrow> \<lparr>text_left = text, is_good = True\<rparr>) []
       (w\<lparr>catalogs := catalogs w @ [\<lparr>field_cnt = 0, cat_table_name = [], columns = [], tuple_size = 0\<rparr>]\<rparr>)"

text \<open>\<open>tables["MAIN_TABLE"]\<close> creates a null entry if there is none.\<close>

definition ycsb_init_schema :: "(nat \<Rightarrow> column) \<Rightarrow> string option \<Rightarrow> wl_state \<Rightarrow> (table option \<times> wl_state) res option" where
  "ycsb_init_schema jc file w =
     map_option (\<lambda>r. rbind r (\<lambda>w1. Inr (tables w1 ''MAIN_TABLE'', w1))) (init_schema jc file w)"

section \<open>Well-formed catalogs\<close>

lemma unat_to_u32: "unat (ucast w :: u32) = unat w mod 2 ^ 32" for w :: u64
  by (simp add: unsigned_ucast_eq take_bit_eq_mod)

lemma unat_to_u64 [simp]: "unat (ucast w :: u64) = unat w" for w :: u32
proof -
  have "unat w < 2 ^ 32" using unsigned_less [of w] by simp
  then show ?thesis by (simp add: unsigned_ucast_eq take_bit_eq_mod)
qed

text \<open>The columns lie one behind the other and fill the row; \<open>n\<close> of them have been set.\<close>

definition columns_from :: "nat \<Rightarrow> catalog \<Rightarrow> bool" where
  "columns_from n c \<longleftrightarrow> unat (field_cnt c) = n \<and> n \<le> length (columns c) \<and>
     unat (tuple_size c) = sum_list (map (unat \<circ> col_size) (take n (columns c))) \<and>
     (\<forall>i < n. unat (col_id (columns c ! i)) = i \<and>
        unat (col_index (columns c ! i)) = sum_list (map (unat \<circ> col_size) (take i (columns c))))"

definition catalog_wf :: "catalog \<Rightarrow> bool" where
  "catalog_wf c \<longleftrightarrow> columns_from (length (columns c)) c"

lemma columns_from_init: "columns_from 0 (Catalog_init jc name n c)"
  by (simp add: columns_from_def Catalog_init_def)

lemma add_col_ok:
  assumes c: "columns_from n c" and n: "n < length (columns c)" "n + 1 < 2 ^ 32" and sz: "unat (tuple_size c) + unat sz < 2 ^ 32"
  obtains c' where "add_col name sz ty c = Inr c'" and "columns_from (Suc n) c'" and "length (columns c') = length (columns c)"
    and "cat_table_name c' = cat_table_name c" and "unat (tuple_size c') = unat (tuple_size c) + unat sz"
    and "\<forall>i < n. columns c' ! i = columns c ! i"
    and "col_name (columns c' ! n) = name" and "col_type (columns c' ! n) = ty" and "unat (col_size (columns c' ! n)) = unat sz"
proof -
  let ?x = "\<lparr>col_id = ucast (field_cnt c), col_size = ucast sz, col_index = tuple_size c, col_type = ty, col_name = name\<rparr>"
  let ?c = "c\<lparr>columns := (columns c)[n := ?x], tuple_size := ucast (ucast (tuple_size c) + sz), field_cnt := field_cnt c + 1\<rparr>"
  have f: "unat (field_cnt c) = n" using c by (simp add: columns_from_def)
  have small: "unat sz < 2 ^ 32" using sz by simp
  have us: "unat (ucast sz :: u32) = unat sz" using small by (simp add: unat_to_u32)
  have sum: "unat (ucast (tuple_size c) + sz :: u64) = unat (tuple_size c) + unat sz"
    using sz by (subst unat_add_lem [THEN iffD1]) (simp_all add: unat_to_u32)
  have ts: "unat (ucast (ucast (tuple_size c) + sz :: u64) :: u32) = unat (tuple_size c) + unat sz"
    using sz sum by (simp add: unat_to_u32)
  have fc: "unat (field_cnt c + 1) = Suc n" using n f by (subst unat_add_lem [THEN iffD1]) simp_all
  have run: "add_col name sz ty c = Inr ?c" using f n by (simp add: add_col_def)
  have cols: "columns_from (Suc n) ?c"
    unfolding columns_from_def
  proof (intro conjI allI impI)
    show "unat (tuple_size ?c) = sum_list (map (unat \<circ> col_size) (take (Suc n) (columns ?c)))"
      using c n ts us by (simp add: columns_from_def take_Suc_conv_app_nth)
    fix i assume i: "i < Suc n"
    show "unat (col_id (columns ?c ! i)) = i"
      using c n i f by (cases "i = n") (simp_all add: columns_from_def unat_to_u32)
    show "unat (col_index (columns ?c ! i)) = sum_list (map (unat \<circ> col_size) (take i (columns ?c)))"
      using c n i f by (cases "i = n") (simp_all add: columns_from_def)
  qed (use n fc in simp_all)
  show ?thesis by (rule that [OF run cols]) (use n ts us in simp_all)
qed

text \<open>What a column says: name, size, type.\<close>

definition col_data :: "column \<Rightarrow> string \<times> nat \<times> string" where
  "col_data x = (col_name x, unat (col_size x), col_type x)"

lemma add_columns_ok:
  assumes "list_all2 (\<lambda>l (name, sz, ty). parse_column l = Inr (name, of_nat sz, ty) \<and> sz < 2 ^ 32) ls ds"
    and "columns_from n c" and "length (columns c) = n + length ls" and "n + length ls < 2 ^ 32"
    and "unat (tuple_size c) + sum_list (map (fst \<circ> snd) ds) < 2 ^ 32"
  shows "\<exists>c'. add_columns ls c = Inr c' \<and> catalog_wf c' \<and> cat_table_name c' = cat_table_name c \<and> length (columns c') = length (columns c) \<and>
    map col_data (columns c') = map col_data (take n (columns c)) @ ds"
  using assms
proof (induction ls arbitrary: n c ds)
  case Nil
  then show ?case by (simp add: catalog_wf_def)
next
  case (Cons l ls)
  from Cons.prems(1) obtain name sz ty ds' where ds: "ds = (name, sz, ty) # ds'" and l: "parse_column l = Inr (name, of_nat sz, ty)" "sz < 2 ^ 32"
    and ls: "list_all2 (\<lambda>l (name, sz, ty). parse_column l = Inr (name, of_nat sz, ty) \<and> sz < 2 ^ 32) ls ds'"
    by (cases ds) auto
  have usz: "unat (of_nat sz :: u64) = sz" using l(2) by (simp add: unat_of_nat)
  have n: "n < length (columns c)" "n + 1 < 2 ^ 32" using Cons.prems(3,4) by auto
  obtain c1 where c1: "add_col name (of_nat sz) ty c = Inr c1" "columns_from (Suc n) c1" "length (columns c1) = length (columns c)"
      "cat_table_name c1 = cat_table_name c" "unat (tuple_size c1) = unat (tuple_size c) + unat (of_nat sz :: u64)"
      "\<forall>i < n. columns c1 ! i = columns c ! i"
      "col_name (columns c1 ! n) = name" "col_type (columns c1 ! n) = ty" "unat (col_size (columns c1 ! n)) = unat (of_nat sz :: u64)"
    by (rule add_col_ok [OF Cons.prems(2) n, of "of_nat sz" name ty]) (use Cons.prems(5) ds usz in auto)
  have tk: "take (Suc n) (columns c1) = take n (columns c) @ [columns c1 ! n]"
  proof -
    have "take n (columns c1) = take n (columns c)" using c1(3,6) n(1) by (intro nth_equalityI) auto
    then show ?thesis using c1(3) n(1) by (simp add: take_Suc_conv_app_nth)
  qed
  have "\<exists>c'. add_columns ls c1 = Inr c' \<and> catalog_wf c' \<and> cat_table_name c' = cat_table_name c1 \<and> length (columns c') = length (columns c1) \<and>
      map col_data (columns c') = map col_data (take (Suc n) (columns c1)) @ ds'"
    by (rule Cons.IH [OF ls c1(2)]) (use Cons.prems ds usz c1 in auto)
  then show ?case using l c1 ds tk usz by (auto simp: col_data_def [of "columns c1 ! n"])
qed

section \<open>Values in columns\<close>

lemma columns_apart:
  fixes f :: "'a \<Rightarrow> nat"
  assumes "i < j" and "j \<le> length xs"
  shows "sum_list (map f (take i xs)) + f (xs ! i) \<le> sum_list (map f (take j xs))"
proof -
  have "take j xs = take (Suc i) xs @ drop (Suc i) (take j xs)"
    using assms(1) append_take_drop_id [of "Suc i" "take j xs"] by (simp add: min_def)
  then have "sum_list (map f (take j xs)) = sum_list (map f (take (Suc i) xs)) + sum_list (map f (drop (Suc i) (take j xs)))"
    by (metis map_append sum_list_append)
  moreover have "take (Suc i) xs = take i xs @ [xs ! i]" using assms by (simp add: take_Suc_conv_app_nth)
  ultimately show ?thesis by simp
qed

lemma column_span:
  assumes c: "catalog_wf c" and i: "i < length (columns c)"
  shows "unat (col_index (columns c ! i)) + unat (col_size (columns c ! i)) \<le> unat (tuple_size c)"
    and "j < length (columns c) \<Longrightarrow> i < j \<Longrightarrow>
      unat (col_index (columns c ! i)) + unat (col_size (columns c ! i)) \<le> unat (col_index (columns c ! j))"
  using columns_apart [of i "length (columns c)" "columns c" "unat \<circ> col_size"] columns_apart [of i j "columns c" "unat \<circ> col_size"] c i
  by (simp_all add: catalog_wf_def columns_from_def)

text \<open>The bytes of a column in a row.\<close>

definition field_value :: "nat \<Rightarrow> catalog \<Rightarrow> bytes \<Rightarrow> bytes" where
  "field_value i c data = take (unat (col_size (columns c ! i))) (drop (unat (col_index (columns c ! i))) data)"

lemma memcpy_field:
  assumes "pos + length b \<le> length data"
  obtains data' where "memcpy_at data pos b = Inr data'" and "length data' = length data" and "take (length b) (drop pos data') = b"
    and "\<forall>p n. p + n \<le> pos \<or> pos + length b \<le> p \<longrightarrow> take n (drop p data') = take n (drop p data)"
proof -
  let ?d = "take pos data @ b @ drop (pos + length b) data"
  have "take n (drop p ?d) = take n (drop p data)" if "p + n \<le> pos \<or> pos + length b \<le> p" for p n
    using that
  proof
    assume "p + n \<le> pos"
    then show ?thesis using assms by (simp add: take_drop min_def)
  next
    assume "pos + length b \<le> p"
    then show ?thesis using assms by (simp add: drop_append min_def)
  qed
  then show ?thesis using assms by (intro that [of ?d]) (simp_all add: memcpy_at_def)
qed

lemma set_value_ok:
  assumes c: "catalog_wf c" and i: "i < length (columns c)" and d: "length data = unat (tuple_size c)"
    and b: "unat (col_size (columns c ! i)) \<le> length src"
  obtains data' where "set_value i src c data = Inr data'" and "length data' = length data"
    and "field_value i c data' = take (unat (col_size (columns c ! i))) src"
    and "\<forall>j < length (columns c). j \<noteq> i \<longrightarrow> field_value j c data' = field_value j c data"
proof -
  let ?n = "unat (col_size (columns c ! i))" and ?p = "unat (col_index (columns c ! i))"
  have len: "length (take ?n src) = ?n" using b by simp
  have "?p + length (take ?n src) \<le> length data" using column_span(1) [OF c i] d len by simp
  then obtain data' where m: "memcpy_at data ?p (take ?n src) = Inr data'" "length data' = length data"
      "take ?n (drop ?p data') = take ?n src"
      "\<forall>p n. p + n \<le> ?p \<or> ?p + ?n \<le> p \<longrightarrow> take n (drop p data') = take n (drop p data)"
    using memcpy_field [of ?p "take ?n src" data] len by metis
  have run: "set_value i src c data = Inr data'"
    using m(1) i b by (simp add: set_value_def set_value_sized_def get_field_size_def get_field_index_def column_at_def read_at_def)
  have "field_value j c data' = field_value j c data" if j: "j < length (columns c)" "j \<noteq> i" for j
    using m(4) column_span(2) [OF c i j(1)] column_span(2) [OF c j(1) i] j(2) by (cases "i < j") (simp_all add: field_value_def)
  then have "\<forall>j < length (columns c). j \<noteq> i \<longrightarrow> field_value j c data' = field_value j c data" by blast
  from that [OF run m(2) _ this] show ?thesis using m(3) by (simp add: field_value_def)
qed

end
