(* ===== verification/Schema_Props.thy ===== *)
theory Schema_Props
  imports Schema
begin

text \<open>
  The reader of table descriptions: what it makes of a well-formed file, that it does not end on a file that breaks off
  inside a table, and that the columns of a catalog divide a row.
\<close>

section \<open>Printed descriptions\<close>

text \<open>A column is name, size and type; a file is a list of other lines and of tables.\<close>

type_synonym coldef = "string \<times> nat \<times> string"
type_synonym tabledef = "string \<times> coldef list"

definition col_line :: "coldef \<Rightarrow> string" where
  "col_line d = (case d of (name, sz, ty) \<Rightarrow> CHR 0x09 # dec_string sz @ CHR '','' # ty @ CHR '','' # name)"

definition lines_text :: "string list \<Rightarrow> string" where
  "lines_text ls = concat (map (\<lambda>l. l @ [CHR 0x0A]) ls)"

definition item_lines :: "string + tabledef \<Rightarrow> string list" where
  "item_lines x = (case x of Inl l \<Rightarrow> [l] | Inr (name, ds) \<Rightarrow> (''TABLE='' @ name) # map col_line ds @ [[]])"

definition schema_text :: "(string + tabledef) list \<Rightarrow> string" where
  "schema_text xs = lines_text (concat (map item_lines xs))"

definition word_ok :: "string \<Rightarrow> bool" where
  "word_ok s \<longleftrightarrow> CHR '','' \<notin> set s \<and> CHR 0x0A \<notin> set s"

definition col_fits :: "coldef \<Rightarrow> bool" where
  "col_fits d \<longleftrightarrow> (case d of (name, sz, ty) \<Rightarrow> name \<noteq> [] \<and> word_ok name \<and> word_ok ty \<and> sz < 2 ^ 31)"

definition item_fits :: "string + tabledef \<Rightarrow> bool" where
  "item_fits x \<longleftrightarrow>
     (case x of
        Inl l \<Rightarrow> CHR 0x0A \<notin> set l \<and> take 6 l \<noteq> ''TABLE=''
      | Inr (name, ds) \<Rightarrow> CHR 0x0A \<notin> set name \<and> list_all col_fits ds \<and> length ds < 2 ^ 32 \<and> sum_list (map (fst \<circ> snd) ds) < 2 ^ 32)"

section \<open>Lines and tokens\<close>

lemma lines_text_simps [simp]: "lines_text [] = []" "lines_text (l # ls) = l @ CHR 0x0A # lines_text ls"
  by (simp_all add: lines_text_def)

lemma getline_line:
  assumes "CHR 0x0A \<notin> set l"
  shows "getline \<lparr>text_left = l @ CHR 0x0A # r, is_good = True\<rparr> old = (True, l, \<lparr>text_left = r, is_good = True\<rparr>)"
proof -
  have "takeWhile (\<lambda>c. c \<noteq> CHR 0x0A) (l @ CHR 0x0A # r) = l" "dropWhile (\<lambda>c. c \<noteq> CHR 0x0A) (l @ CHR 0x0A # r) = CHR 0x0A # r"
    using assms by (induction l) auto
  then show ?thesis by (simp add: getline_def Let_def)
qed

lemma getline_end: "getline \<lparr>text_left = [], is_good = True\<rparr> old = (False, [], \<lparr>text_left = [], is_good = False\<rparr>)"
  by (simp add: getline_def)

lemma tokens_step: "CHR '','' \<notin> set a \<Longrightarrow> tokens (a @ CHR '','' # r) = a # tokens r"
proof -
  assume a: "CHR '','' \<notin> set a"
  have "takeWhile (\<lambda>x. x \<noteq> CHR '','') (a @ CHR '','' # r) = a" "dropWhile (\<lambda>x. x \<noteq> CHR '','') (a @ CHR '','' # r) = CHR '','' # r"
    using a by (induction a) auto
  moreover obtain c s where cs: "a @ CHR '','' # r = c # s" by (cases a) auto
  ultimately show ?thesis unfolding cs by simp
qed

lemma tokens_last: "CHR '','' \<notin> set a \<Longrightarrow> a \<noteq> [] \<Longrightarrow> tokens a = [a]"
proof -
  assume a: "CHR '','' \<notin> set a" "a \<noteq> []"
  have "takeWhile (\<lambda>x. x \<noteq> CHR '','') a = a" "dropWhile (\<lambda>x. x \<noteq> CHR '','') a = []"
    using a(1) by (induction a) auto
  moreover obtain c s where cs: "a = c # s" using a(2) by (cases a) auto
  ultimately show ?thesis unfolding cs by simp
qed

lemma dec_string_all: "c \<in> set (dec_string n) \<Longrightarrow> is_digit c"
  by (induction n rule: dec_string.induct) (subst (asm) dec_string.simps, auto split: if_splits)

lemma digit_neqs: "is_digit c \<Longrightarrow> c \<noteq> CHR '','' \<and> c \<noteq> CHR 0x0A \<and> c \<noteq> CHR ''-'' \<and> c \<noteq> CHR ''+'' \<and> \<not> is_space c"
  by (auto simp: is_digit_def is_space_def)

lemma atoi_dec: "n < 2 ^ 31 \<Longrightarrow> atoi (CHR 0x09 # dec_string n) = Inr (int n)"
proof -
  assume n: "n < 2 ^ 31"
  obtain c s where cs: "dec_string n = c # s" by (cases "dec_string n") (subst (asm) dec_string.simps, auto split: if_splits)
  have "is_digit c" using dec_string_all [of c n] cs by simp
  then have "dropWhile is_space (CHR 0x09 # dec_string n) = dec_string n" "skip_sign (dec_string n) = dec_string n"
      "hd (dec_string n) \<noteq> CHR ''-''" "dec_string n \<noteq> []"
    using digit_neqs [of c] by (simp_all add: cs is_space_def skip_sign_def)
  moreover have tw: "takeWhile is_digit (dec_string n) = dec_string n" using dec_string_all by (simp add: takeWhile_eq_all_conv)
  ultimately show ?thesis using n by (simp add: atoi_def Let_def tw del: takeWhile_eq_all_conv)
qed

lemma parse_col_line:
  assumes "col_fits (name, sz, ty)"
  shows "parse_column (col_line (name, sz, ty)) = Inr (name, of_nat sz, ty)"
proof -
  have "CHR '','' \<notin> set (CHR 0x09 # dec_string sz)" using dec_string_all digit_neqs by fastforce
  from tokens_step [OF this, of "ty @ CHR '','' # name"]
  have "tokens (col_line (name, sz, ty)) = [CHR 0x09 # dec_string sz, ty, name]"
    using assms by (simp add: col_line_def col_fits_def word_ok_def tokens_step tokens_last)
  then show ?thesis using assms by (simp add: parse_column_def atoi_dec col_fits_def)
qed

lemma col_line_ok: "col_fits d \<Longrightarrow> CHR 0x0A \<notin> set (col_line d) \<and> 1 < length (col_line d)"
  using dec_string_all digit_neqs by (cases d) (fastforce simp: col_line_def col_fits_def word_ok_def)

section \<open>The loops\<close>

lemma read_fields_ok:
  assumes "\<forall>l \<in> set (l0 # ls). CHR 0x0A \<notin> set l \<and> 1 < length l"
  shows "read_fields l0 \<lparr>text_left = lines_text ls @ CHR 0x0A # r, is_good = True\<rparr> acc =
    Some (acc @ l0 # ls, [], \<lparr>text_left = r, is_good = True\<rparr>)"
  using assms
proof (induction ls arbitrary: l0 acc)
  case Nil
  then show ?case using getline_line [of "[]" r l0] by (subst read_fields.simps, simp, subst read_fields.simps, simp)
next
  case (Cons l ls)
  have "read_fields l0 \<lparr>text_left = lines_text (l # ls) @ CHR 0x0A # r, is_good = True\<rparr> acc =
      read_fields l \<lparr>text_left = lines_text ls @ CHR 0x0A # r, is_good = True\<rparr> (acc @ [l0])"
    using Cons.prems getline_line [of l "lines_text ls @ CHR 0x0A # r" l0] by (subst read_fields.simps) simp
  then show ?case using Cons.IH [of l "acc @ [l0]"] Cons.prems by simp
qed

text \<open>The lines of a table, from the line read behind its first one.\<close>

lemma read_table:
  assumes "\<forall>l \<in> set ls. CHR 0x0A \<notin> set l \<and> 1 < length l"
  obtains l2 f2 ok where "getline \<lparr>text_left = lines_text (ls @ [[]]) @ r, is_good = True\<rparr> l1 = (ok, l2, f2)"
    and "read_fields l2 f2 [] = Some (ls, [], \<lparr>text_left = r, is_good = True\<rparr>)"
proof (cases ls)
  case Nil
  have "read_fields [] \<lparr>text_left = r, is_good = True\<rparr> [] = Some ([], [], \<lparr>text_left = r, is_good = True\<rparr>)"
    by (subst read_fields.simps) simp
  then show ?thesis using that getline_line [of "[]" r l1] Nil by simp
next
  case (Cons l ls')
  have "lines_text (ls' @ [[]]) = lines_text ls' @ [CHR 0x0A]" by (simp add: lines_text_def)
  then have "getline \<lparr>text_left = lines_text (ls @ [[]]) @ r, is_good = True\<rparr> l1 =
      (True, l, \<lparr>text_left = lines_text ls' @ CHR 0x0A # r, is_good = True\<rparr>)"
    using getline_line [of l "lines_text ls' @ CHR 0x0A # r" l1] assms Cons by simp
  then show ?thesis by (rule that) (use read_fields_ok [of l ls' r "[]"] assms Cons in simp)
qed

lemma add_table_ok:
  assumes "item_fits (Inr (name, ds))" and p: "p < length (catalogs w)"
  obtains c where "add_table jc p name (map col_line ds) w =
      Inr (w\<lparr>catalogs := (catalogs w)[p := c], tables := (tables w)(name \<mapsto> \<lparr>table_name = name, table_schema = p\<rparr>)\<rparr>)"
    and "catalog_wf c" and "cat_table_name c = name" and "map col_data (columns c) = ds"
proof -
  let ?c = "Catalog_init jc name (length (map col_line ds)) (catalogs w ! p)"
  have fits: "list_all col_fits ds" using assms(1) by (simp add: item_fits_def)
  have "list_all2 (\<lambda>l (nm, sz, ty). parse_column l = Inr (nm, of_nat sz, ty) \<and> sz < 2 ^ 32) (map col_line ds) ds"
    using fits by (induction ds) (auto simp: parse_col_line, simp add: col_fits_def)
  then have "\<exists>c'. add_columns (map col_line ds) ?c = Inr c' \<and> catalog_wf c' \<and> cat_table_name c' = cat_table_name ?c \<and>
      length (columns c') = length (columns ?c) \<and> map col_data (columns c') = map col_data (take 0 (columns ?c)) @ ds"
    by (rule add_columns_ok [OF _ columns_from_init]) (use assms(1) in \<open>simp_all add: Catalog_init_def item_fits_def\<close>)
  then obtain c where c: "add_columns (map col_line ds) ?c = Inr c" "catalog_wf c" "cat_table_name c = name" "map col_data (columns c) = ds"
    by (auto simp: Catalog_init_def)
  show ?thesis by (rule that [OF _ c(2,3,4)]) (use c in \<open>simp add: add_table_def table_init_def\<close>)
qed

definition tables_of :: "(string + tabledef) list \<Rightarrow> tabledef list" where
  "tables_of xs = List.map_filter (\<lambda>x. case x of Inl _ \<Rightarrow> None | Inr t \<Rightarrow> Some t) xs"

lemma tables_of_simps [simp]:
  "tables_of [] = []" "tables_of (Inl l # xs) = tables_of xs" "tables_of (Inr t # xs) = t # tables_of xs"
  by (simp_all add: tables_of_def List.map_filter_simps)

text \<open>What is read of a file: every table is known, and the one catalog describes the last of them.\<close>

definition described :: "nat \<Rightarrow> tabledef list \<Rightarrow> wl_state \<Rightarrow> wl_state \<Rightarrow> bool" where
  "described p ts w w' \<longleftrightarrow> length (catalogs w') = length (catalogs w) \<and> (\<forall>q. q \<noteq> p \<longrightarrow> catalogs w' ! q = catalogs w ! q) \<and>
     tables w' = (\<lambda>n. if n \<in> fst ` set ts then Some \<lparr>table_name = n, table_schema = p\<rparr> else tables w n) \<and>
     (if ts = [] then catalogs w' ! p = catalogs w ! p
      else catalog_wf (catalogs w' ! p) \<and> cat_table_name (catalogs w' ! p) = fst (last ts) \<and>
        map col_data (columns (catalogs w' ! p)) = snd (last ts))"

lemma described_table:
  assumes "described p ts (w\<lparr>catalogs := (catalogs w)[p := c], tables := (tables w)(name \<mapsto> \<lparr>table_name = name, table_schema = p\<rparr>)\<rparr>) w'"
    and "p < length (catalogs w)" and "catalog_wf c" and "cat_table_name c = name" and "map col_data (columns c) = ds"
  shows "described p ((name, ds) # ts) w w'"
  using assms by (cases "ts = []") (auto simp: described_def fun_eq_iff)

lemma schema_loop_ok:
  assumes "list_all item_fits xs" and "p < length (catalogs w)"
  shows "\<exists>w'. schema_loop jc p \<lparr>text_left = schema_text xs, is_good = True\<rparr> line w = Some (Inr w') \<and> described p (tables_of xs) w w'"
  using assms
proof (induction xs arbitrary: w line)
  case Nil
  then show ?case by (subst schema_loop.simps) (simp add: schema_text_def getline_end described_def)
next
  case (Cons x xs)
  show ?case
  proof (cases x)
    case (Inl l)
    then have "schema_loop jc p \<lparr>text_left = schema_text (x # xs), is_good = True\<rparr> line w =
        schema_loop jc p \<lparr>text_left = schema_text xs, is_good = True\<rparr> l w"
      using Cons.prems getline_line [of l "schema_text xs" line]
      by (subst schema_loop.simps) (simp add: schema_text_def item_lines_def item_fits_def)
    then show ?thesis using Cons.IH [of w l] Cons.prems Inl by simp
  next
    case (Inr t)
    obtain name ds where t: "t = (name, ds)" by fastforce
    have fits: "item_fits (Inr (name, ds))" and xs: "list_all item_fits xs" using Cons.prems Inr t by simp_all
    have lines: "\<forall>l \<in> set (map col_line ds). CHR 0x0A \<notin> set l \<and> 1 < length l"
      using fits col_line_ok by (auto simp: item_fits_def list_all_iff)
    let ?r = "lines_text (map col_line ds @ [[]]) @ schema_text xs"
    have g1: "getline \<lparr>text_left = schema_text (x # xs), is_good = True\<rparr> line = (True, ''TABLE='' @ name, \<lparr>text_left = ?r, is_good = True\<rparr>)"
      using getline_line [of "''TABLE='' @ name" ?r line] fits
      by (simp add: schema_text_def item_lines_def item_fits_def Inr t lines_text_def)
    obtain l2 f2 ok where g2: "getline \<lparr>text_left = ?r, is_good = True\<rparr> (''TABLE='' @ name) = (ok, l2, f2)"
      and rd: "read_fields l2 f2 [] = Some (map col_line ds, [], \<lparr>text_left = schema_text xs, is_good = True\<rparr>)"
      by (rule read_table [OF lines])
    obtain c where c: "add_table jc p name (map col_line ds) w =
        Inr (w\<lparr>catalogs := (catalogs w)[p := c], tables := (tables w)(name \<mapsto> \<lparr>table_name = name, table_schema = p\<rparr>)\<rparr>)"
      "catalog_wf c" "cat_table_name c = name" "map col_data (columns c) = ds"
      by (rule add_table_ok [OF fits Cons.prems(2)])
    let ?w = "w\<lparr>catalogs := (catalogs w)[p := c], tables := (tables w)(name \<mapsto> \<lparr>table_name = name, table_schema = p\<rparr>)\<rparr>"
    have "schema_loop jc p \<lparr>text_left = schema_text (x # xs), is_good = True\<rparr> line w =
        schema_loop jc p \<lparr>text_left = schema_text xs, is_good = True\<rparr> [] ?w"
      using g1 g2 rd c(1) by (subst schema_loop.simps) simp
    moreover obtain w' where "schema_loop jc p \<lparr>text_left = schema_text xs, is_good = True\<rparr> [] ?w = Some (Inr w')"
        "described p (tables_of xs) ?w w'"
      using Cons.IH [OF xs, of ?w "[]"] Cons.prems(2) by auto
    moreover have "described p (tables_of (x # xs)) w w'" using described_table [OF calculation(3) Cons.prems(2) c(2,3,4)] Inr t by simp
    ultimately show ?thesis by simp
  qed
qed

lemma read_fields_stuck:
  assumes "1 < length line"
  shows "read_fields line \<lparr>text_left = r, is_good = False\<rparr> acc = None"
proof (rule ccontr)
  assume "read_fields line \<lparr>text_left = r, is_good = False\<rparr> acc \<noteq> None"
  then obtain y where "read_fields line \<lparr>text_left = r, is_good = False\<rparr> acc = Some y" by blast
  then have "1 < length line \<longrightarrow> \<not> is_good \<lparr>text_left = r, is_good = False\<rparr> \<longrightarrow> False"
    by (rule read_fields.raw_induct [of "\<lambda>line f acc y. 1 < length line \<longrightarrow> \<not> is_good f \<longrightarrow> False", rotated])
      (fastforce simp: getline_def split: if_splits)
  then show False using assms by simp
qed

section \<open>Properties\<close>

lemma init_schema_ok:
  assumes "list_all item_fits xs"
  obtains w' where "init_schema jc (Some (schema_text xs)) w = Some (Inr w')"
    and "described (length (catalogs w)) (tables_of xs)
      (w\<lparr>catalogs := catalogs w @ [\<lparr>field_cnt = 0, cat_table_name = [], columns = [], tuple_size = 0\<rparr>]\<rparr>) w'"
  using schema_loop_ok [OF assms, of "length (catalogs w)"
    "w\<lparr>catalogs := catalogs w @ [\<lparr>field_cnt = 0, cat_table_name = [], columns = [], tuple_size = 0\<rparr>]\<rparr>" jc "[]"]
  by (auto simp: init_schema_def)

lemma tuple_size_wf: "catalog_wf c \<Longrightarrow> unat (tuple_size c) = sum_list (map (fst \<circ> snd) (map col_data (columns c)))"
  by (simp add: catalog_wf_def columns_from_def col_data_def comp_def)

text \<open>
  C32: reading a table description. For every file made of tables and other lines, with columns as the
  format wants them, \<open>init_schema\<close> returns, and every table of the file is known under its name. The
  catalog has the columns (name, size, type, in the order of the file) of the last table, with the sum of their sizes
  as the row size: for a file with one table reading is the inverse of printing, and with several tables all of them
  share the catalog of the last one. Tables and catalogs that were there before are kept.
\<close>

theorem schema_read_back:
  assumes "list_all item_fits xs"
  shows "\<exists>w'. init_schema jc (Some (schema_text xs)) w = Some (Inr w') \<and>
    (\<forall>t \<in> set (tables_of xs). tables w' (fst t) = Some \<lparr>table_name = fst t, table_schema = length (catalogs w)\<rparr>) \<and>
    (\<forall>n. n \<notin> fst ` set (tables_of xs) \<longrightarrow> tables w' n = tables w n) \<and>
    take (length (catalogs w)) (catalogs w') = catalogs w \<and>
    (tables_of xs \<noteq> [] \<longrightarrow>
      (let c = catalogs w' ! length (catalogs w); t = last (tables_of xs) in
       cat_table_name c = fst t \<and> map col_data (columns c) = snd t \<and> unat (get_tuple_size c) = sum_list (map (fst \<circ> snd) (snd t))))"
proof -
  let ?p = "length (catalogs w)"
  obtain w' where run: "init_schema jc (Some (schema_text xs)) w = Some (Inr w')"
    and d: "described ?p (tables_of xs) (w\<lparr>catalogs := catalogs w @ [\<lparr>field_cnt = 0, cat_table_name = [], columns = [], tuple_size = 0\<rparr>]\<rparr>) w'"
    by (rule init_schema_ok [OF assms])
  have "take ?p (catalogs w') = catalogs w"
    using d by (intro nth_equalityI) (auto simp: described_def nth_append)
  moreover have "unat (tuple_size (catalogs w' ! ?p)) = sum_list (map (fst \<circ> snd) (snd (last (tables_of xs))))" if "tables_of xs \<noteq> []"
    using tuple_size_wf [of "catalogs w' ! ?p"] d that by (simp add: described_def del: map_map)
  ultimately show ?thesis using run d
    by (intro exI [of _ w']) (auto simp: described_def Let_def get_tuple_size_def)
qed

text \<open>The description of the benchmark's table.\<close>

definition ycsb_file :: "(string + tabledef) list" where
  "ycsb_file = [Inl ''//size, type, name'',
     Inr (''MAIN_TABLE'', [(''KEY'', 8, ''string''), (''F1'', 8, ''string''), (''F2'', 8, ''string''), (''F3'', 8, ''string''),
       (''F4'', 8, ''string''), (''F5'', 8, ''string''), (''F6'', 8, ''string''), (''F7'', 8, ''string''), (''F8'', 8, ''string''),
       (''VERSION'', 8, ''string'')]),
     Inl ''INDEX=MAIN_INDEX'', Inl ''MAIN_TABLE,0'']"

lemma ycsb_file_fits: "list_all item_fits ycsb_file"
  by (simp add: ycsb_file_def item_fits_def col_fits_def word_ok_def)

definition no_column :: "nat \<Rightarrow> column" where
  "no_column i = \<lparr>col_id = 0, col_size = 0, col_index = 0, col_type = [], col_name = []\<rparr>"

definition no_tables :: wl_state where
  "no_tables = \<lparr>catalogs = [], tables = Map.empty\<rparr>"

theorem schema_read_back_witness:
  "\<exists>w'. init_schema no_column (Some (schema_text ycsb_file)) no_tables = Some (Inr w') \<and>
     tables w' ''MAIN_TABLE'' = Some \<lparr>table_name = ''MAIN_TABLE'', table_schema = 0\<rparr> \<and> unat (get_tuple_size (catalogs w' ! 0)) = 80"
  using schema_read_back [OF ycsb_file_fits, of no_column no_tables]
  by (auto simp: ycsb_file_def no_tables_def Let_def)

text \<open>
  C31: the columns of a table that was read divide its rows. In a row of the size the catalog gives, writing a
  value into a column stays inside the row, the column then has the value, and no other column changes.
\<close>

theorem columns_divide_row:
  assumes "list_all item_fits xs" and "tables_of xs \<noteq> []" and "init_schema jc (Some (schema_text xs)) w = Some (Inr w')"
    and "c = catalogs w' ! length (catalogs w)" and "length data = unat (get_tuple_size c)" and "i < length (snd (last (tables_of xs)))"
    and "get_field_size i c = Inr n" and "unat n \<le> length src"
  shows "\<exists>data' v. set_value i src c data = Inr data' \<and> length data' = length data \<and>
    get_value i c data' = Inr v \<and> take (unat n) v = take (unat n) src \<and>
    (\<forall>j m v. j < length (snd (last (tables_of xs))) \<longrightarrow> j \<noteq> i \<longrightarrow> get_field_size j c = Inr m \<longrightarrow> get_value j c data = Inr v \<longrightarrow>
      (\<exists>v'. get_value j c data' = Inr v' \<and> take (unat m) v' = take (unat m) v))"
proof -
  have d: "catalog_wf c" "map col_data (columns c) = snd (last (tables_of xs))"
    using init_schema_ok [OF assms(1), of jc w] assms(2,3,4) by (auto simp: described_def)
  have len: "length (columns c) = length (snd (last (tables_of xs)))" using d(2) by (metis length_map)
  have i: "i < length (columns c)" using assms(6) len by simp
  have n: "unat n = unat (col_size (columns c ! i))" using assms(7) i by (auto simp: get_field_size_def column_at_def)
  obtain data' where v: "set_value i src c data = Inr data'" "length data' = length data"
      "field_value i c data' = take (unat (col_size (columns c ! i))) src"
      "\<forall>j < length (columns c). j \<noteq> i \<longrightarrow> field_value j c data' = field_value j c data"
    by (rule set_value_ok [OF d(1) i assms(5) [unfolded get_tuple_size_def] assms(8) [unfolded n]])
  have "get_value j c x = Inr (drop (unat (col_index (columns c ! j))) x)" if "j < length (columns c)" for j x
    using that by (simp add: get_value_def get_field_index_def column_at_def)
  then show ?thesis using v n i len
    by (intro exI [of _ data'] exI [of _ "drop (unat (col_index (columns c ! i))) data'"])
      (auto simp: field_value_def get_field_size_def column_at_def)
qed

theorem columns_divide_row_witness:
  "\<exists>w' data'. init_schema no_column (Some (schema_text ycsb_file)) no_tables = Some (Inr w') \<and>
     set_value 3 [1, 2, 3, 4, 5, 6, 7, 8] (catalogs w' ! 0) (replicate 80 0) = Inr data' \<and> length data' = 80"
proof -
  obtain w' where w: "init_schema no_column (Some (schema_text ycsb_file)) no_tables = Some (Inr w')"
    and d: "described 0 (tables_of ycsb_file) (no_tables\<lparr>catalogs := [\<lparr>field_cnt = 0, cat_table_name = [], columns = [], tuple_size = 0\<rparr>]\<rparr>) w'"
    using init_schema_ok [OF ycsb_file_fits, of no_column no_tables] by (auto simp: no_tables_def)
  let ?c = "catalogs w' ! 0"
  have c: "catalog_wf ?c" and m: "map col_data (columns ?c) = snd (last (tables_of ycsb_file))" using d by (auto simp: described_def ycsb_file_def)
  have sz: "unat (tuple_size ?c) = 80" unfolding tuple_size_wf [OF c] m by (simp add: ycsb_file_def)
  have len: "length (columns ?c) = 10" using arg_cong [OF m, of length] by (simp add: ycsb_file_def)
  have "col_data (columns ?c ! 3) = (''F3'', 8, ''string'')"
    using arg_cong [OF m, of "\<lambda>xs. xs ! 3"] len by (simp add: ycsb_file_def)
  then have "unat (ucast (col_size (columns ?c ! 3)) :: u64) = unat (8 :: u64)" by (simp add: col_data_def)
  then have "(ucast (col_size (columns ?c ! 3)) :: u64) = 8" by (rule unsigned_word_eqI)
  then have "get_field_size 3 ?c = Inr 8" "length (replicate 80 (0 :: u8)) = unat (get_tuple_size ?c)"
    using sz len by (simp_all add: get_field_size_def column_at_def get_tuple_size_def)
  then show ?thesis
    using columns_divide_row [OF ycsb_file_fits _ w, of ?c "replicate 80 0" 3 8 "[1, 2, 3, 4, 5, 6, 7, 8]"] w
    by (auto simp: ycsb_file_def no_tables_def)
qed



end
