(* ===== verification/Table_Load.thy ===== *)
theory Table_Load
  imports Schema Manager
begin

text \<open>
  \<open>ycsb_wl::init_table\<close> (\<open>common/workload/ycsb_wl.cpp\<close>): the rows of the table are packed into pages in the order of their
  keys and written to the page files, with their places in the index; the index and the table space are written at
  the end. An instance that loads these files finds every row.
\<close>

section \<open>The rows\<close>

record 'w load_state =
  ld_page :: page
  ld_ts :: table_space
  ld_index :: index_map
  ld_row :: bytes
  ld_files :: "'w file_io"

text \<open>A full page is written before the next row; the assertion computes with 32 bits.\<close>

definition flush_full :: "'w posix \<Rightarrow> u32 \<Rightarrow> 'w load_state \<Rightarrow> 'w load_state res" where
  "flush_full P sz st =
     (if ucast sz > of_nat MY_PAGE_SIZE - used_size (ld_page st)
      then rbind (Serialize (ld_page st)) (\<lambda>p.
           rbind (FileIO_WritePage P (page_id p) (page_buf p) (ld_files st)) (\<lambda>(_, f).
           asserting (ucast (of_nat (MY_PAGE_SIZE - 64) div sz * sz + 64) = used_size p)
            (case GetNextPageId (ld_ts st) of (i, ts) \<Rightarrow>
             Inr (st\<lparr>ld_page := set_used_size 64 (set_page_id i p), ld_ts := ts, ld_files := f\<rparr>))))
      else Inr st)"

definition load_key :: "'w posix \<Rightarrow> u32 \<Rightarrow> u64 \<Rightarrow> 'w load_state \<Rightarrow> 'w load_state res" where
  "load_key P sz key st =
     rbind (flush_full P sz st) (\<lambda>st1.
     rbind (memcpy_at (ld_row st1) 0 (enc64 key)) (\<lambda>r1.
     rbind (memcpy_at r1 (unat (sz - 8)) (enc64 0)) (\<lambda>r2.
     rbind (PagePut (ld_page st1) (page_id (ld_page st1)) r2 (ucast sz)) (\<lambda>p.
     Inr (st1\<lparr>ld_row := r2, ld_page := p,
              ld_index := snd (IndexPut key \<lparr>item_page_id = page_id p, item_location = used_size p - ucast sz\<rparr> (ld_index st1))\<rparr>)))))"

fun load_keys :: "'w posix \<Rightarrow> u32 \<Rightarrow> u64 list \<Rightarrow> 'w load_state \<Rightarrow> 'w load_state res" where
  "load_keys P sz [] st = Inr st"
| "load_keys P sz (k # ks) st = rbind (load_key P sz k st) (load_keys P sz ks)"

definition flush_last :: "'w posix \<Rightarrow> 'w load_state \<Rightarrow> 'w load_state res" where
  "flush_last P st =
     (if used_size (ld_page st) > 64
      then rbind (Serialize (ld_page st)) (\<lambda>p.
           rbind (FileIO_WritePage P (page_id p) (page_buf p) (ld_files st)) (\<lambda>(_, f).
           Inr (st\<lparr>ld_page := p, ld_files := f\<rparr>)))
      else Inr st)"

text \<open>The pages; \<open>buf0\<close> and \<open>v\<close> are the uninitialised buffer and version of the page object.\<close>

definition init_pages :: "'w posix \<Rightarrow> u64 \<Rightarrow> u32 \<Rightarrow> string \<Rightarrow> bytes \<Rightarrow> u64 \<Rightarrow> 'w file_io \<Rightarrow> 'w load_state res" where
  "init_pages P table_size sz name buf0 v f =
     (case GetNextPageId (set_row_size (ucast sz) (TableSpace_new name)) of (i, ts) \<Rightarrow>
      rbind (load_keys P sz (page_numbers 0 table_size)
               \<lparr>ld_page = set_page_id i (Page_new v buf0), ld_ts = ts, ld_index = Map.empty,
                ld_row = replicate (unat sz) 97, ld_files = f\<rparr>) (flush_last P))"

text \<open>
  The whole of \<open>init_table\<close>. \<open>order\<close> is the iteration order of the index, \<open>ibuf\<close> the local buffer of its
  \<open>Serialize\<close>; \<open>tfiles\<close> are the files of the table spaces.
\<close>

definition init_table ::
  "'w posix \<Rightarrow> (json_object \<Rightarrow> string) \<Rightarrow> (index_map \<Rightarrow> entry list) \<Rightarrow> u64 \<Rightarrow> bytes \<Rightarrow> u64 \<Rightarrow> bytes \<Rightarrow> table option \<Rightarrow> wl_state
   \<Rightarrow> 'w file_io \<Rightarrow> (string \<Rightarrow> string option) \<Rightarrow> (RC \<times> 'w file_io \<times> (string \<Rightarrow> string option)) res" where
  "init_table P print_json order table_size buf0 v ibuf tab w f tfiles =
     (case tab of
        None \<Rightarrow> Inl Bad_Deref
      | Some t \<Rightarrow>
          rbind (init_pages P table_size (get_tuple_size (catalogs w ! table_schema t)) (table_name t) buf0 v f) (\<lambda>st.
          rbind (Index_Serialize P (table_name t @ ''_INDEX'') (order (ld_index st)) ibuf (ld_files st)) (\<lambda>f1.
          Inr (RCOK, f1, TableSpace_Serialize print_json (ld_ts st) tfiles))))"

definition key_to_part :: "u64 \<Rightarrow> u64 \<Rightarrow> u64 \<Rightarrow> int res" where
  "key_to_part table_size part_cnt key =
     (if part_cnt = 0 \<or> table_size div part_cnt = 0 then Inl Div_By_Zero
      else Inr (sint (ucast (key div (table_size div part_cnt)) :: u32)))"

section \<open>Where the rows go\<close>

definition rows_per_page :: "nat \<Rightarrow> nat" where
  "rows_per_page sz = (MY_PAGE_SIZE - 64) div sz"

text \<open>A new row: its key, a filling, version 0.\<close>

definition init_row :: "nat \<Rightarrow> nat \<Rightarrow> bytes" where
  "init_row sz k = enc64 (of_nat k) @ replicate (sz - 16) 97 @ enc64 0"

definition slot :: "nat \<Rightarrow> nat \<Rightarrow> bytes \<Rightarrow> bytes" where
  "slot sz i c = take sz (drop (64 + i * sz) c)"

definition row_place :: "nat \<Rightarrow> nat \<Rightarrow> index_item" where
  "row_place sz k = \<lparr>item_page_id = of_nat (k div rows_per_page sz), item_location = of_nat (64 + (k mod rows_per_page sz) * sz)\<rparr>"

text \<open>Page \<open>q\<close> holds its first \<open>j\<close> rows.\<close>

definition holds_rows :: "nat \<Rightarrow> nat \<Rightarrow> nat \<Rightarrow> bytes \<Rightarrow> bool" where
  "holds_rows sz q j c \<longleftrightarrow> (\<forall>i < j. slot sz i c = init_row sz (q * rows_per_page sz + i))"

text \<open>After \<open>q\<close> full pages and \<open>j\<close> rows of the next one.\<close>

definition load_inv ::
  "('w \<Rightarrow> string \<Rightarrow> bytes) \<Rightarrow> ('w \<Rightarrow> int \<Rightarrow> string option) \<Rightarrow> nat \<Rightarrow> nat \<Rightarrow> nat \<Rightarrow> 'w load_state \<Rightarrow> bool" where
  "load_inv content fdpath sz q j st \<longleftrightarrow>
     j \<le> rows_per_page sz \<and> page_wf (ld_page st) \<and> page_id (ld_page st) = of_nat q \<and>
     unat (used_size (ld_page st)) = 64 + j * sz \<and> holds_rows sz q j (page_buf (ld_page st)) \<and>
     (\<exists>a b. length a = 8 \<and> length b = 8 \<and> ld_row st = a @ replicate (sz - 16) 97 @ b) \<and>
     GetLastPageId (ld_ts st) = of_nat q \<and>
     ld_index st = (\<lambda>k. if unat k < q * rows_per_page sz + j then Some (row_place sz (unat k)) else None) \<and>
     file_inv fdpath (ld_files st) \<and>
     (\<forall>r < q. \<exists>c. file_page content (ld_files st) (of_nat r) = Some c \<and> page_ok (of_nat r) c \<and> holds_rows sz r (rows_per_page sz) c)"

section \<open>One row\<close>

lemma rows_per_page_bounds:
  assumes "16 \<le> sz" and "sz \<le> MY_PAGE_SIZE - 64"
  shows "1 \<le> rows_per_page sz" and "64 + rows_per_page sz * sz \<le> MY_PAGE_SIZE" and "MY_PAGE_SIZE < 64 + rows_per_page sz * sz + sz"
proof -
  have "rows_per_page sz * sz + (MY_PAGE_SIZE - 64) mod sz = MY_PAGE_SIZE - 64" by (simp add: rows_per_page_def)
  moreover have "(MY_PAGE_SIZE - 64) mod sz < sz" using assms(1) by simp
  moreover have "64 \<le> MY_PAGE_SIZE" by (simp add: MY_PAGE_SIZE_def)
  ultimately show "64 + rows_per_page sz * sz \<le> MY_PAGE_SIZE" "MY_PAGE_SIZE < 64 + rows_per_page sz * sz + sz" by linarith+
  show "1 \<le> rows_per_page sz" using div_le_mono [OF assms(2), of sz] assms(1) by (simp add: rows_per_page_def)
qed

lemma of_nat_u64_eq: "r < 2 ^ 64 \<Longrightarrow> q < 2 ^ 64 \<Longrightarrow> (of_nat r :: u64) = of_nat q \<longleftrightarrow> r = q"
  by (auto dest!: arg_cong [of _ _ unat] simp: unat_of_nat)

lemma page_full_iff:
  fixes z :: u32 and u :: u64
  assumes z: "16 \<le> unat z" "unat z \<le> MY_PAGE_SIZE - 64" and j: "j \<le> rows_per_page (unat z)" and u: "unat u = 64 + j * unat z"
  shows "ucast z > of_nat MY_PAGE_SIZE - u \<longleftrightarrow> j = rows_per_page (unat z)"
proof -
  note R = rows_per_page_bounds [OF z]
  have le: "64 + j * unat z \<le> MY_PAGE_SIZE" using R(2) mult_le_mono1 [OF j, of "unat z"] by linarith
  then have "u \<le> of_nat MY_PAGE_SIZE" using u by (simp add: word_le_nat_alt unat_page_size)
  then have sub: "unat (of_nat MY_PAGE_SIZE - u) = MY_PAGE_SIZE - (64 + j * unat z)" using u by (simp add: unat_sub unat_page_size)
  show ?thesis
  proof (cases "j = rows_per_page (unat z)")
    case True
    then show ?thesis using R(3) le sub by (simp add: word_less_nat_alt)
  next
    case False
    then have "(j + 1) * unat z \<le> rows_per_page (unat z) * unat z" using j by (intro mult_le_mono1) simp
    then show ?thesis using R(2) sub False by (simp add: word_less_nat_alt)
  qed
qed

lemma serialized_page:
  assumes "page_wf p" and "Serialize p = Inr p'"
  shows "page_wf p'" and "page_ok (page_id p) (page_buf p')" and "page_id p' = page_id p" and "used_size p' = used_size p"
    and "slot sz i (page_buf p') = slot sz i (page_buf p)"
proof -
  have len: "32 \<le> length (page_buf p)" using assms(1) by (simp add: page_wf_def MY_PAGE_SIZE_def)
  let ?b = "enc64 (page_id p) @ enc64 (page_size p) @ enc64 (used_size p) @ enc64 (version p) @ drop 32 (page_buf p)"
  have p': "p' = p\<lparr>page_buf := ?b\<rparr>" using Serialize_eq [OF len] assms(2) by simp
  show "page_wf p'" "page_id p' = page_id p" "used_size p' = used_size p" "page_ok (page_id p) (page_buf p')"
    using assms(1) len by (simp_all add: p' page_wf_def page_ok_def)
  have "drop (64 + i * sz) ?b = drop (64 + i * sz) (page_buf p)" using len by simp
  then show "slot sz i (page_buf p') = slot sz i (page_buf p)" by (simp add: p' slot_def)
qed

lemma write_page_file:
  assumes L: "posix_laws P content fdpath" and f: "file_inv fdpath f" and b: "length b = MY_PAGE_SIZE"
  obtains n f' where "FileIO_WritePage P i b f = Inr (n, f')" and "file_inv fdpath f'" and "(file_page content f)(i \<mapsto> b) \<subseteq>\<^sub>m file_page content f'"
proof -
  obtain f' where f': "WritePage (file_disk P) i b f = Inr f'" "file_inv fdpath f'" "(file_page content f)(i \<mapsto> b) \<subseteq>\<^sub>m file_page content f'"
    using page_disk.write_page [OF file_page_disk [OF L] f b] by blast
  obtain n where "FileIO_WritePage P i b f = Inr (n, f')"
    using f'(1) by (cases "FileIO_WritePage P i b f") (auto simp: file_disk_def)
  then show ?thesis by (rule that [OF _ f'(2,3)])
qed

text \<open>Writing the current page adds it to the stored ones.\<close>

lemma store_page:
  assumes L: "posix_laws P content fdpath" and inv: "load_inv content fdpath sz q j st" and q: "q < 2 ^ 64"
    and p: "Serialize (ld_page st) = Inr p"
  obtains n f where "FileIO_WritePage P (page_id p) (page_buf p) (ld_files st) = Inr (n, f)" and "file_inv fdpath f"
    and "\<exists>c. file_page content f (of_nat q) = Some c \<and> page_ok (of_nat q) c \<and> holds_rows sz q j c"
    and "\<forall>r < q. \<exists>c. file_page content f (of_nat r) = Some c \<and> page_ok (of_nat r) c \<and> holds_rows sz r (rows_per_page sz) c"
proof -
  have wf: "page_wf (ld_page st)" and id: "page_id (ld_page st) = of_nat q" and rows: "holds_rows sz q j (page_buf (ld_page st))"
    and fi: "file_inv fdpath (ld_files st)"
    and old: "\<forall>r < q. \<exists>c. file_page content (ld_files st) (of_nat r) = Some c \<and> page_ok (of_nat r) c \<and> holds_rows sz r (rows_per_page sz) c"
    using inv by (simp_all add: load_inv_def)
  note S = serialized_page [OF wf p]
  have len: "length (page_buf p) = MY_PAGE_SIZE" using S(1) by (simp add: page_wf_def)
  obtain n f where f: "FileIO_WritePage P (page_id p) (page_buf p) (ld_files st) = Inr (n, f)" "file_inv fdpath f"
      "(file_page content (ld_files st))(page_id p \<mapsto> page_buf p) \<subseteq>\<^sub>m file_page content f"
    by (rule write_page_file [OF L fi len])
  have new: "file_page content f (of_nat q) = Some (page_buf p)" using f(3) S(3) id by (auto simp: map_le_def)
  have "file_page content f (of_nat r) = Some c" if "r < q" "file_page content (ld_files st) (of_nat r) = Some c" for r c
  proof -
    have "(of_nat r :: u64) \<noteq> of_nat q" using that(1) q of_nat_u64_eq [of r q] by simp
    then show ?thesis using f(3) that(2) S(3) id unfolding map_le_def by (metis domI fun_upd_other)
  qed
  moreover have "page_ok (of_nat q) (page_buf p) \<and> holds_rows sz q j (page_buf p)" using S(2,5) id rows by (simp add: holds_rows_def)
  ultimately show ?thesis by (intro that [OF f(1,2)]) (use new old in \<open>blast+\<close>)
qed

lemma full_assertion:
  fixes z :: u32
  assumes z: "16 \<le> unat z" "unat z \<le> MY_PAGE_SIZE - 64"
  shows "unat (ucast (of_nat (MY_PAGE_SIZE - 64) div z * z + 64 :: u32) :: u64) = 64 + rows_per_page (unat z) * unat z"
proof -
  note R = rows_per_page_bounds [OF z]
  have a: "unat (of_nat (MY_PAGE_SIZE - 64) :: u32) = MY_PAGE_SIZE - 64" by (simp add: unat_of_nat MY_PAGE_SIZE_def)
  have d: "unat (of_nat (MY_PAGE_SIZE - 64) div z) = rows_per_page (unat z)" by (simp add: unat_div_distrib a rows_per_page_def)
  have small: "rows_per_page (unat z) * unat z + 64 < 2 ^ 32" using R(2) by (simp add: MY_PAGE_SIZE_def)
  then have m: "unat (of_nat (MY_PAGE_SIZE - 64) div z * z) = rows_per_page (unat z) * unat z"
    using d by (subst unat_mult_lem [THEN iffD1]) simp_all
  have "unat (of_nat (MY_PAGE_SIZE - 64) div z * z + 64) = rows_per_page (unat z) * unat z + 64"
    using m small by (subst unat_add_lem [THEN iffD1]) simp_all
  then show ?thesis by simp
qed

lemma flush_full_ok:
  assumes L: "posix_laws P content fdpath" and z: "16 \<le> unat z" "unat z \<le> MY_PAGE_SIZE - 64"
    and inv: "load_inv content fdpath (unat z) q j st" and q: "q < 2 ^ 64"
  obtains st' q' j' where "flush_full P z st = Inr st'" and "load_inv content fdpath (unat z) q' j' st'" and "j' < rows_per_page (unat z)"
    and "q' * rows_per_page (unat z) + j' = q * rows_per_page (unat z) + j"
proof -
  have wf: "page_wf (ld_page st)" and j: "j \<le> rows_per_page (unat z)" and u: "unat (used_size (ld_page st)) = 64 + j * unat z"
    and last: "GetLastPageId (ld_ts st) = of_nat q" using inv by (simp_all add: load_inv_def)
  show ?thesis
  proof (cases "j = rows_per_page (unat z)")
    case False
    then have "flush_full P z st = Inr st" using page_full_iff [OF z j u] by (simp add: flush_full_def)
    then show ?thesis by (rule that [OF _ inv]) (use False j in auto)
  next
    case True
    have "32 \<le> length (page_buf (ld_page st))" using wf by (simp add: page_wf_def MY_PAGE_SIZE_def)
    then obtain p where p: "Serialize (ld_page st) = Inr p" using Serialize_eq by blast
    note S = serialized_page [OF wf p]
    obtain n f where f: "FileIO_WritePage P (page_id p) (page_buf p) (ld_files st) = Inr (n, f)" "file_inv fdpath f"
        "\<exists>c. file_page content f (of_nat q) = Some c \<and> page_ok (of_nat q) c \<and> holds_rows (unat z) q j c"
        "\<forall>r < q. \<exists>c. file_page content f (of_nat r) = Some c \<and> page_ok (of_nat r) c \<and> holds_rows (unat z) r (rows_per_page (unat z)) c"
      by (rule store_page [OF L inv q p])
    have "unat (ucast (of_nat (MY_PAGE_SIZE - 64) div z * z + 64 :: u32) :: u64) = unat (used_size p)"
      using full_assertion [OF z] S(4) u True by simp
    then have chk: "ucast (of_nat (MY_PAGE_SIZE - 64) div z * z + 64) = used_size p" by (rule unsigned_word_eqI)
    obtain i ts where g: "GetNextPageId (ld_ts st) = (i, ts)" by fastforce
    have i: "i = of_nat (Suc q)" "GetLastPageId ts = of_nat (Suc q)"
      using g last by (auto simp: GetNextPageId_def GetNextPageId_locked_def GetLastPageId_def Let_def)
    let ?st = "st\<lparr>ld_page := set_used_size 64 (set_page_id i p), ld_ts := ts, ld_files := f\<rparr>"
    have run: "flush_full P z st = Inr ?st"
      using page_full_iff [OF z j u] True p f(1) chk g by (simp add: flush_full_def asserting_def)
    have "load_inv content fdpath (unat z) (Suc q) 0 ?st"
      using inv S(1) i f True by (auto simp: load_inv_def set_used_size_def set_page_id_def page_wf_def holds_rows_def less_Suc_eq)
    then show ?thesis by (rule that [OF run]) (use True rows_per_page_bounds(1) [OF z] in auto)
  qed
qed

lemma put_row_ok:
  fixes z :: u32
  assumes inv: "load_inv content fdpath (unat z) q j st" and z: "16 \<le> unat z" "unat z \<le> MY_PAGE_SIZE - 64"
    and j: "j < rows_per_page (unat z)" and k: "k = q * rows_per_page (unat z) + j" "k < 2 ^ 64"
  obtains r1 r2 p where "memcpy_at (ld_row st) 0 (enc64 (of_nat k)) = Inr r1" and "memcpy_at r1 (unat (z - 8)) (enc64 0) = Inr r2"
    and "PagePut (ld_page st) (page_id (ld_page st)) r2 (ucast z) = Inr p"
    and "load_inv content fdpath (unat z) q (Suc j) (st\<lparr>ld_row := r2, ld_page := p,
      ld_index := snd (IndexPut (of_nat k) \<lparr>item_page_id = page_id p, item_location = used_size p - ucast z\<rparr> (ld_index st))\<rparr>)"
proof -
  let ?sz = "unat z" and ?p = "ld_page st"
  obtain a b where row: "length a = 8" "length b = 8" "ld_row st = a @ replicate (?sz - 16) 97 @ b" using inv by (auto simp: load_inv_def)
  have wf: "page_wf ?p" and u: "unat (used_size ?p) = 64 + j * ?sz" and rows: "holds_rows ?sz q j (page_buf ?p)"
    and idx: "ld_index st = (\<lambda>k. if unat k < q * rows_per_page ?sz + j then Some (row_place ?sz (unat k)) else None)"
    using inv by (simp_all add: load_inv_def)
  have z8: "unat (z - 8) = ?sz - 8" using z(1) by (subst unat_sub) (simp_all add: word_le_nat_alt)
  have m1: "memcpy_at (ld_row st) 0 (enc64 (of_nat k)) = Inr (enc64 (of_nat k) @ replicate (?sz - 16) 97 @ b)"
    using row z(1) by (simp add: memcpy_at_def)
  have m2: "memcpy_at (enc64 (of_nat k) @ replicate (?sz - 16) 97 @ b) (unat (z - 8)) (enc64 0) = Inr (init_row ?sz k)"
    using row z(1) by (simp add: memcpy_at_def z8 init_row_def)
  have len: "length (init_row ?sz k) = ?sz" using z(1) by (simp add: init_row_def)
  have "(j + 1) * ?sz \<le> rows_per_page ?sz * ?sz" using j by (intro mult_le_mono1) simp
  then have fits: "64 + j * ?sz + ?sz \<le> MY_PAGE_SIZE" using rows_per_page_bounds(2) [OF z] by simp
  obtain p where p: "PagePut ?p (page_id ?p) (init_row ?sz k) (ucast z) = Inr p" "page_wf p" "page_id p = page_id ?p"
      "unat (used_size p) = unat (used_size ?p) + unat (ucast z :: u64)"
      "memcpy_at (page_buf ?p) (unat (used_size ?p)) (take (unat (ucast z :: u64)) (init_row ?sz k)) = Inr (page_buf p)"
    by (rule PagePut_fits [OF wf HOL.refl, of "ucast z" "init_row ?sz k"]) (use u len fits in simp_all)
  have buf: "memcpy_at (page_buf ?p) (64 + j * ?sz) (init_row ?sz k) = Inr (page_buf p)" using p(5) u len by simp
  obtain d where d: "memcpy_at (page_buf ?p) (64 + j * ?sz) (init_row ?sz k) = Inr d" "take (length (init_row ?sz k)) (drop (64 + j * ?sz) d) = init_row ?sz k"
      "\<forall>x n. x + n \<le> 64 + j * ?sz \<or> 64 + j * ?sz + length (init_row ?sz k) \<le> x \<longrightarrow> take n (drop x d) = take n (drop x (page_buf ?p))"
    by (rule memcpy_field [of "64 + j * ?sz" "init_row ?sz k" "page_buf ?p"]) (use fits len wf in \<open>auto simp: page_wf_def\<close>)
  have "slot ?sz i (page_buf p) = slot ?sz i (page_buf ?p)" if "i < j" for i
  proof -
    have "i * ?sz + ?sz \<le> j * ?sz" using mult_le_mono1 [of "Suc i" j ?sz] that by simp
    then show ?thesis using d(1,3) buf by (simp add: slot_def)
  qed
  then have rows': "holds_rows ?sz q (Suc j) (page_buf p)" using rows d(1,2) buf len k by (auto simp: holds_rows_def slot_def less_Suc_eq)
  have uo: "unat (of_nat (64 + j * ?sz) :: u64) = 64 + j * ?sz" by (rule unat_of_nat_u64) (use fits in \<open>simp add: MY_PAGE_SIZE_def\<close>)
  have "unat (used_size p - ucast z) = unat (of_nat (64 + j * ?sz) :: u64)"
    unfolding uo using p(4) u by (subst unat_sub) (simp_all add: word_le_nat_alt)
  then have loc: "used_size p - ucast z = of_nat (64 + j * ?sz)" by (rule unsigned_word_eqI)
  have kdiv: "k div rows_per_page ?sz = q" "k mod rows_per_page ?sz = j" using k(1) j by simp_all
  have place: "\<lparr>item_page_id = page_id p, item_location = used_size p - ucast z\<rparr> = row_place ?sz k"
    using inv p(3) loc kdiv by (simp add: row_place_def load_inv_def)
  let ?st = "st\<lparr>ld_row := init_row ?sz k, ld_page := p,
      ld_index := snd (IndexPut (of_nat k) \<lparr>item_page_id = page_id p, item_location = used_size p - ucast z\<rparr> (ld_index st))\<rparr>"
  have "ld_index ?st = (\<lambda>x. if unat x < q * rows_per_page ?sz + Suc j then Some (row_place ?sz (unat x)) else None)"
  proof
    fix x :: u64
    have "x = of_nat k \<longleftrightarrow> unat x = k" using k(2) by (auto simp: unat_of_nat)
    then show "ld_index ?st x = (if unat x < q * rows_per_page ?sz + Suc j then Some (row_place ?sz (unat x)) else None)"
      using place idx k(1) by auto
  qed
  moreover have "\<exists>a b. length a = 8 \<and> length b = 8 \<and> ld_row ?st = a @ replicate (?sz - 16) 97 @ b"
    by (intro exI [of _ "enc64 (of_nat k)"] exI [of _ "enc64 0"]) (simp add: init_row_def)
  ultimately have "load_inv content fdpath ?sz q (Suc j) ?st"
    using inv p(2,3,4) u rows' j by (simp add: load_inv_def)
  then show ?thesis by (rule that [OF m1 m2 p(1)])
qed

section \<open>All rows\<close>

lemma load_key_ok:
  fixes z :: u32
  assumes L: "posix_laws P content fdpath" and z: "16 \<le> unat z" "unat z \<le> MY_PAGE_SIZE - 64"
    and inv: "load_inv content fdpath (unat z) q j st" and k: "k = q * rows_per_page (unat z) + j" "k < 2 ^ 64"
  obtains st' q' j' where "load_key P z (of_nat k) st = Inr st'" and "load_inv content fdpath (unat z) q' j' st'" and "0 < j'"
    and "Suc k = q' * rows_per_page (unat z) + j'"
proof -
  have "q * 1 \<le> q * rows_per_page (unat z)" by (rule mult_le_mono2 [OF rows_per_page_bounds(1) [OF z]])
  then have q: "q < 2 ^ 64" using k by linarith
  obtain st1 q' j' where f: "flush_full P z st = Inr st1" "load_inv content fdpath (unat z) q' j' st1" "j' < rows_per_page (unat z)"
      "q' * rows_per_page (unat z) + j' = q * rows_per_page (unat z) + j"
    by (rule flush_full_ok [OF L z inv q])
  have k': "k = q' * rows_per_page (unat z) + j'" using f(4) k(1) by simp
  obtain r1 r2 p where r: "memcpy_at (ld_row st1) 0 (enc64 (of_nat k)) = Inr r1" "memcpy_at r1 (unat (z - 8)) (enc64 0) = Inr r2"
      "PagePut (ld_page st1) (page_id (ld_page st1)) r2 (ucast z) = Inr p"
      "load_inv content fdpath (unat z) q' (Suc j') (st1\<lparr>ld_row := r2, ld_page := p,
        ld_index := snd (IndexPut (of_nat k) \<lparr>item_page_id = page_id p, item_location = used_size p - ucast z\<rparr> (ld_index st1))\<rparr>)"
    by (rule put_row_ok [OF f(2) z f(3) k' k(2)])
  then have "load_key P z (of_nat k) st = Inr (st1\<lparr>ld_row := r2, ld_page := p,
      ld_index := snd (IndexPut (of_nat k) \<lparr>item_page_id = page_id p, item_location = used_size p - ucast z\<rparr> (ld_index st1))\<rparr>)"
    using f(1) by (simp add: load_key_def)
  from that [OF this r(4)] show ?thesis using k' by simp
qed

lemma load_keys_ok:
  fixes z :: u32
  assumes L: "posix_laws P content fdpath" and z: "16 \<le> unat z" "unat z \<le> MY_PAGE_SIZE - 64"
    and "load_inv content fdpath (unat z) q j st" and "k = q * rows_per_page (unat z) + j" and "k \<le> n" and "n < 2 ^ 64"
    and "0 < k \<longrightarrow> 0 < j"
  shows "\<exists>st' q' j'. load_keys P z (map of_nat [k..<n]) st = Inr st' \<and> load_inv content fdpath (unat z) q' j' st' \<and>
    n = q' * rows_per_page (unat z) + j' \<and> (0 < n \<longrightarrow> 0 < j')"
  using assms(4-)
proof (induction "n - k" arbitrary: k q j st)
  case 0
  then show ?case by (intro exI [of _ st] exI [of _ q] exI [of _ j]) auto
next
  case (Suc d)
  have k: "k < n" "k < 2 ^ 64" using Suc by auto
  obtain st1 q1 j1 where s1: "load_key P z (of_nat k) st = Inr st1" "load_inv content fdpath (unat z) q1 j1 st1" "0 < j1"
      "Suc k = q1 * rows_per_page (unat z) + j1"
    by (rule load_key_ok [OF L z Suc.prems(1,2) k(2)])
  have "\<exists>st' q' j'. load_keys P z (map of_nat [Suc k..<n]) st1 = Inr st' \<and> load_inv content fdpath (unat z) q' j' st' \<and>
      n = q' * rows_per_page (unat z) + j' \<and> (0 < n \<longrightarrow> 0 < j')"
    by (rule Suc.hyps(1) [OF _ s1(2,4)]) (use Suc k s1 in auto)
  then show ?case using s1(1) k(1) by (simp add: upt_conv_Cons)
qed

text \<open>The table is stored: the index, the last page, and the rows of every page.\<close>

definition table_stored :: "('w \<Rightarrow> string \<Rightarrow> bytes) \<Rightarrow> nat \<Rightarrow> nat \<Rightarrow> 'w load_state \<Rightarrow> bool" where
  "table_stored content sz n st \<longleftrightarrow>
     ld_index st = (\<lambda>k. if unat k < n then Some (row_place sz (unat k)) else None) \<and>
     GetLastPageId (ld_ts st) = of_nat ((n - 1) div rows_per_page sz) \<and>
     (\<forall>q. q * rows_per_page sz < n \<longrightarrow>
        (\<exists>c. file_page content (ld_files st) (of_nat q) = Some c \<and> page_ok (of_nat q) c \<and>
           (\<forall>i < rows_per_page sz. q * rows_per_page sz + i < n \<longrightarrow> slot sz i c = init_row sz (q * rows_per_page sz + i))))"

lemma flush_last_ok:
  fixes z :: u32
  assumes L: "posix_laws P content fdpath" and z: "16 \<le> unat z" "unat z \<le> MY_PAGE_SIZE - 64"
    and inv: "load_inv content fdpath (unat z) q j st" and n: "n = q * rows_per_page (unat z) + j" "n < 2 ^ 64" "0 < n \<longrightarrow> 0 < j"
  obtains st' where "flush_last P st = Inr st'" and "file_inv fdpath (ld_files st')" and "table_stored content (unat z) n st'"
proof -
  let ?R = "rows_per_page (unat z)"
  have wf: "page_wf (ld_page st)" and j: "j \<le> ?R" and u: "unat (used_size (ld_page st)) = 64 + j * unat z"
    and last: "GetLastPageId (ld_ts st) = of_nat q" and fi: "file_inv fdpath (ld_files st)"
    and idx: "ld_index st = (\<lambda>k. if unat k < n then Some (row_place (unat z) (unat k)) else None)"
    using inv n by (simp_all add: load_inv_def)
  note R = rows_per_page_bounds(1) [OF z]
  show ?thesis
  proof (cases "j = 0")
    case True
    then have n0: "n = 0" "q = 0" using n R by auto
    have "unat (used_size (ld_page st)) = 64" using u True by simp
    then have "flush_last P st = Inr st" by (simp add: flush_last_def word_less_nat_alt)
    then show ?thesis using fi idx last n0 by (intro that) (simp_all add: table_stored_def)
  next
    case False
    have used: "64 < used_size (ld_page st)" using u False z(1) by (simp add: word_less_nat_alt)
    have "32 \<le> length (page_buf (ld_page st))" using wf by (simp add: page_wf_def MY_PAGE_SIZE_def)
    then obtain p where p: "Serialize (ld_page st) = Inr p" using Serialize_eq by blast
    have "q * 1 \<le> q * ?R" by (rule mult_le_mono2 [OF R])
    then have q: "q < 2 ^ 64" using n by linarith
    obtain m f where f: "FileIO_WritePage P (page_id p) (page_buf p) (ld_files st) = Inr (m, f)" "file_inv fdpath f"
        "\<exists>c. file_page content f (of_nat q) = Some c \<and> page_ok (of_nat q) c \<and> holds_rows (unat z) q j c"
        "\<forall>r < q. \<exists>c. file_page content f (of_nat r) = Some c \<and> page_ok (of_nat r) c \<and> holds_rows (unat z) r ?R c"
      by (rule store_page [OF L inv q p])
    have run: "flush_last P st = Inr (st\<lparr>ld_page := p, ld_files := f\<rparr>)" using used p f(1) by (simp add: flush_last_def)
    have "(n - 1) div ?R = q"
      using n(1) j False R by (intro div_nat_eqI) (simp_all add: algebra_simps)
    moreover have "\<exists>c. file_page content f (of_nat r) = Some c \<and> page_ok (of_nat r) c \<and>
        (\<forall>i < ?R. r * ?R + i < n \<longrightarrow> slot (unat z) i c = init_row (unat z) (r * ?R + i))" if "r * ?R < n" for r
    proof (cases "r = q")
      case True
      then show ?thesis using f(3) n(1) by (auto simp: holds_rows_def)
    next
      case False
      have "r * ?R < Suc q * ?R" using that n(1) j by simp
      then have "r < Suc q" using mult_less_cancel2 [of r ?R "Suc q"] by blast
      then have "r < q" using False by simp
      then show ?thesis using f(4) unfolding holds_rows_def by blast
    qed
    ultimately have "table_stored content (unat z) n (st\<lparr>ld_page := p, ld_files := f\<rparr>)" using idx last by (simp add: table_stored_def)
    then show ?thesis by (intro that [OF run]) (use f(2) in simp_all)
  qed
qed

lemma init_pages_ok:
  fixes z :: u32
  assumes L: "posix_laws P content fdpath" and f: "file_inv fdpath f" and z: "16 \<le> unat z" "unat z \<le> MY_PAGE_SIZE - 64"
    and b: "length buf0 = MY_PAGE_SIZE"
  obtains st where "init_pages P n z name buf0 v f = Inr st" and "file_inv fdpath (ld_files st)" and "table_stored content (unat z) (unat n) st"
proof -
  let ?ts = "GetNextPageId_locked (set_row_size (ucast z) (TableSpace_new name))"
  let ?st = "\<lparr>ld_page = set_page_id 0 (Page_new v buf0), ld_ts = ?ts, ld_index = Map.empty, ld_row = replicate (unat z) 97, ld_files = f\<rparr>"
  have last: "ts_last_page_id ?ts = 0" by (simp add: GetNextPageId_locked_def set_row_size_def TableSpace_new_def)
  have "replicate (unat z) (97 :: u8) = replicate 8 97 @ replicate (unat z - 16) 97 @ replicate 8 97"
    using z(1) by (simp flip: replicate_add)
  then have "\<exists>a b. length a = 8 \<and> length b = 8 \<and> ld_row ?st = a @ replicate (unat z - 16) 97 @ b"
    by (intro exI [of _ "replicate 8 97"]) simp
  moreover have "page_wf (ld_page ?st)" using page_wf_new [OF b, of v] by (simp add: set_page_id_def page_wf_def)
  ultimately have inv: "load_inv content fdpath (unat z) 0 0 ?st"
    using f last by (simp add: load_inv_def holds_rows_def GetLastPageId_def set_page_id_def Page_new_def)
  have "unat n < 2 ^ 64" using unsigned_less [of n] by simp
  then obtain st1 q j where st1: "load_keys P z (map of_nat [0..<unat n]) ?st = Inr st1" "load_inv content fdpath (unat z) q j st1"
      "unat n = q * rows_per_page (unat z) + j" "0 < unat n \<longrightarrow> 0 < j"
    using load_keys_ok [OF L z inv, of 0 "unat n"] by auto
  obtain st where "flush_last P st1 = Inr st" "file_inv fdpath (ld_files st)" "table_stored content (unat z) (unat n) st"
    by (rule flush_last_ok [OF L z st1(2,3) \<open>unat n < 2 ^ 64\<close> st1(4)])
  then show ?thesis
    using st1(1) last by (intro that) (simp_all add: init_pages_def GetNextPageId_def Let_def page_numbers_def)
qed

lemma row_place_ok:
  assumes z: "16 \<le> sz" "sz \<le> MY_PAGE_SIZE - 64"
  shows "unat (item_location (row_place sz k)) = 64 + (k mod rows_per_page sz) * sz"
    and "64 + (k mod rows_per_page sz) * sz + sz \<le> MY_PAGE_SIZE"
proof -
  note R = rows_per_page_bounds [OF z]
  have "k mod rows_per_page sz < rows_per_page sz" using R(1) by simp
  then have "(k mod rows_per_page sz + 1) * sz \<le> rows_per_page sz * sz" by (intro mult_le_mono1) simp
  then show "64 + (k mod rows_per_page sz) * sz + sz \<le> MY_PAGE_SIZE" using R(2) by simp
  then show "unat (item_location (row_place sz k)) = 64 + (k mod rows_per_page sz) * sz"
    unfolding row_place_def by (simp only: index_item.simps) (rule unat_of_nat_u64, simp add: MY_PAGE_SIZE_def)
qed

lemma stored_layout:
  assumes z: "16 \<le> sz" "sz \<le> MY_PAGE_SIZE - 64" and n: "n < 2 ^ 64"
  shows "layout_ok sz (\<lambda>k. if unat k < n then Some (row_place sz (unat k)) else None)"
proof -
  let ?R = "rows_per_page sz"
  have apart: "64 + (i mod ?R) * sz + sz \<le> 64 + (j mod ?R) * sz \<or> 64 + (j mod ?R) * sz + sz \<le> 64 + (i mod ?R) * sz"
    if "i \<noteq> j" "i < n" "j < n" "item_page_id (row_place sz i) = item_page_id (row_place sz j)" for i j
  proof -
    have "i div ?R < 2 ^ 64" "j div ?R < 2 ^ 64" using that(2,3) n div_le_dividend [of i ?R] div_le_dividend [of j ?R] by linarith+
    then have "i div ?R = j div ?R" using that(4) of_nat_u64_eq [of "i div ?R" "j div ?R"] by (simp add: row_place_def)
    then have "i mod ?R \<noteq> j mod ?R" using that(1) by (metis div_mod_decomp)
    then have "Suc (i mod ?R) \<le> j mod ?R \<or> Suc (j mod ?R) \<le> i mod ?R" by linarith
    then show ?thesis using mult_le_mono1 [of "Suc (i mod ?R)" "j mod ?R" sz] mult_le_mono1 [of "Suc (j mod ?R)" "i mod ?R" sz] by auto
  qed
  show ?thesis
    unfolding layout_ok_def
  proof (intro conjI allI impI)
    fix k it k' it'
    assume a: "(if unat k < n then Some (row_place sz (unat k)) else None) = Some it \<and>
      (if unat k' < n then Some (row_place sz (unat k')) else None) = Some it' \<and> k \<noteq> k' \<and> item_page_id it = item_page_id it'"
    then have "unat k \<noteq> unat k'" using unsigned_word_eqI by blast
    then show "unat (item_location it) + sz \<le> unat (item_location it') \<or> unat (item_location it') + sz \<le> unat (item_location it)"
      using a apart [of "unat k" "unat k'"] row_place_ok(1) [OF z] by (auto split: if_splits)
  qed (use row_place_ok [OF z] in \<open>auto split: if_splits\<close>)
qed

section \<open>Properties\<close>

lemma stored_row:
  assumes z: "16 \<le> sz" "sz \<le> MY_PAGE_SIZE - 64" and st: "table_stored content sz n st" and k: "k < n"
  obtains c where "file_page content (ld_files st) (item_page_id (row_place sz k)) = Some c"
    and "page_ok (item_page_id (row_place sz k)) c" and "row_at sz (row_place sz k) c = init_row sz k"
proof -
  let ?R = "rows_per_page sz"
  have R: "1 \<le> ?R" by (rule rows_per_page_bounds(1) [OF z])
  have split: "k div ?R * ?R + k mod ?R = k" by simp
  then have "k div ?R * ?R < n" using k by linarith
  then obtain c where c: "file_page content (ld_files st) (of_nat (k div ?R)) = Some c" "page_ok (of_nat (k div ?R)) c"
      "\<forall>i < ?R. k div ?R * ?R + i < n \<longrightarrow> slot sz i c = init_row sz (k div ?R * ?R + i)"
    using st by (auto simp: table_stored_def)
  have "slot sz (k mod ?R) c = init_row sz k" using c(3) split k R by (metis mod_less_divisor less_le_trans zero_less_one)
  then show ?thesis using c(1,2) row_place_ok(1) [OF z, of k] by (intro that [of c]) (simp_all add: slot_def row_at_def row_place_def)
qed

lemma stored_pages:
  assumes st: "table_stored content sz n st" and n: "0 < n" and last: "(n - 1) div rows_per_page sz < 102400"
  shows "unat (GetLastPageId (ld_ts st) + 1) = (n - 1) div rows_per_page sz + 1"
    and "p < GetLastPageId (ld_ts st) + 1 \<Longrightarrow> file_page content (ld_files st) p \<noteq> None"
proof -
  let ?R = "rows_per_page sz" and ?last = "(n - 1) div rows_per_page sz"
  have "GetLastPageId (ld_ts st) = of_nat ?last" using st by (simp add: table_stored_def)
  then show stop: "unat (GetLastPageId (ld_ts st) + 1) = ?last + 1"
    using unat_of_nat_u64 [of "Suc ?last"] last by (simp add: add.commute)
  assume "p < GetLastPageId (ld_ts st) + 1"
  then have "unat p * ?R \<le> ?last * ?R" using stop by (intro mult_le_mono1) (simp add: word_less_nat_alt)
  also have "\<dots> \<le> n - 1" by simp
  finally have "unat p * ?R < n" using n by linarith
  then obtain c where "file_page content (ld_files st) (of_nat (unat p)) = Some c" using st by (auto simp: table_stored_def)
  then show "file_page content (ld_files st) p \<noteq> None" by simp
qed



end
