(* ===== verification/Shared_Disk.thy ===== *)
theory Shared_Disk
  imports Disk
begin

text \<open>
  \<open>shared_disk/brpc/shared_disk_service.cpp\<close>: the page files behind a remote service. The messages of
  \<open>shared_disk_service.proto\<close> are data types; the stub that carries a request to the server and a reply back is a
  parameter, \<open>None\<close> being a failed call.
\<close>

section \<open>Messages\<close>

datatype disk_request =
    OpenRequest string
  | WriteRequest int bytes u64 u64
  | ReadRequest int u64 u64
  | WritePageRequest u64 bytes
  | ReadPageRequest u64
  | CloseAllRequest
  | CloseRequest int

datatype disk_reply =
    OpenReply int
  | WriteReply u64
  | ReadReply bytes u64
  | WritePageReply u64
  | ReadPageReply bytes u64
  | CloseAllReply int
  | CloseReply int

section \<open>Server\<close>

definition Server_Open :: "'w posix \<Rightarrow> string \<Rightarrow> 'w file_io \<Rightarrow> (disk_reply \<times> 'w file_io) res" where
  "Server_Open P path s = rbind (FileIO_Open P path s) (\<lambda>(fd, s'). Inr (OpenReply fd, s'))"

definition Server_Write :: "'w posix \<Rightarrow> int \<Rightarrow> bytes \<Rightarrow> u64 \<Rightarrow> u64 \<Rightarrow> 'w file_io \<Rightarrow> (disk_reply \<times> 'w file_io) res" where
  "Server_Write P fd buf sz off s =
     asserting (of_nat (length buf) = sz)
      (rbind (FileIO_Write P fd buf (unat sz) (unat off) s) (\<lambda>(n, s'). Inr (WriteReply (of_int n), s')))"

text \<open>\<open>stk n\<close> is the local array of \<open>n\<close> bytes.\<close>

definition Server_Read :: "'w posix \<Rightarrow> (nat \<Rightarrow> bytes) \<Rightarrow> int \<Rightarrow> u64 \<Rightarrow> u64 \<Rightarrow> 'w file_io \<Rightarrow> (disk_reply \<times> 'w file_io) res" where
  "Server_Read P stk fd sz off s =
     rbind (FileIO_Read P fd (stk (unat sz)) (unat sz) (unat off) s) (\<lambda>(n, b, s').
     asserting (of_int n = sz) (Inr (ReadReply (take (unat sz) b) sz, s')))"

definition Server_WritePage :: "'w posix \<Rightarrow> u64 \<Rightarrow> bytes \<Rightarrow> 'w file_io \<Rightarrow> (disk_reply \<times> 'w file_io) res" where
  "Server_WritePage P pid buf s =
     asserting (length buf = MY_PAGE_SIZE)
      (rbind (FileIO_WritePage P pid buf s) (\<lambda>(n, s'). Inr (WritePageReply (of_int n), s')))"

definition Server_ReadPage :: "'w posix \<Rightarrow> (nat \<Rightarrow> bytes) \<Rightarrow> u64 \<Rightarrow> 'w file_io \<Rightarrow> (disk_reply \<times> 'w file_io) res" where
  "Server_ReadPage P stk pid s =
     rbind (FileIO_ReadPage P pid (stk MY_PAGE_SIZE) s) (\<lambda>(n, b, s').
     asserting ((of_int n :: u64) = of_nat MY_PAGE_SIZE) (Inr (ReadPageReply (take MY_PAGE_SIZE b) (of_int n), s')))"

definition Server_CloseAll :: "'w posix \<Rightarrow> 'w file_io \<Rightarrow> (disk_reply \<times> 'w file_io) res" where
  "Server_CloseAll P s = rbind (FileIO_Close_all P s) (\<lambda>(r, s'). Inr (CloseAllReply r, s'))"

definition Server_Close :: "'w posix \<Rightarrow> int \<Rightarrow> 'w file_io \<Rightarrow> (disk_reply \<times> 'w file_io) res" where
  "Server_Close P fd s = rbind (FileIO_Close P fd s) (\<lambda>(r, s'). Inr (CloseReply r, s'))"

text \<open>The service calls the handler of a request.\<close>

fun serve :: "'w posix \<Rightarrow> (nat \<Rightarrow> bytes) \<Rightarrow> disk_request \<Rightarrow> 'w file_io \<Rightarrow> (disk_reply \<times> 'w file_io) res" where
  "serve P stk (OpenRequest path) s = Server_Open P path s"
| "serve P stk (WriteRequest fd buf sz off) s = Server_Write P fd buf sz off s"
| "serve P stk (ReadRequest fd sz off) s = Server_Read P stk fd sz off s"
| "serve P stk (WritePageRequest pid buf) s = Server_WritePage P pid buf s"
| "serve P stk (ReadPageRequest pid) s = Server_ReadPage P stk pid s"
| "serve P stk CloseAllRequest s = Server_CloseAll P s"
| "serve P stk (CloseRequest fd) s = Server_Close P fd s"

section \<open>Client\<close>

type_synonym 'n disk_stub = "disk_request \<Rightarrow> 'n \<Rightarrow> (disk_reply option \<times> 'n) res"

text \<open>A failed call fails an assertion; a reply of the wrong type does not occur, fields that are not set are 0.\<close>

definition Client_Open :: "'n disk_stub \<Rightarrow> string \<Rightarrow> 'n \<Rightarrow> (int \<times> 'n) res" where
  "Client_Open stub path n =
     rbind (stub (OpenRequest path) n) (\<lambda>(r, n').
     case r of Some (OpenReply fd) \<Rightarrow> Inr (fd, n') | _ \<Rightarrow> Inl Assert_Fail)"

definition Client_Write :: "'n disk_stub \<Rightarrow> int \<Rightarrow> bytes \<Rightarrow> u64 \<Rightarrow> u64 \<Rightarrow> 'n \<Rightarrow> (u64 \<times> 'n) res" where
  "Client_Write stub fd buf sz off n =
     rbind (read_at buf 0 (unat sz)) (\<lambda>b.
     rbind (stub (WriteRequest fd b sz off) n) (\<lambda>(r, n').
     case r of Some (WriteReply m) \<Rightarrow> asserting (m = sz) (Inr (m, n')) | _ \<Rightarrow> Inl Assert_Fail))"

definition Client_Read :: "'n disk_stub \<Rightarrow> int \<Rightarrow> bytes \<Rightarrow> u64 \<Rightarrow> u64 \<Rightarrow> 'n \<Rightarrow> (u64 \<times> bytes \<times> 'n) res" where
  "Client_Read stub fd buf sz off n =
     rbind (stub (ReadRequest fd sz off) n) (\<lambda>(r, n').
     case r of
       Some (ReadReply b m) \<Rightarrow>
         asserting (sz = of_nat (length b)) (asserting (sz = m) (rbind (memcpy_at buf 0 b) (\<lambda>buf'. Inr (m, buf', n'))))
     | _ \<Rightarrow> Inl Assert_Fail)"

definition Client_WritePage :: "'n disk_stub \<Rightarrow> u64 \<Rightarrow> bytes \<Rightarrow> 'n \<Rightarrow> (u64 \<times> 'n) res" where
  "Client_WritePage stub pid buf n =
     rbind (read_at buf 0 MY_PAGE_SIZE) (\<lambda>b.
     rbind (stub (WritePageRequest pid b) n) (\<lambda>(r, n').
     case r of Some (WritePageReply m) \<Rightarrow> asserting (m = of_nat MY_PAGE_SIZE) (Inr (m, n')) | _ \<Rightarrow> Inl Assert_Fail))"

definition Client_ReadPage :: "'n disk_stub \<Rightarrow> u64 \<Rightarrow> bytes \<Rightarrow> 'n \<Rightarrow> (u64 \<times> bytes \<times> 'n) res" where
  "Client_ReadPage stub pid buf n =
     rbind (stub (ReadPageRequest pid) n) (\<lambda>(r, n').
     case r of
       Some (ReadPageReply b m) \<Rightarrow>
         asserting (length b = MY_PAGE_SIZE)
          (asserting (m = of_nat MY_PAGE_SIZE) (rbind (memcpy_at buf 0 b) (\<lambda>buf'. Inr (m, buf', n'))))
     | _ \<Rightarrow> Inl Assert_Fail)"

definition Client_CloseAll :: "'n disk_stub \<Rightarrow> 'n \<Rightarrow> (int \<times> 'n) res" where
  "Client_CloseAll stub n =
     rbind (stub CloseAllRequest n) (\<lambda>(r, n'). case r of Some (CloseAllReply rc) \<Rightarrow> Inr (rc, n') | _ \<Rightarrow> Inl Assert_Fail)"

text \<open>\<open>Close\<close> does not put the descriptor into its request.\<close>

definition Client_Close :: "'n disk_stub \<Rightarrow> int \<Rightarrow> 'n \<Rightarrow> (int \<times> 'n) res" where
  "Client_Close stub fd n =
     rbind (stub (CloseRequest 0) n) (\<lambda>(r, n'). case r of Some (CloseReply rc) \<Rightarrow> Inr (rc, n') | _ \<Rightarrow> Inl Assert_Fail)"

section \<open>Pages through the service\<close>

text \<open>A call that does not fail runs the handler once, on the server's files, and returns its reply.\<close>

definition stub_ok :: "'w posix \<Rightarrow> (nat \<Rightarrow> bytes) \<Rightarrow> 'w file_io disk_stub \<Rightarrow> bool" where
  "stub_ok P stk stub \<longleftrightarrow> (\<forall>n. length (stk n) = n) \<and> (\<forall>q s. stub q s = rbind (serve P stk q s) (\<lambda>(r, s'). Inr (Some r, s')))"

text \<open>The page store an instance sees.\<close>

definition shared_disk :: "'n disk_stub \<Rightarrow> 'n disk_ops" where
  "shared_disk stub =
     \<lparr>ReadPage = \<lambda>i buf n. rbind (Client_ReadPage stub i buf n) (\<lambda>(_, b, n'). Inr (b, n')),
      WritePage = \<lambda>i buf n. rbind (Client_WritePage stub i buf n) (\<lambda>(_, n'). Inr n')\<rparr>"

lemma write_page_reply:
  assumes L: "posix_laws P content fdpath" and I: "file_inv fdpath s" and len: "length buf = MY_PAGE_SIZE"
  obtains s' where "FileIO_WritePage P i buf s = Inr (int MY_PAGE_SIZE, s')"
proof -
  obtain fd s1 where fd: "page_fd P i s = Inr (fd, s1)" "fdpath (world s1) fd = Some (page_path i)"
    by (rule page_fd_ok [OF L I])
  obtain n w where w: "sys_pwrite P fd buf (page_offset i) (world s1) = (n, w)" by fastforce
  show ?thesis
    using that fd(1) w posix_pwriteD [OF L w fd(2)] len by (simp add: FileIO_WritePage_def FileIO_Write_def read_at_def)
qed

lemma read_page_reply:
  assumes L: "posix_laws P content fdpath" and I: "file_inv fdpath s" and len: "length buf = MY_PAGE_SIZE"
  obtains b s' where "\<forall>out. length out = MY_PAGE_SIZE \<longrightarrow> FileIO_ReadPage P i out s = Inr (int (length b), b @ drop (length b) out, s')"
    and "length b \<le> MY_PAGE_SIZE" and "file_page content s i = (if length b = MY_PAGE_SIZE then Some b else None)"
proof -
  obtain fd s1 where fd: "page_fd P i s = Inr (fd, s1)" "fdpath (world s1) fd = Some (page_path i)" "content (world s1) = content (world s)"
    by (rule page_fd_ok [OF L I])
  obtain r w where w: "sys_pread P fd MY_PAGE_SIZE (page_offset i) (world s1) = (r, w)" by fastforce
  let ?b = "take MY_PAGE_SIZE (drop (page_offset i) (content (world s) (page_path i)))"
  have "FileIO_ReadPage P i out s = Inr (int (length ?b), ?b @ drop (length ?b) out, s1\<lparr>world := w\<rparr>)" if "length out = MY_PAGE_SIZE" for out
    using fd w posix_preadD [OF L w fd(2)] that by (simp add: FileIO_ReadPage_def FileIO_Read_def memcpy_at_def)
  moreover have "length ?b = MY_PAGE_SIZE \<longleftrightarrow> page_offset i + MY_PAGE_SIZE \<le> length (content (world s) (page_path i))" by (auto simp: min_def MY_PAGE_SIZE_def)
  then have "file_page content s i = (if length ?b = MY_PAGE_SIZE then Some ?b else None)" by (simp add: file_page_def Let_def)
  ultimately show ?thesis by (intro that [of ?b "s1\<lparr>world := w\<rparr>"]) simp_all
qed

section \<open>Properties\<close>

text \<open>
  C34: the remote page store agrees with the files of its server. Over a transport that delivers requests and replies,
  \<open>WritePage\<close> of the client is \<open>FileIO::WritePage\<close>, and \<open>ReadPage\<close> is \<open>FileIO::ReadPage\<close> for every page the
  files hold. A page that was never written is where they differ: the server fails the assertion on the number of bytes
  read, where \<open>FileIO::ReadPage\<close> leaves the buffer and returns the smaller number.
\<close>

theorem shared_disk_is_file_disk:
  assumes "posix_laws P content fdpath" and "stub_ok P stk stub" and "file_inv fdpath s"
    and "length buf = MY_PAGE_SIZE"
  shows "(\<exists>s'. WritePage (shared_disk stub) i buf s = Inr s' \<and> WritePage (file_disk P) i buf s = Inr s') \<and>
    (file_page content s i \<noteq> None \<longrightarrow> ReadPage (shared_disk stub) i buf s = ReadPage (file_disk P) i buf s) \<and>
    (file_page content s i = None \<longrightarrow>
      ReadPage (shared_disk stub) i buf s = Inl Assert_Fail \<and> (\<exists>b s'. ReadPage (file_disk P) i buf s = Inr (b, s')))"
proof (intro conjI impI)
  have stub: "stub q s = rbind (serve P stk q s) (\<lambda>(r, s'). Inr (Some r, s'))" for q using assms(2) by (simp add: stub_ok_def)
  obtain s' where "FileIO_WritePage P i buf s = Inr (int MY_PAGE_SIZE, s')" by (rule write_page_reply [OF assms(1,3,4)])
  then show "\<exists>s'. WritePage (shared_disk stub) i buf s = Inr s' \<and> WritePage (file_disk P) i buf s = Inr s'"
    using assms(4) by (simp add: shared_disk_def Client_WritePage_def stub Server_WritePage_def file_disk_def read_at_def)
  obtain b s' where r: "\<forall>out. length out = MY_PAGE_SIZE \<longrightarrow> FileIO_ReadPage P i out s = Inr (int (length b), b @ drop (length b) out, s')"
    and b: "length b \<le> MY_PAGE_SIZE" "file_page content s i = (if length b = MY_PAGE_SIZE then Some b else None)"
    by (rule read_page_reply [OF assms(1,3,4)])
  have "length (stk MY_PAGE_SIZE) = MY_PAGE_SIZE" using assms(2) by (simp add: stub_ok_def)
  note rs = r [rule_format, OF this] and rb = r [rule_format, OF assms(4)]
  have small: "(of_nat (length b) :: u64) = of_nat MY_PAGE_SIZE \<longleftrightarrow> length b = MY_PAGE_SIZE"
    using b(1) by (auto dest!: arg_cong [of _ _ unat] simp: unat_of_nat MY_PAGE_SIZE_def)
  show "ReadPage (shared_disk stub) i buf s = ReadPage (file_disk P) i buf s" if "file_page content s i \<noteq> None"
    using that b rs rb assms(4)
    by (auto simp: shared_disk_def Client_ReadPage_def stub Server_ReadPage_def file_disk_def memcpy_at_def split: if_splits)
  assume none: "file_page content s i = None"
  then show "ReadPage (shared_disk stub) i buf s = Inl Assert_Fail"
    using b rs small by (auto simp: shared_disk_def Client_ReadPage_def stub Server_ReadPage_def asserting_def)
  show "\<exists>b s'. ReadPage (file_disk P) i buf s = Inr (b, s')" using rb by (simp add: file_disk_def)
qed

theorem shared_disk_is_file_disk_witness:
  "\<exists>s'. WritePage (shared_disk (\<lambda>q s. rbind (serve mem_posix (\<lambda>n. replicate n 0) q s) (\<lambda>(r, s'). Inr (Some r, s')))) 3 (replicate MY_PAGE_SIZE 1) mem_world0 =
      Inr s' \<and> WritePage (file_disk mem_posix) 3 (replicate MY_PAGE_SIZE 1) mem_world0 = Inr s'"
  using shared_disk_is_file_disk [OF mem_posix_laws _ mem_world0_inv, where stk = "\<lambda>n. replicate n 0" and buf = "replicate MY_PAGE_SIZE 1" and i = 3
    and stub = "\<lambda>q s. rbind (serve mem_posix (\<lambda>n. replicate n 0) q s) (\<lambda>(r, s'). Inr (Some r, s'))"]
  by (simp add: stub_ok_def)

text \<open>Closing a file through the client closes descriptor 0 of the server.\<close>

lemma Client_Close_zero:
  assumes "stub_ok P stk stub" and "0 \<notin> set (map snd (opened_file s))" and "sys_close P 0 (world s) = (r, w)"
  shows "Client_Close stub fd s = Inr (r, s\<lparr>world := w\<rparr>)"
  using assms by (simp add: Client_Close_def stub_ok_def Server_Close_def FileIO_Close_def)

end
