(* ===== verification/Occ.thy ===== *)
theory Occ
  imports Globals "HOL-Library.Multiset" "HOL-Library.List_Lexorder" "HOL-Library.Char_ord"
begin

text \<open>
  \<open>instance/concurrency_control/occ.cpp\<close> and \<open>row_occ.cpp\<close>: optimistic concurrency control. \<open>central_validate\<close> is
  the parallel validation with a list of active transactions and a history of committed write sets; it has two
  critical sections, between which other transactions run. \<open>per_row_validate\<close> sorts and latches the rows of a transaction.
  Rows and transactions are named by numbers (their addresses); the write phase, \<open>txn_man::cleanup\<close>, is a parameter.
\<close>

section \<open>Rows\<close>

record row_occ =
  occ_wts :: u64
  occ_latched :: bool

definition row_occ_init :: row_occ where
  "row_occ_init = \<lparr>occ_wts = 0, occ_latched = False\<rparr>"

text \<open>\<open>access\<close>; with \<open>RCOK\<close> the caller's row becomes a copy of the stored one.\<close>

definition row_occ_access :: "u64 \<Rightarrow> TsType \<Rightarrow> row_occ \<Rightarrow> RC res" where
  "row_occ_access start_ts ty r =
     (if occ_latched r then Inl Blocked
      else asserting (ty = R_REQ) (Inr (if start_ts < occ_wts r then Abort else RCOK)))"

definition row_occ_latch :: "row_occ \<Rightarrow> row_occ res" where
  "row_occ_latch r = (if occ_latched r then Inl Blocked else Inr (r\<lparr>occ_latched := True\<rparr>))"

definition row_occ_validate :: "u64 \<Rightarrow> row_occ \<Rightarrow> bool" where
  "row_occ_validate ts r = (\<not> ts < occ_wts r)"

definition PER_ROW_VALID :: bool where
  "PER_ROW_VALID = True"

text \<open>The timestamp part of \<open>write\<close>.\<close>

definition row_occ_write :: "u64 \<Rightarrow> row_occ \<Rightarrow> row_occ res" where
  "row_occ_write ts r = (if PER_ROW_VALID then asserting (ts > occ_wts r) (Inr (r\<lparr>occ_wts := ts\<rparr>)) else Inr r)"

definition row_occ_release :: "row_occ \<Rightarrow> row_occ" where
  "row_occ_release r = r\<lparr>occ_latched := False\<rparr>"

section \<open>Validation row by row\<close>

record occ_access =
  oa_type :: access_t
  oa_table :: string
  oa_key :: u64
  oa_row :: nat

definition access_gt :: "occ_access \<Rightarrow> occ_access \<Rightarrow> bool" where
  "access_gt a b \<longleftrightarrow> oa_table a > oa_table b \<or> oa_table a = oa_table b \<and> oa_key a > oa_key b"

text \<open>The inner loop for \<open>j < i\<close>, then the outer one for \<open>i\<close> down to 1.\<close>

fun bubble_pass :: "nat \<Rightarrow> occ_access list \<Rightarrow> occ_access list" where
  "bubble_pass (Suc i) (a # b # xs) = (if access_gt a b then b # bubble_pass i (a # xs) else a # bubble_pass i (b # xs))"
| "bubble_pass i xs = xs"

fun bubble_sort :: "nat \<Rightarrow> occ_access list \<Rightarrow> occ_access list" where
  "bubble_sort 0 xs = xs"
| "bubble_sort (Suc i) xs = bubble_sort i (bubble_pass (Suc i) xs)"

text \<open>Latching and validating until a row fails; the rows latched are returned.\<close>

fun lock_rows :: "u64 \<Rightarrow> occ_access list \<Rightarrow> (nat \<Rightarrow> row_occ) \<Rightarrow> (bool \<times> nat list \<times> (nat \<Rightarrow> row_occ)) res" where
  "lock_rows ts [] m = Inr (True, [], m)"
| "lock_rows ts (a # as) m =
     rbind (row_occ_latch (m (oa_row a))) (\<lambda>r.
     let m1 = m(oa_row a := r) in
     if row_occ_validate ts r
     then rbind (lock_rows ts as m1) (\<lambda>(ok, ps, m2). Inr (ok, oa_row a # ps, m2))
     else Inr (False, [oa_row a], m1))"

definition release_rows :: "nat list \<Rightarrow> (nat \<Rightarrow> row_occ) \<Rightarrow> nat \<Rightarrow> row_occ" where
  "release_rows ps m = fold (\<lambda>p m. m(p := row_occ_release (m p))) ps m"

definition per_row_validate ::
  "(RC \<Rightarrow> occ_access list \<Rightarrow> (nat \<Rightarrow> row_occ) \<Rightarrow> (nat \<Rightarrow> row_occ) res) \<Rightarrow> u64 \<Rightarrow> occ_access list \<Rightarrow> (nat \<Rightarrow> row_occ)
   \<Rightarrow> (RC \<times> occ_access list \<times> (nat \<Rightarrow> row_occ)) res" where
  "per_row_validate cleanup start_ts as m =
     (let as1 = bubble_sort (length as - 1) as in
      rbind (lock_rows start_ts as1 m) (\<lambda>(ok, ps, m1).
      let rc = (if ok then RCOK else Abort) in
      rbind (cleanup rc as1 m1) (\<lambda>m2. Inr (rc, as1, release_rows ps m2))))"

section \<open>Central validation\<close>

record set_ent =
  ent_tn :: u64
  ent_txn :: nat
  ent_rows :: "nat list"

record opt_cc =
  tnc :: u64
  his_len :: u64
  active_len :: nat
  active :: "set_ent list"
  history :: "set_ent list"

text \<open>\<open>init\<close> leaves \<open>history\<close> as it is.\<close>

definition OptCC_init :: "opt_cc \<Rightarrow> opt_cc" where
  "OptCC_init c = c\<lparr>tnc := 0, his_len := 0, active_len := 0, active := []\<rparr>"

text \<open>The read and the write set, into arrays of the counted sizes.\<close>

definition get_rw_set :: "nat \<Rightarrow> nat \<Rightarrow> occ_access list \<Rightarrow> u64 \<Rightarrow> (set_ent \<times> set_ent) res" where
  "get_rw_set txn wr_cnt as tn0 =
     (let ws = map oa_row (filter (\<lambda>a. oa_type a = WR) as); rs = map oa_row (filter (\<lambda>a. oa_type a \<noteq> WR) as) in
      if length ws > wr_cnt \<or> length rs + wr_cnt > length as then Inl Out_Of_Bounds
      else asserting (length ws = wr_cnt) (asserting (length rs + wr_cnt = length as)
            (Inr (\<lparr>ent_tn = tn0, ent_txn = txn, ent_rows = rs\<rparr>, \<lparr>ent_tn = tn0, ent_txn = txn, ent_rows = ws\<rparr>))))"

fun test_valid :: "set_ent \<Rightarrow> set_ent \<Rightarrow> bool" where
  "test_valid s1 s2 = list_all (\<lambda>x. list_all (\<lambda>y. x \<noteq> y) (ent_rows s2)) (ent_rows s1)"

text \<open>What the first critical section notes: the counter, the active transactions, the history.\<close>

record occ_snap =
  finish_tn :: u64
  finish_active :: "set_ent list"
  snap_his :: "set_ent list"

definition validate_enter :: "set_ent \<Rightarrow> opt_cc \<Rightarrow> (occ_snap \<times> opt_cc) res" where
  "validate_enter wset c =
     (if length (active c) > active_len c then Inl Out_Of_Bounds
      else if length (active c) < active_len c then Inl Bad_Deref
      else Inr (\<lparr>finish_tn = tnc c, finish_active = active c, snap_his = history c\<rparr>,
            if ent_rows wset = [] then c else c\<lparr>active_len := active_len c + 1, active := wset # active c\<rparr>))"

text \<open>The two loops over the history and the one over the active transactions.\<close>

definition validate_check :: "u64 \<Rightarrow> set_ent \<Rightarrow> set_ent \<Rightarrow> occ_snap \<Rightarrow> bool" where
  "validate_check start_tn rset wset sn \<longleftrightarrow>
     (finish_tn sn > start_tn \<longrightarrow>
        list_all (\<lambda>h. test_valid h rset) (takeWhile (\<lambda>h. ent_tn h > start_tn) (dropWhile (\<lambda>h. ent_tn h > finish_tn sn) (snap_his sn)))) \<and>
     list_all (\<lambda>w. test_valid w rset \<and> test_valid w wset) (finish_active sn)"

text \<open>The search in the active list; it runs off the end if the transaction is not there.\<close>

fun remove_active :: "nat \<Rightarrow> set_ent list \<Rightarrow> set_ent list res" where
  "remove_active txn [] = Inl Bad_Deref"
| "remove_active txn (e # es) = (if ent_txn e = txn then Inr es else rbind (remove_active txn es) (\<lambda>es'. Inr (e # es')))"

definition validate_leave :: "nat \<Rightarrow> bool \<Rightarrow> set_ent \<Rightarrow> opt_cc \<Rightarrow> opt_cc res" where
  "validate_leave txn valid wset c =
     (if ent_rows wset = [] then Inr c
      else rbind (remove_active txn (active c)) (\<lambda>as.
           let c1 = c\<lparr>active := as, active_len := active_len c - 1\<rparr> in
           if valid
           then asserting (history c = [] \<or> ent_tn (hd (history c)) = tnc c)
                 (Inr (c1\<lparr>tnc := tnc c + 1, history := wset\<lparr>ent_tn := tnc c + 1\<rparr> # history c, his_len := his_len c + 1\<rparr>))
           else Inr c1))"

text \<open>One call that is not interrupted.\<close>

definition central_validate ::
  "(RC \<Rightarrow> 'w \<Rightarrow> 'w res) \<Rightarrow> nat \<Rightarrow> u64 \<Rightarrow> nat \<Rightarrow> occ_access list \<Rightarrow> u64 \<Rightarrow> opt_cc \<Rightarrow> 'w \<Rightarrow> (RC \<times> opt_cc \<times> 'w) res" where
  "central_validate cleanup txn start_tn wr_cnt as tn0 c w =
     rbind (get_rw_set txn wr_cnt as tn0) (\<lambda>(rset, wset).
     rbind (validate_enter wset c) (\<lambda>(sn, c1).
     let valid = validate_check start_tn rset wset sn in
     rbind (if valid then cleanup RCOK w else Inr w) (\<lambda>w1.
     rbind (validate_leave txn valid wset c1) (\<lambda>c2.
     if valid then Inr (RCOK, c2, w1) else rbind (cleanup Abort w1) (\<lambda>w2. Inr (Abort, c2, w2))))))"

end
