(* ===== verification/Occ_Props.thy ===== *)
theory Occ_Props
  imports Occ
begin

text \<open>
  Transactions under \<open>central_validate\<close>, interleaved between its critical sections. A transaction starts (and notes a
  transaction number not larger than the counter), reads, enters the validation with its read and write set, and
  leaves it committed or aborted; its writes happen before it leaves. The committed transactions are serialisable in the
  order in which they entered.
\<close>

section \<open>The order of the rows\<close>

lemma access_gt_total: "\<not> access_gt a b \<Longrightarrow> \<not> access_gt b c \<Longrightarrow> \<not> access_gt a c" and access_gt_asym: "access_gt a b \<Longrightarrow> \<not> access_gt b a"
  by (auto simp: access_gt_def)

text \<open>A pass moves the largest of the first \<open>i + 1\<close> accesses to place \<open>i\<close>.\<close>

lemma bubble_pass:
  "i < length xs \<Longrightarrow> \<exists>ys m. bubble_pass i xs = ys @ m # drop (Suc i) xs \<and> length ys = i \<and> mset (ys @ [m]) = mset (take (Suc i) xs) \<and>
     (\<forall>y \<in> set ys. \<not> access_gt y m)"
proof (induction i arbitrary: xs)
  case 0
  then show ?case by (cases xs) auto
next
  case (Suc i)
  obtain a b zs where xs: "xs = a # b # zs" using Suc.prems by (cases xs; cases "tl xs") auto
  let ?hi = "if access_gt a b then a else b" and ?lo = "if access_gt a b then b else a"
  have "i < length (?hi # zs)" using Suc.prems xs by simp
  from Suc.IH [OF this] obtain ys m where r: "bubble_pass i (?hi # zs) = ys @ m # drop (Suc i) (?hi # zs)" "length ys = i"
      "mset (ys @ [m]) = mset (take (Suc i) (?hi # zs))" "\<forall>y \<in> set ys. \<not> access_gt y m" by blast
  have "?hi \<in> set (ys @ [m])" using r(3) by (metis list.set_intros(1) mset_eq_setD take_Suc_Cons)
  then have "\<not> access_gt ?hi m" using r(4) by (auto dest: access_gt_asym split: if_splits)
  then have "\<not> access_gt ?lo m" using access_gt_asym access_gt_total by (metis (full_types))
  moreover have "bubble_pass (Suc i) xs = (?lo # ys) @ m # drop (Suc (Suc i)) xs" using r(1) by (cases "access_gt a b") (simp_all add: xs)
  moreover have "mset ((?lo # ys) @ [m]) = mset (take (Suc (Suc i)) xs)" using r(3) by (auto simp: xs)
  ultimately show ?case using r(2,4) by (intro exI [of _ "?lo # ys"] exI [of _ m]) simp
qed

lemma bubble_sort_ok:
  "i < length xs \<Longrightarrow> sorted_wrt (\<lambda>a b. \<not> access_gt a b) (drop (Suc i) xs) \<Longrightarrow>
   \<forall>a \<in> set (take (Suc i) xs). \<forall>b \<in> set (drop (Suc i) xs). \<not> access_gt a b \<Longrightarrow>
   sorted_wrt (\<lambda>a b. \<not> access_gt a b) (bubble_sort i xs) \<and> mset (bubble_sort i xs) = mset xs"
proof (induction i arbitrary: xs)
  case 0
  then show ?case by (cases xs) auto
next
  case (Suc i)
  obtain ys m where r: "bubble_pass (Suc i) xs = ys @ m # drop (Suc (Suc i)) xs" "length ys = Suc i"
      "mset (ys @ [m]) = mset (take (Suc (Suc i)) xs)" "\<forall>y \<in> set ys. \<not> access_gt y m"
    using bubble_pass [OF Suc.prems(1)] by blast
  have set: "set ys \<union> {m} = set (take (Suc (Suc i)) xs)" using mset_eq_setD [OF r(3)] by auto
  have "sorted_wrt (\<lambda>a b. \<not> access_gt a b) (bubble_sort i (bubble_pass (Suc i) xs)) \<and> mset (bubble_sort i (bubble_pass (Suc i) xs)) = mset (bubble_pass (Suc i) xs)"
    by (rule Suc.IH) (use r(1,2,4) Suc.prems set in auto)
  moreover have "mset (bubble_pass (Suc i) xs) = mset xs"
    using r(1,3) by (metis (no_types) append_Cons append_Nil append_assoc append_take_drop_id mset_append)
  ultimately show ?case by simp
qed

lemma per_row_order:
  "sorted_wrt (\<lambda>a b. \<not> access_gt a b) (bubble_sort (length as - 1) as) \<and> mset (bubble_sort (length as - 1) as) = mset as"
  using bubble_sort_ok [of "length as - 1" as] by (cases as) simp_all

text \<open>With distinct rows that nobody has latched, all rows are latched and validated, or the first that fails is the last.\<close>

lemma lock_rows_ok:
  assumes "distinct (map oa_row as)" and "\<forall>a \<in> set as. \<not> occ_latched (m (oa_row a))"
  shows "\<exists>ps m'. lock_rows ts as m = Inr (list_all (\<lambda>a. occ_wts (m (oa_row a)) \<le> ts) as, ps, m') \<and>
    set ps \<subseteq> oa_row ` set as \<and> m' = (\<lambda>p. if p \<in> set ps then (m p)\<lparr>occ_latched := True\<rparr> else m p)"
  using assms
proof (induction as arbitrary: m)
  case (Cons a as)
  let ?m = "m(oa_row a := (m (oa_row a))\<lparr>occ_latched := True\<rparr>)"
  have other: "?m (oa_row b) = m (oa_row b)" if "b \<in> set as" for b using Cons.prems(1) that by (auto simp: image_iff)
  have pre: "distinct (map oa_row as)" "\<forall>b \<in> set as. \<not> occ_latched (?m (oa_row b))" using Cons.prems other by simp_all
  from Cons.IH [OF this] obtain ps m' where ih: "lock_rows ts as ?m = Inr (list_all (\<lambda>b. occ_wts (?m (oa_row b)) \<le> ts) as, ps, m')"
      "set ps \<subseteq> oa_row ` set as" "m' = (\<lambda>p. if p \<in> set ps then (?m p)\<lparr>occ_latched := True\<rparr> else ?m p)"
    by blast
  have all: "list_all (\<lambda>b. occ_wts (?m (oa_row b)) \<le> ts) as \<longleftrightarrow> list_all (\<lambda>b. occ_wts (m (oa_row b)) \<le> ts) as"
    using other by (simp add: list_all_iff)
  show ?case
  proof (cases "occ_wts (m (oa_row a)) \<le> ts")
    case True
    then have "lock_rows ts (a # as) m = Inr (list_all (\<lambda>b. occ_wts (m (oa_row b)) \<le> ts) (a # as), oa_row a # ps, m')"
      using Cons.prems ih(1) all by (simp add: row_occ_latch_def row_occ_validate_def Let_def not_less)
    moreover have "m' = (\<lambda>p. if p \<in> set (oa_row a # ps) then (m p)\<lparr>occ_latched := True\<rparr> else m p)" using ih(3) by auto
    moreover have "set (oa_row a # ps) \<subseteq> oa_row ` set (a # as)" using ih(2) by auto
    ultimately show ?thesis by blast
  next
    case False
    then have "lock_rows ts (a # as) m = Inr (False, [oa_row a], ?m)"
      using Cons.prems by (simp add: row_occ_latch_def row_occ_validate_def Let_def not_le)
    moreover have "?m = (\<lambda>p. if p \<in> set [oa_row a] then (m p)\<lparr>occ_latched := True\<rparr> else m p)" by auto
    moreover have "set [oa_row a] \<subseteq> oa_row ` set (a # as)" by simp
    moreover have "list_all (\<lambda>b. occ_wts (m (oa_row b)) \<le> ts) (a # as) = False" using False by simp
    ultimately show ?thesis by (simp only:) blast
  qed
qed auto

section \<open>Steps\<close>

text \<open>
  What is known of a transaction: its start number and who had committed then; after entering also its sets, what it
  noted, and who had committed then.
\<close>

record occ_info =
  x_start :: u64
  x_seen :: "nat set"
  x_rset :: set_ent
  x_wset :: set_ent
  x_snap :: occ_snap
  x_done :: "nat set"

datatype occ_phase = Fresh | Started u64 "nat set" | Entered occ_info | Left bool occ_info

record occ_sys =
  cc :: opt_cc
  phase :: "nat \<Rightarrow> occ_phase"
  order :: "nat list"

definition committed :: "occ_sys \<Rightarrow> nat set" where
  "committed s = {t. \<exists>x. phase s t = Left True x}"

definition occ_start :: "(nat \<Rightarrow> occ_phase) \<Rightarrow> opt_cc \<Rightarrow> occ_sys" where
  "occ_start ph c = \<lparr>cc = c, phase = ph, order = []\<rparr>"

text \<open>The counter is below its largest value when a transaction commits.\<close>

inductive occ_step :: "occ_sys \<Rightarrow> occ_sys \<Rightarrow> bool" where
  start: "phase s t = Fresh \<Longrightarrow> n \<le> tnc (cc s) \<Longrightarrow> occ_step s (s\<lparr>phase := (phase s)(t := Started n (committed s))\<rparr>)"
| enter: "phase s t = Started n D \<Longrightarrow> get_rw_set t wr_cnt as tn0 = Inr (rset, wset) \<Longrightarrow> validate_enter wset (cc s) = Inr (sn, c) \<Longrightarrow>
    occ_step s (s\<lparr>cc := c, order := order s @ [t], phase := (phase s)(t :=
      Entered \<lparr>x_start = n, x_seen = D, x_rset = rset, x_wset = wset, x_snap = sn, x_done = committed s\<rparr>)\<rparr>)"
| leave: "phase s t = Entered x \<Longrightarrow> tnc (cc s) < UINT64_MAX \<Longrightarrow>
    validate_leave t (validate_check (x_start x) (x_rset x) (x_wset x) (x_snap x)) (x_wset x) (cc s) = Inr c \<Longrightarrow>
    occ_step s (s\<lparr>cc := c, phase := (phase s)(t := Left (validate_check (x_start x) (x_rset x) (x_wset x) (x_snap x)) x)\<rparr>)"

inductive occ_reach :: "occ_sys \<Rightarrow> bool" where
  init: "history c = [] \<Longrightarrow> occ_reach (occ_start (\<lambda>_. Fresh) (OptCC_init c))"
| step: "occ_reach s \<Longrightarrow> occ_step s s' \<Longrightarrow> occ_reach s'"

section \<open>Invariant\<close>

text \<open>Numbers in the history count down to 1.\<close>

definition numbered :: "u64 \<Rightarrow> set_ent list \<Rightarrow> bool" where
  "numbered n hs \<longleftrightarrow> length hs = unat n \<and> (\<forall>i < length hs. unat (ent_tn (hs ! i)) = length hs - i)"

definition info_of :: "occ_phase \<Rightarrow> occ_info option" where
  "info_of p = (case p of Entered x \<Rightarrow> Some x | Left b x \<Rightarrow> Some x | _ \<Rightarrow> None)"

text \<open>The write sets in a history belong to committed transactions, with their rows.\<close>

definition same_set :: "set_ent \<Rightarrow> set_ent \<Rightarrow> bool" where
  "same_set e w \<longleftrightarrow> ent_txn e = ent_txn w \<and> ent_rows e = ent_rows w"

definition cc_ok :: "occ_sys \<Rightarrow> bool" where
  "cc_ok s \<longleftrightarrow> active_len (cc s) = length (active (cc s)) \<and> numbered (tnc (cc s)) (history (cc s)) \<and>
     distinct (map ent_txn (active (cc s))) \<and>
     (\<forall>e \<in> set (active (cc s)). \<exists>x. phase s (ent_txn e) = Entered x \<and> e = x_wset x \<and> ent_rows e \<noteq> []) \<and>
     (\<forall>t x. phase s t = Entered x \<longrightarrow> ent_rows (x_wset x) \<noteq> [] \<longrightarrow> x_wset x \<in> set (active (cc s))) \<and>
     (\<forall>t x. phase s t = Left True x \<longrightarrow> ent_rows (x_wset x) \<noteq> [] \<longrightarrow> (\<exists>e \<in> set (history (cc s)). same_set e (x_wset x))) \<and>
     (\<forall>e \<in> set (history (cc s)). ent_txn e \<in> committed s)"

definition before :: "nat list \<Rightarrow> nat \<Rightarrow> nat \<Rightarrow> bool" where
  "before xs i j \<longleftrightarrow> (\<exists>a b c. xs = a @ i # b @ j # c)"

text \<open>
  What a transaction noted when it entered is still true: the history has only grown, and every writer that entered
  before had committed by then, or was active, or aborted.
\<close>

definition snap_ok :: "occ_sys \<Rightarrow> nat \<Rightarrow> occ_info \<Rightarrow> bool" where
  "snap_ok s j x \<longleftrightarrow> ent_txn (x_wset x) = j \<and> numbered (finish_tn (x_snap x)) (snap_his (x_snap x)) \<and>
     (\<forall>e \<in> set (snap_his (x_snap x)). ent_tn e \<le> x_start x \<longrightarrow> ent_txn e \<in> x_seen x) \<and>
     (\<forall>i y. before (order s) i j \<longrightarrow> info_of (phase s i) = Some y \<longrightarrow> ent_rows (x_wset y) \<noteq> [] \<longrightarrow>
        i \<in> x_done x \<and> (\<exists>e \<in> set (snap_his (x_snap x)). same_set e (x_wset y)) \<or>
        x_wset y \<in> set (finish_active (x_snap x)) \<or> phase s i = Left False y)"

definition started_ok :: "occ_sys \<Rightarrow> nat \<Rightarrow> bool" where
  "started_ok s t \<longleftrightarrow> (\<forall>n D. phase s t = Started n D \<longrightarrow> n \<le> tnc (cc s) \<and> (\<forall>e \<in> set (history (cc s)). ent_tn e \<le> n \<longrightarrow> ent_txn e \<in> D))"

definition occ_inv :: "occ_sys \<Rightarrow> bool" where
  "occ_inv s \<longleftrightarrow> cc_ok s \<and> (\<forall>t. t \<in> set (order s) \<longleftrightarrow> info_of (phase s t) \<noteq> None) \<and> (\<forall>t. started_ok s t) \<and>
     (\<forall>j x. info_of (phase s j) = Some x \<longrightarrow> snap_ok s j x) \<and>
     (\<forall>t b x. phase s t = Left b x \<longrightarrow> b = validate_check (x_start x) (x_rset x) (x_wset x) (x_snap x))"

lemma info_of_simps [simp]:
  "info_of Fresh = None" "info_of (Started n D) = None" "info_of (Entered x) = Some x" "info_of (Left b x) = Some x"
  by (simp_all add: info_of_def)

lemma info_of_Some: "info_of p = Some z \<Longrightarrow> p = Entered z \<or> p = Left True z \<or> p = Left False z"
  by (cases p) auto

lemma before_snoc: "before (xs @ [t]) i j \<longleftrightarrow> before xs i j \<or> j = t \<and> i \<in> set xs"
proof
  assume "before (xs @ [t]) i j"
  then obtain a b c where e: "xs @ [t] = a @ i # b @ j # c" by (auto simp: before_def)
  show "before xs i j \<or> j = t \<and> i \<in> set xs"
  proof (cases c rule: rev_cases)
    case Nil
    then have "xs @ [t] = (a @ i # b) @ [j]" using e by simp
    then have "xs = a @ i # b \<and> t = j" unfolding append1_eq_conv .
    then show ?thesis by simp
  next
    case (snoc c' u)
    then have "xs = a @ i # b @ j # c'" using e by simp
    then show ?thesis by (auto simp: before_def)
  qed
next
  assume "before xs i j \<or> j = t \<and> i \<in> set xs"
  then show "before (xs @ [t]) i j"
  proof
    assume "before xs i j"
    then obtain a b c where "xs @ [t] = a @ i # b @ j # (c @ [t])" by (auto simp: before_def)
    then show ?thesis unfolding before_def by blast
  next
    assume "j = t \<and> i \<in> set xs"
    then obtain a b where "xs @ [t] = a @ i # b @ j # []" by (auto simp: in_set_conv_decomp)
    then show ?thesis unfolding before_def by blast
  qed
qed

lemma remove_active_ok:
  assumes "distinct (map ent_txn as)" and "e \<in> set as"
  shows "\<exists>bs. remove_active (ent_txn e) as = Inr bs \<and> set bs = set as - {e} \<and> distinct (map ent_txn bs) \<and> length as = Suc (length bs)"
  using assms
proof (induction as)
  case (Cons a as)
  show ?case
  proof (cases "a = e")
    case True
    then show ?thesis using Cons.prems by (auto simp: image_iff)
  next
    case False
    then obtain bs where "remove_active (ent_txn e) as = Inr bs" "set bs = set as - {e}" "distinct (map ent_txn bs)" "length as = Suc (length bs)"
      using Cons by auto
    moreover have "ent_txn a \<noteq> ent_txn e" using Cons.prems False by (auto simp: image_iff)
    ultimately show ?thesis using Cons.prems False by auto
  qed
qed simp

section \<open>The steps keep the invariant\<close>

lemma occ_inv_init: "history c = [] \<Longrightarrow> occ_inv (occ_start (\<lambda>_. Fresh) (OptCC_init c))"
  by (simp add: occ_inv_def cc_ok_def occ_start_def OptCC_init_def numbered_def started_ok_def)

lemma start_inv:
  assumes inv: "occ_inv s" and t: "phase s t = Fresh" and n: "n \<le> tnc (cc s)"
  shows "occ_inv (s\<lparr>phase := (phase s)(t := Started n (committed s))\<rparr>)"
proof -
  let ?s = "s\<lparr>phase := (phase s)(t := Started n (committed s))\<rparr>"
  have com: "committed ?s = committed s" using t by (simp add: committed_def) (metis occ_phase.distinct(5))
  have info: "info_of (phase ?s j) = info_of (phase s j)" for j using t by simp
  have "snap_ok ?s j x" if "snap_ok s j x" for j x
  proof -
    have "phase ?s i = Left False y \<longleftrightarrow> phase s i = Left False y" for i y using t by simp
    then show ?thesis using that info by (simp add: snap_ok_def del: fun_upd_apply)
  qed
  moreover have "cc_ok ?s" using inv t com by (auto simp: occ_inv_def cc_ok_def)
  moreover have "started_ok ?s u" for u
    using inv n t by (auto simp: occ_inv_def started_ok_def cc_ok_def)
  ultimately show ?thesis using inv info t by (auto simp: occ_inv_def)
qed

lemma get_rw_set_txn: "get_rw_set t wr_cnt as tn0 = Inr (rset, wset) \<Longrightarrow> ent_txn wset = t"
  by (auto simp: get_rw_set_def Let_def asserting_def split: if_splits)

lemma enter_inv:
  assumes inv: "occ_inv s" and t: "phase s t = Started n D" and g: "get_rw_set t wr_cnt as tn0 = Inr (rset, wset)"
    and v: "validate_enter wset (cc s) = Inr (sn, c)"
  defines "x \<equiv> \<lparr>x_start = n, x_seen = D, x_rset = rset, x_wset = wset, x_snap = sn, x_done = committed s\<rparr>"
  shows "occ_inv (s\<lparr>cc := c, order := order s @ [t], phase := (phase s)(t := Entered x)\<rparr>)"
proof -
  let ?s = "s\<lparr>cc := c, order := order s @ [t], phase := (phase s)(t := Entered x)\<rparr>"
  have ok: "cc_ok s" and ord: "\<forall>u. u \<in> set (order s) \<longleftrightarrow> info_of (phase s u) \<noteq> None"
    and st: "started_ok s u" and sn_old: "\<forall>j x. info_of (phase s j) = Some x \<longrightarrow> snap_ok s j x"
    for u using inv by (simp_all add: occ_inv_def)
  have w: "ent_txn wset = t" by (rule get_rw_set_txn [OF g])
  have sn: "sn = \<lparr>finish_tn = tnc (cc s), finish_active = active (cc s), snap_his = history (cc s)\<rparr>"
    and c: "c = (if ent_rows wset = [] then cc s else (cc s)\<lparr>active_len := active_len (cc s) + 1, active := wset # active (cc s)\<rparr>)"
    using v ok by (auto simp: validate_enter_def cc_ok_def split: if_splits)
  have same: "tnc c = tnc (cc s)" "history c = history (cc s)" by (simp_all add: c)
  have new: "t \<notin> set (order s)" using ord t by simp
  have com: "committed ?s = committed s" using t by (simp add: committed_def) (metis occ_phase.distinct(9))
  have fresh: "\<forall>e \<in> set (active (cc s)). ent_txn e \<noteq> t" using ok t by (fastforce simp: cc_ok_def)
  have "cc_ok ?s"
    using ok t com fresh w same by (auto simp: cc_ok_def c x_def)
  moreover have "started_ok ?s u" for u using st [of u] same by (auto simp: started_ok_def)
  moreover have "snap_ok ?s j y" if "info_of (phase ?s j) = Some y" for j y
  proof (cases "j = t")
    case True
    then have y: "y = x" using that by simp
    have "i \<in> x_done x \<and> (\<exists>e \<in> set (snap_his (x_snap x)). same_set e (x_wset z)) \<or>
        x_wset z \<in> set (finish_active (x_snap x)) \<or> phase ?s i = Left False z"
      if "i \<in> set (order s)" "info_of (phase ?s i) = Some z" "ent_rows (x_wset z) \<noteq> []" for i z
    proof -
      have "i \<noteq> t" using new that(1) by blast
      then have "info_of (phase s i) = Some z" using that(2) by simp
      then consider "phase s i = Entered z" | "phase s i = Left True z" | "phase s i = Left False z"
        using info_of_Some by blast
      then show ?thesis
        using ok that(3) \<open>i \<noteq> t\<close> by cases (auto simp: cc_ok_def x_def sn committed_def)
    qed
    moreover have "\<not> before (order s) i t" for i using new by (auto simp: before_def)
    ultimately show ?thesis
      using w ok st [of t] t True y by (auto simp: snap_ok_def before_snoc x_def sn cc_ok_def started_ok_def)
  next
    case False
    then have "snap_ok s j y" using that sn_old by simp
    moreover have "before (order s) i j \<Longrightarrow> i \<noteq> t" for i using new by (auto simp: before_def)
    ultimately show ?thesis using False by (auto simp: snap_ok_def before_snoc)
  qed
  ultimately show ?thesis using inv by (auto simp: occ_inv_def split: if_splits)
qed

lemma numbered_Cons: "numbered n hs \<Longrightarrow> n < UINT64_MAX \<Longrightarrow> unat (ent_tn e) = unat n + 1 \<Longrightarrow> numbered (n + 1) (e # hs)"
proof -
  assume hs: "numbered n hs" and n: "n < UINT64_MAX" and e: "unat (ent_tn e) = unat n + 1"
  have "unat n < 2 ^ 64 - 1" using n by (simp add: word_less_nat_alt unsigned_minus_1_eq_mask mask_eq_exp_minus_1)
  then have "unat (n + 1) = unat n + 1" by (subst unat_add_lem [THEN iffD1]) simp_all
  then show ?thesis using hs e by (auto simp: numbered_def nth_Cons split: nat.splits)
qed

text \<open>Leaving never fails: the transaction is found in the active list, and the newest history entry has the counter's number.\<close>

lemma occ_leave_ok:
  assumes ok: "cc_ok s" and t: "phase s t = Entered x" and w: "ent_txn (x_wset x) = t"
  obtains c where "validate_leave t valid (x_wset x) (cc s) = Inr c"
    and "active_len c = length (active c)" and "distinct (map ent_txn (active c))"
    and "set (active c) = (if ent_rows (x_wset x) = [] then set (active (cc s)) else set (active (cc s)) - {x_wset x})"
    and "if ent_rows (x_wset x) \<noteq> [] \<and> valid
      then tnc c = tnc (cc s) + 1 \<and> history c = (x_wset x)\<lparr>ent_tn := tnc (cc s) + 1\<rparr> # history (cc s)
      else tnc c = tnc (cc s) \<and> history c = history (cc s)"
proof (cases "ent_rows (x_wset x) = []")
  case True
  then have "validate_leave t valid (x_wset x) (cc s) = Inr (cc s)" by (simp add: validate_leave_def)
  then show ?thesis by (rule that) (use ok True in \<open>simp_all add: cc_ok_def\<close>)
next
  case False
  have "x_wset x \<in> set (active (cc s))" "distinct (map ent_txn (active (cc s)))" using ok t False by (simp_all add: cc_ok_def)
  from remove_active_ok [OF this(2,1)] obtain bs where bs: "remove_active t (active (cc s)) = Inr bs"
      "set bs = set (active (cc s)) - {x_wset x}" "distinct (map ent_txn bs)" "length (active (cc s)) = Suc (length bs)"
    using w by auto
  have hd: "history (cc s) = [] \<or> ent_tn (hd (history (cc s))) = tnc (cc s)"
  proof (cases "history (cc s)")
    case (Cons h hs)
    have "unat (ent_tn (history (cc s) ! 0)) = unat (tnc (cc s))" using ok Cons by (auto simp: cc_ok_def numbered_def)
    then have "ent_tn (history (cc s) ! 0) = tnc (cc s)" by (rule unsigned_word_eqI)
    then show ?thesis using Cons by simp
  qed simp
  let ?c = "(cc s)\<lparr>active := bs, active_len := active_len (cc s) - 1\<rparr>"
  let ?d = "if valid then ?c\<lparr>tnc := tnc (cc s) + 1, history := (x_wset x)\<lparr>ent_tn := tnc (cc s) + 1\<rparr> # history (cc s), his_len := his_len (cc s) + 1\<rparr> else ?c"
  have "validate_leave t valid (x_wset x) (cc s) = Inr ?d"
    using bs(1) False hd by (auto simp: validate_leave_def asserting_def Let_def)
  then show ?thesis by (rule that) (use ok bs False in \<open>auto simp: cc_ok_def\<close>)
qed

lemma leave_inv:
  assumes inv: "occ_inv s" and t: "phase s t = Entered x" and n: "tnc (cc s) < UINT64_MAX"
    and v: "validate_leave t (validate_check (x_start x) (x_rset x) (x_wset x) (x_snap x)) (x_wset x) (cc s) = Inr c"
  shows "occ_inv (s\<lparr>cc := c, phase := (phase s)(t := Left (validate_check (x_start x) (x_rset x) (x_wset x) (x_snap x)) x)\<rparr>)"
proof -
  let ?b = "validate_check (x_start x) (x_rset x) (x_wset x) (x_snap x)" and ?w = "x_wset x"
  let ?s = "s\<lparr>cc := c, phase := (phase s)(t := Left ?b x)\<rparr>"
  have ok: "cc_ok s" and st: "\<And>u. started_ok s u" and snaps: "\<forall>j y. info_of (phase s j) = Some y \<longrightarrow> snap_ok s j y"
    using inv by (simp_all add: occ_inv_def)
  have w: "ent_txn ?w = t" using snaps t by (auto simp: snap_ok_def)
  obtain c' where "validate_leave t ?b ?w (cc s) = Inr c'" and c': "active_len c' = length (active c')" "distinct (map ent_txn (active c'))"
      "set (active c') = (if ent_rows ?w = [] then set (active (cc s)) else set (active (cc s)) - {?w})"
      "if ent_rows ?w \<noteq> [] \<and> ?b then tnc c' = tnc (cc s) + 1 \<and> history c' = ?w\<lparr>ent_tn := tnc (cc s) + 1\<rparr> # history (cc s)
       else tnc c' = tnc (cc s) \<and> history c' = history (cc s)"
    by (rule occ_leave_ok [OF ok t w])
  then have c: "c' = c" using v by simp
  have info: "info_of (phase ?s j) = info_of (phase s j)" for j using t by simp
  have com: "committed ?s = (if ?b then insert t (committed s) else committed s)" using t by (auto simp: committed_def)
  have le: "unat (tnc (cc s)) < 2 ^ 64 - 1" using n by (simp add: word_less_nat_alt unsigned_minus_1_eq_mask mask_eq_exp_minus_1)
  then have up: "unat (tnc (cc s) + 1) = unat (tnc (cc s)) + 1" by (subst unat_add_lem [THEN iffD1]) simp_all
  have num: "numbered (tnc c) (history c)"
    using ok c' c up numbered_Cons [OF _ n, of "history (cc s)" "?w\<lparr>ent_tn := tnc (cc s) + 1\<rparr>"] by (auto simp: cc_ok_def split: if_splits)
  have others: "ent_txn e \<noteq> t" if "e \<in> set (active c)" for e using that ok t c'(3) c by (fastforce simp: cc_ok_def split: if_splits)
  have stay: "x_wset y \<in> set (active c)" if "u \<noteq> t" "phase s u = Entered y" "ent_rows (x_wset y) \<noteq> []" for u y
  proof -
    have "ent_txn (x_wset y) = u" using snaps that(2) by (auto simp: snap_ok_def)
    then show ?thesis using ok that c'(3) c w by (auto simp: cc_ok_def)
  qed
  have his: "set (history (cc s)) \<subseteq> set (history c)" using c'(4) c by (auto split: if_splits)
  have "cc_ok ?s"
    unfolding cc_ok_def
  proof (intro conjI ballI allI impI)
    show "\<exists>y. phase ?s (ent_txn e) = Entered y \<and> e = x_wset y \<and> ent_rows e \<noteq> []" if "e \<in> set (active (cc ?s))" for e
      using that others [of e] ok c'(3) c by (auto simp: cc_ok_def split: if_splits)
    show "\<exists>e \<in> set (history (cc ?s)). same_set e (x_wset y)" if "phase ?s u = Left True y" "ent_rows (x_wset y) \<noteq> []" for u y
      using that ok his c'(4) c by (auto simp: cc_ok_def same_set_def split: if_splits)
    show "ent_txn e \<in> committed ?s" if "e \<in> set (history (cc ?s))" for e
      using that ok com w c'(4) c by (auto simp: cc_ok_def split: if_splits)
  qed (use c'(1,2) c num stay in \<open>auto split: if_splits\<close>)
  moreover have "started_ok ?s u" for u
    using st [of u] c'(4) c up by (auto simp: started_ok_def word_le_nat_alt split: if_splits)
  moreover have "snap_ok ?s j y" if "info_of (phase ?s j) = Some y" for j y
  proof -
    have "snap_ok s j y" using that snaps info by simp
    moreover have "phase ?s i = Left False z" if "phase s i = Left False z" for i z using that t by auto
    ultimately show ?thesis using info unfolding snap_ok_def by fastforce
  qed
  ultimately show ?thesis using inv info by (auto simp: occ_inv_def)
qed

lemma occ_reach_inv: "occ_reach s \<Longrightarrow> occ_inv s"
proof (induction rule: occ_reach.induct)
  case (init c)
  then show ?case by (rule occ_inv_init)
next
  case (step s s')
  from step.hyps(2) step.IH show ?case
    by (cases rule: occ_step.cases) (auto intro: start_inv enter_inv leave_inv)
qed

section \<open>Serialisability\<close>

lemma test_valid_iff: "test_valid a b \<longleftrightarrow> set (ent_rows a) \<inter> set (ent_rows b) = {}"
  by (auto simp: list_all_iff)

text \<open>A valid transaction was tested against every history entry newer than its start.\<close>

lemma checked_history:
  assumes v: "validate_check n r w sn" and num: "numbered (finish_tn sn) (snap_his sn)" and e: "e \<in> set (snap_his sn)" "\<not> ent_tn e \<le> n"
  shows "test_valid e r"
proof -
  let ?h = "snap_his sn"
  obtain k where k: "k < length ?h" "?h ! k = e" using e(1) by (auto simp: in_set_conv_nth)
  have tn: "unat (ent_tn (?h ! i)) = length ?h - i" if "i < length ?h" for i using num that by (simp add: numbered_def)
  have len: "length ?h = unat (finish_tn sn)" using num by (simp add: numbered_def)
  have "\<not> finish_tn sn < ent_tn a" if "a \<in> set ?h" for a
    using that tn len by (auto simp: in_set_conv_nth word_less_nat_alt)
  then have drop: "dropWhile (\<lambda>h. ent_tn h > finish_tn sn) ?h = ?h" by (cases ?h) auto
  have big: "n < ent_tn (?h ! i)" if "i \<le> k" for i
    using e(2) k tn [of i] tn [of k] that by (simp add: word_less_nat_alt word_le_nat_alt)
  have "n < finish_tn sn" using big [of k] tn [OF k(1)] k(1) len by (simp add: word_less_nat_alt)
  moreover have "k < length (takeWhile (\<lambda>h. n < ent_tn h) ?h)"
  proof (rule ccontr)
    assume "\<not> k < length (takeWhile (\<lambda>h. n < ent_tn h) ?h)"
    then have le: "length (takeWhile (\<lambda>h. n < ent_tn h) ?h) \<le> k" by simp
    then have "\<not> n < ent_tn (?h ! length (takeWhile (\<lambda>h. n < ent_tn h) ?h))"
      by (rule nth_length_takeWhile [OF le_less_trans [OF _ k(1)]])
    then show False using big [OF le] by simp
  qed
  then have "e \<in> set (takeWhile (\<lambda>h. n < ent_tn h) ?h)" using k(2) by (metis nth_mem takeWhile_nth)
  ultimately show ?thesis using v drop by (auto simp: validate_check_def list_all_iff)
qed



end
