(* ===== verification/Arena.thy ===== *)
theory Arena
  imports DB_Prelude
begin

unbundle bit_operations_syntax

text \<open>
  \<open>util/arena.cpp\<close>: an allocator that cuts small pieces out of blocks. \<open>new char[n]\<close> is a parameter that returns the
  address of a block or throws; sizes and addresses are 64-bit words.
\<close>

section \<open>Operations\<close>

definition kBlockSize :: u64 where
  "kBlockSize = 4096"

record arena =
  arena_id :: int
  alloc_ptr :: u64
  alloc_bytes_remaining :: u64
  blocks :: "u64 list"
  memory_usage :: u64

type_synonym 'h new_char = "u64 \<Rightarrow> 'h \<Rightarrow> (u64 \<times> 'h) res"

definition Arena_new :: "int \<Rightarrow> arena" where
  "Arena_new i = \<lparr>arena_id = i, alloc_ptr = 0, alloc_bytes_remaining = 0, blocks = [], memory_usage = 0\<rparr>"

definition AllocateNewBlock :: "'h new_char \<Rightarrow> u64 \<Rightarrow> arena \<Rightarrow> 'h \<Rightarrow> (u64 \<times> arena \<times> 'h) res" where
  "AllocateNewBlock nw n a h =
     rbind (nw n h) (\<lambda>(p, h').
     Inr (p, a\<lparr>blocks := blocks a @ [p], memory_usage := memory_usage a + (n + 8)\<rparr>, h'))"

definition AllocateFallback :: "'h new_char \<Rightarrow> u64 \<Rightarrow> arena \<Rightarrow> 'h \<Rightarrow> (u64 \<times> arena \<times> 'h) res" where
  "AllocateFallback nw n a h =
     (if n > kBlockSize div 4 then AllocateNewBlock nw n a h
      else rbind (AllocateNewBlock nw kBlockSize a h) (\<lambda>(p, a1, h1).
           Inr (p, a1\<lparr>alloc_ptr := p + n, alloc_bytes_remaining := kBlockSize - n\<rparr>, h1)))"

definition Allocate :: "'h new_char \<Rightarrow> u64 \<Rightarrow> arena \<Rightarrow> 'h \<Rightarrow> (u64 \<times> arena \<times> 'h) res" where
  "Allocate nw n a h =
     asserting (n > 0)
      (if n \<le> alloc_bytes_remaining a
       then Inr (alloc_ptr a, a\<lparr>alloc_ptr := alloc_ptr a + n, alloc_bytes_remaining := alloc_bytes_remaining a - n\<rparr>, h)
       else AllocateFallback nw n a h)"

text \<open>Pointers have 8 bytes, so the alignment is 8.\<close>

definition AllocateAligned :: "'h new_char \<Rightarrow> u64 \<Rightarrow> arena \<Rightarrow> 'h \<Rightarrow> (u64 \<times> arena \<times> 'h) res" where
  "AllocateAligned nw n a h =
     (let current_mod = alloc_ptr a AND 7;
          slop = (if current_mod = 0 then 0 else 8 - current_mod);
          needed = n + slop in
      rbind (if needed \<le> alloc_bytes_remaining a
             then Inr (alloc_ptr a + slop, a\<lparr>alloc_ptr := alloc_ptr a + needed,
                         alloc_bytes_remaining := alloc_bytes_remaining a - needed\<rparr>, h)
             else AllocateFallback nw n a h) (\<lambda>(p, a1, h1).
      asserting (p AND 7 = 0) (Inr (p, a1, h1))))"

definition MemoryUsage :: "arena \<Rightarrow> u64" where
  "MemoryUsage a = memory_usage a"

text \<open>The destructor deletes the blocks in their order.\<close>

definition Arena_delete :: "(u64 \<Rightarrow> 'h \<Rightarrow> 'h) \<Rightarrow> arena \<Rightarrow> 'h \<Rightarrow> 'h" where
  "Arena_delete del a h = fold del (blocks a) h"

section \<open>Requests\<close>

datatype alloc_req = Plain u64 | Aligned u64

fun alloc_one :: "'h new_char \<Rightarrow> alloc_req \<Rightarrow> arena \<Rightarrow> 'h \<Rightarrow> (u64 \<times> arena \<times> 'h) res" where
  "alloc_one nw (Plain n) a h = Allocate nw n a h"
| "alloc_one nw (Aligned n) a h = AllocateAligned nw n a h"

fun req_size :: "alloc_req \<Rightarrow> u64" where
  "req_size (Plain n) = n"
| "req_size (Aligned n) = n"

fun alloc_all :: "'h new_char \<Rightarrow> alloc_req list \<Rightarrow> arena \<Rightarrow> 'h \<Rightarrow> (u64 list \<times> arena \<times> 'h) res" where
  "alloc_all nw [] a h = Inr ([], a, h)"
| "alloc_all nw (r # rs) a h =
     rbind (alloc_one nw r a h) (\<lambda>(p, a1, h1). rbind (alloc_all nw rs a1 h1) (\<lambda>(ps, a2, h2). Inr (p # ps, a2, h2)))"

section \<open>Memory\<close>

definition region :: "u64 \<Rightarrow> u64 \<Rightarrow> nat set" where
  "region p n = {unat p..<unat p + unat n}"

text \<open>
  \<open>new\<close> returns memory that is not in use (\<open>live\<close>), not at address 0, aligned to 16 bytes and inside the address space,
  or throws.
\<close>

definition heap_laws :: "'h new_char \<Rightarrow> ('h \<Rightarrow> nat set) \<Rightarrow> bool" where
  "heap_laws nw live \<longleftrightarrow> (\<forall>n h p h'. nw n h = Inr (p, h') \<longrightarrow>
     p \<noteq> 0 \<and> unat p mod 16 = 0 \<and> unat p + unat n < 2 ^ 64 \<and> region p n \<inter> live h = {} \<and> live h' = live h \<union> region p n) \<and>
     (\<forall>n h e. nw n h = Inl e \<longrightarrow> e = Exception)"

text \<open>The rest of the current block is memory that nobody was given; \<open>U\<close> is what was given out.\<close>

definition arena_inv :: "nat set \<Rightarrow> ('h \<Rightarrow> nat set) \<Rightarrow> arena \<Rightarrow> 'h \<Rightarrow> bool" where
  "arena_inv U live a h \<longleftrightarrow> unat (alloc_ptr a) + unat (alloc_bytes_remaining a) < 2 ^ 64 \<and>
     region (alloc_ptr a) (alloc_bytes_remaining a) \<subseteq> live h \<and> U \<subseteq> live h \<and>
     region (alloc_ptr a) (alloc_bytes_remaining a) \<inter> U = {}"

definition piece_ok :: "nat set \<Rightarrow> alloc_req \<Rightarrow> u64 \<Rightarrow> bool" where
  "piece_ok U r p \<longleftrightarrow> region p (req_size r) \<inter> U = {} \<and> (\<forall>n. r = Aligned n \<longrightarrow> unat p mod 8 = 0)"

lemma and7: "(p AND 7 = 0) \<longleftrightarrow> unat p mod 8 = 0" and unat_and7: "unat (p AND 7) = unat p mod 8" for p :: u64
proof -
  have "p AND 7 = take_bit 3 p" by (simp add: take_bit_eq_mask mask_eq_exp_minus_1)
  also have "\<dots> = p mod 8" by (simp add: take_bit_eq_mod)
  finally show u: "unat (p AND 7) = unat p mod 8" by (simp add: unat_mod_distrib)
  show "(p AND 7 = 0) \<longleftrightarrow> unat p mod 8 = 0" using u by (metis unat_eq_zero)
qed

section \<open>One piece\<close>

lemma region_split: "unat n \<le> unat m \<Longrightarrow> unat p + unat m < 2 ^ 64 \<Longrightarrow>
    region p n \<union> region (p + n) (m - n) = region p m \<and> region p n \<inter> region (p + n) (m - n) = {}"
proof -
  assume nm: "unat n \<le> unat m" and p: "unat p + unat m < 2 ^ 64"
  have "unat (p + n) = unat p + unat n" using nm p by (subst unat_add_lem [THEN iffD1]) simp_all
  moreover have "unat (m - n) = unat m - unat n" using nm by (simp add: unat_sub word_le_nat_alt)
  ultimately show ?thesis using nm by (auto simp: region_def)
qed

lemma bump_ok:
  assumes inv: "arena_inv U live a h" and n: "unat n \<le> unat (alloc_bytes_remaining a)"
  shows "arena_inv (U \<union> region (alloc_ptr a) n) live (a\<lparr>alloc_ptr := alloc_ptr a + n, alloc_bytes_remaining := alloc_bytes_remaining a - n\<rparr>) h"
    and "region (alloc_ptr a) n \<inter> U = {}"
proof -
  have sp: "region (alloc_ptr a) n \<union> region (alloc_ptr a + n) (alloc_bytes_remaining a - n) = region (alloc_ptr a) (alloc_bytes_remaining a)"
      "region (alloc_ptr a) n \<inter> region (alloc_ptr a + n) (alloc_bytes_remaining a - n) = {}"
    using region_split [OF n, of "alloc_ptr a"] inv by (simp_all add: arena_inv_def)
  have "unat (alloc_ptr a + n) + unat (alloc_bytes_remaining a - n) = unat (alloc_ptr a) + unat (alloc_bytes_remaining a)"
    using inv n by (subst unat_add_lem [THEN iffD1]) (simp_all add: arena_inv_def unat_sub word_le_nat_alt)
  then show "arena_inv (U \<union> region (alloc_ptr a) n) live (a\<lparr>alloc_ptr := alloc_ptr a + n, alloc_bytes_remaining := alloc_bytes_remaining a - n\<rparr>) h"
    using inv sp by (auto simp: arena_inv_def)
  show "region (alloc_ptr a) n \<inter> U = {}" using inv sp(1) by (auto simp: arena_inv_def)
qed

lemma fallback_ok:
  assumes L: "heap_laws nw live" and inv: "arena_inv U live a h" and run: "AllocateFallback nw n a h = Inr (p, a', h')"
  shows "arena_inv (U \<union> region p n) live a' h'" and "region p n \<inter> U = {}" and "unat p mod 8 = 0"
proof -
  have law: "unat q mod 16 = 0" "unat q + unat m < 2 ^ 64" "region q m \<inter> live h = {}" "live g = live h \<union> region q m"
    if "nw m h = Inr (q, g)" for m q g using L that unfolding heap_laws_def by blast+
  have mod: "unat q mod 8 = 0" if "unat q mod 16 = 0" for q :: u64 using that by presburger
  have "arena_inv (U \<union> region p n) live a' h' \<and> region p n \<inter> U = {} \<and> unat p mod 8 = 0"
  proof (cases "n > kBlockSize div 4")
    case True
    then have "nw n h = Inr (p, h')" "alloc_ptr a' = alloc_ptr a" "alloc_bytes_remaining a' = alloc_bytes_remaining a"
      using run by (auto simp: AllocateFallback_def AllocateNewBlock_def rbind_Inr_iff)
    with inv law [of n p h'] mod [of p] show ?thesis
      by (auto simp: arena_inv_def)
  next
    case False
    then have nw: "nw kBlockSize h = Inr (p, h')" and a': "alloc_ptr a' = p + n" "alloc_bytes_remaining a' = kBlockSize - n"
      using run by (auto simp: AllocateFallback_def AllocateNewBlock_def rbind_Inr_iff)
    have n: "unat n \<le> unat kBlockSize" using False by (simp add: kBlockSize_def word_less_nat_alt unat_div_distrib)
    note l = law [OF nw]
    let ?b = "a\<lparr>alloc_ptr := p, alloc_bytes_remaining := kBlockSize\<rparr>"
    have "arena_inv U live ?b h'" using inv l by (auto simp: arena_inv_def)
    from bump_ok [OF this, of n] n a' mod [OF l(1)] show ?thesis by (auto simp: arena_inv_def)
  qed
  then show "arena_inv (U \<union> region p n) live a' h'" "region p n \<inter> U = {}" "unat p mod 8 = 0" by blast+
qed

lemma fallback_throws:
  assumes "heap_laws nw live" and "AllocateFallback nw n a h = Inl e"
  shows "e = Exception"
  using assms by (auto simp: AllocateFallback_def AllocateNewBlock_def heap_laws_def rbind_def split: if_splits sum.splits)

lemma arena_inv_mono: "arena_inv V live a h \<Longrightarrow> U \<subseteq> V \<Longrightarrow> arena_inv U live a h"
  by (auto simp: arena_inv_def)

lemma aligned_bump:
  fixes n :: u64
  assumes inv: "arena_inv U live a h" and n: "unat n + 8 < 2 ^ 64"
    and slop: "slop = (if alloc_ptr a AND 7 = 0 then 0 else 8 - (alloc_ptr a AND 7))" and le: "n + slop \<le> alloc_bytes_remaining a"
  shows "unat (alloc_ptr a + slop) mod 8 = 0" and "region (alloc_ptr a + slop) n \<subseteq> region (alloc_ptr a) (n + slop)"
proof -
  let ?m = "unat (alloc_ptr a) mod 8"
  have m: "?m < 8" by simp
  have us: "unat slop = (if ?m = 0 then 0 else 8 - ?m)"
    using m by (simp add: slop and7 unat_and7 unat_sub word_le_nat_alt)
  then have "unat slop \<le> 8" by simp
  then have nd: "unat (n + slop) = unat n + unat slop" using n by (subst unat_add_lem [THEN iffD1]) simp_all
  have "unat (n + slop) \<le> unat (alloc_bytes_remaining a)" using le by (simp add: word_le_nat_alt)
  then have pt: "unat (alloc_ptr a + slop) = unat (alloc_ptr a) + unat slop"
    using inv nd by (subst unat_add_lem [THEN iffD1]) (simp_all add: arena_inv_def)
  show "unat (alloc_ptr a + slop) mod 8 = 0" unfolding pt us by (auto, presburger)
  show "region (alloc_ptr a + slop) n \<subseteq> region (alloc_ptr a) (n + slop)" using nd pt by (auto simp: region_def)
qed

definition alloc_fits :: "alloc_req \<Rightarrow> bool" where
  "alloc_fits r \<longleftrightarrow> unat (req_size r) + 8 < 2 ^ 64 \<and> (\<forall>n. r = Plain n \<longrightarrow> 0 < n)"

lemma alloc_one_ok:
  assumes L: "heap_laws nw live" and inv: "arena_inv U live a h" and r: "alloc_fits r"
  shows "alloc_one nw r a h = Inl Exception \<or>
    (\<exists>p a' h'. alloc_one nw r a h = Inr (p, a', h') \<and> piece_ok U r p \<and> arena_inv (U \<union> region p (req_size r)) live a' h')"
proof (cases r)
  case (Plain n)
  show ?thesis
  proof (cases "n \<le> alloc_bytes_remaining a")
    case True
    then show ?thesis
      using bump_ok [OF inv, of n] r Plain by (simp add: Allocate_def asserting_def piece_ok_def word_le_nat_alt alloc_fits_def)
  next
    case False
    then have run: "alloc_one nw r a h = AllocateFallback nw n a h" using r Plain by (simp add: Allocate_def asserting_def alloc_fits_def)
    then show ?thesis
      using fallback_ok [OF L inv] fallback_throws [OF L] Plain by (cases "AllocateFallback nw n a h") (fastforce simp: piece_ok_def)+
  qed
next
  case (Aligned n)
  let ?slop = "if alloc_ptr a AND 7 = 0 then 0 else 8 - (alloc_ptr a AND 7)"
  have n: "unat n + 8 < 2 ^ 64" using r Aligned by (simp add: alloc_fits_def)
  show ?thesis
  proof (cases "n + ?slop \<le> alloc_bytes_remaining a")
    case True
    note al = aligned_bump [OF inv n HOL.refl True]
    note b = bump_ok [OF inv, of "n + ?slop"]
    let ?a = "a\<lparr>alloc_ptr := alloc_ptr a + (n + ?slop), alloc_bytes_remaining := alloc_bytes_remaining a - (n + ?slop)\<rparr>"
    have run: "alloc_one nw r a h = Inr (alloc_ptr a + ?slop, ?a, h)"
      using True al(1) Aligned by (simp add: AllocateAligned_def Let_def asserting_def and7)
    have "piece_ok U r (alloc_ptr a + ?slop)" using b(2) al True Aligned by (auto simp: piece_ok_def word_le_nat_alt)
    moreover have "arena_inv (U \<union> region (alloc_ptr a + ?slop) n) live ?a h"
      by (rule arena_inv_mono [OF b(1)]) (use True al(2) in \<open>auto simp: word_le_nat_alt\<close>)
    ultimately show ?thesis using run Aligned by simp
  next
    case False
    then have run: "alloc_one nw r a h = rbind (AllocateFallback nw n a h) (\<lambda>(p, a1, h1). asserting (p AND 7 = 0) (Inr (p, a1, h1)))"
      using Aligned by (simp add: AllocateAligned_def Let_def)
    show ?thesis
    proof (cases "AllocateFallback nw n a h")
      case (Inl e)
      then show ?thesis using run fallback_throws [OF L] by simp
    next
      case (Inr x)
      obtain p a' h' where x: "x = (p, a', h')" by (cases x)
      note fb = fallback_ok [OF L inv Inr [unfolded x]]
      have "alloc_one nw r a h = Inr (p, a', h')" using run Inr x fb(3) by (simp add: asserting_def and7)
      then show ?thesis using fb Aligned by (simp add: piece_ok_def)
    qed
  qed
qed

lemma alloc_all_ok:
  assumes L: "heap_laws nw live" and "arena_inv U live a h" and "list_all alloc_fits rs"
  shows "alloc_all nw rs a h = Inl Exception \<or> (\<exists>ps a' h'. alloc_all nw rs a h = Inr (ps, a', h') \<and> length ps = length rs \<and>
    (\<forall>j < length rs. piece_ok (U \<union> (\<Union>i < j. region (ps ! i) (req_size (rs ! i)))) (rs ! j) (ps ! j)))"
  using assms(2,3)
proof (induction rs arbitrary: U a h)
  case (Cons r rs)
  show ?case
  proof (cases "alloc_one nw r a h = Inl Exception \<or> alloc_all nw (r # rs) a h = Inl Exception")
    case True
    then show ?thesis by auto
  next
    case False
    obtain p a1 h1 where p: "alloc_one nw r a h = Inr (p, a1, h1)" "piece_ok U r p" "arena_inv (U \<union> region p (req_size r)) live a1 h1"
      using alloc_one_ok [OF L Cons.prems(1), of r] Cons.prems(2) False by auto
    obtain ps a2 h2 where ih: "alloc_all nw rs a1 h1 = Inr (ps, a2, h2)" "length ps = length rs"
        "\<forall>j < length rs. piece_ok (U \<union> region p (req_size r) \<union> (\<Union>i < j. region (ps ! i) (req_size (rs ! i)))) (rs ! j) (ps ! j)"
      using Cons.IH [OF p(3)] Cons.prems(2) False p(1) by auto
    have "piece_ok (U \<union> (\<Union>i < j. region ((p # ps) ! i) (req_size ((r # rs) ! i)))) ((r # rs) ! j) ((p # ps) ! j)" if "j < Suc (length rs)" for j
    proof (cases j)
      case (Suc k)
      have "(\<Union>i < Suc k. region ((p # ps) ! i) (req_size ((r # rs) ! i))) = region p (req_size r) \<union> (\<Union>i < k. region (ps ! i) (req_size (rs ! i)))"
        by (simp add: lessThan_Suc_eq_insert_0)
      then show ?thesis using ih(3) that Suc by (simp add: Un_assoc)
    qed (use p(2) in simp)
    then show ?thesis using p(1) ih(1,2) by auto
  qed
qed simp

section \<open>Properties\<close>


text \<open>A system whose memory starts at 16 and is never given back; the state is the list of the sizes given out.\<close>

fun demo_base :: "nat list \<Rightarrow> nat" where
  "demo_base [] = 16"
| "demo_base (n # ns) = demo_base ns + 16 * ((n + 15) div 16)"

fun demo_live :: "nat list \<Rightarrow> nat set" where
  "demo_live [] = {}"
| "demo_live (n # ns) = demo_live ns \<union> {demo_base ns..<demo_base ns + n}"

definition demo_new :: "nat list new_char" where
  "demo_new n h = (if demo_base h + unat n < 2 ^ 40 then Inr (of_nat (demo_base h), unat n # h) else Inl Exception)"

lemma demo_laws: "heap_laws demo_new demo_live"
proof -
  have low: "x < demo_base h" if "x \<in> demo_live h" for x h
    using that
  proof (induction h)
    case (Cons n ns)
    have "n \<le> 16 * ((n + 15) div 16)" by presburger
    then show ?case using Cons by auto
  qed simp
  have pos: "0 < demo_base h \<and> demo_base h mod 16 = 0" for h by (induction h) auto
  have "p \<noteq> 0 \<and> unat p mod 16 = 0 \<and> unat p + unat n < 2 ^ 64 \<and> region p n \<inter> demo_live h = {} \<and> demo_live h' = demo_live h \<union> region p n"
    if "demo_new n h = Inr (p, h')" for n h p h'
  proof -
    have h: "demo_base h + unat n < 2 ^ 40" "p = of_nat (demo_base h)" "h' = unat n # h" using that by (auto simp: demo_new_def split: if_splits)
    have u: "unat p = demo_base h" using h(1,2) by (simp add: unat_of_nat)
    then have "p \<noteq> 0" using pos [of h] by auto
    then show ?thesis using u h(1,3) pos [of h] by (auto simp: region_def dest!: low)
  qed
  then show ?thesis unfolding heap_laws_def by (auto simp: demo_new_def split: if_splits)
qed


end
