(* ===== verification/Run_Stats.thy ===== *)
theory Run_Stats
  imports Record_Index Global_Lock Ycsb_Query "HOL-Library.Signed_Division"
begin

text \<open>
  What an instance measures and reports (util/profiler.h, common/mystats.h, common/mystats.cpp, util/parse_result.cpp
  and the updates of the statistics in the thread, the transaction, the rows and the main program): the profiler, the
  statistics per thread and per transaction, their totals, the result files of the instances and the programs' sums
  over them. Numbers are \<open>uint64_t\<close> and wrap; the clock readings are arguments.
\<close>

section \<open>The profiler\<close>

text \<open>Time points and durations are nanoseconds; a default time point is the epoch. \<open>duration_cast\<close> truncates towards zero.\<close>

record profiler =
  pr_start :: int
  pr_end :: int
  pr_finished :: bool
  pr_count :: int

definition Profiler_new :: profiler where
  "Profiler_new = \<lparr>pr_start = 0, pr_end = 0, pr_finished = False, pr_count = 0\<rparr>"

definition Profiler_Start :: "int \<Rightarrow> profiler \<Rightarrow> profiler" where
  "Profiler_Start now p = p\<lparr>pr_finished := False, pr_start := now\<rparr>"

definition Profiler_End :: "int \<Rightarrow> profiler \<Rightarrow> profiler" where
  "Profiler_End now p = p\<lparr>pr_end := now, pr_finished := True, pr_count := pr_count p + (now - pr_start p)\<rparr>"

definition Profiler_Elapsed :: "int \<Rightarrow> profiler \<Rightarrow> profiler" where
  "Profiler_Elapsed now p = (if pr_finished p then p else Profiler_End now p)"

definition Nanos :: "profiler \<Rightarrow> u64" where
  "Nanos p = of_int (pr_count p)"

definition Micros :: "profiler \<Rightarrow> u64" where
  "Micros p = of_int (pr_count p sdiv 1000)"

definition Millis :: "profiler \<Rightarrow> u64" where
  "Millis p = of_int (pr_count p sdiv 1000000)"

definition Seconds :: "profiler \<Rightarrow> u64" where
  "Seconds p = of_int (pr_count p sdiv 1000000000)"

definition Profiler_Clear :: "profiler \<Rightarrow> profiler" where
  "Profiler_Clear p = p\<lparr>pr_count := 0\<rparr>"

section \<open>The statistics\<close>

record stats_thd =
  sd_thread_id :: u64
  sd_txn_cnt :: u64
  sd_abort_cnt :: u64
  sd_run_time :: u64
  sd_time_man :: u64
  sd_time_index :: u64
  sd_time_wait :: u64
  sd_time_abort :: u64
  sd_time_cleanup :: u64
  sd_time_ts_alloc :: u64
  sd_time_query :: u64
  sd_wait_cnt :: u64
  sd_debug1 :: u64
  sd_debug2 :: u64
  sd_debug3 :: u64
  sd_debug4 :: u64
  sd_debug5 :: u64
  sd_latency :: u64
  sd_all_debug1 :: "u64 list"
  sd_all_debug2 :: "u64 list"
  sd_time_remote_lock :: u64
  sd_count_remote_lock :: u64
  sd_count_total_request :: u64
  sd_count_write_request :: u64

record stats_tmp =
  sp_time_man :: u64
  sp_time_index :: u64
  sp_time_wait :: u64
  sp_time_remote_lock :: u64

text \<open>The arrays of pointers; \<open>None\<close> is the null pointer of a thread that has not been initialised.\<close>

record stats =
  thd_stats :: "stats_thd option list"
  tmp_stats :: "stats_tmp option list"
  dl_detect_time :: u64
  dl_wait_time :: u64
  cycle_detect :: u64
  deadlock :: u64
  stats_txn_cnt :: u64

definition STATS_ENABLE :: bool where
  "STATS_ENABLE = True"

definition BILLION :: u64 where
  "BILLION = 1000"

text \<open>\<open>clear\<close> leaves the identifier, the arrays and the three counters of page locks and requests.\<close>

definition Stats_thd_clear :: "stats_thd \<Rightarrow> stats_thd" where
  "Stats_thd_clear d = d\<lparr>sd_txn_cnt := 0, sd_abort_cnt := 0, sd_run_time := 0, sd_time_man := 0, sd_time_index := 0,
     sd_time_wait := 0, sd_time_abort := 0, sd_time_cleanup := 0, sd_time_ts_alloc := 0, sd_time_query := 0,
     sd_wait_cnt := 0, sd_debug1 := 0, sd_debug2 := 0, sd_debug3 := 0, sd_debug4 := 0, sd_debug5 := 0,
     sd_latency := 0, sd_time_remote_lock := 0\<rparr>"

definition Stats_thd_init :: "u64 \<Rightarrow> stats_thd \<Rightarrow> stats_thd" where
  "Stats_thd_init thread_id d =
     (Stats_thd_clear (d\<lparr>sd_thread_id := thread_id\<rparr>))
       \<lparr>sd_all_debug1 := replicate MAX_TXN_PER_PART 0, sd_all_debug2 := replicate MAX_TXN_PER_PART 0\<rparr>"

definition Stats_tmp_clear :: "stats_tmp \<Rightarrow> stats_tmp" where
  "Stats_tmp_clear t = t\<lparr>sp_time_man := 0, sp_time_index := 0, sp_time_wait := 0, sp_time_remote_lock := 0\<rparr>"

definition Stats_tmp_init :: "stats_tmp \<Rightarrow> stats_tmp" where
  "Stats_tmp_init t = Stats_tmp_clear t"

text \<open>\<open>new Stats_thd()\<close> and \<open>new Stats_tmp()\<close> give zeroed objects (their arrays are null).\<close>

definition zero_thd :: stats_thd where
  "zero_thd = \<lparr>sd_thread_id = 0, sd_txn_cnt = 0, sd_abort_cnt = 0, sd_run_time = 0, sd_time_man = 0, sd_time_index = 0,
     sd_time_wait = 0, sd_time_abort = 0, sd_time_cleanup = 0, sd_time_ts_alloc = 0, sd_time_query = 0, sd_wait_cnt = 0,
     sd_debug1 = 0, sd_debug2 = 0, sd_debug3 = 0, sd_debug4 = 0, sd_debug5 = 0, sd_latency = 0, sd_all_debug1 = [],
     sd_all_debug2 = [], sd_time_remote_lock = 0, sd_count_remote_lock = 0, sd_count_total_request = 0,
     sd_count_write_request = 0\<rparr>"

definition zero_tmp :: stats_tmp where
  "zero_tmp = \<lparr>sp_time_man = 0, sp_time_index = 0, sp_time_wait = 0, sp_time_remote_lock = 0\<rparr>"

definition Stats_init :: "nat \<Rightarrow> stats \<Rightarrow> stats" where
  "Stats_init thread_cnt s =
     (if STATS_ENABLE
      then s\<lparr>thd_stats := replicate thread_cnt None, tmp_stats := replicate thread_cnt None,
             dl_detect_time := 0, dl_wait_time := 0, cycle_detect := 0, deadlock := 0, stats_txn_cnt := 0\<rparr>
      else s)"

text \<open>\<open>_stats[tid]->\<close> and \<open>tmp_stats[tid]->\<close>.\<close>

definition deref_at :: "'a option list \<Rightarrow> nat \<Rightarrow> 'a res" where
  "deref_at xs i = (if i < length xs then case xs ! i of None \<Rightarrow> Inl Bad_Deref | Some x \<Rightarrow> Inr x else Inl Out_Of_Bounds)"

definition upd_thd :: "nat \<Rightarrow> (stats_thd \<Rightarrow> stats_thd res) \<Rightarrow> stats \<Rightarrow> stats res" where
  "upd_thd tid f s =
     rbind (deref_at (thd_stats s) tid) (\<lambda>d. rbind (f d) (\<lambda>d'. Inr (s\<lparr>thd_stats := (thd_stats s)[tid := Some d']\<rparr>)))"

definition upd_tmp :: "nat \<Rightarrow> (stats_tmp \<Rightarrow> stats_tmp) \<Rightarrow> stats \<Rightarrow> stats res" where
  "upd_tmp tid f s =
     rbind (deref_at (tmp_stats s) tid) (\<lambda>t. Inr (s\<lparr>tmp_stats := (tmp_stats s)[tid := Some (f t)]\<rparr>))"

definition Stats_init_thread :: "nat \<Rightarrow> stats \<Rightarrow> stats res" where
  "Stats_init_thread tid s =
     (if \<not> STATS_ENABLE then Inr s
      else if tid < length (thd_stats s) \<and> tid < length (tmp_stats s)
      then Inr (s\<lparr>thd_stats := (thd_stats s)[tid := Some (Stats_thd_init (of_nat tid) zero_thd)],
                  tmp_stats := (tmp_stats s)[tid := Some (Stats_tmp_init zero_tmp)]\<rparr>)
      else Inl Out_Of_Bounds)"

definition Stats_clear :: "nat \<Rightarrow> stats \<Rightarrow> stats res" where
  "Stats_clear tid s =
     (if STATS_ENABLE
      then rbind (upd_thd tid (\<lambda>d. Inr (Stats_thd_clear d)) s) (\<lambda>s1.
           rbind (upd_tmp tid Stats_tmp_clear s1) (\<lambda>s2.
           Inr (s2\<lparr>dl_detect_time := 0, dl_wait_time := 0, cycle_detect := 0, deadlock := 0\<rparr>)))
      else Inr s)"

definition add_debug :: "bool \<Rightarrow> bool \<Rightarrow> nat \<Rightarrow> u64 \<Rightarrow> u32 \<Rightarrow> stats \<Rightarrow> stats res" where
  "add_debug prt_lat_distr warmup_finish tid val sel s =
     (if prt_lat_distr \<and> warmup_finish
      then upd_thd tid (\<lambda>d. let tnum = unat (sd_txn_cnt d) in
             if sel = 1 then
               if tnum < length (sd_all_debug1 d) then Inr (d\<lparr>sd_all_debug1 := (sd_all_debug1 d)[tnum := val]\<rparr>)
               else Inl Out_Of_Bounds
             else if sel = 2 then
               if tnum < length (sd_all_debug2 d) then Inr (d\<lparr>sd_all_debug2 := (sd_all_debug2 d)[tnum := val]\<rparr>)
               else Inl Out_Of_Bounds
             else Inr d) s
      else Inr s)"

definition Stats_commit :: "nat \<Rightarrow> stats \<Rightarrow> stats res" where
  "Stats_commit tid s =
     (if STATS_ENABLE
      then rbind (deref_at (tmp_stats s) tid) (\<lambda>t.
           rbind (upd_thd tid (\<lambda>d. Inr (d\<lparr>sd_time_man := sd_time_man d + sp_time_man t,
                    sd_time_index := sd_time_index d + sp_time_index t,
                    sd_time_wait := sd_time_wait d + sp_time_wait t,
                    sd_time_remote_lock := sd_time_remote_lock d + sp_time_remote_lock t\<rparr>)) s)
             (upd_tmp tid Stats_tmp_clear))
      else Inr s)"

definition Stats_abort :: "nat \<Rightarrow> stats \<Rightarrow> stats res" where
  "Stats_abort tid s =
     (if STATS_ENABLE
      then rbind (deref_at (tmp_stats s) tid) (\<lambda>t.
           rbind (upd_thd tid (\<lambda>d. Inr (d\<lparr>sd_time_abort := sd_time_abort d + sp_time_man t\<rparr>)) s)
             (upd_tmp tid Stats_tmp_clear))
      else Inr s)"

section \<open>What the code adds to the statistics\<close>

text \<open>
  The updates made while a transaction runs: rows got and transactions cleaned up (txn.cpp), write requests, remote
  locks, the wait for page locks and requests (ycsb_txn.cpp), the latch and the service of a row (row_mvcc.cpp), the
  wait for a row (row_handler.cpp) and the allocation of timestamps (thread.cpp).
\<close>

datatype stat_event = Row_got u64 | Cleaned_up u64 | Write_request | Remote_lock | Locks_got u64 | Total_request
  | Row_latched u64 | Row_served u64 | Row_waited u64 | Ts_alloc u64

fun stat_step :: "nat \<Rightarrow> stat_event \<Rightarrow> stats \<Rightarrow> stats res" where
  "stat_step tid (Row_got ns) s = upd_tmp tid (\<lambda>t. t\<lparr>sp_time_man := sp_time_man t + ns\<rparr>) s"
| "stat_step tid (Cleaned_up ns) s =
     rbind (upd_tmp tid (\<lambda>t. t\<lparr>sp_time_man := sp_time_man t + ns\<rparr>) s)
       (upd_thd tid (\<lambda>d. Inr (d\<lparr>sd_time_cleanup := sd_time_cleanup d + ns\<rparr>)))"
| "stat_step tid Write_request s = upd_thd tid (\<lambda>d. Inr (d\<lparr>sd_count_write_request := sd_count_write_request d + 1\<rparr>)) s"
| "stat_step tid Remote_lock s = upd_thd tid (\<lambda>d. Inr (d\<lparr>sd_count_remote_lock := sd_count_remote_lock d + 1\<rparr>)) s"
| "stat_step tid (Locks_got ns) s = upd_tmp tid (\<lambda>t. t\<lparr>sp_time_remote_lock := sp_time_remote_lock t + ns\<rparr>) s"
| "stat_step tid Total_request s = upd_thd tid (\<lambda>d. Inr (d\<lparr>sd_count_total_request := sd_count_total_request d + 1\<rparr>)) s"
| "stat_step tid (Row_latched ns) s = upd_thd tid (\<lambda>d. Inr (d\<lparr>sd_debug4 := sd_debug4 d + ns\<rparr>)) s"
| "stat_step tid (Row_served ns) s = upd_thd tid (\<lambda>d. Inr (d\<lparr>sd_debug3 := sd_debug3 d + ns\<rparr>)) s"
| "stat_step tid (Row_waited ns) s = upd_tmp tid (\<lambda>t. t\<lparr>sp_time_wait := sp_time_wait t + ns\<rparr>) s"
| "stat_step tid (Ts_alloc ns) s = upd_thd tid (\<lambda>d. Inr (d\<lparr>sd_time_ts_alloc := sd_time_ts_alloc d + ns\<rparr>)) s"

fun stat_steps :: "nat \<Rightarrow> stat_event list \<Rightarrow> stats \<Rightarrow> stats res" where
  "stat_steps tid [] s = Inr s"
| "stat_steps tid (e # es) s = rbind (stat_step tid e s) (stat_steps tid es)"

text \<open>
  A round of \<open>thread_t::run\<close>: the profiler runs from \<open>rd_begin\<close> to \<open>rd_chosen\<close> while the query is chosen and from
  \<open>rd_resumed\<close> to \<open>rd_done\<close> while the transaction runs. It is not cleared in between.
\<close>

record round =
  rd_begin :: int
  rd_chosen :: int
  rd_resumed :: int
  rd_done :: int
  rd_events :: "stat_event list"
  rd_rc :: RC

definition end_of_txn :: "nat \<Rightarrow> RC \<Rightarrow> u64 \<Rightarrow> stats \<Rightarrow> stats res" where
  "end_of_txn tid rc ns s =
     (if rc = RCOK
      then rbind (upd_thd tid (\<lambda>d. Inr (d\<lparr>sd_txn_cnt := sd_txn_cnt d + 1\<rparr>)) s) (Stats_commit tid)
      else if rc = Abort
      then rbind (upd_thd tid (\<lambda>d. Inr (d\<lparr>sd_time_abort := sd_time_abort d + ns, sd_abort_cnt := sd_abort_cnt d + 1\<rparr>)) s) (\<lambda>s1.
           rbind (Stats_abort tid s1) (Stats_commit tid))
      else Inr s)"

definition round_stats :: "nat \<Rightarrow> round \<Rightarrow> stats \<Rightarrow> stats res" where
  "round_stats tid r s =
     (let p1 = Profiler_End (rd_chosen r) (Profiler_Start (rd_begin r) Profiler_new);
          p2 = Profiler_End (rd_done r) (Profiler_Start (rd_resumed r) p1) in
      rbind (upd_thd tid (\<lambda>d. Inr (d\<lparr>sd_time_query := sd_time_query d + Nanos p1\<rparr>)) s) (\<lambda>s1.
      rbind (stat_steps tid (rd_events r) s1) (\<lambda>s2.
      rbind (upd_thd tid (\<lambda>d. Inr (d\<lparr>sd_run_time := sd_run_time d + Nanos p2, sd_latency := sd_latency d + Nanos p2\<rparr>)) s2)
        (end_of_txn tid (rd_rc r) (Nanos p2)))))"

fun run_rounds :: "(nat \<times> round) list \<Rightarrow> stats \<Rightarrow> stats res" where
  "run_rounds [] s = Inr s"
| "run_rounds ((tid, r) # rs) s = rbind (round_stats tid r s) (run_rounds rs)"

section \<open>The result files\<close>

text \<open>
  The files of the working directory by name. \<open>can_open\<close> says which names the system opens for writing.
\<close>

type_synonym files = "string \<rightharpoonup> string"

definition result_file :: "string \<Rightarrow> nat \<Rightarrow> string" where
  "result_file kind i = kind @ ''_'' @ dec_string i"

definition append_value :: "(string \<Rightarrow> bool) \<Rightarrow> string \<Rightarrow> u64 \<Rightarrow> u64 \<Rightarrow> files \<Rightarrow> files res" where
  "append_value can_open kind val ins_id fs =
     (let f = result_file kind (unat ins_id) in
      asserting (can_open f)
        (Inr (fs(f \<mapsto> (case fs f of None \<Rightarrow> [] | Some c \<Rightarrow> c) @ dec_string (unat val) @ endl))))"

definition AppendRunTime :: "(string \<Rightarrow> bool) \<Rightarrow> u64 \<Rightarrow> u64 \<Rightarrow> files \<Rightarrow> files res" where
  "AppendRunTime can_open = append_value can_open ''runtime''"

definition AppendLatency :: "(string \<Rightarrow> bool) \<Rightarrow> u64 \<Rightarrow> u64 \<Rightarrow> files \<Rightarrow> files res" where
  "AppendLatency can_open = append_value can_open ''latency''"

definition AppendThroughtput :: "(string \<Rightarrow> bool) \<Rightarrow> u64 \<Rightarrow> u64 \<Rightarrow> files \<Rightarrow> files res" where
  "AppendThroughtput can_open = append_value can_open ''throughtput''"

definition AppendRemoteLockTime :: "(string \<Rightarrow> bool) \<Rightarrow> u64 \<Rightarrow> u64 \<Rightarrow> files \<Rightarrow> files res" where
  "AppendRemoteLockTime can_open = append_value can_open ''remote_lock_time''"

text \<open>\<open>while (ss >> temp) total += temp;\<close> \<open>temp\<close> is only read after a successful extraction.\<close>

function sum_stream :: "istream \<Rightarrow> u64 \<Rightarrow> u64 \<Rightarrow> u64" where
  "sum_stream st temp acc =
     (case get_u64 st temp of (temp', st') \<Rightarrow> if failed st' then acc else sum_stream st' temp' (acc + temp'))"
  by pat_completeness auto
termination
  by (relation "measure (\<lambda>(st, _). length (rest st))") (auto intro: get_u64_le(2))

declare sum_stream.simps [simp del]

text \<open>
  One turn of a \<open>Parse\<close> loop: \<open>access\<close> looks for the file of kind \<open>probe\<close>; the file of kind \<open>kind\<close> is then opened with
  \<open>ios::app | ios::out\<close>, which creates it if there is none. An empty file leaves the string stream failed.
\<close>

definition parse_instance ::
  "(string \<Rightarrow> bool) \<Rightarrow> string \<Rightarrow> string \<Rightarrow> nat \<Rightarrow> nat \<times> u64 \<times> files \<Rightarrow> (nat \<times> u64 \<times> files) res" where
  "parse_instance can_open probe kind i x =
     (case x of (ins_count, acc, fs) \<Rightarrow>
      if fs (result_file probe i) = None then Inr x
      else let f = result_file kind i; c = (case fs f of None \<Rightarrow> [] | Some c \<Rightarrow> c) in
        asserting (can_open f)
          (Inr (ins_count + 1, sum_stream \<lparr>rest = c, failed = (c = [])\<rparr> 0 acc, fs(f \<mapsto> c))))"

fun parse_instances ::
  "(string \<Rightarrow> bool) \<Rightarrow> string \<Rightarrow> string \<Rightarrow> nat list \<Rightarrow> nat \<times> u64 \<times> files \<Rightarrow> (nat \<times> u64 \<times> files) res" where
  "parse_instances can_open probe kind [] x = Inr x"
| "parse_instances can_open probe kind (i # is) x =
     rbind (parse_instance can_open probe kind i x) (parse_instances can_open probe kind is)"

definition report_line :: "string \<Rightarrow> u64 \<Rightarrow> nat \<Rightarrow> string" where
  "report_line title v ins_count = title @ '' : '' @ dec_string (unat v) @ '', ins_count : '' @ dec_string ins_count @ endl"

definition parse_mean :: "(string \<Rightarrow> bool) \<Rightarrow> string \<Rightarrow> string \<Rightarrow> files \<Rightarrow> (string \<times> files) res" where
  "parse_mean can_open kind title fs =
     rbind (parse_instances can_open kind kind [0..<PROCESS_CNT] (0, 0, fs)) (\<lambda>(ins_count, acc, fs').
     if ins_count = 0 then Inl Div_By_Zero
     else Inr (report_line title (acc div of_nat ins_count) ins_count, fs'))"

definition ParseRunTime :: "(string \<Rightarrow> bool) \<Rightarrow> files \<Rightarrow> (string \<times> files) res" where
  "ParseRunTime can_open = parse_mean can_open ''runtime'' ''run_time''"

definition ParseLatency :: "(string \<Rightarrow> bool) \<Rightarrow> files \<Rightarrow> (string \<times> files) res" where
  "ParseLatency can_open = parse_mean can_open ''latency'' ''total_latency''"

definition ParseThroughtput :: "(string \<Rightarrow> bool) \<Rightarrow> files \<Rightarrow> (string \<times> files) res" where
  "ParseThroughtput can_open fs =
     rbind (parse_instances can_open ''throughtput'' ''throughtput'' [0..<PROCESS_CNT] (0, 0, fs)) (\<lambda>(ins_count, acc, fs').
     Inr (report_line ''throughtput'' acc ins_count, fs'))"

definition ParseRemoteLockTime :: "(string \<Rightarrow> bool) \<Rightarrow> files \<Rightarrow> (string \<times> files) res" where
  "ParseRemoteLockTime can_open fs =
     rbind (parse_instances can_open ''throughtput'' ''remote_lock_time'' [0..<PROCESS_CNT] (0, 0, fs)) (\<lambda>(ins_count, acc, fs').
     Inr (report_line ''remote_lock_time'' acc ins_count, fs'))"

section \<open>The report of an instance\<close>

text \<open>The totals of \<open>Stats::print\<close>; those it never prints are added up as well.\<close>

record totals =
  t_txn_cnt :: u64
  t_abort_cnt :: u64
  t_run_time :: u64
  t_latency :: u64
  t_time_man :: u64
  t_debug1 :: u64
  t_debug2 :: u64
  t_debug3 :: u64
  t_debug4 :: u64
  t_debug5 :: u64
  t_time_index :: u64
  t_time_abort :: u64
  t_time_cleanup :: u64
  t_time_wait :: u64
  t_time_ts_alloc :: u64
  t_time_query :: u64
  t_time_remote_lock :: u64
  t_count_remote_lock :: u64
  t_count_write_request :: u64
  t_count_total_request :: u64

definition no_totals :: totals where
  "no_totals = \<lparr>t_txn_cnt = 0, t_abort_cnt = 0, t_run_time = 0, t_latency = 0, t_time_man = 0, t_debug1 = 0, t_debug2 = 0,
     t_debug3 = 0, t_debug4 = 0, t_debug5 = 0, t_time_index = 0, t_time_abort = 0, t_time_cleanup = 0, t_time_wait = 0,
     t_time_ts_alloc = 0, t_time_query = 0, t_time_remote_lock = 0, t_count_remote_lock = 0, t_count_write_request = 0,
     t_count_total_request = 0\<rparr>"

definition add_thd :: "stats_thd \<Rightarrow> totals \<Rightarrow> totals" where
  "add_thd d T = \<lparr>t_txn_cnt = t_txn_cnt T + sd_txn_cnt d, t_abort_cnt = t_abort_cnt T + sd_abort_cnt d,
     t_run_time = t_run_time T + sd_run_time d, t_latency = t_latency T + sd_latency d,
     t_time_man = t_time_man T + sd_time_man d, t_debug1 = t_debug1 T + sd_debug1 d, t_debug2 = t_debug2 T + sd_debug2 d,
     t_debug3 = t_debug3 T + sd_debug3 d, t_debug4 = t_debug4 T + sd_debug4 d, t_debug5 = t_debug5 T + sd_debug5 d,
     t_time_index = t_time_index T + sd_time_index d, t_time_abort = t_time_abort T + sd_time_abort d,
     t_time_cleanup = t_time_cleanup T + sd_time_cleanup d, t_time_wait = t_time_wait T + sd_time_wait d,
     t_time_ts_alloc = t_time_ts_alloc T + sd_time_ts_alloc d, t_time_query = t_time_query T + sd_time_query d,
     t_time_remote_lock = t_time_remote_lock T + sd_time_remote_lock d,
     t_count_remote_lock = t_count_remote_lock T + sd_count_remote_lock d,
     t_count_write_request = t_count_write_request T + sd_count_write_request d,
     t_count_total_request = t_count_total_request T + sd_count_total_request d\<rparr>"

text \<open>\<open>%ld\<close> prints a 64-bit number as a signed one.\<close>

definition show_ld :: "u64 \<Rightarrow> string" where
  "show_ld w = (if sint w < 0 then ''-'' @ dec_string (nat (- sint w)) else dec_string (nat (sint w)))"

definition thread_line :: "nat \<Rightarrow> stats_thd \<Rightarrow> string" where
  "thread_line tid d = ''[tid='' @ show_ld (of_nat tid) @ ''] txn_cnt='' @ show_ld (sd_txn_cnt d) @
     '',abort_cnt='' @ show_ld (sd_abort_cnt d) @ endl"

fun sum_threads :: "stats \<Rightarrow> nat list \<Rightarrow> string \<times> totals \<Rightarrow> (string \<times> totals) res" where
  "sum_threads s [] x = Inr x"
| "sum_threads s (tid # tids) x =
     rbind (deref_at (thd_stats s) tid) (\<lambda>d. sum_threads s tids (fst x @ thread_line tid d, add_thd d (snd x)))"

definition show_u64 :: "u64 \<Rightarrow> string" where
  "show_u64 w = dec_string (unat w)"

definition summary :: "totals \<Rightarrow> string" where
  "summary T = ''all thread run time : '' @ show_u64 (t_run_time T div BILLION) @ '' us, average latency : '' @
     show_u64 (t_latency T div BILLION div t_txn_cnt T) @ '' us.'' @ endl @
     '' get ts time : '' @ show_u64 (t_time_ts_alloc T div BILLION) @ '', all thread time remote lock : '' @
     show_u64 (t_time_remote_lock T div BILLION) @ '' us.'' @ endl @
     ''total_count_remote_lock/total_count_write_request/total_count_total_request : '' @
     show_u64 (t_count_remote_lock T) @ ''/'' @ show_u64 (t_count_write_request T) @ ''/'' @
     show_u64 (t_count_total_request T) @ endl"

definition Stats_print :: "(string \<Rightarrow> bool) \<Rightarrow> nat \<Rightarrow> u64 \<Rightarrow> stats \<Rightarrow> files \<Rightarrow> (string \<times> stats \<times> files) res" where
  "Stats_print can_open thread_cnt ins_id s fs =
     rbind (sum_threads s [0..<thread_cnt] ([], no_totals)) (\<lambda>(out, T).
     if t_txn_cnt T = 0 then Inl Div_By_Zero
     else rbind (AppendLatency can_open (t_latency T div BILLION div t_txn_cnt T) ins_id fs) (\<lambda>fs1.
          rbind (AppendRemoteLockTime can_open (t_time_remote_lock T div BILLION) ins_id fs1) (\<lambda>fs2.
          Inr (out @ summary T, s\<lparr>stats_txn_cnt := t_txn_cnt T\<rparr>, fs2))))"

text \<open>The end of the main program of an instance.\<close>

definition main_report :: "(string \<Rightarrow> bool) \<Rightarrow> nat \<Rightarrow> u64 \<Rightarrow> u64 \<Rightarrow> stats \<Rightarrow> files \<Rightarrow> (string \<times> stats \<times> files) res" where
  "main_report can_open thread_cnt nanos ins_id s fs =
     rbind (Stats_print can_open thread_cnt ins_id s fs) (\<lambda>(out, s1, fs1).
     if nanos = 0 then Inl Div_By_Zero
     else let tps = stats_txn_cnt s1 * 1000000000 div nanos in
          rbind (AppendRunTime can_open (nanos div 1000) ins_id fs1) (\<lambda>fs2.
          rbind (AppendThroughtput can_open tps ins_id fs2) (\<lambda>fs3.
          Inr (out @ ''instance run time : '' @ show_u64 (nanos div 1000) @ '' us.'' @ endl @
               ''instance throughtput : '' @ show_u64 tps @ '' tps.'' @ endl, s1, fs3))))"

text \<open>The distribution of latencies, written to the output file: the rows of both arrays of every thread.\<close>

definition debug_row :: "string \<Rightarrow> nat \<Rightarrow> u64 list \<Rightarrow> nat \<Rightarrow> string res" where
  "debug_row title tid xs cnt =
     (if cnt \<le> length xs
      then Inr (title @ dec_string tid @ ''] '' @ concat (map (\<lambda>x. show_ld x @ '','') (take cnt xs)))
      else Inl Out_Of_Bounds)"

fun lat_distr :: "stats \<Rightarrow> nat list \<Rightarrow> string res" where
  "lat_distr s [] = Inr []"
| "lat_distr s (tid # tids) =
     rbind (deref_at (thd_stats s) tid) (\<lambda>d.
     rbind (debug_row ''[all_debug1 thd='' tid (sd_all_debug1 d) (unat (sd_txn_cnt d))) (\<lambda>r1.
     rbind (debug_row (endl @ ''[all_debug2 thd='') tid (sd_all_debug2 d) (unat (sd_txn_cnt d))) (\<lambda>r2.
     rbind (lat_distr s tids) (\<lambda>rest. Inr (r1 @ r2 @ endl @ rest)))))"

definition print_lat_distr :: "(string \<Rightarrow> bool) \<Rightarrow> nat \<Rightarrow> string option \<Rightarrow> stats \<Rightarrow> files \<Rightarrow> files res" where
  "print_lat_distr can_open thread_cnt output_file s fs =
     (case output_file of
        None \<Rightarrow> Inr fs
      | Some f \<Rightarrow> if \<not> can_open f then Inl Bad_Deref
          else rbind (lat_distr s [0..<thread_cnt]) (\<lambda>out.
          Inr (fs(f \<mapsto> (case fs f of None \<Rightarrow> [] | Some c \<Rightarrow> c) @ out))))"

text \<open>A whole run of an instance: the statistics are set up, the threads run their rounds, and the totals are printed.\<close>

fun init_stats :: "nat list \<Rightarrow> stats \<Rightarrow> stats res" where
  "init_stats [] s = Inr s"
| "init_stats (tid # tids) s = rbind (Stats_init_thread tid s) (init_stats tids)"

definition instance_run ::
  "(string \<Rightarrow> bool) \<Rightarrow> nat \<Rightarrow> nat \<Rightarrow> (nat \<times> round) list \<Rightarrow> stats \<Rightarrow> files \<Rightarrow> (string \<times> stats \<times> files) res" where
  "instance_run can_open thread_cnt ins rs s fs =
     rbind (init_stats [0..<thread_cnt] (Stats_init thread_cnt s)) (\<lambda>s1.
     rbind (run_rounds rs s1) (\<lambda>s2.
     Stats_print can_open thread_cnt (of_nat ins) s2 fs))"

end
