(* ===== verification/Run_Stats_Props.thy ===== *)
theory Run_Stats_Props
  imports Run_Stats
begin

text \<open>
  The statistics account for the rounds of the threads: what a round adds to the counters of its thread, the totals
  over all threads, and the mean latency that the report over all instances prints.
\<close>

section \<open>One round\<close>

lemma deref_at_Some: "i < length xs \<Longrightarrow> xs ! i = Some x \<Longrightarrow> deref_at xs i = Inr x"
  by (simp add: deref_at_def)

definition put_at :: "nat \<Rightarrow> stats_thd \<Rightarrow> stats_tmp \<Rightarrow> stats \<Rightarrow> stats" where
  "put_at tid d t s = s\<lparr>thd_stats := (thd_stats s)[tid := Some d], tmp_stats := (tmp_stats s)[tid := Some t]\<rparr>"

definition holds_at :: "nat \<Rightarrow> stats_thd \<Rightarrow> stats_tmp \<Rightarrow> stats \<Rightarrow> bool" where
  "holds_at tid d t s \<longleftrightarrow> tid < length (thd_stats s) \<and> tid < length (tmp_stats s) \<and>
     thd_stats s ! tid = Some d \<and> tmp_stats s ! tid = Some t"

lemma update_same: "xs ! i = x \<Longrightarrow> xs[i := x] = xs"
  by (metis list_update_id)

lemma put_at_put_at [simp]: "put_at tid d t (put_at tid d' t' s) = put_at tid d t s"
  by (simp add: put_at_def)

lemma holds_put_at [simp]: "holds_at tid d t s \<Longrightarrow> holds_at tid d' t' (put_at tid d' t' s)"
  by (simp add: put_at_def holds_at_def)

lemma put_at_self: "holds_at tid d t s \<Longrightarrow> put_at tid d t s = s"
  by (auto simp: put_at_def holds_at_def update_same)

lemma upd_thd_at: "holds_at tid d t s \<Longrightarrow> upd_thd tid f s = rbind (f d) (\<lambda>d'. Inr (put_at tid d' t s))"
  by (cases "f d"; cases s) (auto simp: upd_thd_def holds_at_def deref_at_def put_at_def update_same)

lemma upd_tmp_at: "holds_at tid d t s \<Longrightarrow> upd_tmp tid f s = Inr (put_at tid d (f t) s)"
  by (cases s) (auto simp: upd_tmp_def holds_at_def deref_at_def put_at_def update_same)

lemma deref_tmp_at: "holds_at tid d t s \<Longrightarrow> deref_at (tmp_stats s) tid = Inr t"
  by (simp add: holds_at_def deref_at_def)

lemma Stats_tmp_clear_zero: "Stats_tmp_clear t = zero_tmp"
  by (cases t) (simp add: Stats_tmp_clear_def zero_tmp_def)

lemma Stats_commit_at:
  assumes "holds_at tid d t s"
  shows "Stats_commit tid s = Inr (put_at tid (d\<lparr>sd_time_man := sd_time_man d + sp_time_man t,
           sd_time_index := sd_time_index d + sp_time_index t, sd_time_wait := sd_time_wait d + sp_time_wait t,
           sd_time_remote_lock := sd_time_remote_lock d + sp_time_remote_lock t\<rparr>) zero_tmp s)"
  using assms by (simp add: Stats_commit_def STATS_ENABLE_def deref_tmp_at [OF assms] upd_thd_at [OF assms]
      upd_tmp_at [OF holds_put_at [OF assms]] Stats_tmp_clear_zero)

lemma Stats_abort_at:
  assumes "holds_at tid d t s"
  shows "Stats_abort tid s = Inr (put_at tid (d\<lparr>sd_time_abort := sd_time_abort d + sp_time_man t\<rparr>) zero_tmp s)"
  using assms by (simp add: Stats_abort_def STATS_ENABLE_def deref_tmp_at [OF assms] upd_thd_at [OF assms]
      upd_tmp_at [OF holds_put_at [OF assms]] Stats_tmp_clear_zero)

text \<open>The part of a thread's statistics that the events of a running transaction leave alone.\<close>

definition counters :: "stats_thd \<Rightarrow> u64 list" where
  "counters d = [sd_txn_cnt d, sd_abort_cnt d, sd_run_time d, sd_latency d, sd_time_man d, sd_time_abort d]"

fun man_time :: "stat_event list \<Rightarrow> u64" where
  "man_time [] = 0"
| "man_time (e # es) = (case e of Row_got ns \<Rightarrow> ns | Cleaned_up ns \<Rightarrow> ns | _ \<Rightarrow> 0) + man_time es"

lemma stat_step_at:
  assumes "holds_at tid d t s"
  shows "\<exists>d' t'. stat_step tid e s = Inr (put_at tid d' t' s) \<and> counters d' = counters d \<and>
    sp_time_man t' = sp_time_man t + man_time [e]"
  by (cases e; simp add: upd_thd_at [OF assms] upd_tmp_at [OF assms] upd_thd_at [OF holds_put_at [OF assms]];
      rule exI; rule exI; rule conjI, rule HOL.refl; simp add: counters_def)

lemma stat_steps_at:
  "holds_at tid d t s \<Longrightarrow> \<exists>d' t'. stat_steps tid es s = Inr (put_at tid d' t' s) \<and> counters d' = counters d \<and>
    sp_time_man t' = sp_time_man t + man_time es"
proof (induction es arbitrary: d t s)
  case Nil
  then show ?case by (intro exI [of _ d] exI [of _ t]) (simp add: put_at_self)
next
  case (Cons e es)
  obtain d1 t1 where 1: "stat_step tid e s = Inr (put_at tid d1 t1 s)" "counters d1 = counters d"
    "sp_time_man t1 = sp_time_man t + man_time [e]"
    using stat_step_at [OF Cons.prems] by blast
  obtain d2 t2 where 2: "stat_steps tid es (put_at tid d1 t1 s) = Inr (put_at tid d2 t2 s)" "counters d2 = counters d1"
    "sp_time_man t2 = sp_time_man t1 + man_time es"
    using Cons.IH [OF holds_put_at [OF Cons.prems]] by fastforce
  then show ?case using 1 by (intro exI [of _ d2] exI [of _ t2]) (simp add: add.assoc)
qed

text \<open>
  The duration of a round: the choice of the query and the run of the transaction. The statistics a round adds to:
  commits, aborts, run time, latency, and the time in rows of committed and of aborted transactions.
\<close>

definition round_nanos :: "round \<Rightarrow> u64" where
  "round_nanos r = of_int ((rd_chosen r - rd_begin r) + (rd_done r - rd_resumed r))"

definition weight :: "round \<Rightarrow> u64 list" where
  "weight r = (let ok = (rd_rc r = RCOK); man = man_time (rd_events r) in
     [if ok then 1 else 0, if ok then 0 else 1, round_nanos r, round_nanos r,
      if ok then man else 0, if ok then 0 else round_nanos r + man])"

definition plus :: "u64 list \<Rightarrow> u64 list \<Rightarrow> u64 list" where
  "plus xs ys = map2 (+) xs ys"

lemma round_stats_at:
  assumes "holds_at tid d zero_tmp s" and "rd_rc r = RCOK \<or> rd_rc r = Abort"
  obtains d' where "round_stats tid r s = Inr (put_at tid d' zero_tmp s)" "counters d' = plus (counters d) (weight r)"
proof -
  note P = Profiler_End_def Profiler_Start_def Profiler_new_def Nanos_def
  let ?p = "of_int (rd_chosen r - rd_begin r) :: u64"
  let ?d1 = "d\<lparr>sd_time_query := sd_time_query d + ?p\<rparr>"
  have h1: "holds_at tid ?d1 zero_tmp (put_at tid ?d1 zero_tmp s)" using assms(1) by simp
  obtain d2 t2 where 2: "stat_steps tid (rd_events r) (put_at tid ?d1 zero_tmp s) = Inr (put_at tid d2 t2 s)"
    "counters d2 = counters ?d1" "sp_time_man t2 = man_time (rd_events r)"
    using stat_steps_at [OF h1, of "rd_events r"] by (auto simp: zero_tmp_def)
  let ?d3 = "d2\<lparr>sd_run_time := sd_run_time d2 + round_nanos r, sd_latency := sd_latency d2 + round_nanos r\<rparr>"
  have r: "round_stats tid r s = end_of_txn tid (rd_rc r) (round_nanos r) (put_at tid ?d3 t2 s)"
    using 2(1) by (simp add: round_stats_def P upd_thd_at [OF assms(1)] upd_thd_at [OF holds_put_at [OF assms(1)]] round_nanos_def)
  show thesis
    using assms(2)
  proof
    assume ok: "rd_rc r = RCOK"
    show thesis
      by (rule that, unfold r ok)
        (simp add: end_of_txn_def upd_thd_at [OF holds_put_at [OF assms(1)]] Stats_commit_at [OF holds_put_at [OF assms(1)]],
         use 2(2,3) in \<open>simp add: counters_def plus_def weight_def ok\<close>)
  next
    assume ab: "rd_rc r = Abort"
    show thesis
      by (rule that, unfold r ab)
        (simp add: end_of_txn_def upd_thd_at [OF holds_put_at [OF assms(1)]] Stats_commit_at [OF holds_put_at [OF assms(1)]]
           Stats_abort_at [OF holds_put_at [OF assms(1)]],
         use 2(2,3) in \<open>simp add: counters_def plus_def weight_def ab zero_tmp_def\<close>)
  qed
qed

section \<open>All rounds\<close>

definition tally :: "round list \<Rightarrow> u64 list" where
  "tally rs = map (\<lambda>k. \<Sum>r\<leftarrow>rs. weight r ! k) [0..<6]"

definition rounds_of :: "nat \<Rightarrow> (nat \<times> round) list \<Rightarrow> round list" where
  "rounds_of tid rs = map snd (filter (\<lambda>x. fst x = tid) rs)"

definition accounts :: "nat \<Rightarrow> (nat \<times> round) list \<Rightarrow> stats \<Rightarrow> bool" where
  "accounts n rs s \<longleftrightarrow> length (thd_stats s) = n \<and> length (tmp_stats s) = n \<and>
     (\<forall>tid < n. \<exists>d. thd_stats s ! tid = Some d \<and> tmp_stats s ! tid = Some zero_tmp \<and> counters d = tally (rounds_of tid rs))"

definition rounds_ok :: "nat \<Rightarrow> (nat \<times> round) list \<Rightarrow> bool" where
  "rounds_ok n rs \<longleftrightarrow> (\<forall>x \<in> set rs. fst x < n \<and> rd_rc (snd x) \<in> {RCOK, Abort})"

lemma length_weight [simp]: "length (weight r) = 6"
  by (simp add: weight_def Let_def)

lemma tally_snoc: "tally (rs @ [r]) = plus (tally rs) (weight r)"
  by (rule nth_equalityI) (simp_all add: tally_def plus_def)

lemma init_threads_ok:
  assumes "\<forall>tid \<in> set tids. tid < length (thd_stats s) \<and> tid < length (tmp_stats s)" and "distinct tids"
  shows "\<exists>s'. init_stats tids s = Inr s' \<and> length (thd_stats s') = length (thd_stats s) \<and>
    length (tmp_stats s') = length (tmp_stats s) \<and>
    (\<forall>tid \<in> set tids. thd_stats s' ! tid = Some (Stats_thd_init (of_nat tid) zero_thd) \<and> tmp_stats s' ! tid = Some zero_tmp) \<and>
    (\<forall>tid. tid \<notin> set tids \<longrightarrow> thd_stats s' ! tid = thd_stats s ! tid \<and> tmp_stats s' ! tid = tmp_stats s ! tid)"
  using assms
proof (induction tids arbitrary: s)
  case (Cons tid tids)
  let ?s = "put_at tid (Stats_thd_init (of_nat tid) zero_thd) zero_tmp s"
  have 1: "Stats_init_thread tid s = Inr ?s"
    using Cons.prems by (simp add: Stats_init_thread_def STATS_ENABLE_def put_at_def Stats_tmp_init_def Stats_tmp_clear_zero)
  have "\<forall>x \<in> set tids. x < length (thd_stats ?s) \<and> x < length (tmp_stats ?s)" using Cons.prems by (simp add: put_at_def)
  moreover have "distinct tids" using Cons.prems(2) by simp
  ultimately obtain s' where "init_stats tids ?s = Inr s'" "length (thd_stats s') = length (thd_stats ?s)"
    "length (tmp_stats s') = length (tmp_stats ?s)"
    "\<forall>tid \<in> set tids. thd_stats s' ! tid = Some (Stats_thd_init (of_nat tid) zero_thd) \<and> tmp_stats s' ! tid = Some zero_tmp"
    "\<forall>tid. tid \<notin> set tids \<longrightarrow> thd_stats s' ! tid = thd_stats ?s ! tid \<and> tmp_stats s' ! tid = tmp_stats ?s ! tid"
    using Cons.IH [of ?s] by blast
  then show ?case using 1 Cons.prems by (intro exI [of _ s']) (auto simp: put_at_def nth_list_update)
qed simp

lemma init_accounts: "\<exists>s'. init_stats [0..<n] (Stats_init n s) = Inr s' \<and> accounts n [] s'"
proof -
  have l: "length (thd_stats (Stats_init n s)) = n" "length (tmp_stats (Stats_init n s)) = n"
    by (simp_all add: Stats_init_def STATS_ENABLE_def)
  have "counters (Stats_thd_init i zero_thd) = tally []" for i
    by (simp add: counters_def Stats_thd_init_def Stats_thd_clear_def tally_def upt_rec)
  then show ?thesis
    using init_threads_ok [of "[0..<n]" "Stats_init n s"] l by (fastforce simp: accounts_def rounds_of_def)
qed

lemma round_accounts:
  assumes "accounts n rs s" and "tid < n" and "rd_rc r \<in> {RCOK, Abort}"
  shows "\<exists>s'. round_stats tid r s = Inr s' \<and> accounts n (rs @ [(tid, r)]) s'"
proof -
  obtain d where d: "thd_stats s ! tid = Some d" "tmp_stats s ! tid = Some zero_tmp" "counters d = tally (rounds_of tid rs)"
    using assms(1,2) by (auto simp: accounts_def)
  then have "holds_at tid d zero_tmp s" using assms(1,2) by (simp add: holds_at_def accounts_def)
  then obtain d' where d': "round_stats tid r s = Inr (put_at tid d' zero_tmp s)" "counters d' = plus (counters d) (weight r)"
    using round_stats_at assms(3) by blast
  have "rounds_of i (rs @ [(tid, r)]) = rounds_of i rs @ (if i = tid then [r] else [])" for i
    by (simp add: rounds_of_def)
  then have "accounts n (rs @ [(tid, r)]) (put_at tid d' zero_tmp s)"
    using assms(1) d(3) d'(2) by (auto simp: accounts_def put_at_def nth_list_update tally_snoc)
  then show ?thesis using d'(1) by blast
qed

lemma rounds_account:
  "accounts n done s \<Longrightarrow> rounds_ok n rs \<Longrightarrow> \<exists>s'. run_rounds rs s = Inr s' \<and> accounts n (done @ rs) s'"
proof (induction rs arbitrary: "done" s)
  case (Cons x rs)
  obtain tid r where x: "x = (tid, r)" by (cases x)
  obtain s1 where 1: "round_stats tid r s = Inr s1" "accounts n (done @ [(tid, r)]) s1"
    using round_accounts [OF Cons.prems(1), of tid r] Cons.prems(2) x by (fastforce simp: rounds_ok_def)
  have "rounds_ok n rs" using Cons.prems(2) by (simp add: rounds_ok_def)
  then show ?case using Cons.IH [OF 1(2)] 1(1) x by simp
qed simp

section \<open>The totals\<close>

definition tot_counters :: "totals \<Rightarrow> u64 list" where
  "tot_counters T = [t_txn_cnt T, t_abort_cnt T, t_run_time T, t_latency T, t_time_man T, t_time_abort T]"

lemma tot_counters_add: "tot_counters (add_thd d T) = plus (tot_counters T) (counters d)"
  by (simp add: tot_counters_def counters_def add_thd_def plus_def)

lemma sum_threads_ok:
  assumes "accounts n rs s" and "\<forall>tid \<in> set tids. tid < n"
  shows "\<exists>out T. sum_threads s tids x = Inr (out, T) \<and>
    tot_counters T = map (\<lambda>k. tot_counters (snd x) ! k + (\<Sum>tid\<leftarrow>tids. \<Sum>r\<leftarrow>rounds_of tid rs. weight r ! k)) [0..<6]"
  using assms(2)
proof (induction tids arbitrary: x)
  case Nil
  have "length (tot_counters (snd x)) = 6" by (simp add: tot_counters_def)
  then show ?case using map_nth [of "tot_counters (snd x)"] by (cases x) simp
next
  case (Cons tid tids)
  then obtain d where d: "deref_at (thd_stats s) tid = Inr d" "counters d = tally (rounds_of tid rs)"
    using assms(1) by (auto simp: accounts_def deref_at_def)
  have l: "length (tot_counters (snd x)) = 6" by (simp add: tot_counters_def)
  obtain out T where o: "sum_threads s tids (fst x @ thread_line tid d, add_thd d (snd x)) = Inr (out, T)"
    "tot_counters T = map (\<lambda>k. tot_counters (add_thd d (snd x)) ! k + (\<Sum>tid\<leftarrow>tids. \<Sum>r\<leftarrow>rounds_of tid rs. weight r ! k)) [0..<6]"
    using Cons.IH [of "(fst x @ thread_line tid d, add_thd d (snd x))"] Cons.prems by auto
  have "tot_counters (add_thd d (snd x)) ! k = tot_counters (snd x) ! k + (\<Sum>r\<leftarrow>rounds_of tid rs. weight r ! k)" if "k < 6" for k
    using that l by (simp add: tot_counters_add d(2) plus_def tally_def)
  then show ?case using o d(1) by (intro exI [of _ out] exI [of _ T]) (simp add: add.assoc)
qed

lemma sum_by_thread:
  fixes w :: "round \<Rightarrow> u64"
  assumes "\<forall>x \<in> set rs. fst x < n"
  shows "(\<Sum>tid\<leftarrow>[0..<n]. \<Sum>r\<leftarrow>rounds_of tid rs. w r) = (\<Sum>x\<leftarrow>rs. w (snd x))"
  using assms
proof (induction rs)
  case (Cons x rs)
  have "(\<Sum>r\<leftarrow>rounds_of tid (x # rs). w r) = (if fst x = tid then w (snd x) else 0) + (\<Sum>r\<leftarrow>rounds_of tid rs. w r)" for tid
    by (simp add: rounds_of_def)
  moreover have "(\<Sum>tid\<leftarrow>[0..<n]. if fst x = tid then w (snd x) else 0) = w (snd x)"
    using Cons.prems by (simp add: interv_sum_list_conv_sum_set_nat sum.delta)
  ultimately show ?case using Cons by (simp add: sum_list_addf)
qed (simp add: rounds_of_def)

definition commits :: "(nat \<times> round) list \<Rightarrow> nat" where
  "commits rs = length (filter (\<lambda>x. rd_rc (snd x) = RCOK) rs)"

definition mean_latency :: "(nat \<times> round) list \<Rightarrow> u64" where
  "mean_latency rs = (\<Sum>x\<leftarrow>rs. round_nanos (snd x)) div BILLION div of_nat (commits rs)"

lemma sum_commits: "(\<Sum>x\<leftarrow>rs. weight (snd x) ! 0) = of_nat (commits rs)"
  by (induction rs) (simp_all add: commits_def weight_def Let_def)

text \<open>The totals that \<open>print\<close> computes: commits, aborts, run time, latency, and the time in rows.\<close>

lemma totals_ok:
  assumes "accounts n rs s" and "rounds_ok n rs"
  obtains out T where "sum_threads s [0..<n] ([], no_totals) = Inr (out, T)" "tot_counters T = tally (map snd rs)"
proof -
  obtain out T where o: "sum_threads s [0..<n] ([], no_totals) = Inr (out, T)"
    "tot_counters T = map (\<lambda>k. tot_counters no_totals ! k + (\<Sum>tid\<leftarrow>[0..<n]. \<Sum>r\<leftarrow>rounds_of tid rs. weight r ! k)) [0..<6]"
    using sum_threads_ok [OF assms(1), of "[0..<n]" "([], no_totals)"] by auto
  have z: "tot_counters no_totals ! k = 0" if "k < 6" for k
    using that by (simp add: tot_counters_def no_totals_def nth_Cons')
  have s: "(\<Sum>tid\<leftarrow>[0..<n]. \<Sum>r\<leftarrow>rounds_of tid rs. weight r ! k) = (\<Sum>r\<leftarrow>map snd rs. weight r ! k)" for k
    using sum_by_thread [of rs n "\<lambda>r. weight r ! k"] assms(2) by (simp add: rounds_ok_def comp_def)
  show thesis using o z by (intro that [of out T]) (auto simp: tally_def s)
qed

lemma tally_components:
  assumes "tot_counters T = tally (map snd rs)"
  shows "t_txn_cnt T = of_nat (commits rs)" and "t_latency T = (\<Sum>x\<leftarrow>rs. round_nanos (snd x))"
proof -
  have "t_txn_cnt T = tally (map snd rs) ! 0" "t_latency T = tally (map snd rs) ! 3"
    using assms [symmetric] by (simp_all add: tot_counters_def)
  then show "t_txn_cnt T = of_nat (commits rs)" "t_latency T = (\<Sum>x\<leftarrow>rs. round_nanos (snd x))"
    using sum_commits [of rs] by (simp_all add: tally_def comp_def weight_def Let_def)
qed

section \<open>The report over all instances\<close>

text \<open>The instances run one after the other, each process with statistics of its own.\<close>

fun run_instances :: "(string \<Rightarrow> bool) \<Rightarrow> nat \<Rightarrow> stats \<Rightarrow> (nat \<times> (nat \<times> round) list) list \<Rightarrow> files \<Rightarrow> files res" where
  "run_instances can_open n s [] fs = Inr fs"
| "run_instances can_open n s ((ins, rs) # reps) fs =
     rbind (instance_run can_open n ins rs s fs) (\<lambda>(out, s', fs'). run_instances can_open n s reps fs')"

definition report_ok :: "(string \<Rightarrow> bool) \<Rightarrow> nat \<Rightarrow> nat \<times> (nat \<times> round) list \<Rightarrow> bool" where
  "report_ok can_open n rep \<longleftrightarrow> fst rep < PROCESS_CNT \<and> rounds_ok n (snd rep) \<and> 0 < commits (snd rep) \<and>
     commits (snd rep) < 2 ^ 64 \<and> can_open (result_file ''latency'' (fst rep)) \<and>
     can_open (result_file ''remote_lock_time'' (fst rep))"

lemma result_file_inject: "result_file kind i = result_file kind j \<longleftrightarrow> i = j"
  by (simp add: result_file_def)

lemma result_file_kinds: "result_file ''latency'' i \<noteq> result_file ''remote_lock_time'' j"
  by (simp add: result_file_def)

lemma instance_run_ok:
  assumes "report_ok can_open n (ins, rs)" and "fs (result_file ''latency'' ins) = None"
  shows "\<exists>out s' fs'. instance_run can_open n ins rs s fs = Inr (out, s', fs') \<and>
    (\<forall>i. fs' (result_file ''latency'' i) =
       (if i = ins then Some (dec_string (unat (mean_latency rs)) @ endl) else fs (result_file ''latency'' i)))"
proof -
  have r: "rounds_ok n rs" and c: "0 < commits rs" "commits rs < 2 ^ 64" and "ins < PROCESS_CNT"
    using assms(1) by (simp_all add: report_ok_def)
  then have u: "unat (of_nat ins :: u64) = ins" by (simp add: PROCESS_CNT_def unat_of_nat_u64)
  obtain s1 where 1: "init_stats [0..<n] (Stats_init n s) = Inr s1" "accounts n [] s1"
    using init_accounts by blast
  obtain s2 where 2: "run_rounds rs s1 = Inr s2" "accounts n rs s2"
    using rounds_account [OF 1(2) r] by auto
  obtain out T where 3: "sum_threads s2 [0..<n] ([], no_totals) = Inr (out, T)" "tot_counters T = tally (map snd rs)"
    using totals_ok [OF 2(2) r] by blast
  note T = tally_components [OF 3(2)]
  have nz: "(of_nat (commits rs) :: u64) \<noteq> 0"
    using c by (metis unat_of_nat_u64 unsigned_0 less_irrefl)
  show ?thesis
    using 1(1) 2(1) 3(1) nz assms u
    by (simp add: instance_run_def Stats_print_def T AppendLatency_def AppendRemoteLockTime_def append_value_def
        report_ok_def Let_def result_file_inject result_file_kinds mean_latency_def)
qed

lemma run_instances_ok:
  assumes "\<forall>rep \<in> set reps. report_ok can_open n rep \<and> fs (result_file ''latency'' (fst rep)) = None"
    and "distinct (map fst reps)"
  shows "\<exists>fs'. run_instances can_open n s reps fs = Inr fs' \<and>
    (\<forall>i. fs' (result_file ''latency'' i) = (case map_of reps i of
       Some rs \<Rightarrow> Some (dec_string (unat (mean_latency rs)) @ endl) | None \<Rightarrow> fs (result_file ''latency'' i)))"
  using assms
proof (induction reps arbitrary: fs)
  case (Cons rep reps)
  obtain ins rs where rep: "rep = (ins, rs)" by (cases rep)
  obtain out s' fs1 where 1: "instance_run can_open n ins rs s fs = Inr (out, s', fs1)"
    "\<forall>i. fs1 (result_file ''latency'' i) =
       (if i = ins then Some (dec_string (unat (mean_latency rs)) @ endl) else fs (result_file ''latency'' i))"
    using instance_run_ok [of can_open n ins rs fs s] Cons.prems(1) rep by auto
  have "ins \<notin> fst ` set reps" using Cons.prems(2) rep by simp
  then have "\<forall>rep \<in> set reps. report_ok can_open n rep \<and> fs1 (result_file ''latency'' (fst rep)) = None"
    using Cons.prems(1) 1(2) by (auto simp: image_iff)
  moreover have "distinct (map fst reps)" using Cons.prems(2) by simp
  ultimately obtain fs2 where 2: "run_instances can_open n s reps fs1 = Inr fs2"
    "\<forall>i. fs2 (result_file ''latency'' i) = (case map_of reps i of
       Some rs \<Rightarrow> Some (dec_string (unat (mean_latency rs)) @ endl) | None \<Rightarrow> fs1 (result_file ''latency'' i))"
    using Cons.IH by blast
  have "map_of reps ins = None" using \<open>ins \<notin> fst ` set reps\<close> by (simp add: map_of_eq_None_iff)
  then show ?case using 1 2 rep by (auto split: option.splits)
qed simp

lemma sum_stream_line: "sum_stream \<lparr>rest = dec_string (unat v) @ endl, failed = False\<rparr> temp acc = acc + v"
proof -
  have tw: "takeWhile is_digit (dec_string n @ endl) = dec_string n" "dropWhile is_digit (dec_string n @ endl) = endl" for n
    using dec_string_digits by (simp_all add: takeWhile_append2 dropWhile_append2 is_digit_def endl_def)
  obtain c cs where c: "dec_string (unat v) = c # cs" by (cases "dec_string (unat v)") auto
  then have cd: "is_digit c" using dec_string_hd [of "unat v"] by simp
  have h: "c \<noteq> CHR ''-''" using cd by (auto simp: is_digit_def)
  have s: "dropWhile is_space (dec_string (unat v) @ endl) = dec_string (unat v) @ endl"
    using c is_digit_not_space [OF cd] by simp
  have b: "\<not> 2 ^ 64 \<le> dec_value (dec_string (unat v))" using unsigned_less [where w = v] by (simp add: not_le)
  have "hd (dec_string (unat v) @ endl) \<noteq> CHR ''-''" using h c by simp
  then have 1: "get_u64 \<lparr>rest = dec_string (unat v) @ endl, failed = False\<rparr> temp = (v, \<lparr>rest = endl, failed = False\<rparr>)"
    using b by (simp add: get_u64_def Let_def skip_sign_dec tw s)
  have 2: "get_u64 \<lparr>rest = endl, failed = False\<rparr> old = (old, \<lparr>rest = [], failed = True\<rparr>)" for old
    by (simp add: get_u64_def endl_def is_space_def)
  show ?thesis by (subst sum_stream.simps, simp add: 1, subst sum_stream.simps, simp add: 2)
qed

lemma parse_instances_ok:
  assumes "\<forall>i \<in> set is. (\<forall>c. fs (result_file kind i) = Some c \<longrightarrow> can_open (result_file kind i) \<and> c = dec_string (unat (val i)) @ endl)"
  shows "parse_instances can_open kind kind is (k, acc, fs) =
    (let js = filter (\<lambda>i. fs (result_file kind i) \<noteq> None) is in Inr (k + length js, acc + (\<Sum>i\<leftarrow>js. val i), fs))"
  using assms
proof (induction "is" arbitrary: k acc)
  case (Cons i "is")
  show ?case
  proof (cases "fs (result_file kind i)")
    case None
    then show ?thesis using Cons by (simp add: parse_instance_def)
  next
    case (Some c)
    have c: "can_open (result_file kind i)" "c = dec_string (unat (val i)) @ endl" using Some Cons.prems by simp_all
    have "parse_instance can_open kind kind i (k, acc, fs) = Inr (Suc k, acc + val i, fs)"
      using Some c by (simp add: parse_instance_def Let_def sum_stream_line fun_upd_idem)
    then show ?thesis using Cons Some by (simp add: Let_def add.assoc)
  qed
qed (simp add: Let_def)

lemma sum_over_instances:
  fixes val :: "nat \<Rightarrow> u64"
  assumes "distinct ids" and "\<forall>i \<in> set ids. i < n"
  shows "(\<Sum>i\<leftarrow>filter (\<lambda>i. i \<in> set ids) [0..<n]. val i) = (\<Sum>i\<leftarrow>ids. val i)"
    and "length (filter (\<lambda>i. i \<in> set ids) [0..<n]) = length ids"
proof -
  have s: "set (filter (\<lambda>i. i \<in> set ids) [0..<n]) = set ids" using assms(2) by auto
  show "(\<Sum>i\<leftarrow>filter (\<lambda>i. i \<in> set ids) [0..<n]. val i) = (\<Sum>i\<leftarrow>ids. val i)"
    using s assms(1) by (simp add: sum_list_distinct_conv_sum_set del: set_filter)
  show "length (filter (\<lambda>i. i \<in> set ids) [0..<n]) = length ids"
    using s assms(1) by (metis distinct_card distinct_filter distinct_upt)
qed

text \<open>
  C36: The latency report accounts for every round. Let some instances of the cluster, each once, set up their
  statistics, let their threads run any sequence of committing and aborting rounds with at least one commit, and print;
  afterwards, \<open>ParseLatency\<close> prints the mean over these instances of (the duration of all rounds of all threads, in
  microseconds, divided by the number of commits), and the number of instances.
\<close>

theorem latency_report_accounts:
  assumes "\<forall>rep \<in> set reps. report_ok can_open n rep" and "distinct (map fst reps)" and "reps \<noteq> []"
  shows "\<exists>fs. run_instances can_open n s reps Map.empty = Inr fs \<and>
    ParseLatency can_open fs =
      Inr (report_line ''total_latency'' ((\<Sum>rep\<leftarrow>reps. mean_latency (snd rep)) div of_nat (length reps)) (length reps), fs)"
proof -
  obtain fs where fs: "run_instances can_open n s reps Map.empty = Inr fs"
    "\<And>i. fs (result_file ''latency'' i) = map_option (\<lambda>rs. dec_string (unat (mean_latency rs)) @ endl) (map_of reps i)"
    using run_instances_ok [of reps can_open n Map.empty s] assms(1,2) unfolding map_option_case by blast
  let ?val = "\<lambda>i. mean_latency (the (map_of reps i))"
  have lt: "\<forall>i \<in> set (map fst reps). i < PROCESS_CNT" using assms(1) by (auto simp: report_ok_def)
  have "can_open (result_file ''latency'' i)" if "map_of reps i = Some rs" for i rs
    using map_of_SomeD [OF that] assms(1) by (auto simp: report_ok_def)
  then have "\<forall>i \<in> set [0..<PROCESS_CNT]. \<forall>c. fs (result_file ''latency'' i) = Some c \<longrightarrow>
      can_open (result_file ''latency'' i) \<and> c = dec_string (unat (?val i)) @ endl"
    by (auto simp: fs(2))
  note parse = parse_instances_ok [where val = ?val, OF this, of 0 0]
  have dom: "fs (result_file ''latency'' i) \<noteq> None \<longleftrightarrow> i \<in> set (map fst reps)" for i
    by (simp add: fs(2) map_of_eq_None_iff)
  have "(\<Sum>i\<leftarrow>map fst reps. ?val i) = (\<Sum>rep\<leftarrow>reps. mean_latency (snd rep))"
    using assms(2) by (auto simp: comp_def intro!: arg_cong [of _ _ sum_list])
  then have "parse_instances can_open ''latency'' ''latency'' [0..<PROCESS_CNT] (0, 0, fs) =
      Inr (length reps, (\<Sum>rep\<leftarrow>reps. mean_latency (snd rep)), fs)"
    using parse sum_over_instances(1) [OF assms(2) lt, of ?val] sum_over_instances(2) [OF assms(2) lt] unfolding dom by (simp only: Let_def add_0 length_map)
  then show ?thesis using fs(1) assms(3) by (simp add: ParseLatency_def parse_mean_def)
qed

definition demo_round :: "int \<Rightarrow> RC \<Rightarrow> round" where
  "demo_round ns rc = \<lparr>rd_begin = 0, rd_chosen = 1000, rd_resumed = 1000, rd_done = ns, rd_events = [Total_request, Row_got 500], rd_rc = rc\<rparr>"

theorem latency_report_accounts_witness:
  "\<exists>fs. run_instances (\<lambda>f. True) 2 \<lparr>thd_stats = [], tmp_stats = [], dl_detect_time = 0, dl_wait_time = 0, cycle_detect = 0,
        deadlock = 0, stats_txn_cnt = 0\<rparr>
      [(1, [(0, demo_round 5000 RCOK), (1, demo_round 2000 Abort)]), (0, [(1, demo_round 9000 RCOK)])] Map.empty = Inr fs \<and>
    ParseLatency (\<lambda>f. True) fs = Inr (report_line ''total_latency'' 8 (Suc 1), fs)"
proof -
  have "mean_latency [(0, demo_round 5000 RCOK), (1, demo_round 2000 Abort)] = 7" "mean_latency [(1, demo_round 9000 RCOK)] = 9"
    by (simp_all add: mean_latency_def demo_round_def round_nanos_def commits_def BILLION_def)
  moreover have "(7 + 9 :: u64) div of_nat (Suc (Suc 0)) = 8" by simp
  ultimately show ?thesis
    using latency_report_accounts [of "[(1, [(0, demo_round 5000 RCOK), (1, demo_round 2000 Abort)]), (0, [(1, demo_round 9000 RCOK)])]" "\<lambda>f. True" 2
      "\<lparr>thd_stats = [], tmp_stats = [], dl_detect_time = 0, dl_wait_time = 0, cycle_detect = 0, deadlock = 0, stats_txn_cnt = 0\<rparr>"]
    by (simp add: report_ok_def rounds_ok_def demo_round_def commits_def PROCESS_CNT_def)
qed

section \<open>Corner cases\<close>

text \<open>An instance that prints before any transaction has committed divides by zero.\<close>

lemma print_without_commit:
  assumes "rounds_ok n rs" and "commits rs = 0"
  shows "instance_run can_open n ins rs s fs = Inl Div_By_Zero"
proof -
  obtain s1 where 1: "init_stats [0..<n] (Stats_init n s) = Inr s1" "accounts n [] s1"
    using init_accounts by blast
  obtain s2 where 2: "run_rounds rs s1 = Inr s2" "accounts n rs s2"
    using rounds_account [OF 1(2) assms(1)] by auto
  obtain out T where 3: "sum_threads s2 [0..<n] ([], no_totals) = Inr (out, T)" "tot_counters T = tally (map snd rs)"
    using totals_ok [OF 2(2) assms(1)] by blast
  show ?thesis using 1(1) 2(1) 3(1) tally_components(1) [OF 3(2)] assms(2) by (simp add: instance_run_def Stats_print_def)
qed

text \<open>
  The time of aborted transactions counts their time in rows twice: once within the duration of the round, once by
  \<open>Stats::abort\<close>; so it can exceed the run time it is said to be a part of.
\<close>

lemma aborted_time_counted_twice:
  "rd_rc r = Abort \<Longrightarrow> tally [r] ! 5 = round_nanos r + man_time (rd_events r) \<and> tally [r] ! 2 = round_nanos r"
  by (simp add: tally_def weight_def Let_def)

text \<open>\<open>ParseRemoteLockTime\<close> looks for the files of the throughput: without them it drops the remote lock times.\<close>

lemma remote_lock_time_dropped:
  assumes "\<forall>i < PROCESS_CNT. fs (result_file ''throughtput'' i) = None"
  shows "ParseRemoteLockTime can_open fs = Inr (report_line ''remote_lock_time'' 0 0, fs)"
proof -
  have "parse_instances can_open ''throughtput'' ''remote_lock_time'' is (0, 0, fs) = Inr (0, 0, fs)"
    if "\<forall>i \<in> set is. i < PROCESS_CNT" for "is"
    using that assms by (induction "is") (simp_all add: parse_instance_def)
  from this [of "[0..<PROCESS_CNT]"] show ?thesis by (simp add: ParseRemoteLockTime_def)
qed

end
