(* ===== verification/Command_Line.thy ===== *)
theory Command_Line
  imports Schema Thread Table_Space
begin

text \<open>
  The settings of a program: the global parameters with their defaults (common/global.cpp, config.h), the command line of
  \<open>parser\<close> (common/parser.cpp), and the table of hosts and the number of the instance (\<open>parser_host\<close>). The arguments are
  those after the name of the program. \<open>atof\<close> and the JSON reader are parameters.
\<close>

section \<open>Settings\<close>

text \<open>The parameters of the query generator are the record of \<open>Ycsb_Query\<close>, which this one extends.\<close>

datatype TestCases = READ_WRITE | CONFLICT

record settings = query_cfg +
  g_part_alloc :: bool
  g_mem_pad :: bool
  g_query_intvl :: u64
  g_prt_lat_distr :: bool
  g_thread_cnt :: u32
  g_field_per_tuple :: u32
  g_init_parallelism :: u32
  g_num_wh :: u32
  g_abort_penalty :: u64
  g_central_man :: bool
  g_ts_alloc :: u32
  g_no_dl :: bool
  g_timeout :: u64
  g_dl_loop_detect :: u64
  g_ts_batch_alloc :: bool
  g_ts_batch_num :: u32
  g_perc_payment :: real
  g_wh_update :: bool
  g_test_case :: TestCases
  output_file :: "string option"
  g_params :: "string \<rightharpoonup> string"

definition default_settings :: settings where
  "default_settings = query_cfg.extend default_cfg
     \<lparr>g_part_alloc = False, g_mem_pad = True, g_query_intvl = 1, g_prt_lat_distr = False, g_thread_cnt = 4,
      g_field_per_tuple = 10, g_init_parallelism = 40, g_num_wh = 1, g_abort_penalty = 100000, g_central_man = False,
      g_ts_alloc = 2, g_no_dl = False, g_timeout = 1000000, g_dl_loop_detect = 1000, g_ts_batch_alloc = False,
      g_ts_batch_num = 1, g_perc_payment = 1 / 2, g_wh_update = True, g_test_case = CONFLICT, output_file = None,
      g_params = Map.empty\<rparr>"

section \<open>Options\<close>

text \<open>A byte of an argument; a string ends with a zero byte.\<close>

definition ch :: "string \<Rightarrow> nat \<Rightarrow> char" where
  "ch s i = (if i < length s then s ! i else CHR 0x00)"

text \<open>The digits and the value of the number a string starts with, after white space and a sign.\<close>

definition number_at :: "string \<Rightarrow> string \<times> int" where
  "number_at s =
     (let t = dropWhile is_space s;
          ds = takeWhile is_digit (if t = [] then [] else skip_sign t);
          v = int (dec_value ds) in
      (ds, if t \<noteq> [] \<and> hd t = CHR ''-'' then - v else v))"

text \<open>\<open>atol\<close>; a value that is no \<open>long\<close> is undefined behaviour.\<close>

definition atol :: "string \<Rightarrow> int res" where
  "atol s = (let n = snd (number_at s) in if - (2 ^ 63) \<le> n \<and> n < 2 ^ 63 then Inr n else Inl Out_Of_Bounds)"

text \<open>An \<open>int\<close> assigned to a \<open>uint32_t\<close>, and to a parameter the model keeps as a number.\<close>

definition u32_of :: "int \<Rightarrow> u32" where
  "u32_of n = of_int n"

definition nat_of :: "int \<Rightarrow> nat" where
  "nat_of n = unat (u32_of n)"

definition tab :: string where
  "tab = [CHR 0x09]"

definition usage :: string where
  "usage = concat
    [''[usage]:'' @ endl,
     tab @ ''-pINT       ; PART_CNT'' @ endl,
     tab @ ''-vINT       ; VIRTUAL_PART_CNT'' @ endl,
     tab @ ''-tINT       ; THREAD_CNT'' @ endl,
     tab @ ''-qINT       ; QUERY_INTVL'' @ endl,
     tab @ ''-dINT       ; PRT_LAT_DISTR'' @ endl,
     tab @ ''-aINT       ; PART_ALLOC (0 or 1)'' @ endl,
     tab @ ''-mINT       ; MEM_PAD (0 or 1)'' @ endl,
     tab @ ''-GaINT      ; ABORT_PENALTY (in ms)'' @ endl,
     tab @ ''-GcINT      ; CENTRAL_MAN'' @ endl,
     tab @ ''-GtINT      ; TS_ALLOC'' @ endl,
     tab @ ''-GkINT      ; KEY_ORDER'' @ endl,
     tab @ ''-GnINT      ; NO_DL'' @ endl,
     tab @ ''-GoINT      ; TIMEOUT'' @ endl,
     tab @ ''-GlINT      ; DL_LOOP_DETECT'' @ endl,
     tab @ ''-GbINT      ; TS_BATCH_ALLOC'' @ endl,
     tab @ ''-GuINT      ; TS_BATCH_NUM'' @ endl,
     tab @ ''-o STRING   ; output file'' @ endl @ endl,
     ''  [YCSB]:'' @ endl,
     tab @ ''-cINT       ; PART_PER_TXN'' @ endl,
     tab @ ''-eINT       ; PERC_MULTI_PART'' @ endl,
     tab @ ''-rFLOAT     ; READ_PERC'' @ endl,
     tab @ ''-wFLOAT     ; WRITE_PERC'' @ endl,
     tab @ ''-zFLOAT     ; ZIPF_THETA'' @ endl,
     tab @ ''-sINT       ; SYNTH_TABLE_SIZE'' @ endl,
     tab @ ''-RINT       ; REQ_PER_QUERY'' @ endl,
     tab @ ''-fINT       ; FIELD_PER_TUPLE'' @ endl,
     ''  [TPCC]:'' @ endl,
     tab @ ''-nINT       ; NUM_WH'' @ endl,
     tab @ ''-TpFLOAT    ; PERC_PAYMENT'' @ endl,
     tab @ ''-TuINT      ; WH_UPDATE'' @ endl,
     ''  [TEST]:'' @ endl,
     tab @ ''-Ar         ; Test READ_WRITE'' @ endl,
     tab @ ''-Ac         ; Test CONFLIT'' @ endl]"

text \<open>The options with two letters.\<close>

definition set_G :: "char \<Rightarrow> string \<Rightarrow> settings \<Rightarrow> settings res" where
  "set_G x arg c =
     (if x = CHR ''a'' then rbind (atoi arg) (\<lambda>n. Inr (c\<lparr>g_abort_penalty := of_int n\<rparr>))
      else if x = CHR ''c'' then rbind (atoi arg) (\<lambda>n. Inr (c\<lparr>g_central_man := n \<noteq> 0\<rparr>))
      else if x = CHR ''t'' then rbind (atoi arg) (\<lambda>n. Inr (c\<lparr>g_ts_alloc := u32_of n\<rparr>))
      else if x = CHR ''k'' then rbind (atoi arg) (\<lambda>n. Inr (c\<lparr>g_key_order := n \<noteq> 0\<rparr>))
      else if x = CHR ''n'' then rbind (atoi arg) (\<lambda>n. Inr (c\<lparr>g_no_dl := n \<noteq> 0\<rparr>))
      else if x = CHR ''o'' then rbind (atol arg) (\<lambda>n. Inr (c\<lparr>g_timeout := of_int n\<rparr>))
      else if x = CHR ''l'' then rbind (atoi arg) (\<lambda>n. Inr (c\<lparr>g_dl_loop_detect := of_int n\<rparr>))
      else if x = CHR ''b'' then rbind (atoi arg) (\<lambda>n. Inr (c\<lparr>g_ts_batch_alloc := n \<noteq> 0\<rparr>))
      else if x = CHR ''u'' then rbind (atoi arg) (\<lambda>n. Inr (c\<lparr>g_ts_batch_num := u32_of n\<rparr>))
      else Inr c)"

definition set_T :: "(string \<Rightarrow> real) \<Rightarrow> char \<Rightarrow> string \<Rightarrow> settings \<Rightarrow> settings res" where
  "set_T atof x arg c =
     (let c1 = (if x = CHR ''p'' then c\<lparr>g_perc_payment := atof arg\<rparr> else c) in
      if x = CHR ''u'' then rbind (atoi arg) (\<lambda>n. Inr (c1\<lparr>g_wh_update := n \<noteq> 0\<rparr>)) else Inr c1)"

definition set_A :: "char \<Rightarrow> settings \<Rightarrow> settings" where
  "set_A x c =
     (let c1 = (if x = CHR ''r'' then c\<lparr>g_test_case := READ_WRITE\<rparr> else c) in
      if x = CHR ''c'' then c1\<lparr>g_test_case := CONFLICT\<rparr> else c1)"

text \<open>\<open>--name=value\<close>: the first equals sign counts.\<close>

definition set_param :: "string \<Rightarrow> settings \<Rightarrow> settings res" where
  "set_param line c =
     asserting (CHR ''='' \<in> set line)
       (let name = takeWhile (\<lambda>x. x \<noteq> CHR ''='') line; val = tl (dropWhile (\<lambda>x. x \<noteq> CHR ''='') line) in
        asserting (g_params c name \<noteq> None) (Inr (c\<lparr>g_params := (g_params c)(name \<mapsto> val)\<rparr>)))"

text \<open>The options of one argument, except \<open>-o\<close> and \<open>-h\<close>; an unknown letter is ignored.\<close>

definition read_option :: "(string \<Rightarrow> real) \<Rightarrow> string \<Rightarrow> settings \<Rightarrow> settings res" where
  "read_option atof a c =
     (let x = ch a 1; arg = drop 2 a in
      if x = CHR ''a'' then rbind (atoi arg) (\<lambda>n. Inr (c\<lparr>g_part_alloc := n \<noteq> 0\<rparr>))
      else if x = CHR ''m'' then rbind (atoi arg) (\<lambda>n. Inr (c\<lparr>g_mem_pad := n \<noteq> 0\<rparr>))
      else if x = CHR ''q'' then rbind (atoi arg) (\<lambda>n. Inr (c\<lparr>g_query_intvl := of_int n\<rparr>))
      else if x = CHR ''c'' then rbind (atoi arg) (\<lambda>n. Inr (c\<lparr>g_part_per_txn := nat_of n\<rparr>))
      else if x = CHR ''e'' then Inr (c\<lparr>g_perc_multi_part := atof arg\<rparr>)
      else if x = CHR ''r'' then Inr (c\<lparr>g_read_perc := atof arg\<rparr>)
      else if x = CHR ''w'' then Inr (c\<lparr>g_write_perc := atof arg\<rparr>)
      else if x = CHR ''z'' then Inr (c\<lparr>g_zipf_theta := atof arg\<rparr>)
      else if x = CHR ''d'' then rbind (atoi arg) (\<lambda>n. Inr (c\<lparr>g_prt_lat_distr := n \<noteq> 0\<rparr>))
      else if x = CHR ''p'' then rbind (atoi arg) (\<lambda>n. Inr (c\<lparr>g_part_cnt := nat_of n\<rparr>))
      else if x = CHR ''v'' then rbind (atoi arg) (\<lambda>n. Inr (c\<lparr>g_virtual_part_cnt := nat_of n\<rparr>))
      else if x = CHR ''t'' then rbind (atoi arg) (\<lambda>n. Inr (c\<lparr>g_thread_cnt := u32_of n\<rparr>))
      else if x = CHR ''s'' then rbind (atoi arg) (\<lambda>n. Inr (c\<lparr>g_synth_table_size := of_int n\<rparr>))
      else if x = CHR ''R'' then rbind (atoi arg) (\<lambda>n. Inr (c\<lparr>g_req_per_query := nat_of n\<rparr>))
      else if x = CHR ''f'' then rbind (atoi arg) (\<lambda>n. Inr (c\<lparr>g_field_per_tuple := u32_of n\<rparr>))
      else if x = CHR ''n'' then rbind (atoi arg) (\<lambda>n. Inr (c\<lparr>g_num_wh := u32_of n\<rparr>))
      else if x = CHR ''G'' then set_G (ch a 2) (drop 3 a) c
      else if x = CHR ''T'' then set_T atof (ch a 2) (drop 3 a) c
      else if x = CHR ''A'' then Inr (set_A (ch a 2) c)
      else if x = CHR ''-'' then set_param arg c
      else Inr c)"

text \<open>
  The loop over the arguments. \<open>-o\<close> takes the next argument as it is, or the null pointer behind the last one; \<open>-h\<close>
  ends the program, with the settings so far, after printing the usage.
\<close>

datatype outcome = Parsed settings | Exited settings string

fun parse_args :: "(string \<Rightarrow> real) \<Rightarrow> string list \<Rightarrow> settings \<Rightarrow> outcome res" where
  "parse_args atof [] c = Inr (Parsed c)"
| "parse_args atof (a # as) c =
     asserting (ch a 0 = CHR ''-'')
       (if ch a 1 = CHR ''o''
        then (case as of
                [] \<Rightarrow> Inr (Parsed (c\<lparr>output_file := None\<rparr>))
              | f # as' \<Rightarrow> parse_args atof as' (c\<lparr>output_file := Some f\<rparr>))
        else if ch a 1 = CHR ''h'' then Inr (Exited c usage)
        else rbind (read_option atof a c) (parse_args atof as))"

definition init_params :: "settings \<Rightarrow> settings" where
  "init_params c = c\<lparr>g_params := (g_params c)(''abort_buffer_enable'' \<mapsto> ''true'', ''write_copy_form'' \<mapsto> ''data'',
     ''validation_lock'' \<mapsto> ''no-wait'', ''pre_abort'' \<mapsto> ''true'', ''atomic_timestamp'' \<mapsto> ''false'')\<rparr>"

definition parser :: "(string \<Rightarrow> real) \<Rightarrow> string list \<Rightarrow> settings \<Rightarrow> outcome res" where
  "parser atof args c =
     rbind (parse_args atof args (init_params c)) (\<lambda>r.
     case r of
       Parsed c1 \<Rightarrow> Inr (Parsed (if g_thread_cnt c1 < g_init_parallelism c1 then c1\<lparr>g_init_parallelism := g_thread_cnt c1\<rparr> else c1))
     | Exited c1 s \<Rightarrow> Inr (Exited c1 s))"

text \<open>The abort buffer of a thread depends on the parameters; a missing one is created empty by the lookup.\<close>

definition abort_buffer_param :: "settings \<Rightarrow> bool" where
  "abort_buffer_param c \<longleftrightarrow> g_params c ''abort_buffer_enable'' = Some ''true''"

section \<open>Hosts\<close>

text \<open>\<open>std::stoi\<close> throws without digits and out of range.\<close>

definition stoi :: "string \<Rightarrow> int res" where
  "stoi s =
     (case number_at s of (ds, n) \<Rightarrow>
      if ds \<noteq> [] \<and> - (2 ^ 31) \<le> n \<and> n < 2 ^ 31 then Inr n else Inl Exception)"

text \<open>Eleven bytes after the dash are read, and the number starts at the fourteenth byte.\<close>

fun instance_arg :: "string list \<Rightarrow> int \<Rightarrow> int res" where
  "instance_arg [] i = Inr i"
| "instance_arg (a # as) i =
     asserting (ch a 0 = CHR ''-'')
       (if length a < 11 then Inl Out_Of_Bounds
        else if take 11 (drop 1 (a @ [CHR 0x00])) = ''instance_id''
        then if length a < 13 then Inl Out_Of_Bounds
             else rbind (stoi (drop 13 a)) (instance_arg as)
        else instance_arg as i)"

definition asInt :: "json_object \<Rightarrow> string \<Rightarrow> int res" where
  "asInt obj k =
     (case map_of obj k of
        Some (JNum n) \<Rightarrow> if - (2 ^ 31) \<le> n \<and> n < 2 ^ 31 then Inr n else Inl Exception
      | Some (JStr s) \<Rightarrow> Inl Exception
      | None \<Rightarrow> Inr 0)"

text \<open>The members in the order of their names; \<open>insert\<close> keeps an entry that is there.\<close>

fun add_hosts :: "json_object list \<Rightarrow> (int \<rightharpoonup> string) \<Rightarrow> (int \<rightharpoonup> string) res" where
  "add_hosts [] hosts = Inr hosts"
| "add_hosts (r # rs) hosts =
     rbind (asInt r ''id'') (\<lambda>i.
     rbind (asString r ''ip'') (\<lambda>ip.
     rbind (asString r ''port'') (\<lambda>port.
     add_hosts rs (if hosts i = None then hosts(i \<mapsto> ip @ '':'' @ port) else hosts))))"

text \<open>\<open>undef\<close> is the value of the uninitialised number; the file is \<open>None\<close> if it cannot be opened.\<close>

definition parser_host ::
  "(string \<Rightarrow> json_object list option) \<Rightarrow> int \<Rightarrow> string list \<Rightarrow> string option \<Rightarrow> (int \<rightharpoonup> string) \<Rightarrow> (int \<times> (int \<rightharpoonup> string)) res" where
  "parser_host parse_json undef args file hosts =
     rbind (instance_arg args undef) (\<lambda>i.
     case file of
       None \<Rightarrow> Inl Assert_Fail
     | Some text \<Rightarrow>
         (case parse_json text of
            None \<Rightarrow> Inl Exception
          | Some ms \<Rightarrow> rbind (add_hosts ms hosts) (\<lambda>hosts'. Inr (i, hosts'))))"

section \<open>Numbers\<close>

definition show_int :: "int \<Rightarrow> string" where
  "show_int n = (if n < 0 then ''-'' @ dec_string (nat (- n)) else dec_string (nat n))"

lemma takeWhile_digits: "takeWhile is_digit (dec_string n) = dec_string n"
  using dec_string_digits by (simp add: takeWhile_eq_all_conv)

lemma number_at_show: "number_at (show_int n) = (dec_string (nat \<bar>n\<bar>), n)"
proof -
  obtain c cs where c: "dec_string (nat \<bar>n\<bar>) = c # cs" by (cases "dec_string (nat \<bar>n\<bar>)") auto
  have cd: "is_digit c" using dec_string_hd [of "nat \<bar>n\<bar>"] c by simp
  then have h: "\<not> is_space c" "c \<noteq> CHR ''-''" "c \<noteq> CHR ''+''"
    using is_digit_not_space [OF cd] by (auto simp: is_digit_def)
  have tw: "takeWhile is_digit (c # cs) = c # cs" using takeWhile_digits [of "nat \<bar>n\<bar>"] c by simp
  have dv: "dec_value (c # cs) = nat \<bar>n\<bar>" using dec_value_dec_string [of "nat \<bar>n\<bar>"] c by simp
  show ?thesis
  proof (cases "n < 0")
    case True
    then have "show_int n = CHR ''-'' # c # cs" using c by (simp add: show_int_def)
    moreover have "\<not> is_space (CHR ''-'')" by (simp add: is_space_def)
    ultimately show ?thesis using True tw dv c by (simp add: number_at_def Let_def skip_sign_def)
  next
    case False
    then have "show_int n = c # cs" using c by (simp add: show_int_def)
    then show ?thesis using False tw dv c h by (simp add: number_at_def Let_def skip_sign_def)
  qed
qed

lemma atoi_number: "atoi s = (let n = snd (number_at s) in if - (2 ^ 31) \<le> n \<and> n < 2 ^ 31 then Inr n else Inl Out_Of_Bounds)"
  by (simp add: atoi_def number_at_def Let_def)

definition is_int :: "int \<Rightarrow> bool" where
  "is_int n \<longleftrightarrow> - (2 ^ 31) \<le> n \<and> n < 2 ^ 31"

lemma numbers_read [simp]: "is_int n \<Longrightarrow> atoi (show_int n) = Inr n" "is_int n \<Longrightarrow> atol (show_int n) = Inr n" "is_int n \<Longrightarrow> stoi (show_int n) = Inr n"
  by (simp_all add: atoi_number atol_def stoi_def number_at_show is_int_def)

section \<open>Properties\<close>

text \<open>What each option with a number is for.\<close>

definition int_options :: "(string \<times> (int \<Rightarrow> settings \<Rightarrow> settings)) list" where
  "int_options =
    [(''a'', \<lambda>n c. c\<lparr>g_part_alloc := n \<noteq> 0\<rparr>), (''m'', \<lambda>n c. c\<lparr>g_mem_pad := n \<noteq> 0\<rparr>),
     (''q'', \<lambda>n c. c\<lparr>g_query_intvl := of_int n\<rparr>), (''c'', \<lambda>n c. c\<lparr>g_part_per_txn := nat_of n\<rparr>),
     (''d'', \<lambda>n c. c\<lparr>g_prt_lat_distr := n \<noteq> 0\<rparr>), (''p'', \<lambda>n c. c\<lparr>g_part_cnt := nat_of n\<rparr>),
     (''v'', \<lambda>n c. c\<lparr>g_virtual_part_cnt := nat_of n\<rparr>), (''t'', \<lambda>n c. c\<lparr>g_thread_cnt := u32_of n\<rparr>),
     (''s'', \<lambda>n c. c\<lparr>g_synth_table_size := of_int n\<rparr>), (''R'', \<lambda>n c. c\<lparr>g_req_per_query := nat_of n\<rparr>),
     (''f'', \<lambda>n c. c\<lparr>g_field_per_tuple := u32_of n\<rparr>), (''n'', \<lambda>n c. c\<lparr>g_num_wh := u32_of n\<rparr>),
     (''Ga'', \<lambda>n c. c\<lparr>g_abort_penalty := of_int n\<rparr>), (''Gc'', \<lambda>n c. c\<lparr>g_central_man := n \<noteq> 0\<rparr>),
     (''Gt'', \<lambda>n c. c\<lparr>g_ts_alloc := u32_of n\<rparr>), (''Gk'', \<lambda>n c. c\<lparr>g_key_order := n \<noteq> 0\<rparr>),
     (''Gn'', \<lambda>n c. c\<lparr>g_no_dl := n \<noteq> 0\<rparr>), (''Go'', \<lambda>n c. c\<lparr>g_timeout := of_int n\<rparr>),
     (''Gl'', \<lambda>n c. c\<lparr>g_dl_loop_detect := of_int n\<rparr>), (''Gb'', \<lambda>n c. c\<lparr>g_ts_batch_alloc := n \<noteq> 0\<rparr>),
     (''Gu'', \<lambda>n c. c\<lparr>g_ts_batch_num := u32_of n\<rparr>), (''Tu'', \<lambda>n c. c\<lparr>g_wh_update := n \<noteq> 0\<rparr>)]"

definition option_text :: "string \<times> int \<Rightarrow> string" where
  "option_text op = ''-'' @ fst op @ show_int (snd op)"

lemma ch_simps [simp]: "ch (x # s) 0 = x" "ch (x # y # s) (Suc 0) = y" "ch (x # y # z # s) 2 = z"
  by (simp_all add: ch_def)

lemma read_option_number:
  assumes "is_int n"
  shows "list_all (\<lambda>(x, f). read_option atof (option_text (x, n)) c = Inr (f n c)) int_options"
    and "list_all (\<lambda>(x, f). ch (option_text (x, n)) 0 = CHR ''-'' \<and> ch (option_text (x, n)) 1 \<notin> {CHR ''o'', CHR ''h''}) int_options"
  using assms
  by (simp_all add: int_options_def option_text_def read_option_def set_G_def set_T_def Let_def)

definition apply_options :: "(string \<times> int) list \<Rightarrow> settings \<Rightarrow> settings" where
  "apply_options os c = foldl (\<lambda>c op. the (map_of int_options (fst op)) (snd op) c) c os"

lemma parse_options:
  "\<forall>op \<in> set os. map_of int_options (fst op) \<noteq> None \<and> is_int (snd op) \<Longrightarrow>
   parse_args atof (map option_text os) c = Inr (Parsed (apply_options os c))"
proof (induction os arbitrary: c)
  case (Cons op os)
  obtain x n where op: "op = (x, n)" by (cases op)
  then obtain f where f: "map_of int_options x = Some f" "is_int n" using Cons.prems by auto
  have "read_option atof (option_text (x, n)) c = Inr (f n c)" "ch (option_text (x, n)) 0 = CHR ''-''"
    "ch (option_text (x, n)) 1 \<notin> {CHR ''o'', CHR ''h''}"
    using read_option_number [OF f(2), unfolded list_all_iff, THEN bspec, OF map_of_SomeD [OF f(1)]] by simp_all
  then show ?case using Cons op f(1) by (simp add: apply_options_def)
qed (simp add: apply_options_def)

text \<open>
  C37: the command line sets what it names. For every sequence of the options that take a whole number, each followed by a
  number that is an \<open>int\<close>, \<open>parser\<close> returns, no assertion fails, and the settings are the given ones with the options
  applied from left to right, so that the last one for a parameter counts, except that the number of threads bounds the
  parallelism of the initialisation.
\<close>

theorem parser_applies_options:
  assumes "\<forall>op \<in> set os. map_of int_options (fst op) \<noteq> None \<and> is_int (snd op)"
  shows "\<exists>c'. parser atof (map option_text os) c = Inr (Parsed c') \<and>
    g_init_parallelism c' = min (g_init_parallelism c) (g_thread_cnt c') \<and>
    c'\<lparr>g_init_parallelism := g_init_parallelism c\<rparr> = apply_options os (init_params c)"
proof -
  let ?c = "apply_options os (init_params c)"
  have "g_init_parallelism (f n d) = g_init_parallelism d" if "map_of int_options x = Some f" for x f n d
    using map_of_SomeD [OF that] by (auto simp: int_options_def)
  then have "g_init_parallelism (apply_options os d) = g_init_parallelism d" for d
    using assms by (induction os arbitrary: d) (auto simp: apply_options_def)
  then have i: "g_init_parallelism ?c = g_init_parallelism c" by (simp add: init_params_def)
  let ?r = "if g_thread_cnt ?c < g_init_parallelism ?c then ?c\<lparr>g_init_parallelism := g_thread_cnt ?c\<rparr> else ?c"
  have "parser atof (map option_text os) c = Inr (Parsed ?r)"
    using parse_options [OF assms] by (simp add: parser_def)
  then show ?thesis using i by (intro exI [of _ ?r]) (auto simp: min_def)
qed

theorem parser_applies_options_witness:
  "\<exists>c'. parser (\<lambda>_. 0) [''-t8'', ''-R20'', ''-t2'', ''-Gk1''] default_settings = Inr (Parsed c') \<and>
     g_thread_cnt c' = 2 \<and> g_req_per_query c' = 20 \<and> g_key_order c' \<and> g_init_parallelism c' = 2"
proof -
  let ?os = "[(''t'', 8), (''R'', 20), (''t'', 2), (''Gk'', 1)]"
  have t: "map option_text ?os = [''-t8'', ''-R20'', ''-t2'', ''-Gk1'']"
    by code_simp
  have "\<forall>op \<in> set ?os. map_of int_options (fst op) \<noteq> None \<and> is_int (snd op)" by (simp add: int_options_def is_int_def)
  from parser_applies_options [OF this, of "\<lambda>_. 0" default_settings, unfolded t]
  obtain c' where c: "parser (\<lambda>_. 0) [''-t8'', ''-R20'', ''-t2'', ''-Gk1''] default_settings = Inr (Parsed c')"
    "g_init_parallelism c' = min (g_init_parallelism default_settings) (g_thread_cnt c')"
    "c'\<lparr>g_init_parallelism := g_init_parallelism default_settings\<rparr> = apply_options ?os (init_params default_settings)"
    by blast
  have v: "g_thread_cnt c' = g_thread_cnt (apply_options ?os (init_params default_settings))"
    "g_req_per_query c' = g_req_per_query (apply_options ?os (init_params default_settings))"
    "g_key_order c' = g_key_order (apply_options ?os (init_params default_settings))"
    by (simp_all flip: c(3))
  show ?thesis
    using c(1,2) unfolding v by (intro exI [of _ c'])
      (simp add: apply_options_def int_options_def u32_of_def nat_of_def default_settings_def query_cfg.defs v)
qed

text \<open>
  The main program of an instance reads the hosts but does not call \<open>parser\<close>: the parameters stay empty, and threads run
  without the abort buffer that \<open>parser\<close> would enable.
\<close>

lemma abort_buffer_needs_parser:
  "\<not> abort_buffer_param default_settings"
  "\<exists>c. parser atof [] default_settings = Inr (Parsed c) \<and> abort_buffer_param c"
  by (simp_all add: abort_buffer_param_def default_settings_def query_cfg.defs parser_def init_params_def)

text \<open>The table of hosts, and the number of the instance.\<close>

definition host_object :: "int \<times> string \<times> string \<Rightarrow> json_object" where
  "host_object h = [(''id'', JNum (fst h)), (''ip'', JStr (fst (snd h))), (''port'', JStr (snd (snd h)))]"

lemma add_hosts_ok:
  "\<forall>h \<in> set hs. is_int (fst h) \<Longrightarrow>
   add_hosts (map host_object hs) hosts = Inr (map_of (map (\<lambda>h. (fst h, fst (snd h) @ '':'' @ snd (snd h))) hs) ++ hosts)"
proof (induction hs arbitrary: hosts)
  case (Cons h hs)
  have "asInt (host_object h) ''id'' = Inr (fst h)" "asString (host_object h) ''ip'' = Inr (fst (snd h))"
    "asString (host_object h) ''port'' = Inr (snd (snd h))"
    using Cons.prems by (simp_all add: asInt_def asString_def host_object_def is_int_def)
  then show ?case using Cons by (auto simp: map_add_def fun_eq_iff split: option.splits)
qed simp

lemma parser_host_ok:
  assumes "is_int i" and "parse_json text = Some (map host_object hs)" and "\<forall>h \<in> set hs. is_int (fst h)"
  shows "parser_host parse_json undef [''-instance_id='' @ show_int i] (Some text) Map.empty =
    Inr (i, map_of (map (\<lambda>h. (fst h, fst (snd h) @ '':'' @ snd (snd h))) hs))"
  using assms by (simp add: parser_host_def ch_def add_hosts_ok)

text \<open>An argument of fewer than eleven bytes makes \<open>parser_host\<close> read past its end: the options of \<open>parser\<close> do.\<close>

lemma parser_host_short_argument:
  "parser_host parse_json undef (''-t4'' # as) file hosts = Inl Out_Of_Bounds"
  by (simp add: parser_host_def ch_def)

end
