(* ===== verification/Workload.thy ===== *)
theory Workload
  imports Command_Line Arena Table_Load Buffer_Runs
begin

text \<open>
  The workload object with its arenas (\<open>workload::init\<close> and its destructor, \<open>common/workload/wl.cpp\<close>), \<open>ycsb_wl::init\<close> and
  the parallel slices of the table (\<open>ycsb_wl.cpp\<close>), and the end of an instance (\<open>ManagerInstance::~ManagerInstance\<close>).
\<close>

section \<open>The workload\<close>

record workload_obj =
  arenas :: "arena list"
  sim_done :: bool
  wl_tables :: wl_state
  the_table :: "table option"
  next_tid :: int

definition workload_init :: "settings \<Rightarrow> workload_obj \<Rightarrow> workload_obj" where
  "workload_init c w = w\<lparr>arenas := arenas w @ map (\<lambda>i. Arena_new (int i)) [0..<unat (g_init_parallelism c)], sim_done := False\<rparr>"

text \<open>The destructor deletes as many arenas as the parallelism says, whether or not there are so many.\<close>

fun delete_arenas :: "(u64 \<Rightarrow> 'h \<Rightarrow> 'h) \<Rightarrow> nat \<Rightarrow> arena list \<Rightarrow> 'h \<Rightarrow> 'h res" where
  "delete_arenas del 0 as h = Inr h"
| "delete_arenas del (Suc n) as h = (case as of [] \<Rightarrow> Inl Out_Of_Bounds | a # as1 \<Rightarrow> delete_arenas del n as1 (Arena_delete del a h))"

definition workload_delete :: "(u64 \<Rightarrow> 'h \<Rightarrow> 'h) \<Rightarrow> settings \<Rightarrow> workload_obj \<Rightarrow> 'h \<Rightarrow> 'h res" where
  "workload_delete del c w h = delete_arenas del (unat (g_init_parallelism c)) (arenas w) h"

text \<open>\<open>file\<close> is the contents of the table description.\<close>

definition ycsb_wl_init :: "(nat \<Rightarrow> column) \<Rightarrow> string option \<Rightarrow> settings \<Rightarrow> workload_obj \<Rightarrow> workload_obj res option" where
  "ycsb_wl_init jc file c w =
     (let w1 = (workload_init c w)\<lparr>next_tid := 0\<rparr> in
      map_option (\<lambda>r. rbind r (\<lambda>(t, ws). Inr (w1\<lparr>the_table := t, wl_tables := ws\<rparr>))) (ycsb_init_schema jc file (wl_tables w1)))"

section \<open>Slices\<close>

text \<open>
  A slice draws its number and checks it; its loop runs over its keys and does nothing. The result holds these keys.
  \<open>tid\<close> is a \<open>uint32_t\<close>, so \<open>tid + 1\<close> is computed with 32 bits.
\<close>

definition init_table_slice :: "settings \<Rightarrow> workload_obj \<Rightarrow> (u64 list \<times> workload_obj) res" where
  "init_table_slice c w =
     (let tid = of_int (next_tid w) :: u32; w1 = w\<lparr>next_tid := next_tid w + 1\<rparr>; n = ucast (g_init_parallelism c) :: u64 in
      if n = 0 then Inl Div_By_Zero
      else asserting (g_synth_table_size c mod n = 0)
       (asserting (tid < g_init_parallelism c)
        (let slice_size = g_synth_table_size c div n in
         if the_table w = None then Inl Bad_Deref
         else Inr (page_numbers (slice_size * ucast tid) (slice_size * ucast (tid + 1)), w1))))"

text \<open>The threads, in the order in which they draw their numbers.\<close>

fun init_slices :: "settings \<Rightarrow> nat \<Rightarrow> workload_obj \<Rightarrow> (u64 list list \<times> workload_obj) res" where
  "init_slices c 0 w = Inr ([], w)"
| "init_slices c (Suc n) w =
     rbind (init_table_slice c w) (\<lambda>(ks, w1). rbind (init_slices c n w1) (\<lambda>(kss, w2). Inr (ks # kss, w2)))"

definition init_table_parallel :: "settings \<Rightarrow> workload_obj \<Rightarrow> (u64 list list \<times> workload_obj) res" where
  "init_table_parallel c w = init_slices c (unat (g_init_parallelism c)) w"

section \<open>The end of an instance\<close>

text \<open>
  The parts of the destructor that do more than free memory, in their order: the workload, the buffer, and the files of
  the index and of the table space. \<open>es\<close> are the entries of the index in the order of their iteration.
\<close>

definition Manager_delete ::
  "(u64 \<Rightarrow> 'h \<Rightarrow> 'h) \<Rightarrow> settings \<Rightarrow> 'd disk_ops \<Rightarrow> 'w posix \<Rightarrow> (json_object \<Rightarrow> string) \<Rightarrow> string \<Rightarrow> entry list \<Rightarrow> bytes \<Rightarrow> table_space
   \<Rightarrow> workload_obj \<Rightarrow> 'd buffer \<Rightarrow> 'h \<Rightarrow> 'w file_io \<Rightarrow> (string \<Rightarrow> string option)
   \<Rightarrow> ('h \<times> 'd buffer \<times> 'w file_io \<times> (string \<Rightarrow> string option)) res option" where
  "Manager_delete del c D P print_json name es ibuf ts w buf h f tfiles =
     (case workload_delete del c w h of
        Inl e \<Rightarrow> Some (Inl e)
      | Inr h1 \<Rightarrow>
          map_option (\<lambda>r. rbind r (\<lambda>buf1.
            rbind (Index_Serialize P name es ibuf f) (\<lambda>f1.
            Inr (h1, buf1, f1, TableSpace_Serialize print_json ts tfiles)))) (Buffer_delete D buf))"

section \<open>Lemmas\<close>

lemma delete_arenas_ok: "n \<le> length as \<Longrightarrow> delete_arenas del n as h = Inr (fold (Arena_delete del) (take n as) h)"
  by (induction del n as h rule: delete_arenas.induct) (auto split: list.splits)

lemma delete_arenas_short: "length as < n \<Longrightarrow> delete_arenas del n as h = Inl Out_Of_Bounds"
  by (induction del n as h rule: delete_arenas.induct) (auto split: list.splits)

text \<open>The destructor frees the arenas that \<open>init\<close> made; a workload that was never initialised is not destructible.\<close>

lemma workload_delete_init:
  "arenas w = [] \<Longrightarrow> workload_delete del c (workload_init c w) h =
     Inr (fold (Arena_delete del) (map (\<lambda>i. Arena_new (int i)) [0..<unat (g_init_parallelism c)]) h)"
  by (simp add: workload_delete_def workload_init_def delete_arenas_ok)

lemma workload_delete_uninitialised: "arenas w = [] \<Longrightarrow> 0 < g_init_parallelism c \<Longrightarrow> workload_delete del c w h = Inl Out_Of_Bounds"
  by (simp add: workload_delete_def delete_arenas_short word_less_nat_alt)

lemma page_numbers_eq: "page_numbers a b = map of_nat [unat a..<unat b]"
  by (simp add: page_numbers_def)

lemma slice_bound:
  assumes "g_synth_table_size c mod ucast (g_init_parallelism c) = 0" and "k \<le> unat (g_init_parallelism c)"
  shows "unat (g_synth_table_size c div ucast (g_init_parallelism c)) * k \<le> unat (g_synth_table_size c)"
    and "unat (g_synth_table_size c div ucast (g_init_parallelism c)) * unat (g_init_parallelism c) = unat (g_synth_table_size c)"
proof -
  let ?s = "unat (g_synth_table_size c)" and ?n = "unat (g_init_parallelism c)"
  have d: "unat (g_synth_table_size c div ucast (g_init_parallelism c)) = ?s div ?n" by (simp add: unat_div)
  have "?s mod ?n = 0" using arg_cong [OF assms(1), of unat] by (simp add: unat_mod)
  then show e: "unat (g_synth_table_size c div ucast (g_init_parallelism c)) * ?n = ?s" using d by auto
  show "unat (g_synth_table_size c div ucast (g_init_parallelism c)) * k \<le> ?s"
    using mult_le_mono2 [OF assms(2)] e by metis
qed

lemma init_slices_ok:
  assumes dv: "g_synth_table_size c mod ucast (g_init_parallelism c) = 0" and t: "the_table w \<noteq> None"
    and "next_tid w = int k" and "k + n = unat (g_init_parallelism c)"
  shows "\<exists>kss w1. init_slices c n w = Inr (kss, w1) \<and>
    concat kss = map of_nat [unat (g_synth_table_size c div ucast (g_init_parallelism c)) * k..<unat (g_synth_table_size c)]"
  using t assms(3,4)
proof (induction n arbitrary: k w)
  case 0
  then show ?case using slice_bound(2) [OF dv, of 0] by simp
next
  case (Suc n)
  let ?sz = "g_synth_table_size c div ucast (g_init_parallelism c)"
  let ?w = "w\<lparr>next_tid := next_tid w + 1\<rparr>"
  have par: "unat (g_init_parallelism c) < 2 ^ 32" using unsigned_less [of "g_init_parallelism c"] by simp
  have tid: "unat (of_int (next_tid w) :: u32) = k" "unat (of_int (next_tid w) + 1 :: u32) = Suc k"
    using par Suc.prems(2,3) by (simp_all add: unat_of_nat unat_word_ariths)
  have mul: "unat (?sz * ucast (x :: u32)) = unat ?sz * unat x" if "unat x \<le> unat (g_init_parallelism c)" for x
  proof -
    have "unat (g_synth_table_size c) < 2 ^ 64" using unsigned_less [of "g_synth_table_size c"] by simp
    then have "unat ?sz * unat x < 2 ^ 64" using slice_bound(1) [OF dv that] by linarith
    then show ?thesis by (simp add: unat_word_ariths)
  qed
  have "unat (ucast (g_init_parallelism c) :: u64) \<noteq> 0" using Suc.prems(3) by simp
  then have pos: "(ucast (g_init_parallelism c) :: u64) \<noteq> 0" by (metis unat_0)
  have slice: "init_table_slice c w = Inr (map of_nat [unat ?sz * k..<unat ?sz * Suc k], ?w)"
    using Suc.prems dv tid pos mul [of "of_int (next_tid w)"] mul [of "of_int (next_tid w) + 1"]
    by (auto simp: init_table_slice_def Let_def page_numbers_eq word_less_nat_alt)
  obtain kss w1 where r: "init_slices c n ?w = Inr (kss, w1)" "concat kss = map of_nat [unat ?sz * Suc k..<unat (g_synth_table_size c)]"
    using Suc.IH [of ?w "Suc k"] Suc.prems by auto
  have up: "[a..<b] = [a..<m] @ [m..<b]" if "a \<le> m" "m \<le> b" for a b m :: nat
    using upt_add_eq_append [of a m "b - m"] that by simp
  have "[unat ?sz * k..<unat (g_synth_table_size c)] = [unat ?sz * k..<unat ?sz * Suc k] @ [unat ?sz * Suc k..<unat (g_synth_table_size c)]"
    using slice_bound(1) [OF dv, of "Suc k"] Suc.prems(3) by (intro up) auto
  then show ?case using slice r by simp
qed

text \<open>The slices are the keys of the table, in order and each once, when the parallelism divides their number.\<close>

lemma init_table_parallel_covers:
  assumes "ycsb_wl_init jc file c w = Some (Inr w1)" and "the_table w1 \<noteq> None"
    and "g_synth_table_size c mod ucast (g_init_parallelism c) = 0"
  shows "\<exists>kss w2. init_table_parallel c w1 = Inr (kss, w2) \<and> concat kss = map of_nat [0..<unat (g_synth_table_size c)]"
proof -
  have "next_tid w1 = int 0" using assms(1) by (auto simp: ycsb_wl_init_def Let_def rbind_Inr_iff)
  from init_slices_ok [OF assms(3,2) this, of "unat (g_init_parallelism c)"] show ?thesis by (simp add: init_table_parallel_def)
qed

text \<open>The default parallelism divides the table.\<close>

lemma default_slices: "g_synth_table_size default_settings mod ucast (g_init_parallelism default_settings) = 0"
  by (simp add: default_settings_def query_cfg.defs default_cfg_def)

text \<open>
  The destructor of an instance never reaches the files: deleting the buffer accesses freed nodes before the index and the
  table space are saved.
\<close>

lemma Manager_delete_saves_nothing:
  assumes "posix_laws P content fdpath" and "file_inv fdpath (disk buf)" and "buf_inv buf ps fs" and "0 < page_num buf"
    and "length (arenas w) = unat (g_init_parallelism c)"
  shows "Manager_delete del c (file_disk P) P2 print_json name es ibuf ts w buf h f tfiles = Some (Inl Bad_Deref)"
  using Buffer_destructor_use_after_free [OF assms(1-4)] assms(5)
  by (simp add: Manager_delete_def workload_delete_def delete_arenas_ok)

end
