(* ===== verification/Tpcc_Helper.thy ===== *)
theory Tpcc_Helper
  imports Command_Line "HOL-Library.Multiset"
begin

text \<open>
  The helpers of the TPC-C workload (common/workload/tpcc_helper.cpp): the keys of its tables, the names of the customers,
  and random numbers and strings; and the permutation of the customers from tpcc_wl.cpp. \<open>lrand48_r\<close> is the generator the
  C library documents, with 48 bits of state.
\<close>

section \<open>Parameters\<close>

record tpcc_settings = settings +
  g_max_items :: u32
  g_cust_per_dist :: u32

definition default_tpcc :: tpcc_settings where
  "default_tpcc = settings.extend default_settings \<lparr>g_max_items = 100000, g_cust_per_dist = 3000\<rparr>"

definition DIST_PER_WARE :: u64 where
  "DIST_PER_WARE = 10"

definition LASTNAME_LEN :: nat where
  "LASTNAME_LEN = 16"

section \<open>Keys\<close>

definition distKey :: "u64 \<Rightarrow> u64 \<Rightarrow> u64" where
  "distKey d_id d_w_id = d_w_id * DIST_PER_WARE + d_id"

definition custKey :: "tpcc_settings \<Rightarrow> u64 \<Rightarrow> u64 \<Rightarrow> u64 \<Rightarrow> u64" where
  "custKey C c_id c_d_id c_w_id = distKey c_d_id c_w_id * ucast (g_cust_per_dist C) + c_id"

definition orderlineKey :: "tpcc_settings \<Rightarrow> u64 \<Rightarrow> u64 \<Rightarrow> u64 \<Rightarrow> u64" where
  "orderlineKey C w_id d_id o_id = distKey d_id w_id * ucast (g_cust_per_dist C) + o_id"

definition orderPrimaryKey :: "tpcc_settings \<Rightarrow> u64 \<Rightarrow> u64 \<Rightarrow> u64 \<Rightarrow> u64" where
  "orderPrimaryKey C w_id d_id o_id = orderlineKey C w_id d_id o_id"

text \<open>A character is a signed byte.\<close>

definition char_value :: "char \<Rightarrow> int" where
  "char_value c = sint (word_of_int (of_char c) :: 8 word)"

fun name_key :: "u64 \<Rightarrow> string \<Rightarrow> u64" where
  "name_key key [] = key"
| "name_key key (c # cs) = name_key (push_bit 2 key + of_int (char_value c - char_value (CHR ''A''))) cs"

definition custNPKey :: "string \<Rightarrow> u64 \<Rightarrow> u64 \<Rightarrow> u64" where
  "custNPKey c_last c_d_id c_w_id = push_bit 3 (name_key 0 c_last) + (c_w_id * DIST_PER_WARE + c_d_id)"

definition stockKey :: "tpcc_settings \<Rightarrow> u64 \<Rightarrow> u64 \<Rightarrow> u64" where
  "stockKey C s_i_id s_w_id = s_w_id * ucast (g_max_items C) + s_i_id"

section \<open>Names\<close>

definition syllables :: "string list" where
  "syllables = [''BAR'', ''OUGHT'', ''ABLE'', ''PRI'', ''PRES'', ''ESE'', ''ANTI'', ''CALLY'', ''ATION'', ''EING'']"

definition syllable :: "u64 \<Rightarrow> string res" where
  "syllable i = (if unat i < length syllables then Inr (syllables ! unat i) else Inl Out_Of_Bounds)"

text \<open>\<open>strcat\<close> to a string in a buffer of \<open>cap\<close> bytes; \<open>strcpy\<close> is \<open>strcat\<close> to the empty string.\<close>

definition strcat :: "nat \<Rightarrow> string \<Rightarrow> string \<Rightarrow> string res" where
  "strcat cap dst src = (if length dst + length src < cap then Inr (dst @ src) else Inl Out_Of_Bounds)"

definition Lastname :: "nat \<Rightarrow> u64 \<Rightarrow> (u64 \<times> string) res" where
  "Lastname cap num =
     rbind (syllable (num div 100)) (\<lambda>a. rbind (strcat cap [] a) (\<lambda>s1.
     rbind (syllable (num div 10 mod 10)) (\<lambda>b. rbind (strcat cap s1 b) (\<lambda>s2.
     rbind (syllable (num mod 10)) (\<lambda>c. rbind (strcat cap s2 c) (\<lambda>s3.
     Inr (of_nat (length s3), s3)))))))"

section \<open>Random numbers\<close>

text \<open>The buffers, one per warehouse, and the constants \<open>NURand\<close> draws when it first needs them.\<close>

record tpcc_rand =
  tpcc_buffer :: "48 word list"
  C_255 :: "u64 option"
  C_1023 :: "u64 option"
  C_8191 :: "u64 option"

definition srand48 :: "u32 \<Rightarrow> 48 word" where
  "srand48 seed = push_bit 16 (ucast seed) + 0x330E"

definition step48 :: "48 word \<Rightarrow> 48 word" where
  "step48 s = 0x5DEECE66D * s + 0xB"

definition lrand48_r :: "48 word \<Rightarrow> u64 \<times> 48 word" where
  "lrand48_r s = (ucast (drop_bit 17 (step48 s)), step48 s)"

text \<open>The buffers after every warehouse has been initialised by its thread.\<close>

definition init_buffers :: "tpcc_settings \<Rightarrow> 48 word list" where
  "init_buffers C = map (\<lambda>tid. srand48 (of_nat tid + 1)) [0..<unat (g_num_wh C)]"

definition RAND :: "u64 \<Rightarrow> u64 \<Rightarrow> tpcc_rand \<Rightarrow> (u64 \<times> tpcc_rand) res" where
  "RAND m thd g =
     (if unat thd < length (tpcc_buffer g)
      then if m = 0 then Inl Div_By_Zero
           else case lrand48_r (tpcc_buffer g ! unat thd) of (r, s) \<Rightarrow>
                Inr (r mod m, g\<lparr>tpcc_buffer := (tpcc_buffer g)[unat thd := s]\<rparr>)
      else Inl Out_Of_Bounds)"

definition URand :: "u64 \<Rightarrow> u64 \<Rightarrow> u64 \<Rightarrow> tpcc_rand \<Rightarrow> (u64 \<times> tpcc_rand) res" where
  "URand x y thd g = rbind (RAND (y - x + 1) thd g) (\<lambda>(r, g1). Inr (x + r, g1))"

text \<open>A constant that is drawn once.\<close>

definition draw_once :: "u64 option \<Rightarrow> u64 \<Rightarrow> u64 \<Rightarrow> tpcc_rand \<Rightarrow> (u64 \<times> tpcc_rand) res" where
  "draw_once c A thd g = (case c of Some v \<Rightarrow> Inr (v, g) | None \<Rightarrow> URand 0 A thd g)"

definition NURand_C :: "u64 \<Rightarrow> u64 \<Rightarrow> tpcc_rand \<Rightarrow> (u64 \<times> tpcc_rand) res" where
  "NURand_C A thd g =
     (if A = 255 then rbind (draw_once (C_255 g) A thd g) (\<lambda>(v, g1). Inr (v, g1\<lparr>C_255 := Some v\<rparr>))
      else if A = 1023 then rbind (draw_once (C_1023 g) A thd g) (\<lambda>(v, g1). Inr (v, g1\<lparr>C_1023 := Some v\<rparr>))
      else if A = 8191 then rbind (draw_once (C_8191 g) A thd g) (\<lambda>(v, g1). Inr (v, g1\<lparr>C_8191 := Some v\<rparr>))
      else Inl Assert_Fail)"

text \<open>The constant is kept in an \<open>int\<close>. The operands of the disjunction are evaluated from left to right.\<close>

definition NURand :: "u64 \<Rightarrow> u64 \<Rightarrow> u64 \<Rightarrow> u64 \<Rightarrow> tpcc_rand \<Rightarrow> (u64 \<times> tpcc_rand) res" where
  "NURand A x y thd g =
     rbind (NURand_C A thd g) (\<lambda>(c, g1).
     rbind (URand 0 A thd g1) (\<lambda>(a, g2).
     rbind (URand x y thd g2) (\<lambda>(b, g3).
     if y - x + 1 = 0 then Inl Div_By_Zero
     else Inr ((or a b + scast (ucast c :: u32)) mod (y - x + 1) + x, g3))))"

section \<open>Random strings\<close>

definition char_list :: string where
  "char_list = ''123456789abcdefghijklmnopqrstuvwxyzABCDEFGHIJKLMNOPQRSTUVWXYZ''"

definition put_char :: "string \<Rightarrow> nat \<Rightarrow> char \<Rightarrow> string res" where
  "put_char str i c = (if i < length str then Inr (str[i := c]) else Inl Out_Of_Bounds)"

fun alpha_loop :: "nat \<Rightarrow> nat \<Rightarrow> string \<Rightarrow> u64 \<Rightarrow> tpcc_rand \<Rightarrow> (string \<times> tpcc_rand) res" where
  "alpha_loop 0 i str thd g = Inr (str, g)"
| "alpha_loop (Suc n) i str thd g =
     rbind (URand 0 60 thd g) (\<lambda>(r, g1).
     rbind (if unat r < length char_list then Inr (char_list ! unat r) else Inl Out_Of_Bounds) (\<lambda>c.
     rbind (put_char str i c) (\<lambda>str1. alpha_loop n (Suc i) str1 thd g1)))"

fun zero_loop :: "nat \<Rightarrow> nat \<Rightarrow> string \<Rightarrow> string res" where
  "zero_loop 0 i str = Inr str"
| "zero_loop (Suc n) i str = rbind (put_char str i (CHR 0x00)) (zero_loop n (Suc i))"

text \<open>The buffer is given with its contents; \<open>mn\<close> and \<open>mx\<close> are the least and greatest length.\<close>

definition MakeAlphaString :: "nat \<Rightarrow> nat \<Rightarrow> string \<Rightarrow> u64 \<Rightarrow> tpcc_rand \<Rightarrow> (u64 \<times> string \<times> tpcc_rand) res" where
  "MakeAlphaString mn mx str thd g =
     rbind (URand (of_nat mn) (of_nat mx) thd g) (\<lambda>(cnt, g1).
     rbind (alpha_loop (unat cnt) 0 str thd g1) (\<lambda>(str1, g2).
     rbind (zero_loop (mx - unat cnt) (unat cnt) str1) (\<lambda>str2.
     Inr (cnt, str2, g2))))"

fun number_loop :: "nat \<Rightarrow> nat \<Rightarrow> string \<Rightarrow> u64 \<Rightarrow> tpcc_rand \<Rightarrow> (string \<times> tpcc_rand) res" where
  "number_loop 0 i str thd g = Inr (str, g)"
| "number_loop (Suc n) i str thd g =
     rbind (URand 0 9 thd g) (\<lambda>(r, g1).
     rbind (put_char str i (digit_char (unat r))) (\<lambda>str1. number_loop n (Suc i) str1 thd g1))"

definition MakeNumberString :: "nat \<Rightarrow> nat \<Rightarrow> string \<Rightarrow> u64 \<Rightarrow> tpcc_rand \<Rightarrow> (u64 \<times> string \<times> tpcc_rand) res" where
  "MakeNumberString mn mx str thd g =
     rbind (URand (of_nat mn) (of_nat mx) thd g) (\<lambda>(cnt, g1).
     rbind (number_loop (unat cnt) 0 str thd g1) (\<lambda>(str1, g2).
     Inr (cnt, str1, g2)))"

section \<open>Partitions\<close>

definition wh_to_part :: "tpcc_settings \<Rightarrow> u64 \<Rightarrow> u64 res" where
  "wh_to_part C wid =
     asserting (g_part_cnt C \<le> unat (g_num_wh C))
      (if g_part_cnt C = 0 then Inl Div_By_Zero else Inr (wid mod of_nat (g_part_cnt C)))"

section \<open>The permutation of the customers\<close>

fun shuffle_loop :: "nat \<Rightarrow> nat \<Rightarrow> nat \<Rightarrow> u64 \<Rightarrow> u64 list \<Rightarrow> tpcc_rand \<Rightarrow> (u64 list \<times> tpcc_rand) res" where
  "shuffle_loop cnt 0 i thd perm g = Inr (perm, g)"
| "shuffle_loop cnt (Suc n) i thd perm g =
     rbind (URand (of_nat (i + 1)) (of_nat (cnt - 1)) thd g) (\<lambda>(j, g1).
     if i < length perm \<and> unat j < length perm
     then shuffle_loop cnt n (Suc i) thd (perm[i := perm ! unat j, unat j := perm ! i]) g1
     else Inl Out_Of_Bounds)"

text \<open>With no customers the bound of the loop would wrap around, and the first access leaves the array.\<close>

definition init_permutation :: "tpcc_settings \<Rightarrow> u64 \<Rightarrow> tpcc_rand \<Rightarrow> (u64 list \<times> tpcc_rand) res" where
  "init_permutation C wid g =
     (let cnt = unat (g_cust_per_dist C) in
      if cnt = 0 then Inl Out_Of_Bounds
      else shuffle_loop cnt (cnt - 1) 0 (wid - 1) (map (\<lambda>i. of_nat (i + 1)) [0..<cnt]) g)"

section \<open>The period of the generator\<close>

text \<open>The recurrence over the integers; \<open>2 ^ k\<close> steps are an affine map that adds an odd multiple of \<open>2 ^ k\<close>.\<close>

definition lcg :: "int \<Rightarrow> int" where
  "lcg x = 0x5DEECE66D * x + 0xB"

lemma lcg_power:
  "\<exists>a c. (\<forall>x. (lcg ^^ 2 ^ k) x = (1 + 2 ^ (k + 2) * a) * x + 2 ^ k * (2 * c + 1))"
proof (induction k)
  case 0
  have "(0x5DEECE66D :: int) = 1 + 2 ^ (0 + 2) * 6303725979" "(0xB :: int) = 2 ^ 0 * (2 * 5 + 1)" by simp_all
  then show ?case unfolding lcg_def by (intro exI [of _ 6303725979] exI [of _ 5]) simp
next
  case (Suc k)
  then obtain a c where f: "\<And>x. (lcg ^^ 2 ^ k) x = (1 + 2 ^ (k + 2) * a) * x + 2 ^ k * (2 * c + 1)" by blast
  let ?a = "a + 2 ^ (k + 1) * a * a" and ?c = "c + 2 ^ k * a * (2 * c + 1) * 1"
  have "(lcg ^^ 2 ^ Suc k) x = (1 + 2 ^ (Suc k + 2) * ?a) * x + 2 ^ Suc k * (2 * ?c + 1)" for x
  proof -
    have "(lcg ^^ 2 ^ Suc k) x = (lcg ^^ 2 ^ k) ((lcg ^^ 2 ^ k) x)" by (simp add: mult_2 funpow_add)
    also have "\<dots> = (1 + 2 ^ (Suc k + 2) * ?a) * x + 2 ^ Suc k * (2 * ?c + 1)"
      unfolding f by (simp add: algebra_simps power_add)
    finally show ?thesis .
  qed
  then show ?case by blast
qed

lemma lcg_flips: "(lcg ^^ 2 ^ k) x mod 2 ^ Suc k = (x + 2 ^ k) mod 2 ^ Suc k"
proof -
  obtain a c where f: "(lcg ^^ 2 ^ k) x = (1 + 2 ^ (k + 2) * a) * x + 2 ^ k * (2 * c + 1)" using lcg_power [of k] by blast
  have "(lcg ^^ 2 ^ k) x = (x + 2 ^ k) + 2 ^ Suc k * (2 * a * x + c)" unfolding f by (simp add: algebra_simps)
  then show ?thesis by simp
qed

lemma uint_step48: "uint (step48 s) = lcg (uint s) mod 2 ^ 48"
  unfolding step48_def lcg_def by (simp add: uint_word_ariths mod_simps)

lemma lcg_mod: "lcg (x mod m) mod m = lcg x mod m"
  unfolding lcg_def by (metis mod_add_left_eq mod_mult_right_eq)

lemma uint_step48_power: "uint ((step48 ^^ n) s) = (lcg ^^ n) (uint s) mod 2 ^ 48"
proof (induction n)
  case 0
  then show ?case using uint_lt2p [of s] by simp
next
  case (Suc n)
  then show ?case by (simp add: uint_step48 lcg_mod)
qed

text \<open>What is drawn from a state.\<close>

definition drawn :: "48 word \<Rightarrow> nat" where
  "drawn s = unat s div 2 ^ 17"

lemma drawn_less: "drawn s < 2 ^ 31"
proof -
  have "unat s < 2 ^ 48" using unsigned_less [of s] by simp
  then show ?thesis by (simp add: drawn_def)
qed

lemma lrand48_r_eq: "lrand48_r s = (of_nat (drawn (step48 s)), step48 s)"
proof -
  have "unat (drop_bit 17 (step48 s)) = drawn (step48 s)" by (simp only: drawn_def unat_drop_bit_eq) (simp add: drop_bit_eq_div)
  moreover have "(ucast (drop_bit 17 (step48 s)) :: u64) = of_nat (unat (drop_bit 17 (step48 s)))" by simp
  ultimately show ?thesis by (simp add: lrand48_r_def)
qed

lemma step48_flips:
  assumes "k < 48"
  shows "unat ((step48 ^^ 2 ^ k) s) mod 2 ^ Suc k = (unat s + 2 ^ k) mod 2 ^ Suc k"
proof -
  have "(2 :: int) ^ Suc k dvd 2 ^ 48" using assms by (intro le_imp_power_dvd) simp
  then have "uint ((step48 ^^ 2 ^ k) s) mod 2 ^ Suc k = (lcg ^^ 2 ^ k) (uint s) mod 2 ^ Suc k"
    unfolding uint_step48_power by (rule mod_mod_cancel)
  then have "int (unat ((step48 ^^ 2 ^ k) s) mod 2 ^ Suc k) = int ((unat s + 2 ^ k) mod 2 ^ Suc k)"
    unfolding lcg_flips by (simp add: zmod_int)
  then show ?thesis by linarith
qed

lemma mod_flip_div:
  fixes x y :: nat
  assumes "y mod 2 ^ Suc k = (x + 2 ^ k) mod 2 ^ Suc k"
  shows "odd (x div 2 ^ k) \<longleftrightarrow> even (y div 2 ^ k)"
proof -
  have r: "even (z div 2 ^ k) \<longleftrightarrow> (z mod 2 ^ Suc k) div 2 ^ k = 0" for z :: nat
  proof -
    have "z mod 2 ^ Suc k = z mod 2 ^ k + 2 ^ k * (z div 2 ^ k mod 2)" using mod_mult2_eq [of z "2 ^ k" 2] by (simp add: mult.commute)
    then show ?thesis by (simp add: even_iff_mod_2_eq_zero)
  qed
  have "even ((x + 2 ^ k) div 2 ^ k) \<longleftrightarrow> odd (x div 2 ^ k)" by simp
  then show ?thesis using r [of y] r [of "x + 2 ^ k"] assms by simp
qed

text \<open>From every state the generator reaches a draw in another class modulo \<open>m\<close>.\<close>

lemma other_draw:
  assumes m: "2 \<le> m"
  shows "\<exists>n. drawn ((step48 ^^ n) s) mod m \<noteq> drawn s mod m"
proof (cases "even m")
  case True
  have "odd (drawn s) \<longleftrightarrow> even (drawn ((step48 ^^ 2 ^ 17) s))"
    unfolding drawn_def by (rule mod_flip_div) (rule step48_flips, simp)
  moreover have "even (z mod m) \<longleftrightarrow> even z" for z using True by (simp add: dvd_mod_iff)
  ultimately show ?thesis by metis
next
  case False
  let ?t = "(step48 ^^ 2 ^ 47) s"
  have lt: "unat s < 2 ^ 48" "unat ?t < 2 ^ 48" using unsigned_less [of s] unsigned_less [of ?t] by simp_all
  have "unat ?t mod 2 ^ 48 = (unat s + 2 ^ 47) mod 2 ^ 48" using step48_flips [of 47 s] by simp
  then have "unat ?t = (unat s + 2 ^ 47) mod 2 ^ 48" using lt(2) by simp
  then have "unat ?t = unat s + 2 ^ 47 \<or> unat s = unat ?t + 2 ^ 47" 
  proof (cases "unat s < 2 ^ 47")
    case False
    then have "(unat s + 2 ^ 47) mod 2 ^ 48 = (unat s - 2 ^ 47 + 2 ^ 48) mod 2 ^ 48" by (simp add: add.commute)
    also have "\<dots> = unat s - 2 ^ 47" using lt(1) by (simp only: mod_add_self2) simp
    finally show ?thesis using \<open>unat ?t = _\<close> False by simp
  qed simp
  then have d: "drawn ?t = drawn s + 2 ^ 30 \<or> drawn s = drawn ?t + 2 ^ 30" unfolding drawn_def by (auto simp: div_add_self2)
  have "drawn ?t mod m \<noteq> drawn s mod m"
  proof
    assume "drawn ?t mod m = drawn s mod m"
    then have "m dvd 2 ^ 30" using d by (auto dest: mod_eq_dvd_iff_nat [THEN iffD1, rotated] mod_eq_dvd_iff_nat [THEN iffD1, rotated, OF sym])
    moreover have "coprime m (2 ^ 30)" using False unfolding coprime_power_right_iff by simp
    ultimately show False using m by (auto simp: coprime_absorb_left)
  qed
  then show ?thesis by blast
qed

section \<open>Ranges\<close>

text \<open>A generator with a buffer for every warehouse.\<close>

definition rand_ok :: "tpcc_settings \<Rightarrow> tpcc_rand \<Rightarrow> bool" where
  "rand_ok C g \<longleftrightarrow> length (tpcc_buffer g) = unat (g_num_wh C)"

lemma RAND_ok:
  assumes "rand_ok C g" and "unat thd < unat (g_num_wh C)" and "m \<noteq> 0"
  shows "\<exists>g'. RAND m thd g = Inr (of_nat (drawn (step48 (tpcc_buffer g ! unat thd))) mod m, g') \<and> rand_ok C g' \<and>
    tpcc_buffer g' = (tpcc_buffer g)[unat thd := step48 (tpcc_buffer g ! unat thd)]"
  using assms by (simp add: RAND_def rand_ok_def lrand48_r_eq)

lemma unat_range_size:
  fixes x y :: u64
  assumes "x \<le> y" and "y < - 1"
  shows "unat (y - x + 1) = unat y - unat x + 1" and "y - x + 1 \<noteq> 0"
proof -
  have b: "unat (y - x) = unat y - unat x" using assms(1) by (simp add: unat_sub)
  have "unat y < unat (- 1 :: u64)" using assms(2) by (simp add: word_less_nat_alt)
  moreover have "unat (- 1 :: u64) = 2 ^ 64 - 1" by (simp add: unsigned_minus_1_eq_mask mask_eq_exp_minus_1)
  ultimately have "unat y - unat x + 1 < 2 ^ 64" by linarith
  then show e: "unat (y - x + 1) = unat y - unat x + 1" using b by (simp add: unat_word_ariths)
  show "y - x + 1 \<noteq> 0" using e by (metis add_is_0 one_neq_zero unat_0)
qed

lemma mod_range:
  fixes x y v :: u64
  assumes "x \<le> y" and "y < - 1"
  shows "x \<le> x + v mod (y - x + 1)" and "x + v mod (y - x + 1) \<le> y"
    and "unat (x + v mod (y - x + 1)) = unat x + unat v mod (unat y - unat x + 1)"
proof -
  note n = unat_range_size [OF assms]
  have xy: "unat x \<le> unat y" using assms(1) by (simp add: word_le_nat_alt)
  have m: "unat (v mod (y - x + 1)) = unat v mod (unat y - unat x + 1)" by (simp add: unat_mod n(1))
  have "unat v mod (unat y - unat x + 1) < unat y - unat x + 1" by simp
  then have le: "unat x + unat (v mod (y - x + 1)) \<le> unat y" using m xy by linarith
  moreover have "unat y < 2 ^ 64" using unsigned_less [of y] by simp
  ultimately have e: "unat (x + v mod (y - x + 1)) = unat x + unat (v mod (y - x + 1))" by (simp add: unat_word_ariths)
  show "x \<le> x + v mod (y - x + 1)" "x + v mod (y - x + 1) \<le> y" using e le by (simp_all add: word_le_nat_alt)
  show "unat (x + v mod (y - x + 1)) = unat x + unat v mod (unat y - unat x + 1)" using e m by simp
qed

lemma URand_drawn:
  assumes "rand_ok C g" and "unat thd < unat (g_num_wh C)" and "x \<le> y" and "y < - 1"
  shows "\<exists>v g'. URand x y thd g = Inr (v, g') \<and> x \<le> v \<and> v \<le> y \<and> rand_ok C g' \<and>
    unat v = unat x + drawn (step48 (tpcc_buffer g ! unat thd)) mod (unat y - unat x + 1) \<and>
    tpcc_buffer g' = (tpcc_buffer g)[unat thd := step48 (tpcc_buffer g ! unat thd)]"
proof -
  obtain g' where r: "RAND (y - x + 1) thd g = Inr (of_nat (drawn (step48 (tpcc_buffer g ! unat thd))) mod (y - x + 1), g')"
    "rand_ok C g'" "tpcc_buffer g' = (tpcc_buffer g)[unat thd := step48 (tpcc_buffer g ! unat thd)]"
    using RAND_ok [OF assms(1,2) unat_range_size(2) [OF assms(3,4)]] by blast
  have u: "unat (of_nat (drawn t) :: u64) = drawn t" for t using drawn_less [of t] by (intro unat_of_nat_u64) simp
  show ?thesis using r mod_range [OF assms(3,4)] by (simp add: URand_def u)
qed

lemma URand_ok:
  assumes "rand_ok C g" and "unat thd < unat (g_num_wh C)" and "x \<le> y" and "y < - 1"
  obtains v g' where "URand x y thd g = Inr (v, g')" and "x \<le> v" and "v \<le> y" and "rand_ok C g'"
  using URand_drawn [OF assms] by blast

lemma NURand_C_ok:
  assumes "rand_ok C g" and "unat thd < unat (g_num_wh C)" and A: "A \<in> {255, 1023, 8191}"
  obtains c g' where "NURand_C A thd g = Inr (c, g')" and "rand_ok C g'"
proof -
  have "\<exists>v g1. draw_once c A thd g = Inr (v, g1) \<and> rand_ok C g1" for c
  proof (cases c)
    case None
    have "A < - 1" using A by auto
    then show ?thesis using None URand_drawn [OF assms(1,2) word_zero_le, of A] by (auto simp: draw_once_def)
  qed (simp add: draw_once_def assms(1))
  then obtain v g1 where d: "\<And>c. draw_once c A thd g = Inr (v c, g1 c)" and ok: "\<And>c. rand_ok C (g1 c)" by metis
  show ?thesis
    by (rule that [of "if A = 255 then v (C_255 g) else if A = 1023 then v (C_1023 g) else v (C_8191 g)"
          "if A = 255 then g1 (C_255 g)\<lparr>C_255 := Some (v (C_255 g))\<rparr>
           else if A = 1023 then g1 (C_1023 g)\<lparr>C_1023 := Some (v (C_1023 g))\<rparr>
           else g1 (C_8191 g)\<lparr>C_8191 := Some (v (C_8191 g))\<rparr>"])
      (use A ok d in \<open>auto simp: NURand_C_def rand_ok_def\<close>)
qed

lemma NURand_ok:
  assumes "rand_ok C g" and t: "unat thd < unat (g_num_wh C)" and A: "A \<in> {255, 1023, 8191}" and xy: "x \<le> y" "y < - 1"
  obtains v g' where "NURand A x y thd g = Inr (v, g')" and "x \<le> v" and "v \<le> y" and "rand_ok C g'"
proof -
  obtain c g1 where c: "NURand_C A thd g = Inr (c, g1)" "rand_ok C g1" by (rule NURand_C_ok [OF assms(1-3)])
  have "A < - 1" using A by auto
  then obtain a g2 where a: "URand 0 A thd g1 = Inr (a, g2)" "rand_ok C g2" using URand_drawn [OF c(2) t word_zero_le, of A] by blast
  obtain b g3 where b: "URand x y thd g2 = Inr (b, g3)" "rand_ok C g3" by (rule URand_ok [OF a(2) t xy])
  show ?thesis
    by (rule that [of "x + (or a b + scast (ucast c :: u32)) mod (y - x + 1)" g3])
      (use c a b mod_range [OF xy] unat_range_size(2) [OF xy] in \<open>simp_all add: NURand_def add.commute\<close>)
qed

section \<open>The permutation\<close>

text \<open>Values that have not had their turn are at home; the others are below.\<close>

lemma shuffle_ok:
  assumes "rand_ok C g" and t: "unat thd < unat (g_num_wh C)"
    and len: "length perm = cnt" "0 < cnt" "cnt < 2 ^ 32" and n: "i + n = cnt - 1"
    and home: "\<And>p. i \<le> p \<Longrightarrow> p < cnt \<Longrightarrow> unat (perm ! p) = p + 1 \<or> unat (perm ! p) \<le> i"
    and away: "\<And>p. p < i \<Longrightarrow> unat (perm ! p) \<noteq> p + 1"
  shows "\<exists>perm' g'. shuffle_loop cnt n i thd perm g = Inr (perm', g') \<and> rand_ok C g' \<and> mset perm' = mset perm \<and>
    (\<forall>p < cnt - 1. unat (perm' ! p) \<noteq> p + 1) \<and> (0 < n \<longrightarrow> unat (perm' ! (cnt - 1)) \<noteq> cnt)"
  using assms
proof (induction n arbitrary: i perm g)
  case (Suc n)
  have u: "unat (of_nat (i + 1) :: u64) = i + 1" "unat (of_nat (cnt - 1) :: u64) = cnt - 1"
    by (rule unat_of_nat_u64, use Suc.prems(5,6) in simp)+
  have "(of_nat (i + 1) :: u64) \<le> of_nat (cnt - 1)" using u Suc.prems(6) by (simp only: word_le_nat_alt)
  moreover have "(of_nat (cnt - 1) :: u64) < - 1"
    using u(2) Suc.prems(5) by (simp only: word_less_nat_alt) (simp add: unsigned_minus_1_eq_mask mask_eq_exp_minus_1)
  ultimately obtain v g1 where v: "URand (of_nat (i + 1)) (of_nat (cnt - 1)) thd g = Inr (v, g1)"
    "of_nat (i + 1) \<le> v" "v \<le> of_nat (cnt - 1)" "rand_ok C g1"
    by (rule URand_ok [OF Suc.prems(1,2)])
  define j where "j = unat v"
  have j: "i < j" "j \<le> cnt - 1" using v(2,3) u by (simp_all add: word_le_nat_alt j_def del: of_nat_add of_nat_Suc)
  let ?p = "perm[i := perm ! j, j := perm ! i]"
  have ij: "i < length perm" "j < length perm" using j Suc.prems(3,4) by simp_all
  have m: "mset ?p = mset perm" using mset_swap [OF ij(2) ij(1)] by simp
  have home: "unat (?p ! p) = p + 1 \<or> unat (?p ! p) \<le> Suc i" if "Suc i \<le> p" "p < cnt" for p
  proof (cases "p = j")
    case True
    then show ?thesis using Suc.prems(7) [of i] j ij Suc.prems(3) by auto
  next
    case False
    then show ?thesis using Suc.prems(7) [of p] that by auto
  qed
  have away: "unat (?p ! p) \<noteq> p + 1" if "p < Suc i" for p
  proof (cases "p = i")
    case True
    then show ?thesis using Suc.prems(7) [of j] j ij Suc.prems(3) by auto
  next
    case False
    then show ?thesis using Suc.prems(8) [of p] that j by auto
  qed
  obtain perm' g' where r: "shuffle_loop cnt n (Suc i) thd ?p g1 = Inr (perm', g')" "rand_ok C g'" "mset perm' = mset ?p"
    "\<forall>p < cnt - 1. unat (perm' ! p) \<noteq> p + 1" "0 < n \<longrightarrow> unat (perm' ! (cnt - 1)) \<noteq> cnt"
    using Suc.IH [OF v(4) t _ _ _ _ home away] Suc.prems(3-6) by auto
  have "unat (perm' ! (cnt - 1)) \<noteq> cnt"
  proof (cases n)
    case 0
    then have "j = cnt - 1" "perm' = ?p" using j Suc.prems(6) r(1) by auto
    then show ?thesis using Suc.prems(7) [of i] j ij Suc.prems(3) by auto
  qed (use r(5) in simp)
  then show ?case using r v(1) ij m by (simp add: j_def)
qed simp

text \<open>
  C40: for every state of the generator \<open>init_permutation\<close> returns a permutation of the numbers of the customers of a
  district, in which no customer is at the place of its own number.
\<close>

theorem init_permutation_permutes:
  assumes "rand_ok C g" and "1 \<le> unat wid" and "unat wid \<le> unat (g_num_wh C)" and "2 \<le> unat (g_cust_per_dist C)"
  shows "\<exists>perm g'. init_permutation C wid g = Inr (perm, g') \<and> rand_ok C g' \<and>
    mset (map unat perm) = mset [1..<Suc (unat (g_cust_per_dist C))] \<and>
    (\<forall>p < unat (g_cust_per_dist C). unat (perm ! p) \<noteq> p + 1)"
proof -
  define cnt where "cnt = unat (g_cust_per_dist C)"
  let ?start = "map (\<lambda>i. of_nat (i + 1) :: u64) [0..<cnt]"
  have c: "2 \<le> cnt" "cnt < 2 ^ 32" using assms(4) unsigned_less [of "g_cust_per_dist C"] by (simp_all add: cnt_def)
  have u: "unat (?start ! p) = p + 1" if "p < cnt" for p
    using that c(2) unat_of_nat_u64 [of "p + 1"] by simp
  have t: "unat (wid - 1) < unat (g_num_wh C)"
    using assms(2,3) by (simp add: unat_sub word_le_nat_alt)
  obtain perm g' where r: "shuffle_loop cnt (cnt - 1) 0 (wid - 1) ?start g = Inr (perm, g')" "rand_ok C g'"
    "mset perm = mset ?start" "\<forall>p < cnt - 1. unat (perm ! p) \<noteq> p + 1" "unat (perm ! (cnt - 1)) \<noteq> cnt"
    using shuffle_ok [OF assms(1) t, of ?start cnt 0 "cnt - 1"] c u by auto
  have "map unat ?start = [1..<Suc cnt]"
    by (rule nth_equalityI) (use u in \<open>simp_all del: upt_Suc\<close>)
  then have "mset (map unat perm) = mset [1..<Suc cnt]" using r(3) by (metis mset_map)
  moreover have "unat (perm ! p) \<noteq> p + 1" if "p < cnt" for p
    using r(4,5) that by (cases "p = cnt - 1") auto
  moreover have "init_permutation C wid g = Inr (perm, g')" using r(1) c by (simp add: init_permutation_def cnt_def)
  ultimately show ?thesis using r(2) unfolding cnt_def by blast
qed

theorem init_permutation_permutes_witness:
  "\<exists>perm g'. init_permutation default_tpcc 1 \<lparr>tpcc_buffer = init_buffers default_tpcc, C_255 = None, C_1023 = None, C_8191 = None\<rparr> = Inr (perm, g') \<and>
    mset (map unat perm) = mset [1..<3001]"
proof -
  have d: "g_num_wh default_tpcc = 1" "g_cust_per_dist default_tpcc = 3000"
    by (simp_all add: default_tpcc_def default_settings_def settings.defs query_cfg.defs default_cfg_def)
  show ?thesis
    using init_permutation_permutes [of default_tpcc "\<lparr>tpcc_buffer = init_buffers default_tpcc, C_255 = None, C_1023 = None, C_8191 = None\<rparr>" 1]
    by (fastforce simp add: rand_ok_def init_buffers_def d)
qed

section \<open>Keys and names\<close>

lemma mult_add_inj:
  fixes a b n :: nat
  assumes "a * n + b = a' * n + b'" and "1 \<le> b" "b \<le> n" "1 \<le> b'" "b' \<le> n"
  shows "a = a' \<and> b = b'"
proof -
  have q: "(x * n + y) div n = x" if "y < n" for x y using that by simp
  have "(a * n + (b - 1)) div n = a" "(a' * n + (b' - 1)) div n = a'" by (rule q, use assms(2-5) in linarith)+
  moreover have "a * n + (b - 1) = a' * n + (b' - 1)" using assms(1,2,4) by linarith
  ultimately have "a = a'" by simp
  with assms(1) show ?thesis by simp
qed

lemma unat_mult_add_u64:
  fixes a b n :: u64
  assumes "unat a * unat n + unat b < 2 ^ 64"
  shows "unat (a * n + b) = unat a * unat n + unat b"
proof -
  have "unat (a * n) = unat a * unat n" using assms by (simp add: unat_word_ariths)
  then show ?thesis using assms by (simp add: unat_word_ariths)
qed

text \<open>
  The keys of the customers and of the stock are unique: over all warehouses, districts, customers and items, as
  long as the greatest key fits into 64 bits.
\<close>

lemma tpcc_keys_unique:
  assumes "(unat (g_num_wh C) * 10 + 11) * unat (g_cust_per_dist C) < 2 ^ 64"
    and "unat w \<le> unat (g_num_wh C)" and "unat w' \<le> unat (g_num_wh C)"
    and d: "1 \<le> unat d" "unat d \<le> 10" "1 \<le> unat d'" "unat d' \<le> 10"
    and c: "1 \<le> unat c" "unat c \<le> unat (g_cust_per_dist C)" "1 \<le> unat c'" "unat c' \<le> unat (g_cust_per_dist C)"
    and i: "1 \<le> unat i" "unat i \<le> unat (g_max_items C)" "1 \<le> unat i'" "unat i' \<le> unat (g_max_items C)"
  shows "(custKey C c d w = custKey C c' d' w' \<longleftrightarrow> c = c' \<and> d = d' \<and> w = w') \<and>
    (stockKey C i w = stockKey C i' w' \<longleftrightarrow> i = i' \<and> w = w')"
proof -
  let ?n = "unat (g_cust_per_dist C)" and ?m = "unat (g_max_items C)"
  have wh: "unat (g_num_wh C) < 2 ^ 32" "?m < 2 ^ 32" using unsigned_less [of "g_num_wh C"] unsigned_less [of "g_max_items C"] by simp_all
  have dk: "unat (distKey b v) = unat v * 10 + unat b" if "unat v \<le> unat (g_num_wh C)" "unat b \<le> 10" for b v
    using unat_mult_add_u64 [of v DIST_PER_WARE b] that wh(1) by (simp add: distKey_def DIST_PER_WARE_def)
  have ck: "unat (custKey C a b v) = (unat v * 10 + unat b) * ?n + unat a"
    if "unat v \<le> unat (g_num_wh C)" "unat b \<le> 10" "unat a \<le> ?n" for a b v
  proof -
    have "(unat v * 10 + unat b) * ?n + unat a \<le> (unat (g_num_wh C) * 10 + 10) * ?n + ?n" using that by (intro add_mono mult_right_mono) auto
    also have "\<dots> < 2 ^ 64" using assms(1) by (simp add: algebra_simps)
    finally show ?thesis using unat_mult_add_u64 [of "distKey b v" "ucast (g_cust_per_dist C)" a] dk that by (simp add: custKey_def)
  qed
  have sk: "unat (stockKey C a v) = unat v * ?m + unat a" if "unat v \<le> unat (g_num_wh C)" "unat a \<le> ?m" for a v
  proof -
    have "unat v * ?m + unat a \<le> (2 ^ 32 - 1) * ?m + ?m" using that wh by (intro add_mono mult_right_mono) auto
    also have "\<dots> < 2 ^ 64" using wh(2) by simp
    finally show ?thesis using unat_mult_add_u64 [of v "ucast (g_max_items C)" a] by (simp add: stockKey_def)
  qed
  have "c = c' \<and> d = d' \<and> w = w'" if "custKey C c d w = custKey C c' d' w'"
  proof -
    have "(unat w * 10 + unat d) * ?n + unat c = (unat w' * 10 + unat d') * ?n + unat c'"
      using that ck [of w d c] ck [of w' d' c'] assms(2,3) c d by simp
    then have "unat w * 10 + unat d = unat w' * 10 + unat d' \<and> unat c = unat c'" using c by (intro mult_add_inj)
    moreover from this have "unat w = unat w' \<and> unat d = unat d'" using d by (intro mult_add_inj [of _ 10]) simp_all
    ultimately show ?thesis by (simp add: word_unat_eq_iff)
  qed
  moreover have "i = i' \<and> w = w'" if "stockKey C i w = stockKey C i' w'"
  proof -
    have "unat w * ?m + unat i = unat w' * ?m + unat i'" using that sk [of w i] sk [of w' i'] assms(2,3) i by simp
    then have "unat w = unat w' \<and> unat i = unat i'" using i by (intro mult_add_inj)
    then show ?thesis by (simp add: word_unat_eq_iff)
  qed
  ultimately show ?thesis by blast
qed

text \<open>The next order of a district gets the key of the first order of the next district.\<close>

lemma order_key_collides: "orderlineKey C w d (ucast (g_cust_per_dist C) + 1) = orderlineKey C w (d + 1) 1"
  by (simp add: orderlineKey_def distKey_def algebra_simps)

text \<open>Two customers of different names and warehouses under one key.\<close>

lemma custNPKey_collides: "custNPKey ''EINGPRESPRI'' 1 1 = custNPKey ''EINGPRIEING'' 7 2"
  by code_simp

text \<open>Every name fits its buffer, and no two numbers have the same name: no syllable starts another one.\<close>

lemma syllables_prefix_free:
  assumes "a @ x = b @ y" and "a \<in> set syllables" and "b \<in> set syllables"
  shows "a = b \<and> x = y"
proof -
  have "\<forall>a \<in> set syllables. \<forall>b \<in> set syllables. take (length a) b = a \<longrightarrow> a = b" by code_simp
  moreover have "take (length a) b = a \<or> take (length b) a = b"
    using arg_cong [OF assms(1), of "take (length a)"] arg_cong [OF assms(1), of "take (length b)"] by (cases "length a \<le> length b") auto
  ultimately have "a = b" using assms(2,3) by metis
  with assms(1) show ?thesis by simp
qed

lemma syllable_ok:
  assumes "unat i < 10"
  shows "syllable i = Inr (syllables ! unat i)" and "syllables ! unat i \<in> set syllables" and "length (syllables ! unat i) \<le> 5"
proof -
  have "length syllables = 10" "list_all (\<lambda>s. length s \<le> 5) syllables" by (simp_all add: syllables_def)
  with assms show "syllable i = Inr (syllables ! unat i)" "syllables ! unat i \<in> set syllables" "length (syllables ! unat i) \<le> 5"
    by (auto simp: syllable_def list_all_length)
qed

definition name_of :: "nat \<Rightarrow> string" where
  "name_of n = syllables ! (n div 100) @ syllables ! (n div 10 mod 10) @ syllables ! (n mod 10)"

lemma Lastname_ok:
  assumes "unat num < 1000"
  shows "Lastname LASTNAME_LEN num = Inr (of_nat (length (name_of (unat num))), name_of (unat num))"
proof -
  have u: "unat (num div 100) = unat num div 100" "unat (num div 10 mod 10) = unat num div 10 mod 10" "unat (num mod 10) = unat num mod 10"
    by (simp_all add: unat_div unat_mod)
  have "unat (num div 100) < 10" "unat (num div 10 mod 10) < 10" "unat (num mod 10) < 10" using u assms by simp_all
  then show ?thesis
    using syllable_ok [of "num div 100"] syllable_ok [of "num div 10 mod 10"] syllable_ok [of "num mod 10"]
    by (simp add: Lastname_def strcat_def LASTNAME_LEN_def name_of_def u)
qed

lemma name_of_inj:
  assumes "m < 1000" and "n < 1000" and "name_of m = name_of n"
  shows "m = n"
proof -
  have len: "length syllables = 10" by (simp add: syllables_def)
  then have mem: "syllables ! k \<in> set syllables" if "k < 10" for k using that by simp
  have b: "m div 100 < 10" "n div 100 < 10" "m div 10 mod 10 < 10" "n div 10 mod 10 < 10" "m mod 10 < 10" "n mod 10 < 10"
    using assms(1,2) by simp_all
  have "syllables ! (m div 100) = syllables ! (n div 100) \<and> syllables ! (m div 10 mod 10) = syllables ! (n div 10 mod 10) \<and>
    syllables ! (m mod 10) = syllables ! (n mod 10)"
    using assms(3) unfolding name_of_def by (metis b mem syllables_prefix_free)
  moreover have "distinct syllables" by code_simp
  ultimately have "m div 100 = n div 100" "m div 10 mod 10 = n div 10 mod 10" "m mod 10 = n mod 10"
    using b len by (simp_all add: nth_eq_iff_index_eq)
  moreover have "k = 100 * (k div 100) + 10 * (k div 10 mod 10) + k mod 10" for k :: nat
  proof -
    have "k div 100 = k div 10 div 10" using div_mult2_eq [of k 10 10] by simp
    then show ?thesis using mult_div_mod_eq [of 10 k] mult_div_mod_eq [of 10 "k div 10"] by linarith
  qed
  ultimately show ?thesis by metis
qed

section \<open>Strings\<close>

lemma alpha_loop_ok:
  assumes "rand_ok C g" and "unat thd < unat (g_num_wh C)" and "i + n \<le> length str"
  shows "\<exists>str' g'. alpha_loop n i str thd g = Inr (str', g') \<and> rand_ok C g' \<and> length str' = length str \<and>
    (\<forall>k. k < i \<or> i + n \<le> k \<longrightarrow> str' ! k = str ! k) \<and> (\<forall>k. i \<le> k \<and> k < i + n \<longrightarrow> str' ! k \<in> set char_list)"
  using assms
proof (induction n arbitrary: i str g)
  case (Suc n)
  obtain r g1 where r: "URand 0 60 thd g = Inr (r, g1)" "r \<le> 60" "rand_ok C g1"
    using URand_drawn [OF Suc.prems(1,2), of 0 60] by auto
  have "length char_list = 61" by (simp add: char_list_def)
  then have c: "unat r < length char_list" using r(2) by (simp add: word_le_nat_alt)
  let ?s = "str[i := char_list ! unat r]"
  obtain str' g' where s: "alpha_loop n (Suc i) ?s thd g1 = Inr (str', g')" "rand_ok C g'" "length str' = length str"
    "\<forall>k. k < Suc i \<or> Suc i + n \<le> k \<longrightarrow> str' ! k = ?s ! k" "\<forall>k. Suc i \<le> k \<and> k < Suc i + n \<longrightarrow> str' ! k \<in> set char_list"
    using Suc.IH [OF r(3) Suc.prems(2), of "Suc i" ?s] Suc.prems(3) by auto
  have "str' ! k \<in> set char_list" if "i \<le> k" "k < i + Suc n" for k
    using s(4,5) that c Suc.prems(3) by (cases "k = i") auto
  then show ?case using s r(1) c Suc.prems(3) by (auto simp: put_char_def)
qed auto

lemma zero_loop_ok:
  assumes "i + n \<le> length str"
  shows "\<exists>str'. zero_loop n i str = Inr str' \<and> length str' = length str \<and>
    (\<forall>k. k < i \<or> i + n \<le> k \<longrightarrow> str' ! k = str ! k) \<and> (\<forall>k. i \<le> k \<and> k < i + n \<longrightarrow> str' ! k = CHR 0x00)"
  using assms
proof (induction n arbitrary: i str)
  case (Suc n)
  let ?s = "str[i := CHR 0x00]"
  obtain str' where s: "zero_loop n (Suc i) ?s = Inr str'" "length str' = length str"
    "\<forall>k. k < Suc i \<or> Suc i + n \<le> k \<longrightarrow> str' ! k = ?s ! k" "\<forall>k. Suc i \<le> k \<and> k < Suc i + n \<longrightarrow> str' ! k = CHR 0x00"
    using Suc.IH [of "Suc i" ?s] Suc.prems by auto
  have "str' ! k = CHR 0x00" if "i \<le> k" "k < i + Suc n" for k
    using s(3,4) that Suc.prems by (cases "k = i") auto
  then show ?case using s Suc.prems by (auto simp: put_char_def)
qed auto

lemma MakeAlphaString_ok:
  assumes "rand_ok C g" and t: "unat thd < unat (g_num_wh C)" and "mn \<le> mx" and "mx \<le> length str" and "mx < 2 ^ 31"
  shows "\<exists>cnt str' g'. MakeAlphaString mn mx str thd g = Inr (cnt, str', g') \<and> rand_ok C g' \<and> mn \<le> unat cnt \<and> unat cnt \<le> mx \<and>
    length str' = length str \<and> (\<forall>k < unat cnt. str' ! k \<in> set char_list) \<and> (\<forall>k. unat cnt \<le> k \<and> k < mx \<longrightarrow> str' ! k = CHR 0x00) \<and>
    (\<forall>k \<ge> mx. str' ! k = str ! k)"
proof -
  have u: "unat (of_nat mn :: u64) = mn" "unat (of_nat mx :: u64) = mx"
    by (rule unat_of_nat_u64, use assms(3,5) in simp)+
  have "(of_nat mn :: u64) \<le> of_nat mx" "(of_nat mx :: u64) < - 1"
    using u assms(3,5) by (simp_all add: word_le_nat_alt word_less_nat_alt unsigned_minus_1_eq_mask mask_eq_exp_minus_1)
  with assms(1) t obtain cnt g1 where c: "URand (of_nat mn) (of_nat mx) thd g = Inr (cnt, g1)" "of_nat mn \<le> cnt" "cnt \<le> of_nat mx"
    "rand_ok C g1" by (metis URand_ok)
  have n: "mn \<le> unat cnt" "unat cnt \<le> mx" using c(2,3) u by (simp_all add: word_le_nat_alt)
  obtain s1 g2 where a: "alpha_loop (unat cnt) 0 str thd g1 = Inr (s1, g2)" "rand_ok C g2" "length s1 = length str"
    "\<forall>k. unat cnt \<le> k \<longrightarrow> s1 ! k = str ! k" "\<forall>k < unat cnt. s1 ! k \<in> set char_list"
    using alpha_loop_ok [OF c(4) t, of 0 "unat cnt" str] n assms(4) by auto
  obtain s2 where z: "zero_loop (mx - unat cnt) (unat cnt) s1 = Inr s2" "length s2 = length str"
    "\<forall>k. k < unat cnt \<or> mx \<le> k \<longrightarrow> s2 ! k = s1 ! k" "\<forall>k. unat cnt \<le> k \<and> k < mx \<longrightarrow> s2 ! k = CHR 0x00"
    using zero_loop_ok [of "unat cnt" "mx - unat cnt" s1] n a(3) assms(4) by auto
  show ?thesis using c(1) n a z by (auto simp: MakeAlphaString_def)
qed

lemma number_loop_ok:
  assumes "rand_ok C g" and "unat thd < unat (g_num_wh C)" and "i + n \<le> length str"
  shows "\<exists>str' g'. number_loop n i str thd g = Inr (str', g') \<and> rand_ok C g' \<and> length str' = length str \<and>
    (\<forall>k. k < i \<or> i + n \<le> k \<longrightarrow> str' ! k = str ! k) \<and> (\<forall>k. i \<le> k \<and> k < i + n \<longrightarrow> is_digit (str' ! k))"
  using assms
proof (induction n arbitrary: i str g)
  case (Suc n)
  obtain r g1 where r: "URand 0 9 thd g = Inr (r, g1)" "r \<le> 9" "rand_ok C g1"
    using URand_drawn [OF Suc.prems(1,2), of 0 9] by auto
  have c: "unat r < 10" using r(2) by (simp add: word_le_nat_alt)
  let ?s = "str[i := digit_char (unat r)]"
  obtain str' g' where s: "number_loop n (Suc i) ?s thd g1 = Inr (str', g')" "rand_ok C g'" "length str' = length str"
    "\<forall>k. k < Suc i \<or> Suc i + n \<le> k \<longrightarrow> str' ! k = ?s ! k" "\<forall>k. Suc i \<le> k \<and> k < Suc i + n \<longrightarrow> is_digit (str' ! k)"
    using Suc.IH [OF r(3) Suc.prems(2), of "Suc i" ?s] Suc.prems(3) by auto
  have "is_digit (str' ! k)" if "i \<le> k" "k < i + Suc n" for k
    using s(4,5) that c Suc.prems(3) by (cases "k = i") auto
  then show ?case using s r(1) Suc.prems(3) by (auto simp: put_char_def)
qed auto

end
