(* ===== verification/Tpcc_Query.thy ===== *)
theory Tpcc_Query
  imports Tpcc_Helper
begin

text \<open>
  The queries of the TPC-C workload (instance/benchmarks/tpcc_query.cpp), with two computations of its transactions
  (instance/txn/tpcc_txn.cpp): the choice of a customer by name and the new quantity of a stock. A query is an object
  whose fields are set by the generator; the array of partitions is the list of the entries written.
\<close>

section \<open>Queries\<close>

datatype TPCCTxnType = TPCC_ALL | TPCC_PAYMENT | TPCC_NEW_ORDER | TPCC_ORDER_STATUS | TPCC_DELIVERY | TPCC_STOCK_LEVEL

record Item_no =
  ol_i_id :: u64
  ol_supply_w_id :: u64
  ol_quantity :: u64

record tpcc_query =
  tq_type :: TPCCTxnType
  tq_w_id :: u64
  tq_d_id :: u64
  tq_c_id :: u64
  tq_d_w_id :: u64
  tq_c_w_id :: u64
  tq_c_d_id :: u64
  tq_c_last :: string
  tq_h_amount :: real
  tq_by_last_name :: bool
  tq_items :: "Item_no list"
  tq_rbk :: bool
  tq_remote :: bool
  tq_ol_cnt :: nat
  tq_o_entry_d :: u64
  part_to_access :: "u64 list"

text \<open>A result that may also not return, followed by the rest of the block.\<close>

definition tbind :: "'a res option \<Rightarrow> ('a \<Rightarrow> 'b res option) \<Rightarrow> 'b res option" where
  "tbind m f = (case m of None \<Rightarrow> None | Some (Inl e) \<Rightarrow> Some (Inl e) | Some (Inr x) \<Rightarrow> f x)"

lemma tbind_simps [simp]: "tbind None f = None" "tbind (Some (Inl e)) f = Some (Inl e)" "tbind (Some (Inr x)) f = f x"
  by (simp_all add: tbind_def)

section \<open>Choices\<close>

text \<open>\<open>FIRST_PART_LOCAL\<close> is true: the thread's own warehouse.\<close>

definition own_warehouse :: "tpcc_settings \<Rightarrow> u64 \<Rightarrow> u64 res" where
  "own_warehouse C thd = (if g_num_wh C = 0 then Inl Div_By_Zero else Inr (thd mod ucast (g_num_wh C) + 1))"

text \<open>The loop that draws until the warehouse is another one.\<close>

partial_function (option) draw_other :: "tpcc_settings \<Rightarrow> u64 \<Rightarrow> tpcc_rand \<Rightarrow> (u64 \<times> tpcc_rand) res option" where
  "draw_other C w g =
     (case URand 1 (ucast (g_num_wh C)) (w - 1) g of
        Inl e \<Rightarrow> Some (Inl e)
      | Inr (v, g1) \<Rightarrow> if v = w then draw_other C w g1 else Some (Inr (v, g1)))"

text \<open>An entry of the array of \<open>g_part_cnt\<close> partitions.\<close>

definition push_part :: "tpcc_settings \<Rightarrow> u64 \<Rightarrow> u64 list \<Rightarrow> u64 list res" where
  "push_part C p ps = (if length ps < g_part_cnt C then Inr (ps @ [p]) else Inl Out_Of_Bounds)"

text \<open>By last name in 60 of 100 cases, else by number.\<close>

definition choose_customer :: "tpcc_settings \<Rightarrow> u64 \<Rightarrow> u64 \<Rightarrow> tpcc_query \<Rightarrow> tpcc_rand \<Rightarrow> (tpcc_query \<times> tpcc_rand) res" where
  "choose_customer C w y q g =
     (if y \<le> 60
      then rbind (NURand 255 0 999 (w - 1) g) (\<lambda>(n, g1).
           rbind (Lastname LASTNAME_LEN n) (\<lambda>(_, name).
           Inr (q\<lparr>tq_by_last_name := True, tq_c_last := name\<rparr>, g1)))
      else rbind (NURand 1023 1 (ucast (g_cust_per_dist C)) (w - 1) g) (\<lambda>(c, g1).
           Inr (q\<lparr>tq_by_last_name := False, tq_c_id := c\<rparr>, g1)))"

section \<open>Payment\<close>

definition payment_place :: "tpcc_settings \<Rightarrow> u64 \<Rightarrow> u64 \<Rightarrow> u64 \<Rightarrow> u64 list \<Rightarrow> tpcc_rand \<Rightarrow> (u64 \<times> u64 \<times> u64 list \<times> tpcc_rand) res option" where
  "payment_place C x w d ps g =
     (if x \<le> 85 then Some (Inr (d, w, ps, g))
      else tbind (Some (URand 1 DIST_PER_WARE (w - 1) g)) (\<lambda>(cd, g1).
           if g_num_wh C > 1
           then tbind (draw_other C w g1) (\<lambda>(cw, g2).
                tbind (Some (wh_to_part C w)) (\<lambda>p.
                tbind (Some (wh_to_part C cw)) (\<lambda>cp.
                if p \<noteq> cp then tbind (Some (push_part C cp ps)) (\<lambda>ps1. Some (Inr (cd, cw, ps1, g2)))
                else Some (Inr (cd, cw, ps, g2)))))
           else Some (Inr (cd, w, ps, g1))))"

definition gen_payment :: "tpcc_settings \<Rightarrow> u64 \<Rightarrow> tpcc_query \<Rightarrow> tpcc_rand \<Rightarrow> (tpcc_query \<times> tpcc_rand) res option" where
  "gen_payment C thd q g =
     tbind (Some (own_warehouse C thd)) (\<lambda>w.
     tbind (Some (wh_to_part C w)) (\<lambda>p.
     tbind (Some (push_part C p [])) (\<lambda>ps.
     tbind (Some (URand 1 DIST_PER_WARE (w - 1) g)) (\<lambda>(d, g1).
     tbind (Some (URand 1 5000 (w - 1) g1)) (\<lambda>(amount, g2).
     tbind (Some (URand 1 100 (w - 1) g2)) (\<lambda>(x, g3).
     tbind (Some (URand 1 100 (w - 1) g3)) (\<lambda>(y, g4).
     tbind (payment_place C x w d ps g4) (\<lambda>(cd, cw, ps1, g5).
     Some (choose_customer C w y
       (q\<lparr>tq_type := TPCC_PAYMENT, tq_w_id := w, tq_d_w_id := w, tq_d_id := d, tq_h_amount := real (unat amount),
          tq_c_d_id := cd, tq_c_w_id := cw, part_to_access := ps1\<rparr>) g5)))))))))"

section \<open>New order\<close>

text \<open>The items: one remote in a hundred.\<close>

fun gen_items :: "tpcc_settings \<Rightarrow> u64 \<Rightarrow> nat \<Rightarrow> tpcc_rand \<Rightarrow> (Item_no list \<times> bool \<times> tpcc_rand) res option" where
  "gen_items C w 0 g = Some (Inr ([], False, g))"
| "gen_items C w (Suc n) g =
     tbind (Some (NURand 8191 1 (ucast (g_max_items C)) (w - 1) g)) (\<lambda>(i, g1).
     tbind (Some (URand 1 100 (w - 1) g1)) (\<lambda>(x, g2).
     tbind (if x > 1 \<or> g_num_wh C = 1 then Some (Inr (w, g2)) else draw_other C w g2) (\<lambda>(s, g3).
     tbind (Some (URand 1 10 (w - 1) g3)) (\<lambda>(k, g4).
     tbind (gen_items C w n g4) (\<lambda>(its, r, g5).
     Some (Inr (\<lparr>ol_i_id = i, ol_supply_w_id = s, ol_quantity = k\<rparr> # its, \<not> (x > 1 \<or> g_num_wh C = 1) \<or> r, g5)))))))"

definition item_at :: "Item_no list \<Rightarrow> nat \<Rightarrow> Item_no res" where
  "item_at its k = (if k < length its then Inr (its ! k) else Inl Out_Of_Bounds)"

text \<open>\<open>n\<close> items from \<open>k\<close> on move down by one.\<close>

fun shift_items :: "nat \<Rightarrow> nat \<Rightarrow> Item_no list \<Rightarrow> Item_no list res" where
  "shift_items 0 k its = Inr its"
| "shift_items (Suc n) k its = rbind (item_at its (Suc k)) (\<lambda>x. shift_items n (Suc k) (its[k := x]))"

text \<open>The inner loop compares the item with those before it and removes it; both the number of items and \<open>i\<close> drop.\<close>

function dup_inner :: "Item_no list \<Rightarrow> nat \<Rightarrow> nat \<Rightarrow> nat \<Rightarrow> (Item_no list \<times> nat \<times> nat) res" where
  "dup_inner its cnt i j =
     (if j < i
      then rbind (item_at its i) (\<lambda>a. rbind (item_at its j) (\<lambda>b.
           if ol_i_id a = ol_i_id b
           then rbind (shift_items (cnt - 1 - i) i its) (\<lambda>its1. dup_inner its1 (cnt - 1) (i - 1) (Suc j))
           else dup_inner its cnt i (Suc j)))
      else Inr (its, cnt, i))"
  by pat_completeness auto
termination
  by (relation "measure (\<lambda>(its, cnt, i, j). i - j)") auto

declare dup_inner.simps [simp del]

text \<open>The distance to the end of the array is kept.\<close>

lemma dup_inner_distance:
  "dup_inner its cnt i j = Inr (its1, cnt1, i1) \<Longrightarrow> i < cnt \<Longrightarrow> i1 < cnt1 \<and> cnt1 - i1 = cnt - i"
proof (induction its cnt i j rule: dup_inner.induct)
  case (1 its cnt i j)
  show ?case
  proof (cases "j < i")
    case True
    then obtain a b where ab: "item_at its i = Inr a" "item_at its j = Inr b"
      using "1.prems"(1) by (subst (asm) dup_inner.simps) (auto simp: rbind_Inr_iff)
    show ?thesis
    proof (cases "ol_i_id a = ol_i_id b")
      case eq: True
      then obtain its2 where "shift_items (cnt - 1 - i) i its = Inr its2" "dup_inner its2 (cnt - 1) (i - 1) (Suc j) = Inr (its1, cnt1, i1)"
        using "1.prems"(1) True ab by (subst (asm) dup_inner.simps) (auto simp: rbind_Inr_iff)
      then show ?thesis using "1.IH"(1) [OF True ab eq] "1.prems"(2) True by fastforce
    next
      case False
      then have "dup_inner its cnt i (Suc j) = Inr (its1, cnt1, i1)"
        using "1.prems"(1) True ab by (subst (asm) dup_inner.simps) (auto simp: rbind_Inr_iff)
      then show ?thesis using "1.IH"(2) [OF True ab False] "1.prems"(2) by blast
    qed
  next
    case False
    then show ?thesis using "1.prems" by (subst (asm) dup_inner.simps) simp
  qed
qed

function dup_outer :: "Item_no list \<Rightarrow> nat \<Rightarrow> nat \<Rightarrow> (Item_no list \<times> nat) res" where
  "dup_outer its cnt i =
     (if i < cnt then rbind (dup_inner its cnt i 0) (\<lambda>(its1, cnt1, i1). dup_outer its1 cnt1 (Suc i1))
      else Inr (its, cnt))"
  by pat_completeness auto
termination
  by (relation "measure (\<lambda>(its, cnt, i). cnt - i)") (auto dest: dup_inner_distance)

declare dup_outer.simps [simp del]

text \<open>The assertion after the loops.\<close>

definition items_differ :: "Item_no list \<Rightarrow> nat \<Rightarrow> bool" where
  "items_differ its cnt \<longleftrightarrow> list_all (\<lambda>i. list_all (\<lambda>j. ol_i_id (its ! i) \<noteq> ol_i_id (its ! j)) [0..<i]) [0..<cnt]"

fun add_parts :: "tpcc_settings \<Rightarrow> Item_no list \<Rightarrow> u64 list \<Rightarrow> u64 list res" where
  "add_parts C [] ps = Inr ps"
| "add_parts C (it # its) ps =
     rbind (wh_to_part C (ol_supply_w_id it)) (\<lambda>p.
     rbind (if p \<in> set ps then Inr ps else push_part C p ps) (add_parts C its))"

definition gen_new_order :: "tpcc_settings \<Rightarrow> u64 \<Rightarrow> tpcc_query \<Rightarrow> tpcc_rand \<Rightarrow> (tpcc_query \<times> tpcc_rand) res option" where
  "gen_new_order C thd q g =
     tbind (Some (own_warehouse C thd)) (\<lambda>w.
     tbind (Some (URand 1 DIST_PER_WARE (w - 1) g)) (\<lambda>(d, g1).
     tbind (Some (NURand 1023 1 (ucast (g_cust_per_dist C)) (w - 1) g1)) (\<lambda>(c, g2).
     tbind (Some (URand 1 100 (w - 1) g2)) (\<lambda>(r, g3).
     tbind (Some (URand 5 15 (w - 1) g3)) (\<lambda>(n, g4).
     tbind (Some (wh_to_part C w)) (\<lambda>p.
     tbind (Some (push_part C p [])) (\<lambda>ps.
     tbind (gen_items C w (unat n) g4) (\<lambda>(its, rem, g5).
     tbind (Some (dup_outer its (unat n) 0)) (\<lambda>(its1, cnt).
     tbind (Some (asserting (items_differ its1 cnt) (add_parts C (take cnt its1) ps))) (\<lambda>ps1.
     Some (Inr (q\<lparr>tq_type := TPCC_NEW_ORDER, tq_w_id := w, tq_d_id := d, tq_c_id := c, tq_rbk := r \<noteq> 0, tq_ol_cnt := cnt,
                  tq_o_entry_d := 2013, tq_items := its1, tq_remote := rem, part_to_access := ps1\<rparr>, g5))))))))))))"

definition gen_order_status :: "tpcc_settings \<Rightarrow> u64 \<Rightarrow> tpcc_query \<Rightarrow> tpcc_rand \<Rightarrow> (tpcc_query \<times> tpcc_rand) res" where
  "gen_order_status C thd q g =
     rbind (own_warehouse C thd) (\<lambda>w.
     rbind (URand 1 DIST_PER_WARE (w - 1) g) (\<lambda>(d, g1).
     rbind (URand 1 100 (w - 1) g1) (\<lambda>(y, g2).
     choose_customer C w y (q\<lparr>tq_type := TPCC_ORDER_STATUS, tq_w_id := w, tq_d_id := d, tq_c_w_id := w, tq_c_d_id := d\<rparr>) g2)))"

text \<open>\<open>r\<close> is what \<open>rand\<close> returns.\<close>

definition tpcc_query_init :: "tpcc_settings \<Rightarrow> nat \<Rightarrow> u64 \<Rightarrow> tpcc_query \<Rightarrow> tpcc_rand \<Rightarrow> (tpcc_query \<times> tpcc_rand) res option" where
  "tpcc_query_init C r thd q g =
     (if real (r mod 100) / 100 < g_perc_payment C then gen_payment C thd q g else gen_new_order C thd q g)"

section \<open>Computations of the transactions\<close>

text \<open>The middle one of the customers with a name: \<open>it\<close> runs through the list, \<open>mid\<close> at half the speed.\<close>

fun middle_loop :: "nat \<Rightarrow> 'a list \<Rightarrow> 'a list \<Rightarrow> 'a res" where
  "middle_loop cnt [] mid = (case mid of [] \<Rightarrow> Inl Bad_Deref | m # _ \<Rightarrow> Inr m)"
| "middle_loop cnt (_ # it) mid =
     (if Suc cnt mod 2 = 0
      then (case mid of [] \<Rightarrow> Inl Bad_Deref | _ # m \<Rightarrow> middle_loop (Suc cnt) it m)
      else middle_loop (Suc cnt) it mid)"

definition middle_customer :: "'a list \<Rightarrow> 'a res" where
  "middle_customer xs = asserting (xs \<noteq> []) (middle_loop 0 xs xs)"

definition new_quantity :: "u64 \<Rightarrow> u64 \<Rightarrow> u64" where
  "new_quantity s_quantity quantity = (if s_quantity > quantity + 10 then s_quantity - quantity else s_quantity - quantity + 91)"

end
