(* ===== verification/Tpcc_Props.thy ===== *)
theory Tpcc_Props
  imports Tpcc_Query
begin

text \<open>
  Properties of the TPC-C queries: the loop that draws another warehouse ends, by the period of the generator; the
  removal of duplicate items leaves the first item of every number; every query generated is well-formed.
\<close>

section \<open>Another warehouse\<close>

definition wh_ok :: "tpcc_settings \<Rightarrow> u64 \<Rightarrow> bool" where
  "wh_ok C v \<longleftrightarrow> 1 \<le> unat v \<and> unat v \<le> unat (g_num_wh C)"

lemma wh_index: "wh_ok C w \<Longrightarrow> unat (w - 1) < unat (g_num_wh C)"
  by (simp add: wh_ok_def unat_sub word_le_nat_alt del: One_nat_def) linarith

lemma u32_less_max: "(ucast (x :: u32) :: u64) < - 1"
proof -
  have "unat x < 2 ^ 32" using unsigned_less [of x] by simp
  then show ?thesis by (simp add: word_less_nat_alt unsigned_minus_1_eq_mask mask_eq_exp_minus_1)
qed

lemma draw_wh:
  assumes g: "rand_ok C g" and w: "wh_ok C w"
  obtains v g' where "URand 1 (ucast (g_num_wh C)) (w - 1) g = Inr (v, g')" and "wh_ok C v" and "rand_ok C g'"
    and "unat v = 1 + drawn (step48 (tpcc_buffer g ! unat (w - 1))) mod unat (g_num_wh C)"
    and "tpcc_buffer g' ! unat (w - 1) = step48 (tpcc_buffer g ! unat (w - 1))"
proof -
  have n: "1 \<le> unat (g_num_wh C)" using w by (simp add: wh_ok_def)
  then have le: "1 \<le> (ucast (g_num_wh C) :: u64)" by (simp add: word_le_nat_alt)
  from URand_drawn [OF g wh_index [OF w] le u32_less_max] obtain v g' where
    r: "URand 1 (ucast (g_num_wh C)) (w - 1) g = Inr (v, g')" "1 \<le> v" "v \<le> ucast (g_num_wh C)" "rand_ok C g'"
      "unat v = 1 + drawn (step48 (tpcc_buffer g ! unat (w - 1))) mod (unat (g_num_wh C) - 1 + 1)"
      "tpcc_buffer g' = (tpcc_buffer g)[unat (w - 1) := step48 (tpcc_buffer g ! unat (w - 1))]" by auto
  show ?thesis
  proof (rule that [OF r(1) _ r(4)])
    show "wh_ok C v" using r(2,3) by (simp add: wh_ok_def word_le_nat_alt)
    show "unat v = 1 + drawn (step48 (tpcc_buffer g ! unat (w - 1))) mod unat (g_num_wh C)" using r(5) n by simp
    show "tpcc_buffer g' ! unat (w - 1) = step48 (tpcc_buffer g ! unat (w - 1))"
      using r(6) g wh_index [OF w] by (simp add: rand_ok_def)
  qed
qed

text \<open>The loop returns when some later draw gives another warehouse.\<close>

lemma draw_other_steps:
  assumes "rand_ok C g" and w: "wh_ok C w"
    and "1 + drawn ((step48 ^^ Suc n) (tpcc_buffer g ! unat (w - 1))) mod unat (g_num_wh C) \<noteq> unat w"
  shows "\<exists>v g'. draw_other C w g = Some (Inr (v, g')) \<and> v \<noteq> w \<and> wh_ok C v \<and> rand_ok C g'"
  using assms(1,3)
proof (induction n arbitrary: g)
  case 0
  obtain v g' where v: "URand 1 (ucast (g_num_wh C)) (w - 1) g = Inr (v, g')" "wh_ok C v" "rand_ok C g'"
    "unat v = 1 + drawn (step48 (tpcc_buffer g ! unat (w - 1))) mod unat (g_num_wh C)" by (rule draw_wh [OF 0(1) w])
  then have "v \<noteq> w" using 0(2) by auto
  then show ?case using v by (subst draw_other.simps) simp
next
  case (Suc n)
  obtain v g' where v: "URand 1 (ucast (g_num_wh C)) (w - 1) g = Inr (v, g')" "wh_ok C v" "rand_ok C g'"
    "tpcc_buffer g' ! unat (w - 1) = step48 (tpcc_buffer g ! unat (w - 1))" by (rule draw_wh [OF Suc.prems(1) w])
  show ?case
  proof (cases "v = w")
    case True
    have "1 + drawn ((step48 ^^ Suc n) (tpcc_buffer g' ! unat (w - 1))) mod unat (g_num_wh C) \<noteq> unat w"
      using Suc.prems(2) v(4) by (simp only: funpow_Suc_right o_apply) (simp add: funpow_swap1)
    from Suc.IH [OF v(3) this] show ?thesis using True v(1) by (subst draw_other.simps) simp
  next
    case False
    then show ?thesis using v by (subst draw_other.simps) simp
  qed
qed

lemma draw_other_returns:
  assumes "rand_ok C g" and w: "wh_ok C w" and "2 \<le> unat (g_num_wh C)"
  shows "\<exists>v g'. draw_other C w g = Some (Inr (v, g')) \<and> v \<noteq> w \<and> wh_ok C v \<and> rand_ok C g'"
proof -
  let ?s = "step48 (tpcc_buffer g ! unat (w - 1))"
  obtain n where "drawn ((step48 ^^ n) ?s) mod unat (g_num_wh C) \<noteq> drawn ?s mod unat (g_num_wh C)"
    using other_draw [OF assms(3)] by blast
  then have "\<exists>m. 1 + drawn ((step48 ^^ m) ?s) mod unat (g_num_wh C) \<noteq> unat w" by (metis funpow_0 add_left_cancel)
  then obtain m where "1 + drawn ((step48 ^^ m) ?s) mod unat (g_num_wh C) \<noteq> unat w" by blast
  then have "1 + drawn ((step48 ^^ Suc m) (tpcc_buffer g ! unat (w - 1))) mod unat (g_num_wh C) \<noteq> unat w"
    by (simp add: funpow_swap1)
  from draw_other_steps [OF assms(1,2) this] show ?thesis .
qed

section \<open>Duplicates\<close>

text \<open>The reference: the first item of every number, in order.\<close>

fun keep_first :: "u64 list \<Rightarrow> Item_no list \<Rightarrow> Item_no list" where
  "keep_first seen [] = []"
| "keep_first seen (it # its) =
     (if ol_i_id it \<in> set seen then keep_first seen its else it # keep_first (seen @ [ol_i_id it]) its)"

lemma keep_first_ids: "distinct seen \<Longrightarrow> distinct (seen @ map ol_i_id (keep_first seen its))"
proof (induction its arbitrary: seen)
  case (Cons it its)
  show ?case
  proof (cases "ol_i_id it \<in> set seen")
    case False
    then have "distinct ((seen @ [ol_i_id it]) @ map ol_i_id (keep_first (seen @ [ol_i_id it]) its))" using Cons by (intro Cons.IH) simp
    then show ?thesis using False by simp
  qed (use Cons in simp)
qed simp

lemma keep_first_sub: "set (keep_first seen its) \<subseteq> set its \<and> length (keep_first seen its) \<le> length its"
proof (induction its arbitrary: seen)
  case (Cons it its)
  then show ?case using Cons.IH [of seen] Cons.IH [of "seen @ [ol_i_id it]"] by (auto intro: le_SucI)
qed simp

lemma shift_ok:
  "k + n < length its \<Longrightarrow>
   \<exists>its1. shift_items n k its = Inr its1 \<and> length its1 = length its \<and> take (k + n) its1 = take k its @ take n (drop (Suc k) its)"
proof (induction n arbitrary: k its)
  case (Suc n)
  let ?its = "its[k := its ! Suc k]"
  from Suc.IH [of "Suc k" ?its] Suc.prems obtain its1 where
    r: "shift_items n (Suc k) ?its = Inr its1" "length its1 = length its"
      "take (Suc k + n) its1 = take (Suc k) ?its @ take n (drop (Suc (Suc k)) ?its)" by auto
  have "take (Suc k) ?its = take k its @ [its ! Suc k]" using Suc.prems by (simp add: take_Suc_conv_app_nth)
  moreover have "drop (Suc k) its = its ! Suc k # drop (Suc (Suc k)) its" using Suc.prems by (simp add: Cons_nth_drop_Suc)
  ultimately have "take (k + Suc n) its1 = take k its @ take (Suc n) (drop (Suc k) its)" using r(3) by simp
  then show ?case using r Suc.prems by (simp add: item_at_def)
qed simp

lemma dup_inner_fresh:
  assumes "i < length its" and "\<And>k. k < i \<Longrightarrow> ol_i_id (its ! k) \<noteq> ol_i_id (its ! i)"
  shows "dup_inner its cnt i j = Inr (its, cnt, i)"
proof (induction "i - j" arbitrary: j)
  case 0
  then show ?case by (subst dup_inner.simps) simp
next
  case (Suc n)
  then have "j < i" by simp
  moreover have "dup_inner its cnt i (Suc j) = Inr (its, cnt, i)" using Suc by simp
  ultimately show ?case using assms by (subst dup_inner.simps) (fastforce simp: item_at_def)
qed

lemma dup_inner_dup:
  assumes i: "i < cnt" "cnt \<le> length its" and d: "distinct (map ol_i_id (take i its))"
    and m: "m < i" "ol_i_id (its ! m) = ol_i_id (its ! i)"
    and s: "shift_items (cnt - 1 - i) i its = Inr its1" "length its1 = length its" "take i its1 = take i its"
  shows "j \<le> m \<Longrightarrow> dup_inner its cnt i j = Inr (its1, cnt - 1, i - 1)"
proof (induction "m - j" arbitrary: j)
  have nd: "ol_i_id (its ! a) \<noteq> ol_i_id (its ! b)" if "a < i" "b < i" "a \<noteq> b" for a b
    using d that i by (auto simp: distinct_conv_nth)
  case 0
  have same: "its1 ! k = its ! k" if "k < i" for k using s(3) that by (metis nth_take)
  have "dup_inner its1 (cnt - 1) (i - 1) (Suc j) = Inr (its1, cnt - 1, i - 1)"
    by (rule dup_inner_fresh) (use i s(2) nd m(1) same in auto)
  then show ?case using 0 m i s(1) by (subst dup_inner.simps) (simp add: item_at_def)
next
  case (Suc n)
  have nd: "ol_i_id (its ! a) \<noteq> ol_i_id (its ! b)" if "a < i" "b < i" "a \<noteq> b" for a b
    using d that i by (auto simp: distinct_conv_nth)
  have "j < m" using Suc by simp
  then have "ol_i_id (its ! i) \<noteq> ol_i_id (its ! j)" using nd [of m j] m by auto
  moreover have "dup_inner its cnt i (Suc j) = Inr (its1, cnt - 1, i - 1)" using Suc by simp
  ultimately show ?case using \<open>j < m\<close> m i by (subst dup_inner.simps) (simp add: item_at_def)
qed

lemma dup_outer_keeps:
  "distinct (map ol_i_id (take i its)) \<Longrightarrow> i \<le> cnt \<Longrightarrow> cnt \<le> length its \<Longrightarrow>
   \<exists>its1 cnt1. dup_outer its cnt i = Inr (its1, cnt1) \<and> cnt1 \<le> length its1 \<and>
     take cnt1 its1 = take i its @ keep_first (map ol_i_id (take i its)) (drop i (take cnt its))"
proof (induction "cnt - i" arbitrary: its cnt i)
  case 0
  then show ?case by (subst dup_outer.simps) simp
next
  case (Suc n)
  then have i: "i < cnt" "i < length its" by simp_all
  have dr: "drop i (take cnt its) = its ! i # drop (Suc i) (take cnt its)" using i Suc.prems(3) by (metis Cons_nth_drop_Suc length_take min.absorb2 nth_take)
  show ?case
  proof (cases "ol_i_id (its ! i) \<in> ol_i_id ` set (take i its)")
    case True
    then obtain m where m: "m < i" "ol_i_id (its ! m) = ol_i_id (its ! i)" using i by (auto simp: in_set_conv_nth)
    obtain its1 where s: "shift_items (cnt - 1 - i) i its = Inr its1" "length its1 = length its"
      "take (i + (cnt - 1 - i)) its1 = take i its @ take (cnt - 1 - i) (drop (Suc i) its)"
      using shift_ok [of i "cnt - 1 - i" its] i Suc.prems(3) by fastforce
    have t: "take (cnt - 1) its1 = take i its @ drop (Suc i) (take cnt its)" using s(3) i by (simp add: drop_take)
    then have "take i (take (cnt - 1) its1) = take i its" using i by simp
    then have ti: "take i its1 = take i its" using i by (simp add: min_def split: if_splits)
    have di: "drop i (take (cnt - 1) its1) = drop (Suc i) (take cnt its)" using t i by simp
    have inner: "dup_inner its cnt i 0 = Inr (its1, cnt - 1, i - 1)"
      by (rule dup_inner_dup [OF i(1) Suc.prems(3) Suc.prems(1) m s(1,2) ti]) simp
    have "n = cnt - 1 - i" "distinct (map ol_i_id (take i its1))" "i \<le> cnt - 1" "cnt - 1 \<le> length its1"
      using Suc.hyps(2) Suc.prems i ti s(2) by simp_all
    from Suc.hyps(1) [OF this] obtain its2 cnt2 where
      "dup_outer its1 (cnt - 1) i = Inr (its2, cnt2)" "cnt2 \<le> length its2"
      "take cnt2 its2 = take i its @ keep_first (map ol_i_id (take i its)) (drop (Suc i) (take cnt its))"
      unfolding ti di by blast
    then show ?thesis using inner i m(1) True by (subst dup_outer.simps) (simp add: dr)
  next
    case False
    have "ol_i_id (its ! k) \<noteq> ol_i_id (its ! i)" if "k < i" for k
    proof -
      have "take i its ! k \<in> set (take i its)" by (rule nth_mem) (use that i in simp)
      then show ?thesis using False that by (metis nth_take image_eqI)
    qed
    then have inner: "dup_inner its cnt i 0 = Inr (its, cnt, i)" by (intro dup_inner_fresh i)
    have tk: "take (Suc i) its = take i its @ [its ! i]" using i by (simp add: take_Suc_conv_app_nth)
    have "n = cnt - Suc i" "distinct (map ol_i_id (take (Suc i) its))" "Suc i \<le> cnt" using Suc.hyps(2) Suc.prems(1) i False tk by simp_all
    from Suc.hyps(1) [OF this Suc.prems(3)] obtain its2 cnt2 where
      "dup_outer its cnt (Suc i) = Inr (its2, cnt2)" "cnt2 \<le> length its2"
      "take cnt2 its2 = take (Suc i) its @ keep_first (map ol_i_id (take (Suc i) its)) (drop (Suc i) (take cnt its))" by blast
    then show ?thesis using inner tk i False by (subst dup_outer.simps) (simp add: dr)
  qed
qed

text \<open>
  C39: the loops of \<open>gen_new_order\<close> that remove duplicate items in place, which lower the bound of both loops while they
  run, leave exactly the first item of every number in the order of the items, and the assertion after them holds.
\<close>

theorem duplicates_removed:
  "\<exists>its1 cnt. dup_outer its (length its) 0 = Inr (its1, cnt) \<and> cnt \<le> length its1 \<and>
     take cnt its1 = keep_first [] its \<and> items_differ its1 cnt"
proof -
  obtain its1 cnt where r: "dup_outer its (length its) 0 = Inr (its1, cnt)" "cnt \<le> length its1" "take cnt its1 = keep_first [] its"
    using dup_outer_keeps [of 0 its "length its"] by auto
  have "distinct (map ol_i_id (take cnt its1))" using keep_first_ids [of "[]" its] r(3) by simp
  then have "items_differ its1 cnt" using r(2) by (auto simp: items_differ_def list_all_iff distinct_conv_nth)
  with r show ?thesis by blast
qed

section \<open>Well-formed queries\<close>

definition tpcc_ok :: "tpcc_settings \<Rightarrow> bool" where
  "tpcc_ok C \<longleftrightarrow> 0 < g_part_cnt C \<and> g_part_cnt C \<le> unat (g_num_wh C) \<and> 1 \<le> unat (g_cust_per_dist C) \<and> 1 \<le> unat (g_max_items C)"

definition part_of :: "tpcc_settings \<Rightarrow> u64 \<Rightarrow> u64" where
  "part_of C v = v mod of_nat (g_part_cnt C)"

definition parts_ok :: "tpcc_settings \<Rightarrow> u64 list \<Rightarrow> bool" where
  "parts_ok C ps \<longleftrightarrow> distinct ps \<and> (\<forall>p \<in> set ps. unat p < g_part_cnt C)"

definition between :: "u64 \<Rightarrow> nat \<Rightarrow> bool" where
  "between v n \<longleftrightarrow> 1 \<le> unat v \<and> unat v \<le> n"

definition item_ok :: "tpcc_settings \<Rightarrow> Item_no \<Rightarrow> bool" where
  "item_ok C it \<longleftrightarrow> between (ol_i_id it) (unat (g_max_items C)) \<and> wh_ok C (ol_supply_w_id it) \<and> between (ol_quantity it) 10"

definition customer_ok :: "tpcc_settings \<Rightarrow> tpcc_query \<Rightarrow> bool" where
  "customer_ok C q \<longleftrightarrow> (if tq_by_last_name q then \<exists>n < 1000. tq_c_last q = name_of n else between (tq_c_id q) (unat (g_cust_per_dist C)))"

text \<open>A query of each of the two kinds: numbers in range, the customer exists, the items differ, and the partitions are those of its warehouses.\<close>

definition payment_ok :: "tpcc_settings \<Rightarrow> tpcc_query \<Rightarrow> bool" where
  "payment_ok C q \<longleftrightarrow> wh_ok C (tq_c_w_id q) \<and> between (tq_c_d_id q) 10 \<and> customer_ok C q \<and>
     set (part_to_access q) = part_of C ` {tq_w_id q, tq_c_w_id q}"

definition new_order_ok :: "tpcc_settings \<Rightarrow> tpcc_query \<Rightarrow> bool" where
  "new_order_ok C q \<longleftrightarrow> (let its = take (tq_ol_cnt q) (tq_items q) in
     between (tq_c_id q) (unat (g_cust_per_dist C)) \<and> 1 \<le> tq_ol_cnt q \<and> tq_ol_cnt q \<le> 15 \<and> length its = tq_ol_cnt q \<and>
     distinct (map ol_i_id its) \<and> list_all (item_ok C) its \<and>
     set (part_to_access q) = part_of C ` insert (tq_w_id q) (ol_supply_w_id ` set its))"

definition query_ok :: "tpcc_settings \<Rightarrow> tpcc_query \<Rightarrow> bool" where
  "query_ok C q \<longleftrightarrow> wh_ok C (tq_w_id q) \<and> between (tq_d_id q) 10 \<and> parts_ok C (part_to_access q) \<and>
     (tq_type q = TPCC_PAYMENT \<and> payment_ok C q \<or> tq_type q = TPCC_NEW_ORDER \<and> new_order_ok C q)"

lemma wh_to_part_ok: "tpcc_ok C \<Longrightarrow> wh_to_part C v = Inr (part_of C v)"
  by (simp add: wh_to_part_def tpcc_ok_def part_of_def)

lemma part_of_less:
  assumes "tpcc_ok C"
  shows "unat (part_of C v) < g_part_cnt C"
proof -
  have "unat (g_num_wh C) < 2 ^ 32" using unsigned_less [of "g_num_wh C"] by simp
  then have "g_part_cnt C < 2 ^ 32" using assms by (simp add: tpcc_ok_def)
  then have "unat (of_nat (g_part_cnt C) :: u64) = g_part_cnt C" by (intro unat_of_nat_u64) simp
  then show ?thesis using assms by (simp add: part_of_def unat_mod tpcc_ok_def)
qed

lemma push_part_ok:
  assumes "parts_ok C ps" and "p \<notin> set ps" and "unat p < g_part_cnt C"
  shows "push_part C p ps = Inr (ps @ [p])" and "parts_ok C (ps @ [p])"
proof -
  have "distinct (map unat (ps @ [p]))" using assms(1,2) by (auto simp: parts_ok_def distinct_map inj_on_def dest: word_unat_eq_iff [THEN iffD2])
  then have "length (map unat (ps @ [p])) = card (set (map unat (ps @ [p])))" by (simp only: distinct_card)
  also have "\<dots> \<le> card {..<g_part_cnt C}" using assms by (intro card_mono) (auto simp: parts_ok_def)
  finally show "push_part C p ps = Inr (ps @ [p])" by (simp add: push_part_def)
  show "parts_ok C (ps @ [p])" using assms by (auto simp: parts_ok_def)
qed

lemma add_parts_ok:
  assumes "tpcc_ok C" and "parts_ok C ps"
  shows "\<exists>ps1. add_parts C its ps = Inr ps1 \<and> parts_ok C ps1 \<and> set ps1 = set ps \<union> part_of C ` ol_supply_w_id ` set its"
  using assms(2)
proof (induction its arbitrary: ps)
  case (Cons it its)
  let ?p = "part_of C (ol_supply_w_id it)"
  show ?case
  proof (cases "?p \<in> set ps")
    case True
    then show ?thesis using Cons.IH [OF Cons.prems] by (auto simp: wh_to_part_ok [OF assms(1)])
  next
    case False
    note p = push_part_ok [OF Cons.prems False part_of_less [OF assms(1)]]
    show ?thesis using Cons.IH [OF p(2)] False p(1) by (auto simp: wh_to_part_ok [OF assms(1)])
  qed
qed simp

lemma URand_between:
  assumes "rand_ok C g" and "wh_ok C w" and "1 \<le> n" and "n < - 1"
  obtains v g' where "URand 1 n (w - 1) g = Inr (v, g')" and "between v (unat n)" and "rand_ok C g'"
  using URand_drawn [OF assms(1) wh_index [OF assms(2)] assms(3,4)] by (auto simp: between_def word_le_nat_alt)

lemma NURand_between:
  assumes "rand_ok C g" and "wh_ok C w" and "A \<in> {255, 1023, 8191}" and "1 \<le> unat (n :: u32)"
  obtains v g' where "NURand A 1 (ucast n) (w - 1) g = Inr (v, g')" and "between v (unat n)" and "rand_ok C g'"
proof -
  have "1 \<le> (ucast n :: u64)" using assms(4) by (simp add: word_le_nat_alt)
  from NURand_ok [OF assms(1) wh_index [OF assms(2)] assms(3) this u32_less_max] obtain v g' where
    "NURand A 1 (ucast n) (w - 1) g = Inr (v, g')" "1 \<le> v" "v \<le> ucast n" "rand_ok C g'" by blast
  then show ?thesis by (intro that) (simp_all add: between_def word_le_nat_alt)
qed

lemma own_warehouse_ok:
  assumes "tpcc_ok C"
  obtains w where "own_warehouse C thd = Inr w" and "wh_ok C w"
proof -
  let ?n = "ucast (g_num_wh C) :: u64"
  have n: "0 < unat (g_num_wh C)" "unat (g_num_wh C) < 2 ^ 32" using assms unsigned_less [of "g_num_wh C"] by (simp_all add: tpcc_ok_def)
  then have "unat (thd mod ?n) < unat (g_num_wh C)" by (simp add: unat_mod)
  then have "wh_ok C (thd mod ?n + 1)" using n(2) by (simp add: wh_ok_def unat_word_ariths)
  moreover have "own_warehouse C thd = Inr (thd mod ?n + 1)" using n(1) by (auto simp: own_warehouse_def)
  ultimately show ?thesis by (rule that [rotated])
qed

lemma choose_customer_ok:
  assumes "tpcc_ok C" and "rand_ok C g" and "wh_ok C w"
  shows "\<exists>q1 g1. choose_customer C w y q g = Inr (q1, g1) \<and> rand_ok C g1 \<and> customer_ok C q1 \<and>
    tq_type q1 = tq_type q \<and> tq_w_id q1 = tq_w_id q \<and> tq_d_id q1 = tq_d_id q \<and> tq_c_w_id q1 = tq_c_w_id q \<and>
    tq_c_d_id q1 = tq_c_d_id q \<and> part_to_access q1 = part_to_access q"
proof (cases "y \<le> 60")
  case True
  have "(0 :: u64) \<le> 999" "(999 :: u64) < - 1" by simp_all
  from NURand_ok [OF assms(2) wh_index [OF assms(3)] _ this, of 255] obtain n g1 where
    n: "NURand 255 0 999 (w - 1) g = Inr (n, g1)" "n \<le> 999" "rand_ok C g1" by blast
  have "unat n < 1000" using n(2) by (simp add: word_le_nat_alt)
  with n True show ?thesis by (auto simp: choose_customer_def Lastname_ok customer_ok_def)
next
  case False
  have "1 \<le> unat (g_cust_per_dist C)" using assms(1) by (simp add: tpcc_ok_def)
  from NURand_between [OF assms(2,3) _ this, of 1023] obtain c g1 where
    "NURand 1023 1 (ucast (g_cust_per_dist C)) (w - 1) g = Inr (c, g1)" "between c (unat (g_cust_per_dist C))" "rand_ok C g1" by blast
  with False show ?thesis by (simp add: choose_customer_def customer_ok_def)
qed

lemma payment_place_ok:
  assumes "tpcc_ok C" and "rand_ok C g" and "wh_ok C w" and "between d 10" and "ps = [part_of C w]"
  shows "\<exists>cd cw ps1 g1. payment_place C x w d ps g = Some (Inr (cd, cw, ps1, g1)) \<and> rand_ok C g1 \<and> between cd 10 \<and> wh_ok C cw \<and>
    parts_ok C ps1 \<and> set ps1 = part_of C ` {w, cw}"
proof -
  have ps: "parts_ok C ps" using assms(1,5) part_of_less by (simp add: parts_ok_def)
  show ?thesis
  proof (cases "x \<le> 85")
    case True
    then show ?thesis using assms ps by (simp add: payment_place_def)
  next
    case False
    obtain cd g1 where cd: "URand 1 DIST_PER_WARE (w - 1) g = Inr (cd, g1)" "between cd 10" "rand_ok C g1"
      by (rule URand_between [OF assms(2,3), of DIST_PER_WARE]) (simp_all add: DIST_PER_WARE_def)
    show ?thesis
    proof (cases "g_num_wh C > 1")
      case more: True
      then have "2 \<le> unat (g_num_wh C)" by (simp add: word_less_nat_alt)
      from draw_other_returns [OF cd(3) assms(3) this] obtain cw g2 where
        cw: "draw_other C w g1 = Some (Inr (cw, g2))" "wh_ok C cw" "rand_ok C g2" by blast
      show ?thesis
      proof (cases "part_of C w = part_of C cw")
        case True
        then show ?thesis using False more cd cw ps assms(5) by (simp add: payment_place_def wh_to_part_ok [OF assms(1)])
      next
        case other: False
        have "part_of C cw \<notin> set ps" using other assms(5) by auto
        note p = push_part_ok [OF ps this part_of_less [OF assms(1)]]
        show ?thesis using False more other cd cw p assms(5) by (auto simp: payment_place_def wh_to_part_ok [OF assms(1)])
      qed
    next
      case one: False
      then show ?thesis using False cd ps assms(3,5) by (simp add: payment_place_def)
    qed
  qed
qed

lemma gen_payment_ok:
  assumes "tpcc_ok C" and "rand_ok C g"
  shows "\<exists>q1 g1. gen_payment C thd q g = Some (Inr (q1, g1)) \<and> rand_ok C g1 \<and> query_ok C q1"
proof -
  obtain w where w: "own_warehouse C thd = Inr w" "wh_ok C w" by (rule own_warehouse_ok [OF assms(1)])
  have p: "push_part C (part_of C w) [] = Inr [part_of C w]" using assms(1) by (simp add: push_part_def tpcc_ok_def)
  obtain d g1 where d: "URand 1 DIST_PER_WARE (w - 1) g = Inr (d, g1)" "between d 10" "rand_ok C g1"
    by (rule URand_between [OF assms(2) w(2), of DIST_PER_WARE]) (simp_all add: DIST_PER_WARE_def)
  obtain a g2 where a: "URand 1 5000 (w - 1) g1 = Inr (a, g2)" "rand_ok C g2"
    by (rule URand_between [OF d(3) w(2), of 5000]) simp_all
  obtain x g3 where x: "URand 1 100 (w - 1) g2 = Inr (x, g3)" "rand_ok C g3"
    by (rule URand_between [OF a(2) w(2), of 100]) simp_all
  obtain y g4 where y: "URand 1 100 (w - 1) g3 = Inr (y, g4)" "rand_ok C g4"
    by (rule URand_between [OF x(2) w(2), of 100]) simp_all
  obtain cd cw ps g5 where c: "payment_place C x w d [part_of C w] g4 = Some (Inr (cd, cw, ps, g5))" "rand_ok C g5"
    "between cd 10" "wh_ok C cw" "parts_ok C ps" "set ps = part_of C ` {w, cw}"
    using payment_place_ok [OF assms(1) y(2) w(2) d(2) HOL.refl] by blast
  let ?q = "q\<lparr>tq_type := TPCC_PAYMENT, tq_w_id := w, tq_d_w_id := w, tq_d_id := d, tq_h_amount := real (unat a),
              tq_c_d_id := cd, tq_c_w_id := cw, part_to_access := ps\<rparr>"
  from choose_customer_ok [OF assms(1) c(2) w(2), of y ?q] obtain q1 g6 where
    q1: "choose_customer C w y ?q g5 = Inr (q1, g6)" "rand_ok C g6" "customer_ok C q1" "tq_type q1 = TPCC_PAYMENT" "tq_w_id q1 = w"
      "tq_d_id q1 = d" "tq_c_w_id q1 = cw" "tq_c_d_id q1 = cd" "part_to_access q1 = ps" by auto
  have "gen_payment C thd q g = Some (Inr (q1, g6))"
    by (simp add: gen_payment_def w(1) wh_to_part_ok [OF assms(1)] p d(1) a(1) x(1) y(1) c(1) q1(1) [simplified])
  moreover have "query_ok C q1" using q1 w(2) d(2) c by (simp add: query_ok_def payment_ok_def)
  ultimately show ?thesis using q1(2) by blast
qed

lemma gen_items_ok:
  assumes "tpcc_ok C" and w: "wh_ok C w" and "rand_ok C g"
  shows "\<exists>its r g1. gen_items C w n g = Some (Inr (its, r, g1)) \<and> rand_ok C g1 \<and> length its = n \<and> list_all (item_ok C) its"
  using assms(3)
proof (induction n arbitrary: g)
  case (Suc n)
  have "1 \<le> unat (g_max_items C)" using assms(1) by (simp add: tpcc_ok_def)
  from NURand_between [OF Suc.prems w _ this, of 8191] obtain i g1 where
    i: "NURand 8191 1 (ucast (g_max_items C)) (w - 1) g = Inr (i, g1)" "between i (unat (g_max_items C))" "rand_ok C g1" by blast
  obtain x g2 where x: "URand 1 100 (w - 1) g1 = Inr (x, g2)" "rand_ok C g2"
    by (rule URand_between [OF i(3) w, of 100]) simp_all
  let ?local = "x > 1 \<or> g_num_wh C = 1"
  have "\<exists>s g3. (if ?local then Some (Inr (w, g2)) else draw_other C w g2) = Some (Inr (s, g3)) \<and> wh_ok C s \<and> rand_ok C g3"
  proof (cases ?local)
    case False
    then have "unat (g_num_wh C) \<noteq> 1" by (metis unat_1 word_unat_eq_iff)
    then have "2 \<le> unat (g_num_wh C)" using w by (simp add: wh_ok_def)
    then show ?thesis using draw_other_returns [OF x(2) w] False by auto
  qed (use w x(2) in auto)
  then obtain s g3 where s: "(if ?local then Some (Inr (w, g2)) else draw_other C w g2) = Some (Inr (s, g3))" "wh_ok C s" "rand_ok C g3"
    by blast
  obtain k g4 where k: "URand 1 10 (w - 1) g3 = Inr (k, g4)" "between k 10" "rand_ok C g4"
    by (rule URand_between [OF s(3) w, of 10]) simp_all
  obtain its r g5 where r: "gen_items C w n g4 = Some (Inr (its, r, g5))" "rand_ok C g5" "length its = n" "list_all (item_ok C) its"
    using Suc.IH [OF k(3)] by blast
  have "gen_items C w (Suc n) g = Some (Inr (\<lparr>ol_i_id = i, ol_supply_w_id = s, ol_quantity = k\<rparr> # its, \<not> ?local \<or> r, g5))"
    unfolding gen_items.simps i(1) x(1) tbind_simps prod.case s(1) k(1) r(1) ..
  moreover have "item_ok C \<lparr>ol_i_id = i, ol_supply_w_id = s, ol_quantity = k\<rparr>" using i(2) s(2) k(2) by (simp add: item_ok_def)
  ultimately show ?case using r by (simp del: gen_items.simps)
qed auto

lemma gen_new_order_ok:
  assumes "tpcc_ok C" and "rand_ok C g"
  shows "\<exists>q1 g1. gen_new_order C thd q g = Some (Inr (q1, g1)) \<and> rand_ok C g1 \<and> query_ok C q1"
proof -
  obtain w where w: "own_warehouse C thd = Inr w" "wh_ok C w" by (rule own_warehouse_ok [OF assms(1)])
  obtain d g1 where d: "URand 1 DIST_PER_WARE (w - 1) g = Inr (d, g1)" "between d 10" "rand_ok C g1"
    by (rule URand_between [OF assms(2) w(2), of DIST_PER_WARE]) (simp_all add: DIST_PER_WARE_def)
  have "1 \<le> unat (g_cust_per_dist C)" using assms(1) by (simp add: tpcc_ok_def)
  from NURand_between [OF d(3) w(2) _ this, of 1023] obtain c g2 where
    c: "NURand 1023 1 (ucast (g_cust_per_dist C)) (w - 1) g1 = Inr (c, g2)" "between c (unat (g_cust_per_dist C))" "rand_ok C g2" by blast
  obtain r g3 where r: "URand 1 100 (w - 1) g2 = Inr (r, g3)" "rand_ok C g3"
    by (rule URand_between [OF c(3) w(2), of 100]) simp_all
  have "(5 :: u64) \<le> 15" "(15 :: u64) < - 1" by simp_all
  from URand_ok [OF r(2) wh_index [OF w(2)] this] obtain n g4 where
    n: "URand 5 15 (w - 1) g3 = Inr (n, g4)" "5 \<le> n" "n \<le> 15" "rand_ok C g4" by blast
  have n15: "5 \<le> unat n" "unat n \<le> 15" using n(2,3) by (simp_all add: word_le_nat_alt)
  have p: "push_part C (part_of C w) [] = Inr [part_of C w]" using assms(1) by (simp add: push_part_def tpcc_ok_def)
  obtain its rem g5 where i: "gen_items C w (unat n) g4 = Some (Inr (its, rem, g5))" "rand_ok C g5" "length its = unat n" "list_all (item_ok C) its"
    using gen_items_ok [OF assms(1) w(2) n(4)] by blast
  obtain its1 cnt where u: "dup_outer its (unat n) 0 = Inr (its1, cnt)" "cnt \<le> length its1" "take cnt its1 = keep_first [] its"
    using dup_outer_keeps [of 0 its "unat n"] i(3) by auto
  have dist: "distinct (map ol_i_id (take cnt its1))" using keep_first_ids [of "[]" its] u(3) by simp
  then have differ: "items_differ its1 cnt" using u(2) by (auto simp: items_differ_def list_all_iff distinct_conv_nth)
  have "parts_ok C [part_of C w]" using part_of_less [OF assms(1)] by (simp add: parts_ok_def)
  then obtain ps where ps: "add_parts C (take cnt its1) [part_of C w] = Inr ps" "parts_ok C ps"
    "set ps = part_of C ` insert w (ol_supply_w_id ` set (take cnt its1))"
    using add_parts_ok [OF assms(1), of "[part_of C w]" "take cnt its1"] by auto
  let ?q = "q\<lparr>tq_type := TPCC_NEW_ORDER, tq_w_id := w, tq_d_id := d, tq_c_id := c, tq_rbk := r \<noteq> 0, tq_ol_cnt := cnt,
              tq_o_entry_d := 2013, tq_items := its1, tq_remote := rem, part_to_access := ps\<rparr>"
  have "gen_new_order C thd q g = Some (Inr (?q, g5))"
    by (simp add: gen_new_order_def w(1) d(1) c(1) r(1) n(1) wh_to_part_ok [OF assms(1)] p i(1) u(1) differ ps(1))
  moreover have "query_ok C ?q"
  proof -
    have len: "length (take cnt its1) = cnt" using u(2) by simp
    have "its \<noteq> []" using i(3) n15(1) by auto
    then have "keep_first [] its \<noteq> []" by (cases its) simp_all
    then have "1 \<le> cnt" using u(3) by (cases cnt) auto
    moreover have "cnt \<le> 15" using keep_first_sub [of "[]" its] i(3) n15(2) len u(3) by simp
    moreover have "list_all (item_ok C) (take cnt its1)" using keep_first_sub [of "[]" its] i(4) u(3) by (auto simp: list_all_iff)
    ultimately have "new_order_ok C ?q" unfolding new_order_ok_def using c(2) dist len ps(3) by simp
    then show ?thesis using w(2) d(2) ps(2) by (simp add: query_ok_def)
  qed
  ultimately show ?thesis using i(2) by blast
qed

text \<open>
  C38: for every state of the generator and every value of \<open>rand\<close>, generating a TPC-C query returns a well-formed one. The
  loops that draw another warehouse end, no assertion fails and no array is left; the numbers are in range, the items of
  a new order differ, and the partitions are those of the warehouses of the query, each once.
\<close>

theorem tpcc_query_well_formed:
  assumes "tpcc_ok C" and "rand_ok C g"
  shows "\<exists>q1 g1. tpcc_query_init C r thd q g = Some (Inr (q1, g1)) \<and> rand_ok C g1 \<and> query_ok C q1"
  using gen_payment_ok [OF assms] gen_new_order_ok [OF assms] by (simp add: tpcc_query_init_def)

theorem tpcc_query_well_formed_witness:
  "\<forall>q. \<exists>q1 g1. tpcc_query_init (default_tpcc\<lparr>g_num_wh := 4\<rparr>) 99 7 q
     \<lparr>tpcc_buffer = init_buffers (default_tpcc\<lparr>g_num_wh := 4\<rparr>), C_255 = None, C_1023 = None, C_8191 = None\<rparr> = Some (Inr (q1, g1)) \<and>
     query_ok (default_tpcc\<lparr>g_num_wh := 4\<rparr>) q1"
proof
  fix q
  have d: "g_part_cnt default_tpcc = 1" "g_cust_per_dist default_tpcc = 3000" "g_max_items default_tpcc = 100000"
    by (simp_all add: default_tpcc_def default_settings_def settings.defs query_cfg.defs default_cfg_def)
  have "tpcc_ok (default_tpcc\<lparr>g_num_wh := 4\<rparr>)" by (simp add: tpcc_ok_def d)
  from tpcc_query_well_formed [OF this, of "\<lparr>tpcc_buffer = init_buffers (default_tpcc\<lparr>g_num_wh := 4\<rparr>), C_255 = None, C_1023 = None, C_8191 = None\<rparr>" 99 7 q]
  show "\<exists>q1 g1. tpcc_query_init (default_tpcc\<lparr>g_num_wh := 4\<rparr>) 99 7 q
     \<lparr>tpcc_buffer = init_buffers (default_tpcc\<lparr>g_num_wh := 4\<rparr>), C_255 = None, C_1023 = None, C_8191 = None\<rparr> = Some (Inr (q1, g1)) \<and>
     query_ok (default_tpcc\<lparr>g_num_wh := 4\<rparr>) q1" by (auto simp: rand_ok_def init_buffers_def)
qed

section \<open>Computations of the transactions\<close>

lemma middle_loop_nth:
  "Suc (length mid) > (length it + cnt mod 2) div 2 + 1 \<Longrightarrow> middle_loop cnt it mid = Inr (mid ! ((length it + cnt mod 2) div 2))"
proof (induction cnt it mid rule: middle_loop.induct)
  case (1 cnt mid)
  then show ?case by (cases mid) auto
next
  case (2 cnt x it mid)
  show ?case
  proof (cases "Suc cnt mod 2 = 0")
    case True
    then have c: "cnt mod 2 = 1" by presburger
    then obtain m ms where "mid = m # ms" using "2.prems" by (cases mid) auto
    then show ?thesis using "2.IH"(1) [OF True] "2.prems" True c by simp
  next
    case False
    then have "cnt mod 2 = 0" "Suc cnt mod 2 = 1" by presburger+
    then show ?thesis using "2.IH"(2) [OF False] "2.prems" by simp
  qed
qed

text \<open>The customer is the one after the first half.\<close>

lemma middle_customer_nth: "xs \<noteq> [] \<Longrightarrow> middle_customer xs = Inr (xs ! (length xs div 2))"
  using middle_loop_nth [of xs 0 xs] by (cases xs) (auto simp: middle_customer_def)

text \<open>A stock between 10 and 101 stays there under orders of one to ten pieces; the subtraction never wraps around.\<close>

lemma new_quantity_bounds:
  assumes "10 \<le> unat s" and "unat s \<le> 101" and "between k 10"
  shows "10 \<le> unat (new_quantity s k)" and "unat (new_quantity s k) \<le> 101"
    and "unat (new_quantity s k) + unat k = unat s + (if unat s > unat k + 10 then 0 else 91)"
proof -
  have k: "1 \<le> unat k" "unat k \<le> 10" using assms(3) by (simp_all add: between_def)
  have "unat (k + 10) = unat k + 10" using k by (simp add: unat_word_ariths)
  then have c: "s > k + 10 \<longleftrightarrow> unat s > unat k + 10" by (simp add: word_less_nat_alt)
  have s: "unat (s - k) = unat s - unat k" using assms(1) k by (simp add: unat_sub word_le_nat_alt)
  moreover have "unat (s - k + 91) = unat s - unat k + 91" using s assms(2) by (simp add: unat_word_ariths)
  ultimately show "10 \<le> unat (new_quantity s k)" "unat (new_quantity s k) \<le> 101"
    "unat (new_quantity s k) + unat k = unat s + (if unat s > unat k + 10 then 0 else 91)"
    using c assms k by (auto simp: new_quantity_def)
qed

end
