(* ===== verification/Spec2Isabelle.thy ===== *)
theory Spec2Isabelle
  imports Buffer_Runs Record_Index Table_Space Lock_Protocol Row_Handler Row_Mvcc_Props Cluster_Props Txn_Props Thread_Props Thread_Serial Schema_Props Table_Load Shared_Disk Occ_Props Arena Run_Stats_Props Command_Line Workload Tpcc_Props
begin

text \<open>
  A verification of db2, a distributed database for transaction benchmarks. Several instances share the pages of one
  table on a common store; each caches pages, runs transactions under multi-version timestamp ordering, and asks a
  coordinator for a page before it writes it.

  \<^bold>\<open>The parts and how they interact.\<close> A worker thread (\<open>instance/thread.cpp\<close>) takes queries from its queue
  (\<open>instance/benchmarks\<close>) and runs them as transactions (\<open>instance/txn\<close>). A transaction first takes the locks of the pages
  it will write (\<open>common/lock_table\<close>), asking the coordinator (\<open>global_lock\<close>) through the lock service
  (\<open>global_lock_service/brpc\<close>) for those its instance does not own; the coordinator makes the present owner write the page
  back and give it up. It then accesses rows through their version histories
  (\<open>instance/concurrency_control/row_mvcc.cpp\<close>), which read and write rows in pages (\<open>common/storage/row_handler.cpp\<close>) found by
  the index (\<open>common/index\<close>) in the page cache (\<open>common/buffer\<close>) over the page files (\<open>common/storage/disk\<close>).

  \<^bold>\<open>Conventions.\<close> Objects are records, arrays are lists, objects behind pointers live in explicit heaps (functions from
  addresses), and operations return \<open>fail + 'a\<close>: \<open>Inl\<close> stands for a failed assertion, a bad pointer, an access out of
  bounds, a division by zero, an exception, or a wait that the model cannot continue alone. Machine integers are words.
  Files, remote calls, clocks and random numbers are parameters; what is assumed of them is a named
  hypothesis (\<open>posix_laws\<close> for the file system) that a concrete instance in the development fulfils. Loops that might not
  end are partial functions.

  \<^bold>\<open>The theories.\<close>

  \<^item> \<open>DB_Prelude\<close>, \<open>Globals\<close>: integer types, results, byte strings and their lemmas; enumerations and constants of
    \<open>common/global.h\<close> and \<open>config.h\<close>, the conversions of \<open>common/myhelper.cpp\<close>.
  \<^item> \<open>Page_Model\<close>: pages and their serialised header. \<open>Disk\<close>: \<open>FileIO\<close> and \<open>MemoryIO\<close>, and the contract
    \<open>page_disk\<close> of a page store, which both meet.
  \<^item> \<open>LRU_List\<close>, \<open>Buffer\<close>, \<open>Buffer_Refinement\<close>, \<open>Buffer_Runs\<close>: the linked lists of the cache on a heap of nodes, the
    cache itself, and that every sequence of its operations behaves as on a map from page numbers to contents.
  \<^item> \<open>Record_Index\<close>, \<open>Table_Space\<close>: the index and the page allocator with their file formats.
  \<^item> \<open>Lock_Table\<close>, \<open>Lock_Protocol\<close>: the page locks of an instance, and their interleavings as a step relation.
  \<^item> \<open>Row_Mvcc\<close>: the version history of a row. \<open>Row_Mvcc_Inv\<close>, \<open>Row_Mvcc_Serve\<close>, \<open>Row_Mvcc_Wakeup\<close>, \<open>Row_Mvcc_Access\<close>,
    \<open>Row_Mvcc_Runs\<close>, \<open>Row_Mvcc_Props\<close>: its invariant, that each part of \<open>access\<close> keeps it over any storage
    with the contract \<open>row_storage\<close>, runs of several transactions, and the properties.
  \<^item> \<open>Row_Handler\<close>: rows in pages; it meets \<open>row_storage\<close>.
  \<^item> \<open>Global_Lock\<close>, \<open>Write_Locks\<close>, \<open>Manager\<close>: the coordinator with the messages of the lock service, the locks a
    transaction takes, the instance and its initialisation. \<open>Cluster\<close>, \<open>Cluster_Props\<close>: instances and coordinator together.
  \<^item> \<open>Ycsb_Query\<close>: generation of queries and the queues.
  \<^item> \<open>Txn\<close>, \<open>Txn_Rows\<close>, \<open>Txn_Serial\<close>, \<open>Txn_Props\<close>: transactions, and that one running alone is atomic.
  \<^item> \<open>Thread\<close>, \<open>Thread_Props\<close>: the loop of a worker thread with its buffer of aborted queries; no query is lost, and the
    choice of the next one ends. \<open>Thread_Serial\<close>: a thread alone on its instance works through its queue in order and ends.
  \<^item> \<open>Schema\<close>, \<open>Schema_Props\<close>: catalogs, tables, the columns of a row and the reader of table descriptions
    (\<open>common/storage/catalog.cpp\<close>, \<open>table.cpp\<close>, \<open>common/workload/wl.cpp\<close>). \<open>Table_Load\<close>: building the benchmark's table
    (\<open>common/workload/ycsb_wl.cpp\<close>), and that an instance loads what was built.
  \<^item> \<open>Shared_Disk\<close>: the page store behind remote calls (\<open>shared_disk/brpc\<close>), and that it is the page store of the server.
  \<^item> \<open>Occ\<close>, \<open>Occ_Props\<close>: optimistic concurrency control (\<open>instance/concurrency_control/occ.cpp\<close>, \<open>row_occ.cpp\<close>); parallel
    validations as a step relation, and serialisability.
  \<^item> \<open>Arena\<close>: the allocator of \<open>util/arena.cpp\<close>; its pieces do not overlap.
  \<^item> \<open>Run_Stats\<close>, \<open>Run_Stats_Props\<close>: profiler, statistics and result files (\<open>util/profiler.h\<close>, \<open>common/mystats.cpp\<close>,
    \<open>util/parse_result.cpp\<close>), and that the report accounts for every round of every thread.
  \<^item> \<open>Command_Line\<close>: the global parameters, the command line and the table of hosts (\<open>common/global.cpp\<close>,
    \<open>common/parser.cpp\<close>, \<open>common/parser_host.cpp\<close>). \<open>Workload\<close>: the workload object, the slices of the table and the end
    of an instance, which fails before it saves its files.
  \<^item> \<open>Tpcc_Helper\<close>, \<open>Tpcc_Query\<close>, \<open>Tpcc_Props\<close>: keys, names, random numbers and strings of the TPC-C benchmark
    (\<open>common/workload/tpcc_helper.cpp\<close>), the permutation of its customers and the generation of its queries
    (\<open>instance/benchmarks/tpcc_query.cpp\<close>). The random generator is the documented one of the C library, whose period ends
    the loops that draw until a value differs.

  \<^bold>\<open>Not modelled.\<close> The generated message classes and the libraries under \<open>include\<close> and \<open>libs\<close>; the network transport (a
  parameter); memory reclamation except where the order of
  destruction matters; the tests and main programs (but the report at the end of an instance); the \<open>grpc\<close> variants, the
  earlier handlers beside the lock service and the files under \<open>system\<close>, which are older copies outside the build; of the TPC-C benchmark, which is not compiled, the filling of the tables and
  the transactions, which call row and index operations that are nowhere defined.
\<close>

end
